(* ===== verification/Dis_Prelude.thy ===== *)
theory Dis_Prelude
  imports Main "HOL-Library.Word" "HOL-Library.Multiset"
begin

text \<open>
  Shared vocabulary of the development: the machine types of \<^verbatim>\<open>include/interp.h\<close>, the
  exceptions of \<^verbatim>\<open>interp/raise.c\<close>, the result type that carries them, and the generic facts
  on lists, options and words the components use.
\<close>

unbundle bit_operations_syntax

section \<open>Machine types\<close>

type_synonym byte = "8 word"     \<comment> \<open>\<^verbatim>\<open>BYTE\<close>, \<^verbatim>\<open>uchar\<close>\<close>
type_synonym WORD = "32 word"    \<comment> \<open>\<^verbatim>\<open>WORD\<close>, \<^verbatim>\<open>int\<close>; a pointer on the 32-bit virtual machine\<close>
type_synonym LONG = "64 word"    \<comment> \<open>\<^verbatim>\<open>LONG\<close>, \<^verbatim>\<open>vlong\<close>\<close>
type_synonym Rune = "16 word"    \<comment> \<open>\<^verbatim>\<open>Rune\<close>, \<^verbatim>\<open>ushort\<close>\<close>

text \<open>The length of a name, \<^verbatim>\<open>lib9.h\<close>.\<close>

definition NAMELEN :: nat where "NAMELEN = 28"

section \<open>Exceptions\<close>

text \<open>
  The exceptions the interpreter raises, one constructor per string of \<^verbatim>\<open>interp/raise.c\<close>.
  \<open>exExit\<close> is \<^verbatim>\<open>error("")\<close>, the way a prog ends itself; \<open>exOther\<close> carries the texts raised
  by literal (\<^verbatim>\<open>error("ptrdel")\<close>).
\<close>

datatype dis_error =
    exAlt | exBusy | exModule | exCompile | exCrange | exCctovflw | exCphase | exType | exZdiv
  | exHeap | exItype | exMathia | exBounds | exNegsize | exNomem | exSpawn | exOp | exTcheck
  | exInval | exNilref | exRange | exExit | exOther string

type_synonym 'a res = "dis_error + 'a"

definition bindR :: "'a res \<Rightarrow> ('a \<Rightarrow> 'b res) \<Rightarrow> 'b res" where
  "bindR r f = (case r of Inl e \<Rightarrow> Inl e | Inr x \<Rightarrow> f x)"

lemma bindR_simps [simp]: "bindR (Inl e) f = Inl e" "bindR (Inr x) f = f x"
  by (simp_all add: bindR_def)

lemma bindR_eq_Inr: "bindR r f = Inr y \<longleftrightarrow> (\<exists>x. r = Inr x \<and> f x = Inr y)"
  by (cases r) auto

section \<open>Proof collections\<close>

named_theorems rune_consts \<open>the enumeration constants of the UTF coder\<close>
named_theorems disop \<open>definitions of the instructions of the virtual machine\<close>
named_theorems sched_simps \<open>effects of the scheduler operations\<close>
named_theorems heap_simps \<open>projections of the heap operations\<close>

section \<open>Words\<close>

lemma word_less_alt: "(x :: 'a::len word) < y \<longleftrightarrow> unat x < unat y"
  by (simp add: word_less_nat_alt)

lemma word_le_alt: "(x :: 'a::len word) \<le> y \<longleftrightarrow> unat x \<le> unat y"
  by (simp add: word_le_nat_alt)

lemma unat_byte_lt [simp]: "unat (b :: byte) < 256"
  using unsigned_less [of b, where 'a = nat] by simp

lemma unat_rune_lt [simp]: "unat (r :: Rune) < 65536"
  using unsigned_less [of r, where 'a = nat] by simp

lemma unat_word_lt: "unat (w :: WORD) < 4294967296"
  using unsigned_less [of w, where 'a = nat] by simp

lemma unat_ucast_byte32 [simp]: "unat (ucast (b :: byte) :: WORD) = unat b"
  using unat_byte_lt [of b] by (simp add: unsigned_ucast_eq take_bit_eq_mod del: unat_byte_lt)

lemma unat_ucast_rune32 [simp]: "unat (ucast (r :: Rune) :: WORD) = unat r"
  using unat_rune_lt [of r] by (simp add: unsigned_ucast_eq take_bit_eq_mod del: unat_rune_lt)

lemma sint_word_eq_unat: "unat (w :: WORD) < 2147483648 \<Longrightarrow> sint w = int (unat w)"
proof -
  assume w: "unat w < 2147483648"
  then have "int (unat w) < 2147483648" by linarith
  then have "0 \<le> uint w" "uint w < 2147483648" by simp_all
  then have "signed_take_bit 31 (uint w) = uint w"
    using order_trans [of "- 2147483648" 0 "uint w"] by (intro signed_take_bit_int_eq_self) simp_all
  then show ?thesis by (simp add: sint_uint)
qed

text \<open>Bit operations read as arithmetic on natural numbers.\<close>

lemmas unat_bits = unsigned_and_eq unsigned_or_eq unsigned_xor_eq unsigned_push_bit_eq
  unsigned_drop_bit_eq unsigned_ucast_eq

lemmas nat_bits = take_bit_eq_mod [where 'a = nat] drop_bit_eq_div [where 'a = nat]
  push_bit_eq_mult [where 'a = nat]

lemma or_add_nat:
  fixes x y :: nat
  assumes "x < 2 ^ n"
  shows "push_bit n y OR x = push_bit n y + x"
proof -
  have "push_bit n y AND take_bit n x = 0"
    by (rule bit_eqI) (auto simp: bit_simps)
  then have "push_bit n y AND x = 0"
    using assms by (simp add: take_bit_nat_eq_self)
  then show ?thesis by (simp add: disjunctive_add_eq_or)
qed

lemma and_mask_mod:
  "(x::nat) AND 63 = x mod 64" "x AND 2047 = x mod 2048" "x AND 65535 = x mod 65536"
  using take_bit_eq_mask [of 6 x, symmetric] take_bit_eq_mask [of 11 x, symmetric]
    take_bit_eq_mask [of 16 x, symmetric]
  by (simp_all add: mask_eq_exp_minus_1 take_bit_eq_mod)

lemma and192: "((x::nat) AND 192 = 0) = (drop_bit 6 x mod 4 = 0)"
proof -
  have "(192::nat) = push_bit 6 (mask 2)"
    by (simp add: mask_eq_exp_minus_1 push_bit_eq_mult)
  then have "x AND 192 = push_bit 6 (take_bit 2 (drop_bit 6 x))"
    by (auto simp: bit_eq_iff bit_simps)
  then show ?thesis by (simp add: push_bit_eq_mult take_bit_eq_mod)
qed

section \<open>Lists\<close>

lemma take_append_eq [simp]: "take (length xs) (xs @ ys) = xs"
  by simp

lemma length_filter_pos: "x \<in> set xs \<Longrightarrow> P x \<Longrightarrow> 0 < length (filter P xs)"
  by (induction xs) auto

end
