(* ===== verification/Rune.thy ===== *)
theory Rune
  imports Dis_Prelude
begin

text \<open>
  The UTF coder of \<^verbatim>\<open>lib9/rune.c\<close> and the string functions over it (\<^verbatim>\<open>utflen.c\<close>,
  \<^verbatim>\<open>utfrune.c\<close>, \<^verbatim>\<open>utfrrune.c\<close>, \<^verbatim>\<open>runestrlen.c\<close>). A \<^verbatim>\<open>char*\<close> argument is the list of
  bytes from that address to the end of its buffer; a read past the end of the buffer is
  \<open>None\<close>, so that a result \<open>Some\<close> also says that no such read happens. The \<^verbatim>\<open>int\<close> and
  \<^verbatim>\<open>long\<close> temporaries are 32-bit words.
\<close>

unbundle bit_operations_syntax

section \<open>Constants\<close>

text \<open>\<^verbatim>\<open>Bit1\<close> to \<^verbatim>\<open>Bad\<close> of the enumeration, with the initialisers of the source.\<close>

definition Bit1 :: nat where [rune_consts]: "Bit1 = 7"
definition Bitx :: nat where [rune_consts]: "Bitx = 6"
definition Bit2 :: nat where [rune_consts]: "Bit2 = 5"
definition Bit3 :: nat where [rune_consts]: "Bit3 = 4"
definition Bit4 :: nat where [rune_consts]: "Bit4 = 3"
definition T1 :: WORD where [rune_consts]: "T1 = (push_bit (Bit1 + 1) 1 - 1) XOR 0xFF"
definition Tx :: WORD where [rune_consts]: "Tx = (push_bit (Bitx + 1) 1 - 1) XOR 0xFF"
definition T2 :: WORD where [rune_consts]: "T2 = (push_bit (Bit2 + 1) 1 - 1) XOR 0xFF"
definition T3 :: WORD where [rune_consts]: "T3 = (push_bit (Bit3 + 1) 1 - 1) XOR 0xFF"
definition T4 :: WORD where [rune_consts]: "T4 = (push_bit (Bit4 + 1) 1 - 1) XOR 0xFF"
definition Rune1 :: WORD where [rune_consts]: "Rune1 = push_bit (Bit1 + 0 * Bitx) 1 - 1"
definition Rune2 :: WORD where [rune_consts]: "Rune2 = push_bit (Bit2 + 1 * Bitx) 1 - 1"
definition Rune3 :: WORD where [rune_consts]: "Rune3 = push_bit (Bit3 + 2 * Bitx) 1 - 1"
definition Maskx :: WORD where [rune_consts]: "Maskx = push_bit Bitx 1 - 1"
definition Testx :: WORD where [rune_consts]: "Testx = Maskx XOR 0xFF"
definition Runeself :: WORD where [rune_consts]: "Runeself = 0x80"
definition Runesync :: WORD where [rune_consts]: "Runesync = 0x80"
definition Bad :: Rune where [rune_consts]: "Bad = 0x80"

lemma rune_const_values:
  "Tx = 0x80" "T2 = 0xC0" "T3 = 0xE0" "T4 = 0xF0" "Testx = 0xC0" "Maskx = 0x3F"
  "Rune1 = 0x7F" "Rune2 = 0x7FF" "Rune3 = 0xFFFF"
  by (simp_all add: rune_consts)

section \<open>The coder\<close>

definition rdc :: "byte list \<Rightarrow> nat \<Rightarrow> WORD option" where
  \<comment> \<open>\<^verbatim>\<open>*(uchar*)(str+i)\<close>\<close>
  "rdc str i = (if i < length str then Some (ucast (str ! i)) else None)"

definition chartorune :: "byte list \<Rightarrow> (Rune \<times> nat) option" where
  "chartorune str =
     (case rdc str 0 of None \<Rightarrow> None | Some c \<Rightarrow>
      if c < Tx then Some (ucast c, 1)
      else (case rdc str 1 of None \<Rightarrow> None | Some b1 \<Rightarrow>
        let c1 = b1 XOR Tx in
        if c1 AND Testx \<noteq> 0 then Some (Bad, 1)
        else if c < T3 then
          (if c < T2 then Some (Bad, 1)
           else let l = (push_bit Bitx c OR c1) AND Rune2 in
             if l \<le> Rune1 then Some (Bad, 1) else Some (ucast l, 2))
        else (case rdc str 2 of None \<Rightarrow> None | Some b2 \<Rightarrow>
          let c2 = b2 XOR Tx in
          if c2 AND Testx \<noteq> 0 then Some (Bad, 1)
          else if c < T4 then
            (let l = (push_bit Bitx (push_bit Bitx c OR c1) OR c2) AND Rune3 in
             if l \<le> Rune2 then Some (Bad, 1) else Some (ucast l, 3))
          else Some (Bad, 1))))"

text \<open>\<^verbatim>\<open>runetochar\<close> gives the bytes it stores; its return value is their number.\<close>

definition runetochar :: "Rune \<Rightarrow> byte list" where
  "runetochar rune =
     (let c = ucast rune :: WORD in
      if c \<le> Rune1 then [ucast c]
      else if c \<le> Rune2 then
        [ucast (T2 OR drop_bit (1 * Bitx) c), ucast (Tx OR (c AND Maskx))]
      else
        [ucast (T3 OR drop_bit (2 * Bitx) c),
         ucast (Tx OR (drop_bit (1 * Bitx) c AND Maskx)),
         ucast (Tx OR (c AND Maskx))])"

definition runelen :: "WORD \<Rightarrow> nat" where
  \<comment> \<open>the argument is a \<^verbatim>\<open>long\<close>, so the comparisons are signed\<close>
  "runelen c = (if c \<le>s Rune1 then 1 else if c \<le>s Rune2 then 2 else 3)"

fun runenlen :: "Rune list \<Rightarrow> nat" where
  "runenlen [] = 0"
| "runenlen (r # rs) =
     (let c = ucast r :: WORD in
      (if c \<le> Rune1 then 1 else if c \<le> Rune2 then 2 else 3) + runenlen rs)"

definition fullrune :: "byte list \<Rightarrow> nat \<Rightarrow> bool option" where
  "fullrune str n =
     (if n > 0 then
        (case rdc str 0 of None \<Rightarrow> None | Some c \<Rightarrow>
          if c < Tx then Some True
          else if n > 1 \<and> (c < T3 \<or> n > 2) then Some True
          else Some False)
      else Some False)"


section \<open>Strings\<close>

lemma chartorune_pos: "chartorune str = Some (r, n) \<Longrightarrow> 0 < n"
  by (auto simp: chartorune_def Let_def split: option.splits if_splits)

function utflen_loop :: "byte list \<Rightarrow> nat \<Rightarrow> nat option" where
  "utflen_loop s n =
     (case rdc s 0 of None \<Rightarrow> None | Some c \<Rightarrow>
       if c < Runeself then
         (if c = 0 then Some n else utflen_loop (drop 1 s) (n + 1))
       else (case chartorune s of None \<Rightarrow> None
             | Some (rune, k) \<Rightarrow> utflen_loop (drop k s) (n + 1)))"
  by pat_completeness auto
termination
  by (relation "measure (\<lambda>(s, n). length s)")
    (auto simp: rdc_def split: if_splits dest!: chartorune_pos)

definition utflen :: "byte list \<Rightarrow> nat option" where
  "utflen s = utflen_loop s 0"

text \<open>
  \<^verbatim>\<open>strchr\<close> and \<^verbatim>\<open>strrchr\<close> of the C library: the terminator belongs to the string. A pointer
  result is the offset from the start of the string, \<^verbatim>\<open>nil\<close> is \<open>None\<close>; the outer option is the
  read past the buffer.
\<close>

fun strchr :: "byte list \<Rightarrow> byte \<Rightarrow> nat \<Rightarrow> nat option option" where
  "strchr [] c i = None"
| "strchr (b # s) c i = (if b = c then Some (Some i) else if b = 0 then Some None else strchr s c (i + 1))"

fun strrchr :: "byte list \<Rightarrow> byte \<Rightarrow> nat \<Rightarrow> nat option \<Rightarrow> nat option option" where
  "strrchr [] c i lst = None"
| "strrchr (b # s) c i lst =
     (let lst' = (if b = c then Some i else lst) in
      if b = 0 then Some lst' else strrchr s c (i + 1) lst')"

function utfrune_loop :: "byte list \<Rightarrow> WORD \<Rightarrow> nat \<Rightarrow> nat option option" where
  "utfrune_loop s c i =
     (case rdc s 0 of None \<Rightarrow> None | Some c1 \<Rightarrow>
       if c1 < Runeself then
         (if c1 = 0 then Some None
          else if c1 = c then Some (Some i)
          else utfrune_loop (drop 1 s) c (i + 1))
       else (case chartorune s of None \<Rightarrow> None
             | Some (r, n) \<Rightarrow>
                 if ucast r = c then Some (Some i)
                 else utfrune_loop (drop n s) c (i + n)))"
  by pat_completeness auto
termination
  by (relation "measure (\<lambda>(s, c, i). length s)")
    (auto simp: rdc_def split: if_splits dest!: chartorune_pos)

definition utfrune :: "byte list \<Rightarrow> WORD \<Rightarrow> nat option option" where
  "utfrune s c = (if c <s Runesync then strchr s (ucast c) 0 else utfrune_loop s c 0)"

function utfrrune_loop :: "byte list \<Rightarrow> WORD \<Rightarrow> nat \<Rightarrow> nat option \<Rightarrow> nat option option" where
  "utfrrune_loop s c i s1 =
     (case rdc s 0 of None \<Rightarrow> None | Some c1 \<Rightarrow>
       if c1 < Runeself then
         (if c1 = 0 then Some s1
          else utfrrune_loop (drop 1 s) c (i + 1) (if c1 = c then Some i else s1))
       else (case chartorune s of None \<Rightarrow> None
             | Some (r, n) \<Rightarrow>
                 utfrrune_loop (drop n s) c (i + n) (if ucast r = c then Some i else s1)))"
  by pat_completeness auto
termination
  by (relation "measure (\<lambda>(s, c, i, s1). length s)")
    (auto simp: rdc_def split: if_splits dest!: chartorune_pos)

definition utfrrune :: "byte list \<Rightarrow> WORD \<Rightarrow> nat option option" where
  "utfrrune s c = (if c <s Runesync then strrchr s (ucast c) 0 None else utfrrune_loop s c 0 None)"

fun runestrlen :: "Rune list \<Rightarrow> nat option" where
  "runestrlen [] = None"
| "runestrlen (r # s) = (if r = 0 then Some 0 else map_option Suc (runestrlen s))"

declare utflen_loop.simps [simp del] utfrune_loop.simps [simp del] utfrrune_loop.simps [simp del]

section \<open>The coder as arithmetic\<close>

text \<open>
  The decoder on natural numbers: every mask, shift and exclusive-or of the source becomes a
  quotient, a remainder or a range test. \<open>chartorune_dec\<close> shows that both agree.
\<close>

definition dec :: "nat list \<Rightarrow> (nat \<times> nat) option" where
  "dec bs = (if bs = [] then None else let c = bs ! 0 in
     if c < 128 then Some (c, 1)
     else if length bs \<le> 1 then None
     else let c1 = bs ! 1 in
     if \<not> (128 \<le> c1 \<and> c1 < 192) then Some (128, 1)
     else if c < 224 then
        (if c < 192 then Some (128, 1) else
         let l = c mod 32 * 64 + c1 mod 64 in if l < 128 then Some (128, 1) else Some (l, 2))
     else if length bs \<le> 2 then None
     else let c2 = bs ! 2 in 
     if \<not> (128 \<le> c2 \<and> c2 < 192) then Some (128, 1)
     else if c < 240 then
         (let l = c mod 16 * 4096 + c1 mod 64 * 64 + c2 mod 64 in if l < 2048 then Some (128, 1) else Some (l, 3))
     else Some (128, 1))"

lemma xor128: assumes "x < 256" shows "(((x::nat) XOR 128) AND 192 = 0) = (128 \<le> x \<and> x < 192)"
proof -
  have "drop_bit 6 (x XOR 128) = drop_bit 6 x XOR 2" by (simp add: drop_bit_xor)
  moreover have "drop_bit 6 x < 4" using assms by (simp add: drop_bit_eq_div)
  then have "drop_bit 6 x \<in> {0,1,2,3}" by auto
  ultimately have "(((x::nat) XOR 128) AND 192 = 0) = (drop_bit 6 x = 2)"
    by (auto simp: and192)
  then show ?thesis by (auto simp: drop_bit_eq_div)
qed
lemma xor128': assumes "x < 192" "128 \<le> x" shows "((x::nat) XOR 128) = x mod 64"
proof -
  have "x div 64 = 2" using assms by auto
  then have "drop_bit 6 x = 2" by (simp add: drop_bit_eq_div)
  then have "drop_bit 6 (x XOR 128) = 0" by (simp add: drop_bit_xor)
  moreover have "take_bit 6 (x XOR 128) = x mod 64"
    by (simp add: take_bit_xor) (simp add: take_bit_eq_mod)
  ultimately show ?thesis using bits_ident [of 6 "x XOR 128"] by simp
qed

lemma or192: "x < 64 \<Longrightarrow> 192 OR x = 192 + (x::nat)" using or_add_nat[of x 6 3] by (simp add: push_bit_eq_mult)
lemma or128: "x < 64 \<Longrightarrow> 128 OR x = 128 + (x::nat)" using or_add_nat[of x 6 2] by (simp add: push_bit_eq_mult)
lemma or224: "x < 32 \<Longrightarrow> 224 OR x = 224 + (x::nat)" using or_add_nat[of x 5 7] by (simp add: push_bit_eq_mult)

lemma enc_unat:
  fixes c :: WORD
  assumes "unat c < 65536"
  shows "c < 0x80 \<Longrightarrow> unat (ucast c :: byte) = unat c"
    "unat c < 0x800 \<Longrightarrow> unat (ucast (0xC0 OR drop_bit 6 c) :: byte) = 192 + unat c div 64"
    "unat (ucast (0x80 OR (c AND 0x3F)) :: byte) = 128 + unat c mod 64"
    "unat (ucast (0xE0 OR drop_bit 12 c) :: byte) = 224 + unat c div 4096"
    "unat (ucast (0x80 OR (drop_bit 6 c AND 0x3F)) :: byte) = 128 + unat c div 64 mod 64"
proof -
  have "unat c div 4096 < 32" "unat c div 64 < 1024" using assms by auto
  then show "c < 0x80 \<Longrightarrow> unat (ucast c :: byte) = unat c"
    "unat c < 0x800 \<Longrightarrow> unat (ucast (0xC0 OR drop_bit 6 c) :: byte) = 192 + unat c div 64"
    "unat (ucast (0x80 OR (c AND 0x3F)) :: byte) = 128 + unat c mod 64"
    "unat (ucast (0xE0 OR drop_bit 12 c) :: byte) = 224 + unat c div 4096"
    "unat (ucast (0x80 OR (drop_bit 6 c AND 0x3F)) :: byte) = 128 + unat c div 64 mod 64"
    using assms by (simp_all add: unat_bits and_mask_mod nat_bits or192 or128 or224 word_less_alt mod_mod_cancel)
qed

lemma runetochar_unat:
  "map unat (runetochar r) =
    (let c = unat r in if c < 0x80 then [c] else if c < 0x800 then [192 + c div 64, 128 + c mod 64]
      else [224 + c div 4096, 128 + c div 64 mod 64, 128 + c mod 64])"
proof -
  define c where "c = (ucast r :: WORD)"
  then have c: "unat c = unat r" "unat c < 65536" by simp_all
  show ?thesis using c(2)
    by (auto simp: runetochar_def c_def [symmetric] c(1)[symmetric] Let_def rune_const_values word_le_alt word_less_alt Bitx_def enc_unat)
qed

lemma or64: "y < 64 \<Longrightarrow> x * 64 OR y = x * 64 + (y::nat)" using or_add_nat[of y 6 x] by (simp add: push_bit_eq_mult)


lemma shift6_or:
  fixes x y :: WORD
  assumes "unat x < 2 ^ 26" "unat y < 64"
  shows "unat (push_bit 6 x OR y) = unat x * 64 + unat y"
  using assms by (simp add: unsigned_or_eq unsigned_push_bit_eq nat_bits or64)

lemma mod_split: "k < m \<Longrightarrow> (a * m + k) mod (m * j) = a mod j * m + (k::nat)"
  using mod_mult2_eq [of "a * m + k" m j] by simp

lemma dec2_unat:
  fixes c c1 :: WORD
  assumes "unat c < 256" "unat c1 < 64"
  shows "unat ((push_bit 6 c OR c1) AND 0x7FF) = unat c mod 32 * 64 + unat c1"
  using assms mod_split [of "unat c1" 64 "unat c" 32]
  by (simp add: unsigned_and_eq shift6_or and_mask_mod)

lemma dec3_unat:
  fixes c c1 c2 :: WORD
  assumes "unat c < 256" "unat c1 < 64" "unat c2 < 64"
  shows "unat ((push_bit 6 (push_bit 6 c OR c1) OR c2) AND 0xFFFF) =
    unat c mod 16 * 4096 + unat c1 * 64 + unat c2"
proof -
  have k: "unat c1 * 64 + unat c2 < 4096" using assms by simp
  have "unat (push_bit 6 (push_bit 6 c OR c1) OR c2) = unat c * 4096 + (unat c1 * 64 + unat c2)"
    using assms by (subst shift6_or) (auto simp: shift6_or)
  then show ?thesis using mod_split [OF k, of "unat c" 16]
    by (simp only: unsigned_and_eq) (simp add: and_mask_mod)
qed

lemma chartorune_dec: "map_option (\<lambda>(r, n). (unat r, n)) (chartorune str) = dec (map unat str)"
proof -
  have x: "(b XOR 0x80) AND 0xC0 = 0 \<longleftrightarrow> 128 \<le> unat b \<and> unat b < 192"  
    "128 \<le> unat b \<Longrightarrow> unat b < 192 \<Longrightarrow> unat (b XOR 0x80) = unat b mod 64" if "unat b < 256" for b :: WORD
    using xor128[of "unat b"] xor128'[of "unat b"] that
    by (simp_all add: word_eq_iff_unsigned[where 'a=nat] unat_bits)
  have U: "unat (ucast w :: Rune) = unat w" if "unat w < 65536" for w :: WORD
    using that by (simp add: unat_bits nat_bits)
  have d2: "unat (ucast ((push_bit 6 c OR c1) AND 0x7FF) :: Rune) = unat c mod 32 * 64 + unat c1" if "unat c < 256" "unat c1 < 64" for c c1 :: WORD
    using that dec2_unat[OF that] by (subst U) auto
  have d3: "unat (ucast ((push_bit 6 (push_bit 6 c OR c1) OR c2) AND 0xFFFF) :: Rune) = unat c mod 16 * 4096 + unat c1 * 64 + unat c2" if "unat c < 256" "unat c1 < 64" "unat c2 < 64" for c c1 c2 :: WORD
    using that dec3_unat[OF that] by (subst U) auto
  note rules = chartorune_def dec_def rdc_def rune_const_values word_le_alt word_less_alt Bitx_def Bad_def
  consider "str = []" | a where "str = [a]" | a b where "str = [a, b]" | a b c s where "str = a # b # c # s"
    by (metis list.exhaust)
  then show ?thesis
  proof cases
    case 1 then show ?thesis by (simp add: rules)
  next
    case (2 a)
    define A where "A = (ucast a :: WORD)"
    then have u: "unat A = unat a" "unat (ucast A :: Rune) = unat A" using unat_byte_lt[of a] by (simp, subst U) (simp_all add: A_def del: unat_byte_lt)
    show ?thesis unfolding 2 by (simp add: rules A_def[symmetric] u)
  next
    case (3 a b)
    define A B where "A = (ucast a :: WORD)" "B = (ucast b :: WORD)"
    then have u: "unat A = unat a" "unat B = unat b" "unat A < 256" "unat B < 256" by simp_all
    moreover from this have "unat (ucast A :: Rune) = unat A" by (subst U) (use unat_byte_lt [of a] in \<open>simp_all del: unat_byte_lt\<close>)
    ultimately show ?thesis using u(3-) unfolding 3
      by (simp add: rules A_B_def[symmetric] u(1,2)[symmetric] x Let_def d2 dec2_unat)
  next
    case (4 a b c s)
    define A B C where "A = (ucast a :: WORD)" "B = (ucast b :: WORD)" "C = (ucast c :: WORD)"
    then have u: "unat A = unat a" "unat B = unat b" "unat C = unat c" "unat A < 256" "unat B < 256" "unat C < 256" by simp_all
    moreover from this have "unat (ucast A :: Rune) = unat A" by (subst U) (use unat_byte_lt [of a] in \<open>simp_all del: unat_byte_lt\<close>)
    ultimately show ?thesis using u(4-) unfolding 4
      by (simp add: rules A_B_C_def[symmetric] u(1-3)[symmetric] x Let_def d2 d3 dec2_unat dec3_unat del: push_bit_or push_bit_xor)
  qed
qed

lemma chartorune_eq:
  "chartorune str = Some (r, n) \<longleftrightarrow> dec (map unat str) = Some (unat r, n)"
  by (auto simp: chartorune_dec[symmetric] map_option_case word_eq_iff_unsigned[where 'a=nat] split: option.splits)
lemma chartorune_None:
  "chartorune str = None \<longleftrightarrow> dec (map unat str) = None"
  by (simp add: chartorune_dec[symmetric])

lemma dec_enc:
  assumes "c < 65536"
  shows "dec ((if c < 0x80 then [c] else if c < 0x800 then [192 + c div 64, 128 + c mod 64]
      else [224 + c div 4096, 128 + c div 64 mod 64, 128 + c mod 64]) @ rest) = Some (c, if c < 0x80 then 1 else if c < 0x800 then 2 else 3)"
proof -
  have m: "(128 + x) mod 64 = x mod (64::nat)" for x by (simp add: mod_add_left_eq[symmetric, of 128])
  consider "c < 0x80" | "0x80 \<le> c" "c < 0x800" | "0x800 \<le> c" by linarith
  then show ?thesis
  proof cases
    case 2
    then have "c div 64 < 32" by auto
    moreover have "(192 + c div 64) mod 32 = c div 64" using \<open>c div 64 < 32\<close> by (simp add: mod_add_left_eq[symmetric, of 192])
    ultimately show ?thesis using 2 by (simp add: dec_def m Let_def)
  next
    case 3
    have "c div 4096 < 16" using assms by auto
    moreover have "(224 + c div 4096) mod 16 = c div 4096" using \<open>c div 4096 < 16\<close> by (simp add: mod_add_left_eq[symmetric, of 224])
    moreover have "c div 4096 * 4096 + c div 64 mod 64 * 64 + c mod 64 = c"
      using mod_mult2_eq [of c 64 64] div_mult_mod_eq [of c 4096] by simp
    ultimately show ?thesis using 3 by (simp add: dec_def m Let_def)
  qed (simp add: dec_def)
qed

lemma chartorune_runetochar_aux: "chartorune (runetochar r @ rest) = Some (r, length (runetochar r))"
proof -
  have l: "length (runetochar r) = (if unat r < 0x80 then 1 else if unat r < 0x800 then 2 else 3)"
    using arg_cong[OF runetochar_unat[of r], of length] by (simp add: Let_def)
  show ?thesis unfolding chartorune_eq map_append runetochar_unat Let_def l by (rule dec_enc) simp
qed


lemma mod_sub: "j * m \<le> x \<Longrightarrow> x < j * m + m \<Longrightarrow> x mod m = x - j * (m::nat)"
  by (rule mod_nat_eqI) auto

lemma enc_dec:
  assumes "dec bs = Some (l, n)" "(l, n) \<noteq> (128, 1)"
  shows "take n bs = (if l < 0x80 then [l] else if l < 0x800 then [192 + l div 64, 128 + l mod 64]
      else [224 + l div 4096, 128 + l div 64 mod 64, 128 + l mod 64])"
proof -
  from assms have "bs \<noteq> []" by (auto simp: dec_def)
  then obtain c bs' where bs: "bs = c # bs'" by (cases bs) auto
  consider "c < 128" | c1 r where "128 \<le> c" "c < 224" "bs = c # c1 # r" | c1 c2 r where "224 \<le> c" "bs = c # c1 # c2 # r"
    using assms unfolding bs dec_def
    by (cases bs'; cases "tl bs'") (auto simp: Let_def split: if_splits)
  then show ?thesis
  proof cases
    case 1 then show ?thesis using assms bs by (auto simp: dec_def)
  next
    case (2 c1 r)
    have m: "x mod 64 = x - 128" if "128 \<le> x" "x < 192" for x :: nat using mod_sub[of 2 64 x] that by simp
    have m2: "x mod 32 = x - 192" if "192 \<le> x" "x < 224" for x :: nat using mod_sub[of 6 32 x] that by simp
    from 2 assms have c: "192 \<le> c" "128 \<le> c1" "c1 < 192" "n = 2" "l = (c - 192) * 64 + (c1 - 128)" "128 \<le> l"
      by (auto simp: dec_def Let_def m m2 split: if_splits)
    moreover obtain x y where "c = 192 + x" "c1 = 128 + y" using c by (metis le_Suc_ex)
    ultimately have "l div 64 = c - 192" "l mod 64 = c1 - 128" "l < 0x800" using 2(2) by auto
    then show ?thesis using c 2 by simp
  next
    case (3 c1 c2 r)
    have m: "x mod 64 = x - 128" if "128 \<le> x" "x < 192" for x :: nat using mod_sub[of 2 64 x] that by simp
    have m2: "x mod 16 = x - 224" if "224 \<le> x" "x < 240" for x :: nat using mod_sub[of 14 16 x] that by simp
    from 3 assms have c: "c < 240" "128 \<le> c1" "c1 < 192" "128 \<le> c2" "c2 < 192" "n = 3" 
       "l = (c - 224) * 4096 + (c1 - 128) * 64 + (c2 - 128)" "2048 \<le> l"
      by (auto simp: dec_def Let_def m m2 split: if_splits)
    obtain x y z where d: "c = 224 + x" "c1 = 128 + y" "c2 = 128 + z" using c 3(1) by (metis le_Suc_ex)
    define w where "w = x * 64 + y"
    have l: "l = w * 64 + z" using c d by (simp add: w_def)
    have e: "l div 64 = w" "l mod 64 = z" unfolding l using c d by simp_all
    moreover have "w mod 64 = y" "w div 64 = x" using c d by (simp_all add: w_def)
    ultimately have "l div 64 mod 64 = y" "l div 4096 = x" using c d div_mult2_eq[of l 64 64] by simp_all
    then show ?thesis using c d e 3 by simp
  qed
qed
lemma chartorune_canonical_aux:
  assumes "chartorune str = Some (r, n)" and "(r, n) \<noteq> (Bad, 1)"
  shows "take n str = runetochar r"
proof -
  have "take n (map unat str) = map unat (runetochar r)" 
    using assms unfolding chartorune_eq runetochar_unat Let_def
    by (intro enc_dec) (auto simp: Bad_def word_eq_iff_unsigned[where 'a=nat])
  then show ?thesis
    by (simp add: take_map inj_map_eq_map inj_def word_eq_iff_unsigned[where 'a=nat])
qed


lemma dec_nul:
  assumes "0 \<in> set bs" shows "\<exists>r n. dec bs = Some (r, n) \<and> 0 < n \<and> (bs ! 0 \<noteq> 0 \<longrightarrow> 0 \<notin> set (take n bs))"
proof -
  consider c where "bs = [c]" | c c1 where "bs = [c, c1]" | c c1 c2 r where "bs = c # c1 # c2 # r"
    using assms by (cases bs; cases "tl bs"; cases "tl (tl bs)") auto
  then show ?thesis using assms
    by cases (auto simp: dec_def Let_def)
qed

lemma chartorune_nul_aux:
  assumes "0 \<in> set str"
  shows "\<exists>r n. chartorune str = Some (r, n) \<and> 0 < n \<and> (str ! 0 \<noteq> 0 \<longrightarrow> 0 \<notin> set (take n str))"
proof -
  from assms have "0 \<in> set (map unat str)" by force
  from dec_nul[OF this] obtain l n where *: "dec (map unat str) = Some (l, n)" "0 < n" "map unat str ! 0 \<noteq> 0 \<longrightarrow> 0 \<notin> set (take n (map unat str))" by auto
  then obtain r where r: "chartorune str = Some (r, n)" by (auto simp: chartorune_dec[symmetric])
  moreover have "str \<noteq> []" using assms by auto
  ultimately show ?thesis using * by (auto simp: take_map image_iff nth_map unsigned_eq_0_iff)
qed
lemma fullrune_chartorune_aux: 
 "fullrune str (length str) = Some True \<Longrightarrow> \<exists>r n. chartorune str = Some (r, n) \<and> n \<le> length str"
  by (cases str; cases "tl str"; cases "tl (tl str)") (auto simp: fullrune_def chartorune_def rdc_def Let_def split: if_splits)

section \<open>Strings of encoded runes\<close>

abbreviation utf :: "Rune list \<Rightarrow> byte list" where
  "utf rs \<equiv> concat (map runetochar rs)"

lemma runetochar_hd:
  obtains b bs where "runetochar r = b # bs" "unat b < 0x80 \<longleftrightarrow> unat r < 0x80" "b = 0 \<longleftrightarrow> r = 0"
    "unat r < 0x80 \<longrightarrow> bs = [] \<and> unat b = unat r"
proof -
  obtain b bs where b: "runetochar r = b # bs"
    by (cases "runetochar r") (auto simp: runetochar_def Let_def split: if_splits)
  have u: "(w = 0) = (unat w = 0)" for w :: "'a::len word" by (simp add: unsigned_eq_0_iff)
  from runetochar_unat [of r] b show thesis
    by (intro that [of b bs]) (auto simp: Let_def u split: if_splits)
qed

lemma length_runetochar: "length (runetochar r) = (if unat r < 0x80 then 1 else if unat r < 0x800 then 2 else 3)"
  using arg_cong [OF runetochar_unat [of r], of length] by (simp add: Let_def)

lemma runenlen_utf: "runenlen rs = length (utf rs)"
  by (induction rs) (auto simp: length_runetochar Let_def rune_const_values word_le_alt)

lemma word_eq_unat: "(v :: 'a::len word) = w \<longleftrightarrow> unat v = unat w"
  by (rule word_eq_iff_unsigned)

text \<open>One turn of the loops on a string that starts with an encoded rune.\<close>

lemma utf_step:
  obtains c where "rdc (runetochar r @ s) 0 = Some c"
    "chartorune (runetochar r @ s) = Some (r, length (runetochar r))"
    "c < Runeself \<longleftrightarrow> unat r < 0x80" "c = 0 \<longleftrightarrow> r = 0"
    "unat r < 0x80 \<longrightarrow> c = ucast r \<and> length (runetochar r) = 1"
proof -
  obtain b bs where b: "runetochar r = b # bs" "unat b < 0x80 \<longleftrightarrow> unat r < 0x80" "b = 0 \<longleftrightarrow> r = 0"
    "unat r < 0x80 \<longrightarrow> bs = [] \<and> unat b = unat r" by (rule runetochar_hd)
  show thesis
  proof (rule that [of "ucast b"])
    show "rdc (runetochar r @ s) 0 = Some (ucast b)" by (simp add: rdc_def b(1))
    show "chartorune (runetochar r @ s) = Some (r, length (runetochar r))"
      by (rule chartorune_runetochar_aux)
    show "ucast b < Runeself \<longleftrightarrow> unat r < 0x80"
      using b(2) by (simp add: Runeself_def word_less_alt)
    have "(ucast b :: WORD) = 0 \<longleftrightarrow> b = 0" by (simp add: word_eq_unat)
    then show "(ucast b :: WORD) = 0 \<longleftrightarrow> r = 0" using b(3) by simp
    show "unat r < 0x80 \<longrightarrow> ucast b = (ucast r :: WORD) \<and> length (runetochar r) = 1"
      using b(1,4) by (simp add: word_eq_unat)
  qed
qed

lemma drop_runetochar [simp]: "drop (length (runetochar r)) (runetochar r @ s) = s"
  by simp

lemma utflen_loop_utf:
  "0 \<notin> set rs \<Longrightarrow> utflen_loop (utf rs @ 0 # rest) n = Some (n + length rs)"
proof (induction rs arbitrary: n)
  case Nil
  then show ?case by (simp add: utflen_loop.simps rdc_def Runeself_def)
next
  case (Cons r rs)
  let ?s = "utf rs @ 0 # rest"
  obtain c where "rdc (runetochar r @ ?s) 0 = Some c"
    "chartorune (runetochar r @ ?s) = Some (r, length (runetochar r))"
    "c < Runeself \<longleftrightarrow> unat r < 0x80" "c = 0 \<longleftrightarrow> r = 0"
    "unat r < 0x80 \<longrightarrow> c = ucast r \<and> length (runetochar r) = 1"
    by (rule utf_step)
  with Cons.prems have "utflen_loop (runetochar r @ ?s) n = utflen_loop ?s (n + 1)"
    using drop_runetochar [of r ?s]
    by (subst utflen_loop.simps) (auto simp del: drop_runetochar)
  then show ?case using Cons by simp
qed

lemma utfrune_loop_utf:
  "0 \<notin> set rs \<Longrightarrow>
   utfrune_loop (utf rs @ 0 # rest) (ucast r) i =
     Some (if r \<in> set rs then Some (i + length (utf (takeWhile (\<lambda>x. x \<noteq> r) rs))) else None)"
proof (induction rs arbitrary: i)
  case Nil
  then show ?case by (simp add: utfrune_loop.simps rdc_def Runeself_def)
next
  case (Cons x rs)
  let ?s = "utf rs @ 0 # rest"
  obtain c where c: "rdc (runetochar x @ ?s) 0 = Some c"
    "chartorune (runetochar x @ ?s) = Some (x, length (runetochar x))"
    "c < Runeself \<longleftrightarrow> unat x < 0x80" "c = 0 \<longleftrightarrow> x = 0"
    "unat x < 0x80 \<longrightarrow> c = ucast x \<and> length (runetochar x) = 1"
    by (rule utf_step)
  have e: "(ucast x = (ucast r :: WORD)) = (x = r)" by (simp add: word_eq_unat)
  from c Cons.prems have "utfrune_loop (runetochar x @ ?s) (ucast r) i =
      (if x = r then Some (Some i) else utfrune_loop ?s (ucast r) (i + length (runetochar x)))"
    using drop_runetochar [of x ?s]
    by (subst utfrune_loop.simps) (auto simp: e simp del: drop_runetochar)
  then show ?case using Cons by (auto simp: add.assoc)
qed

lemma utfrrune_loop_utf:
  "0 \<notin> set rs \<Longrightarrow>
   utfrrune_loop (utf rs @ 0 # rest) (ucast r) i s1 =
     Some (if r \<in> set rs
           then Some (i + length (utf (rev (tl (dropWhile (\<lambda>x. x \<noteq> r) (rev rs)))))) else s1)"
proof (induction rs arbitrary: i s1)
  case Nil
  then show ?case by (simp add: utfrrune_loop.simps rdc_def Runeself_def)
next
  case (Cons x rs)
  let ?s = "utf rs @ 0 # rest"
  obtain c where c: "rdc (runetochar x @ ?s) 0 = Some c"
    "chartorune (runetochar x @ ?s) = Some (x, length (runetochar x))"
    "c < Runeself \<longleftrightarrow> unat x < 0x80" "c = 0 \<longleftrightarrow> x = 0"
    "unat x < 0x80 \<longrightarrow> c = ucast x \<and> length (runetochar x) = 1"
    by (rule utf_step)
  have e: "(ucast x = (ucast r :: WORD)) = (x = r)" by (simp add: word_eq_unat)
  have d: "r \<in> set rs \<Longrightarrow> dropWhile (\<lambda>x. x \<noteq> r) (rev rs @ [x]) = dropWhile (\<lambda>x. x \<noteq> r) (rev rs) @ [x]"
    "r \<in> set rs \<Longrightarrow> dropWhile (\<lambda>x. x \<noteq> r) (rev rs) \<noteq> []"
    by (auto simp: dropWhile_eq_Nil_conv intro: dropWhile_append1)
  have d2: "r \<notin> set rs \<Longrightarrow> dropWhile (\<lambda>x. x \<noteq> r) (rev rs @ [x]) = dropWhile (\<lambda>x. x \<noteq> r) [x]"
    by (rule dropWhile_append2) auto
  from c Cons.prems have "utfrrune_loop (runetochar x @ ?s) (ucast r) i s1 =
      utfrrune_loop ?s (ucast r) (i + length (runetochar x)) (if x = r then Some i else s1)"
    using drop_runetochar [of x ?s]
    by (subst utfrrune_loop.simps) (auto simp: e simp del: drop_runetochar)
  then show ?case using Cons d d2 by (auto simp: add.assoc)
qed

lemma utflen_nul: "0 \<in> set s \<Longrightarrow> \<exists>k. utflen_loop s n = Some k \<and> k \<le> n + length s"
proof (induction s n rule: utflen_loop.induct)
  case (1 s n)
  obtain b s' where s: "s = b # s'" using "1.prems" by (cases s) auto
  show ?case
  proof (cases "b = 0")
    case True
    then show ?thesis by (subst utflen_loop.simps) (simp add: s rdc_def Runeself_def)
  next
    case False
    obtain r k where k: "chartorune s = Some (r, k)" "0 < k" "0 \<notin> set (take k s)"
      using chartorune_nul_aux [OF "1.prems"] False s by auto
    then have "0 \<in> set (drop k s)" "0 \<in> set s'"
      using "1.prems" append_take_drop_id [of k s] False s by (metis Un_iff set_append, auto)
    note nul = this
    have r: "rdc s 0 = Some (ucast b)" "(ucast b :: WORD) \<noteq> 0"
      using s False by (simp_all add: rdc_def word_eq_unat)
    show ?thesis
    proof (cases "(ucast b :: WORD) < Runeself")
      case True
      then have "utflen_loop s n = utflen_loop (drop 1 s) (n + 1)"
        using r by (subst utflen_loop.simps) simp
      then show ?thesis using "1.IH"(1) [OF r(1) True r(2)] nul s by fastforce
    next
      case False
      then have "utflen_loop s n = utflen_loop (drop k s) (n + 1)"
        using r k by (subst utflen_loop.simps) simp
      then show ?thesis using "1.IH"(2) [OF r(1) False k(1) refl] nul s k(2) by fastforce
    qed
  qed
qed

section \<open>Properties\<close>

text \<open>C27: every 16-bit rune survives \<^verbatim>\<open>runetochar\<close> followed by \<^verbatim>\<open>chartorune\<close>, whatever
  bytes follow it, and the decoder consumes exactly the bytes the encoder stored.\<close>

theorem chartorune_runetochar:
  "chartorune (runetochar r @ rest) = Some (r, length (runetochar r))"
  by (rule chartorune_runetochar_aux)

text \<open>The decoder accepts the shortest encoding only: whenever it does not report the error
  rune with length 1, the bytes it consumed are the encoding of the rune it returns.\<close>

theorem chartorune_canonical:
  assumes "chartorune str = Some (r, n)" and "(r, n) \<noteq> (Bad, 1)"
  shows "take n str = runetochar r"
  using assms by (rule chartorune_canonical_aux)

theorem chartorune_canonical_witness:
  "take 2 [0xC3, 0xA9, 0x41] = runetochar 0xE9"
proof -
  have "chartorune [0xC3, 0xA9, 0x41] = Some (0xE9, 2)"
    by (simp add: chartorune_def rdc_def rune_const_values Bitx_def Let_def)
  then show ?thesis by (rule chartorune_canonical) (simp add: Bad_def)
qed

text \<open>On a NUL-terminated string \<^verbatim>\<open>chartorune\<close> never reads past the terminator, it consumes
  at least one byte, and it never steps over the terminator.\<close>

theorem chartorune_nul:
  assumes "0 \<in> set str"
  shows "\<exists>r n. chartorune str = Some (r, n) \<and> 0 < n \<and> (str ! 0 \<noteq> 0 \<longrightarrow> 0 \<notin> set (take n str))"
  using assms by (rule chartorune_nul_aux)

theorem chartorune_nul_witness:
  "\<exists>r n. chartorune [0xE3, 0x81, 0] = Some (r, n) \<and> 0 < n \<and>
     ([0xE3, 0x81, 0] ! 0 \<noteq> (0::byte) \<longrightarrow> 0 \<notin> set (take n [0xE3, 0x81, 0 :: byte]))"
  by (rule chartorune_nul) simp

text \<open>\<^verbatim>\<open>utflen\<close> returns on every NUL-terminated string, and on the encoding of a rune
  sequence it counts the runes.\<close>

theorem utflen_counts:
  "(0 \<in> set s \<longrightarrow> (\<exists>k. utflen s = Some k \<and> k \<le> length s)) \<and>
   (0 \<notin> set rs \<longrightarrow> utflen (concat (map runetochar rs) @ 0 # rest) = Some (length rs))"
  using utflen_nul [of s 0] utflen_loop_utf [of rs rest 0] by (auto simp: utflen_def)

theorem utflen_counts_witness:
  "(\<exists>k. utflen [0x41, 0] = Some k \<and> k \<le> 2) \<and>
   utflen (concat (map runetochar [0x41, 0x3B1]) @ 0 # []) = Some 2"
  using utflen_counts [of "[0x41, 0]" "[0x41, 0x3B1]" "[]"] by auto

text \<open>On the encoding of a rune sequence \<^verbatim>\<open>utfrune\<close> gives the offset of the first, and
  \<^verbatim>\<open>utfrrune\<close> that of the last, occurrence of a rune outside the one-byte range, and \<^verbatim>\<open>nil\<close>
  when there is none.\<close>

theorem utfrune_finds:
  assumes "0 \<notin> set rs" and "0x80 \<le> unat r"
  shows "utfrune (concat (map runetochar rs) @ 0 # rest) (ucast r) =
      Some (if r \<in> set rs
            then Some (length (concat (map runetochar (takeWhile (\<lambda>x. x \<noteq> r) rs)))) else None)
    \<and> utfrrune (concat (map runetochar rs) @ 0 # rest) (ucast r) =
      Some (if r \<in> set rs
            then Some (length (concat (map runetochar (rev (tl (dropWhile (\<lambda>x. x \<noteq> r) (rev rs)))))))
            else None)"
proof -
  have "\<not> ((ucast r :: WORD) <s Runesync)"
    using assms(2) less_trans [OF unat_rune_lt, of 2147483648 r]
    by (simp add: word_sless_alt Runesync_def sint_word_eq_unat del: of_nat_unat)
  then show ?thesis
    using utfrune_loop_utf [OF assms(1), of rest r 0] utfrrune_loop_utf [OF assms(1), of rest r 0 None]
    by (simp add: utfrune_def utfrrune_def)
qed

theorem utfrune_finds_witness:
  "utfrune (concat (map runetochar [0x41, 0x3B1, 0x3B1]) @ 0 # []) (ucast (0x3B1 :: Rune)) =
      Some (Some (length (concat (map runetochar [0x41])))) \<and>
   utfrrune (concat (map runetochar [0x41, 0x3B1, 0x3B1]) @ 0 # []) (ucast (0x3B1 :: Rune)) =
      Some (Some (length (concat (map runetochar [0x41, 0x3B1]))))"
  using utfrune_finds [of "[0x41, 0x3B1, 0x3B1]" "0x3B1" "[]"] by simp

end
