(* ===== verification/Mem.thy ===== *)
theory Mem
  imports Dis_Prelude
begin

text \<open>
  The flat data memory of the virtual machine: byte-addressed, 32-bit addresses, little-endian
  (the 386 port). Frames, module data, array data and the data part of heap objects live here;
  the access macros \<^verbatim>\<open>B\<close>, \<^verbatim>\<open>W\<close>, \<^verbatim>\<open>V\<close>, \<^verbatim>\<open>SH\<close> of \<^verbatim>\<open>interp/xec.c\<close> are the read and write
  functions below, and \<^verbatim>\<open>memmove\<close>, \<^verbatim>\<open>memset\<close> are those of the C library.
\<close>

unbundle bit_operations_syntax

type_synonym mem = "WORD \<Rightarrow> byte"

section \<open>Reads and writes\<close>

definition rdB :: "mem \<Rightarrow> WORD \<Rightarrow> byte" where
  "rdB m a = m a"

definition wrB :: "mem \<Rightarrow> WORD \<Rightarrow> byte \<Rightarrow> mem" where
  "wrB m a v = m(a := v)"

definition rdSH :: "mem \<Rightarrow> WORD \<Rightarrow> 16 word" where
  "rdSH m a = ucast (m a) OR push_bit 8 (ucast (m (a + 1)))"

definition wrSH :: "mem \<Rightarrow> WORD \<Rightarrow> 16 word \<Rightarrow> mem" where
  "wrSH m a v = m(a := ucast v, a + 1 := ucast (drop_bit 8 v))"

definition rdW :: "mem \<Rightarrow> WORD \<Rightarrow> WORD" where
  "rdW m a = ucast (m a) OR push_bit 8 (ucast (m (a + 1)))
     OR push_bit 16 (ucast (m (a + 2))) OR push_bit 24 (ucast (m (a + 3)))"

definition wrW :: "mem \<Rightarrow> WORD \<Rightarrow> WORD \<Rightarrow> mem" where
  "wrW m a v = m(a := ucast v, a + 1 := ucast (drop_bit 8 v),
     a + 2 := ucast (drop_bit 16 v), a + 3 := ucast (drop_bit 24 v))"

definition rdV :: "mem \<Rightarrow> WORD \<Rightarrow> LONG" where
  "rdV m a = ucast (rdW m a) OR push_bit 32 (ucast (rdW m (a + 4)))"

definition wrV :: "mem \<Rightarrow> WORD \<Rightarrow> LONG \<Rightarrow> mem" where
  "wrV m a v = wrW (wrW m a (ucast v)) (a + 4) (ucast (drop_bit 32 v))"

definition memmove :: "mem \<Rightarrow> WORD \<Rightarrow> WORD \<Rightarrow> nat \<Rightarrow> mem" where
  "memmove m d s n = (\<lambda>x. if unat (x - d) < n then m (s + (x - d)) else m x)"

definition memset0 :: "mem \<Rightarrow> WORD \<Rightarrow> nat \<Rightarrow> mem" where
  "memset0 m d n = (\<lambda>x. if unat (x - d) < n then 0 else m x)"

definition disjoint :: "WORD \<Rightarrow> nat \<Rightarrow> WORD \<Rightarrow> nat \<Rightarrow> bool" where
  \<comment> \<open>the \<open>n\<close> bytes at \<open>a\<close> and the \<open>k\<close> bytes at \<open>b\<close> do not overlap\<close>
  "disjoint a n b k \<longleftrightarrow> n \<le> unat (b - a) \<and> k \<le> unat (a - b)"

section \<open>A write is read back\<close>

lemma word_offset_neq [simp]:
  "a + 1 \<noteq> (a :: WORD)" "a + 2 \<noteq> (a :: WORD)" "a + 3 \<noteq> (a :: WORD)"
  "a \<noteq> a + (1 :: WORD)" "a \<noteq> a + (2 :: WORD)" "a \<noteq> a + (3 :: WORD)"
  by (simp_all)

lemma rdB_wrB_same [simp]: "rdB (wrB m a v) a = v"
  by (simp add: rdB_def wrB_def)

lemma rdW_wrW_same [simp]: "rdW (wrW m a v) a = v"
proof -
  have "ucast (ucast v :: byte) OR push_bit 8 (ucast (ucast (drop_bit 8 v) :: byte))
     OR push_bit 16 (ucast (ucast (drop_bit 16 v) :: byte))
     OR push_bit 24 (ucast (ucast (drop_bit 24 v) :: byte)) = v"
    by (rule bit_word_eqI, auto simp: bit_simps) (rule ccontr, simp)
  then show ?thesis by (simp add: rdW_def wrW_def)
qed

lemma rdSH_wrSH_same [simp]: "rdSH (wrSH m a v) a = v"
proof -
  have "ucast (ucast v :: byte) OR push_bit 8 (ucast (ucast (drop_bit 8 v) :: byte)) = v"
    by (rule bit_word_eqI) (auto simp: bit_simps)
  then show ?thesis by (simp add: rdSH_def wrSH_def)
qed

section \<open>Writes elsewhere\<close>

lemma disjoint_sym: "disjoint a n b k \<longleftrightarrow> disjoint b k a n"
  by (auto simp: disjoint_def)

lemma disjoint_neq:
  assumes "disjoint a n b k" "unat i < n" "unat j < k"
  shows "a + i \<noteq> b + j"
proof
  assume "a + i = b + j"
  then have e: "b - a = i - j" "a - b = j - i" by (simp_all add: algebra_simps)
  show False
  proof (cases "unat j \<le> unat i")
    case True
    then have "unat (i - j) = unat i - unat j" by (simp add: unat_sub word_le_nat_alt)
    then show False using assms unfolding disjoint_def e by linarith
  next
    case False
    then have "unat (j - i) = unat j - unat i" by (simp add: unat_sub word_le_nat_alt)
    then show False using assms unfolding disjoint_def e by linarith
  qed
qed

lemma disjoint4_neq:
  assumes "disjoint a 4 b 4"
  shows "a \<noteq> b" "a \<noteq> b + 1" "a \<noteq> b + 2" "a \<noteq> b + 3"
    "a + 1 \<noteq> b" "a + 1 \<noteq> b + 1" "a + 1 \<noteq> b + 2" "a + 1 \<noteq> b + 3"
    "a + 2 \<noteq> b" "a + 2 \<noteq> b + 1" "a + 2 \<noteq> b + 2" "a + 2 \<noteq> b + 3"
    "a + 3 \<noteq> b" "a + 3 \<noteq> b + 1" "a + 3 \<noteq> b + 2" "a + 3 \<noteq> b + 3"
  using disjoint_neq [OF assms, of 0 0] disjoint_neq [OF assms, of 0 1]
    disjoint_neq [OF assms, of 0 2] disjoint_neq [OF assms, of 0 3]
    disjoint_neq [OF assms, of 1 0] disjoint_neq [OF assms, of 1 1]
    disjoint_neq [OF assms, of 1 2] disjoint_neq [OF assms, of 1 3]
    disjoint_neq [OF assms, of 2 0] disjoint_neq [OF assms, of 2 1]
    disjoint_neq [OF assms, of 2 2] disjoint_neq [OF assms, of 2 3]
    disjoint_neq [OF assms, of 3 0] disjoint_neq [OF assms, of 3 1]
    disjoint_neq [OF assms, of 3 2] disjoint_neq [OF assms, of 3 3]
  by simp_all

lemma rdW_wrW_other:
  assumes "disjoint a 4 b 4"
  shows "rdW (wrW m a v) b = rdW m b"
proof -
  have "disjoint b 4 a 4" using assms by (simp add: disjoint_sym)
  from disjoint4_neq [OF this] show ?thesis by (simp add: rdW_def wrW_def)
qed

lemma disjoint_a4 [simp]: "disjoint a 4 (a + 4) 4" "disjoint (a + 4) 4 a 4"
  by (simp_all add: disjoint_def)

lemma rdV_wrV_same [simp]: "rdV (wrV m a v) a = v"
proof -
  have "ucast (ucast v :: WORD) OR push_bit 32 (ucast (ucast (drop_bit 32 v) :: WORD)) = v"
    by (rule bit_word_eqI) (auto simp: bit_simps)
  then show ?thesis by (simp add: rdV_def wrV_def rdW_wrW_other)
qed

lemma memmove_outside: "n \<le> unat (x - d) \<Longrightarrow> memmove m d s n x = m x"
  by (simp add: memmove_def)

lemma memmove_inside: "unat i < n \<Longrightarrow> memmove m d s n (d + i) = m (s + i)"
  by (simp add: memmove_def)

lemma rdW_memmove:
  assumes "4 \<le> n"
  shows "rdW (memmove m d s n) d = rdW m s"
proof -
  have u: "unat (0 :: WORD) = 0" "unat (1 :: WORD) = 1" "unat (2 :: WORD) = 2" "unat (3 :: WORD) = 3"
    by simp_all
  have "unat (0 :: WORD) < n" "unat (1 :: WORD) < n" "unat (2 :: WORD) < n" "unat (3 :: WORD) < n"
    using assms unfolding u by simp_all
  from this [THEN memmove_inside [where m = m and d = d and s = s]]
  show ?thesis by (simp add: rdW_def)
qed

end
