(* ===== verification/Pool.thy ===== *)
theory Pool
  imports Dis_Prelude
begin

text \<open>
  The tree allocator, \<^verbatim>\<open>emu/alloc.c\<close> and \<^verbatim>\<open>include/pool.h\<close>. The words of the arena that belong to
  the allocator are three maps over addresses: \<^verbatim>\<open>magic\<close> and \<^verbatim>\<open>size\<close> of the header at an address,
  and the \<^verbatim>\<open>hdr\<close> field of the tail that ends at an address. The free tree is a datatype whose nodes
  are block addresses with the ring of blocks of the same size (\<^verbatim>\<open>fwd\<close> order, the node first), so
  that \<^verbatim>\<open>left\<close>, \<^verbatim>\<open>right\<close>, \<^verbatim>\<open>parent\<close>, \<^verbatim>\<open>fwd\<close>, \<^verbatim>\<open>prev\<close> are positions in it. Addresses and sizes are
  integers: an arena lies inside the address space. \<^verbatim>\<open>sbrk\<close> is the C library's, with the break and
  its limit in the record. The lock is left out: every operation runs under it from end to end.
\<close>

unbundle bit_operations_syntax

section \<open>Data\<close>

datatype magic = MAGIC_A | MAGIC_F | MAGIC_E | MAGIC_I | Mother

datatype ftree = Tnil | Tnode (bhl: ftree) (tblk: int) (ring: "int list") (bhr: ftree)

record Pool =
  maxsize :: int
  quanta :: int
  chunk :: int
  cursize :: int
  arenasize :: int
  hw :: int
  froot :: ftree
  chain :: "int list"        \<comment> \<open>the leaders linked by \<^verbatim>\<open>clink\<close>\<close>
  nalloc :: int
  nfree :: int
  nbrk :: int
  lastfree :: int
  moving :: bool             \<comment> \<open>\<^verbatim>\<open>move != nil\<close>\<close>
  magic :: "int \<Rightarrow> magic"
  bsize :: "int \<Rightarrow> int"
  csize :: "int \<Rightarrow> int"       \<comment> \<open>of a leader\<close>
  tailhdr :: "int \<Rightarrow> int"     \<comment> \<open>\<^verbatim>\<open>hdr\<close> of the \<^verbatim>\<open>Btail\<close> that ends there\<close>
  brk :: int
  brklim :: int

definition BHDRSIZE :: int where "BHDRSIZE = 16"

definition B2D :: "int \<Rightarrow> int" where "B2D b = b + 8"

definition B2NB :: "Pool \<Rightarrow> int \<Rightarrow> int" where "B2NB p b = b + bsize p b"

definition B2PT_hdr :: "Pool \<Rightarrow> int \<Rightarrow> int" where
  \<comment> \<open>\<^verbatim>\<open>B2PT(b)->hdr\<close>\<close>
  "B2PT_hdr p b = tailhdr p b"

definition B2T_hdr :: "int \<Rightarrow> Pool \<Rightarrow> Pool" where
  \<comment> \<open>\<^verbatim>\<open>B2T(b)->hdr = b\<close>\<close>
  "B2T_hdr b p = p\<lparr>tailhdr := (tailhdr p)(B2NB p b := b)\<rparr>"

definition B2LIMIT :: "Pool \<Rightarrow> int \<Rightarrow> int" where "B2LIMIT p b = b + csize p b"

definition D2B :: "Pool \<Rightarrow> int \<Rightarrow> int option" where
  \<comment> \<open>\<open>None\<close> is \<^verbatim>\<open>poolfault\<close>\<close>
  "D2B p v = (let b = v - 8 in if magic p b = MAGIC_A \<or> magic p b = MAGIC_I then Some b else None)"

abbreviation setmagic :: "int \<Rightarrow> magic \<Rightarrow> Pool \<Rightarrow> Pool" where
  "setmagic b m p \<equiv> p\<lparr>magic := (magic p)(b := m)\<rparr>"

abbreviation setsize :: "int \<Rightarrow> int \<Rightarrow> Pool \<Rightarrow> Pool" where
  "setsize b n p \<equiv> p\<lparr>bsize := (bsize p)(b := n)\<rparr>"

section \<open>The free tree\<close>

fun splitmin :: "ftree \<Rightarrow> int \<Rightarrow> int list \<Rightarrow> ftree \<Rightarrow> (int \<times> int list) \<times> ftree" where
  \<comment> \<open>the leftmost node of \<open>Tnode l t rg r\<close> and the tree without it\<close>
  "splitmin Tnil t rg r = ((t, rg), r)"
| "splitmin (Tnode l' t' rg' r') t rg r = (let (m, l'') = splitmin l' t' rg' r' in (m, Tnode l'' t rg r))"

definition unlinkroot :: "ftree \<Rightarrow> ftree \<Rightarrow> ftree" where
  "unlinkroot l r =
     (case l of Tnil \<Rightarrow> r | _ \<Rightarrow>
       (case r of Tnil \<Rightarrow> l | Tnode rl rt rg rr \<Rightarrow>
         (let ((m, mrg), r') = splitmin rl rt rg rr in Tnode l m mrg r')))"

fun treedel :: "(int \<Rightarrow> int) \<Rightarrow> int \<Rightarrow> ftree \<Rightarrow> ftree" where
  "treedel sz q Tnil = Tnil"
| "treedel sz q (Tnode l t rg r) =
     (if sz q = sz t then
        (if q = t then (case rg of [] \<Rightarrow> unlinkroot l r | f # fs \<Rightarrow> Tnode l f fs r)
         else Tnode l t (remove1 q rg) r)
      else if sz q < sz t then Tnode (treedel sz q l) t rg r
      else Tnode l t rg (treedel sz q r))"

definition pooldel :: "int \<Rightarrow> Pool \<Rightarrow> Pool" where
  "pooldel t p = p\<lparr>froot := treedel (bsize p) t (froot p)\<rparr>"

fun treeadd :: "(int \<Rightarrow> int) \<Rightarrow> int \<Rightarrow> ftree \<Rightarrow> ftree" where
  "treeadd sz q Tnil = Tnode Tnil q [] Tnil"
| "treeadd sz q (Tnode l t rg r) =
     (if sz q = sz t then Tnode l t (rg @ [q]) r
      else if sz q < sz t then Tnode (treeadd sz q l) t rg r
      else Tnode l t rg (treeadd sz q r))"

definition pooladd :: "int \<Rightarrow> Pool \<Rightarrow> Pool" where
  "pooladd q p = (let p1 = setmagic q MAGIC_F p in p1\<lparr>froot := treeadd (bsize p1) q (froot p1)\<rparr>)"

text \<open>The search of \<^verbatim>\<open>poolalloc\<close>: a block of the size, or the last node that was larger.\<close>

datatype found = Exact int | Best int | Nofit

fun treefind :: "(int \<Rightarrow> int) \<Rightarrow> int \<Rightarrow> found \<Rightarrow> ftree \<Rightarrow> found" where
  "treefind sz want q Tnil = q"
| "treefind sz want q (Tnode l t rg r) =
     (if sz t = want then Exact (case rg of [] \<Rightarrow> t | f # _ \<Rightarrow> f)
      else if want < sz t then treefind sz want (Best t) l
      else treefind sz want q r)"

section \<open>Compaction\<close>

text \<open>
  One pass over a chunk from \<open>ptr\<close>, with \<open>end\<close> the place for the next block. The copy moves the
  header and the tail as they are.
\<close>

definition copyblk :: "int \<Rightarrow> int \<Rightarrow> Pool \<Rightarrow> Pool" where
  \<comment> \<open>\<^verbatim>\<open>memmove(end, ptr, ptr->size)\<close>, on the words of the allocator\<close>
  "copyblk e b p = p\<lparr>magic := (magic p)(e := magic p b), bsize := (bsize p)(e := bsize p b),
     tailhdr := (tailhdr p)(e + bsize p b := tailhdr p (b + bsize p b))\<rparr>"

fun compactchunk :: "nat \<Rightarrow> int \<Rightarrow> int \<Rightarrow> int \<Rightarrow> bool \<Rightarrow> Pool \<Rightarrow> (bool \<times> Pool) option" where
  "compactchunk 0 limit b e compacted p = None"
| "compactchunk (Suc n) limit b e compacted p =
     (let next = B2NB p b;
          inuse = (magic p b = MAGIC_A \<or> magic p b = MAGIC_I);
          p1 = (if inuse \<and> b \<noteq> e then copyblk e b p else p);
          compacted1 = (compacted \<or> inuse \<and> b \<noteq> e);
          e1 = (if inuse then B2NB p1 e else e) in
      if next \<ge> limit then
        (let nb = limit - e1 in
         if nb > 0 then
           (if nb < quanta p1 + 1 then None
            else Some (compacted1, pooladd e1 (setsize e1 nb p1)))
         else Some (compacted1, p1))
      else compactchunk n limit next e1 compacted1 p1)"

fun compactchain :: "int list \<Rightarrow> bool \<Rightarrow> Pool \<Rightarrow> (bool \<times> Pool) option" where
  "compactchain [] compacted p = Some (compacted, p)"
| "compactchain (base # bs) compacted p =
     (let ptr = B2NB p base in
      case compactchunk (nat (csize p base)) (B2LIMIT p base) ptr ptr compacted p of
        None \<Rightarrow> None
      | Some (c, p') \<Rightarrow> compactchain bs c p')"

definition poolcompact :: "Pool \<Rightarrow> (bool \<times> Pool) option" where
  \<comment> \<open>\<open>None\<close> is \<^verbatim>\<open>abort\<close>\<close>
  "poolcompact p =
     (if \<not> moving p \<or> lastfree p = nfree p then Some (False, p)
      else compactchain (chain p) False (p\<lparr>lastfree := nfree p, froot := Tnil\<rparr>))"

section \<open>Allocation\<close>

definition usemem :: "int \<Rightarrow> Pool \<Rightarrow> Pool" where
  \<comment> \<open>\<^verbatim>\<open>p->cursize += t->size; if(p->cursize > p->hw) p->hw = p->cursize\<close>\<close>
  "usemem t p = (let c = cursize p + bsize p t in p\<lparr>cursize := c, hw := (if c > hw p then c else hw p)\<rparr>)"

definition sbrk :: "int \<Rightarrow> Pool \<Rightarrow> (int \<times> Pool) option" where
  "sbrk n p = (if brk p + n > brklim p then None else Some (brk p, p\<lparr>brk := brk p + n\<rparr>))"

definition layblk :: "int \<Rightarrow> int \<Rightarrow> Pool \<Rightarrow> Pool" where
  \<comment> \<open>\<^verbatim>\<open>t->size = n; B2T(t)->hdr = t\<close>\<close>
  "layblk t n p = B2T_hdr t (setsize t n p)"

definition mkleader :: "int \<Rightarrow> int \<Rightarrow> Pool \<Rightarrow> Pool" where
  "mkleader c ns p =
     (let ldr = quanta p + 1;
          p1 = layblk c ldr (setmagic c MAGIC_E p) in
      p1\<lparr>csize := (csize p1)(c := ns + ldr), chain := c # chain p1\<rparr>)"

definition newchunk :: "int \<Rightarrow> int \<Rightarrow> int \<Rightarrow> Pool \<Rightarrow> int option \<times> Pool" where
  \<comment> \<open>from \<^verbatim>\<open>p->nbrk++\<close> to the end of \<^verbatim>\<open>poolalloc\<close>\<close>
  "newchunk want ns alloc p =
     (case sbrk (alloc + quanta p) p of None \<Rightarrow> (None, p)
      | Some (a, p1) \<Rightarrow>
        let c = (a + quanta p) AND NOT (quanta p);
            p2 = mkleader c ns (p1\<lparr>nbrk := nbrk p1 + 1\<rparr>);
            t = B2NB p2 c;
            p3 = layblk t want (setmagic t MAGIC_A p2);
            ns1 = ns - want in
        if ns1 > 0 then
          (let q = B2NB p3 t;
               p4 = pooladd q (layblk q ns1 p3) in
           (Some (B2D t), usemem t (setmagic (B2NB p4 q) MAGIC_E p4)))
        else (Some (B2D t), usemem t (setmagic (B2NB p3 t) MAGIC_E p3)))"

datatype allocres = Done "int option \<times> Pool" | Again Pool | Aborted

definition growpool :: "int \<Rightarrow> Pool \<Rightarrow> allocres" where
  \<comment> \<open>no free block is large enough\<close>
  "growpool want p =
     (let ns = (if want > chunk p then want else chunk p);
          ldr = quanta p + 1;
          alloc = ns + ldr + 4 in
      if arenasize p + alloc > maxsize p then
        (let ns1 = (maxsize p - arenasize p - ldr - 4) AND NOT (quanta p) in
         if ns1 < want then
           (case poolcompact p of None \<Rightarrow> Aborted
            | Some (True, p1) \<Rightarrow> Again p1
            | Some (False, p1) \<Rightarrow> Done (None, p1))
         else (let alloc1 = ns1 + ldr + 4 in
               Done (newchunk want ns1 alloc1 (p\<lparr>arenasize := arenasize p + alloc1\<rparr>))))
      else Done (newchunk want ns alloc (p\<lparr>arenasize := arenasize p + alloc\<rparr>)))"

definition poolalloc1 :: "int \<Rightarrow> Pool \<Rightarrow> allocres" where
  "poolalloc1 osize p =
     (if osize < 0 \<or> osize \<ge> 1024 * 1024 * 1024 then Done (None, p)
      else
        let want = (osize + BHDRSIZE + quanta p) AND NOT (quanta p);
            p1 = p\<lparr>nalloc := nalloc p + 1\<rparr> in
        (case treefind (bsize p1) want Nofit (froot p1) of
           Exact t \<Rightarrow> Done (Some (B2D t), usemem t (setmagic t MAGIC_A (pooldel t p1)))
         | Best q \<Rightarrow>
             (let p2 = setmagic q MAGIC_A (pooldel q p1);
                  frag = bsize p2 q - want in
              if frag < drop_bit 2 want then Done (Some (B2D q), usemem q p2)
              else
                (let p3 = layblk q want p2;
                     t = B2NB p3 q;
                     p4 = layblk t frag p3 in
                 Done (Some (B2D q), usemem q (pooladd t p4))))
         | Nofit \<Rightarrow> growpool want p1))"

text \<open>
  \<^verbatim>\<open>poolalloc\<close> calls itself once after a compaction: the second time \<^verbatim>\<open>lastfree == nfree\<close>.
\<close>

definition poolalloc :: "int \<Rightarrow> Pool \<Rightarrow> (int option \<times> Pool) option" where
  "poolalloc osize p =
     (case poolalloc1 osize p of
        Done r \<Rightarrow> Some r
      | Aborted \<Rightarrow> None
      | Again p1 \<Rightarrow> (case poolalloc1 osize p1 of Done r \<Rightarrow> Some r | _ \<Rightarrow> None))"

definition poolfree :: "int \<Rightarrow> Pool \<Rightarrow> Pool option" where
  "poolfree v p =
     (case D2B p v of None \<Rightarrow> None | Some b \<Rightarrow>
       let p1 = p\<lparr>nfree := nfree p + 1, cursize := cursize p - bsize p b\<rparr>;
           c = B2NB p1 b;
           p2 = (if magic p1 c = MAGIC_F then
                   B2T_hdr b (setsize b (bsize p1 b + bsize p1 c) (setmagic c Mother (pooldel c p1)))
                 else p1);
           c2 = B2PT_hdr p2 b in
       if magic p2 c2 = MAGIC_F then
         (let p3 = setsize c2 (bsize p2 c2 + bsize p2 b) (setmagic b Mother (pooldel c2 p2)) in
          Some (pooladd c2 (B2T_hdr c2 p3)))
       else Some (pooladd b p2))"

definition poolimmutable :: "int \<Rightarrow> Pool \<Rightarrow> Pool option" where
  "poolimmutable v p = map_option (\<lambda>b. setmagic b MAGIC_I p) (D2B p v)"

definition poolmutable :: "int \<Rightarrow> Pool \<Rightarrow> Pool option" where
  "poolmutable v p = map_option (\<lambda>b. setmagic b MAGIC_A p) (D2B p v)"

definition msize :: "int \<Rightarrow> Pool \<Rightarrow> int option" where
  "msize v p = map_option (\<lambda>b. bsize p b - BHDRSIZE) (D2B p v)"

fun rightmost :: "ftree \<Rightarrow> int option" where
  "rightmost Tnil = None"
| "rightmost (Tnode l t rg Tnil) = Some t"
| "rightmost (Tnode l t rg r) = rightmost r"

definition poolmax :: "Pool \<Rightarrow> int" where
  "poolmax p =
     (let s = maxsize p - cursize p;
          s1 = (case rightmost (froot p) of None \<Rightarrow> s | Some t \<Rightarrow> if s < bsize p t then bsize p t else s);
          s2 = s1 - BHDRSIZE - quanta p in
      if s2 < 0 then 0 else s2)"

text \<open>The pools the source starts with: the table's entry for the heap, nothing allocated.\<close>

definition heappool :: Pool where
  "heappool = \<lparr>maxsize = 16 * 1024 * 1024, quanta = 31, chunk = 512 * 1024, cursize = 0, arenasize = 0, hw = 0,
     froot = Tnil, chain = [], nalloc = 0, nfree = 0, nbrk = 0, lastfree = 0, moving = False,
     magic = (\<lambda>_. Mother), bsize = (\<lambda>_. 0), csize = (\<lambda>_. 0), tailhdr = (\<lambda>_. 0), brk = 0x10000, brklim = 0x7fffffff\<rparr>"

end
