(* ===== verification/Machine.thy ===== *)
theory Machine
  imports Mem Pool
begin

text \<open>
  The state of the virtual machine: the structures of \<^verbatim>\<open>include/interp.h\<close> and the scheduler
  variables of \<^verbatim>\<open>emu/dis.c\<close>. A heap object is named by its data pointer (\<^verbatim>\<open>H2D\<close> of its header);
  the table \<open>hp\<close> holds the header and the runtime structure (\<^verbatim>\<open>Array\<close>, \<^verbatim>\<open>List\<close>, \<^verbatim>\<open>String\<close>,
  \<^verbatim>\<open>Channel\<close>, \<^verbatim>\<open>Modlink\<close>) of every allocated block, and the data words of the block are in the
  flat memory at that pointer. Type descriptors, modules and progs are named by numbers. The
  queues threaded through \<^verbatim>\<open>Prog.comm\<close> are lists in the channel; the run queue keeps its
  \<^verbatim>\<open>link\<close> pointers.
\<close>

unbundle bit_operations_syntax

type_synonym ptr = WORD
type_synonym tid = nat   \<comment> \<open>\<^verbatim>\<open>Type*\<close>\<close>
type_synonym prg = nat   \<comment> \<open>\<^verbatim>\<open>Prog*\<close>\<close>
type_synonym mid = nat   \<comment> \<open>\<^verbatim>\<open>Module*\<close>\<close>

definition H :: ptr where "H = -1"

section \<open>Type descriptors\<close>

datatype freefn = Ffreearray | Ffreestring | Ffreelist | Ffreemodlink | Ffreechan | Ffreeheap | Fnil
datatype markfn = Mmarkarray | Mnoptrs | Mmarklist | Mmarkheap | Mnil

record Type =
  tref :: int
  tfree :: freefn
  tmark :: markfn
  tsize :: int
  tmap :: "byte list"     \<comment> \<open>\<^verbatim>\<open>np\<close> is its length\<close>

abbreviation np :: "Type \<Rightarrow> nat" where "np t \<equiv> length (tmap t)"

text \<open>The descriptors \<^verbatim>\<open>interp/heap.c\<close> declares; \<^verbatim>\<open>sizeof\<close> on the 32-bit machine.\<close>

definition Tarray :: tid where "Tarray = 0"
definition Tstring :: tid where "Tstring = 1"
definition Tlist :: tid where "Tlist = 2"
definition Tmodlink :: tid where "Tmodlink = 3"
definition Tchannel :: tid where "Tchannel = 4"
definition Tptr :: tid where "Tptr = 5"
definition Tbyte :: tid where "Tbyte = 6"

definition builtin_types :: "tid \<Rightarrow> Type" where
  "builtin_types t =
     (if t = Tarray then \<lparr>tref = 1, tfree = Ffreearray, tmark = Mmarkarray, tsize = 16, tmap = []\<rparr>
      else if t = Tstring then \<lparr>tref = 1, tfree = Ffreestring, tmark = Mnoptrs, tsize = 16, tmap = []\<rparr>
      else if t = Tlist then \<lparr>tref = 1, tfree = Ffreelist, tmark = Mmarklist, tsize = 24, tmap = []\<rparr>
      else if t = Tmodlink then \<lparr>tref = 1, tfree = Ffreemodlink, tmark = Mmarkheap, tsize = -1, tmap = [0x80]\<rparr>
      else if t = Tchannel then \<lparr>tref = 1, tfree = Ffreechan, tmark = Mmarkheap, tsize = 32, tmap = [0x80]\<rparr>
      else if t = Tptr then \<lparr>tref = 1, tfree = Fnil, tmark = Mmarkheap, tsize = 4, tmap = [0x80]\<rparr>
      else \<lparr>tref = 1, tfree = Fnil, tmark = Mnil, tsize = 1, tmap = []\<rparr>)"

section \<open>Heap objects\<close>

record String =
  slen :: int                \<comment> \<open>negative: the text is in \<open>Srune\<close>\<close>
  smax :: int
  stmp :: "nat option"       \<comment> \<open>size of the buffer of \<^verbatim>\<open>string2c\<close>\<close>
  Sascii :: "byte list"
  Srune :: "Rune list"

datatype mover = mv_movl | mv_movb | mv_movw | mv_movf | mv_movp | mv_movm | mv_movtmp

record Channel =
  sendq :: ptr
  send :: "prg list"
  sendalt :: "prg option"
  recv :: "prg list"
  recvalt :: "prg option"
  mover :: mover
  midw :: WORD               \<comment> \<open>\<^verbatim>\<open>mid.w\<close>\<close>
  midt :: tid                \<comment> \<open>\<^verbatim>\<open>mid.t\<close>\<close>

datatype hstruct =
    SData
  | SArray (alen: int) (aty: tid) (aroot: ptr) (adata: WORD)
  | SList (ltail: ptr) (lty: "tid option")
  | SString String
  | SChan Channel
  | SModlink (mlMP: ptr) (mlm: mid) (mlcompiled: bool) (mllinks: "(int \<times> tid option) list")

record hobj =
  color :: int
  href :: WORD
  ht :: "tid option"
  hs :: hstruct

record Inst =
  iop :: byte
  iadd :: byte
  ireg :: "16 word"
  isrc :: WORD               \<comment> \<open>the union \<^verbatim>\<open>Adr s\<close>: \<^verbatim>\<open>imm\<close> and \<^verbatim>\<open>ind\<close> the word, \<^verbatim>\<open>i.f\<close> its low and \<^verbatim>\<open>i.s\<close> its high half\<close>
  idst :: WORD

record Link =
  lname :: "byte list"       \<comment> \<open>without the final NUL\<close>
  lsig :: WORD
  lframe :: "tid option"
  lpc :: WORD                \<comment> \<open>\<^verbatim>\<open>u.pc\<close>, or \<^verbatim>\<open>u.runt\<close> of a built-in module\<close>

record Module =
  mref :: int
  morigmp :: ptr
  mtype :: "tid option list" \<comment> \<open>\<^verbatim>\<open>ntype\<close> is its length; \<open>None\<close> is nil\<close>
  mpath :: string
  mss :: int                 \<comment> \<open>\<^verbatim>\<open>ss\<close>, the stack size\<close>
  mprog :: WORD              \<comment> \<open>\<^verbatim>\<open>prog\<close>, the text segment\<close>
  mcode :: "Inst list"       \<comment> \<open>what is there, \<^verbatim>\<open>nprog\<close> instructions\<close>
  mrt :: int
  mname :: "byte list"
  mentry :: WORD
  mentryt :: "tid option"
  mext :: "Link list"

section \<open>Progs and the machine\<close>

datatype ProgState = Palt | Psend | Precv | Pdebug | Pready | Prelease | Pexiting | Pbroken
datatype addrunhook = Hcwakeme | Hdbgaddrun

record Prog =
  pR_s :: WORD
  pR_d :: WORD
  pR_M :: ptr
  pR_MP :: WORD
  pR_FP :: WORD
  pR_EX :: WORD
  pR_PC :: WORD
  pR_SP :: WORD
  pR_TS :: WORD
  pquanta :: int
  link :: "prg option"
  pchan :: ptr
  pptr :: WORD
  pstate :: ProgState
  pkill :: "string option"
  pid :: int
  pgrp :: int
  pprev :: "prg option"
  pnext :: "prg option"
  paddrun :: "addrunhook option"

record vm =
  mem :: mem
  hp :: "ptr \<Rightarrow> hobj option"
  heapmem :: Pool
  types :: "tid \<Rightarrow> Type"
  mods :: "mid \<Rightarrow> Module"
  modules :: "mid list"
  mutator :: int
  nprop :: bool
  gchalt :: int
  gccolor :: int
  progs :: "prg \<Rightarrow> Prog option"
  runhd :: "prg option"
  runtl :: "prg option"
  phead :: "prg option"
  ptail :: "prg option"
  pidnum :: int
  wakeups :: "prg list"      \<comment> \<open>\<^verbatim>\<open>Wakeup\<close> on the prog's host thread, in order\<close>
  swis :: "prg list"         \<comment> \<open>\<^verbatim>\<open>swiprog\<close>: interrupts of the prog's host thread\<close>
  rs :: WORD
  rd :: WORD
  rm :: WORD
  rt :: WORD
  rIC :: int
  rPC :: WORD               \<comment> \<open>the address of the next \<^verbatim>\<open>Inst\<close>\<close>
  rFP :: WORD
  rMP :: WORD
  rM :: ptr
  rSP :: WORD
  rTS :: WORD
  rEX :: WORD

text \<open>The registers \<^verbatim>\<open>R\<close>.\<close>

definition regs :: "vm \<Rightarrow> (WORD \<times> WORD \<times> WORD \<times> WORD) \<times> int \<times> (WORD \<times> WORD \<times> WORD \<times> ptr) \<times> WORD \<times> WORD \<times> WORD" where
  "regs \<sigma> = ((rs \<sigma>, rd \<sigma>, rm \<sigma>, rt \<sigma>), rIC \<sigma>, (rPC \<sigma>, rFP \<sigma>, rMP \<sigma>, rM \<sigma>), rSP \<sigma>, rTS \<sigma>, rEX \<sigma>)"

lemma regs_eqD:
  assumes "regs \<sigma>' = regs \<sigma>"
  shows "rs \<sigma>' = rs \<sigma>" "rd \<sigma>' = rd \<sigma>" "rm \<sigma>' = rm \<sigma>" "rt \<sigma>' = rt \<sigma>" "rIC \<sigma>' = rIC \<sigma>" "rPC \<sigma>' = rPC \<sigma>"
    "rFP \<sigma>' = rFP \<sigma>" "rMP \<sigma>' = rMP \<sigma>" "rM \<sigma>' = rM \<sigma>" "rSP \<sigma>' = rSP \<sigma>" "rTS \<sigma>' = rTS \<sigma>" "rEX \<sigma>' = rEX \<sigma>"
  using assms by (simp_all add: regs_def)

lemma regs_sel [simp]:
  "regs (\<sigma>\<lparr>mem := a\<rparr>) = regs \<sigma>" "regs (\<sigma>\<lparr>hp := b\<rparr>) = regs \<sigma>" "regs (\<sigma>\<lparr>heapmem := c\<rparr>) = regs \<sigma>"
  "regs (\<sigma>\<lparr>types := d\<rparr>) = regs \<sigma>" "regs (\<sigma>\<lparr>mods := e\<rparr>) = regs \<sigma>" "regs (\<sigma>\<lparr>modules := f\<rparr>) = regs \<sigma>"
  "regs (\<sigma>\<lparr>gchalt := g\<rparr>) = regs \<sigma>" "regs (\<sigma>\<lparr>progs := h\<rparr>) = regs \<sigma>" "regs (\<sigma>\<lparr>nprop := i\<rparr>) = regs \<sigma>"
  "regs (\<sigma>\<lparr>hp := b, heapmem := c\<rparr>) = regs \<sigma>"
  by (simp_all add: regs_def)

text \<open>
  What an operation gives: a value and the next state, an exception with the state at the time
  it is raised, or \<open>Crash\<close> (a nil or freed pointer is followed, \<^verbatim>\<open>panic\<close>, \<^verbatim>\<open>abort\<close>).
\<close>

datatype 'a outcome = Ret 'a vm | Err dis_error vm | Crash

definition bindM :: "'a outcome \<Rightarrow> ('a \<Rightarrow> vm \<Rightarrow> 'b outcome) \<Rightarrow> 'b outcome" where
  "bindM r f = (case r of Ret x \<sigma> \<Rightarrow> f x \<sigma> | Err e \<sigma> \<Rightarrow> Err e \<sigma> | Crash \<Rightarrow> Crash)"

definition liftO :: "vm option \<Rightarrow> unit outcome" where
  "liftO r = (case r of None \<Rightarrow> Crash | Some \<sigma> \<Rightarrow> Ret () \<sigma>)"

lemma bindM_simps [simp]:
  "bindM (Ret x \<sigma>) f = f x \<sigma>" "bindM (Err e \<sigma>) f = Err e \<sigma>" "bindM Crash f = Crash"
  by (simp_all add: bindM_def)

lemma liftO_simps [simp]: "liftO (Some \<sigma>) = Ret () \<sigma>" "liftO None = Crash"
  by (simp_all add: liftO_def)

text \<open>Threading a crashing operation through a list.\<close>

fun foldO :: "('a \<Rightarrow> 's \<Rightarrow> 's option) \<Rightarrow> 'a list \<Rightarrow> 's \<Rightarrow> 's option" where
  "foldO f [] s = Some s"
| "foldO f (x # xs) s = (case f x s of None \<Rightarrow> None | Some s' \<Rightarrow> foldO f xs s')"

lemma foldO_append: "foldO f (xs @ ys) s = (case foldO f xs s of None \<Rightarrow> None | Some s' \<Rightarrow> foldO f ys s')"
  by (induction xs arbitrary: s) (auto split: option.splits)

lemma foldO_cong [fundef_cong]:
  assumes "xs = ys" "s = s'" "\<And>x s. x \<in> set xs \<Longrightarrow> f x s = g x s"
  shows "foldO f xs s = foldO g ys s'"
  using assms by (induction xs arbitrary: s s' ys) (auto split: option.splits)

text \<open>Updating one field of one prog or one object.\<close>

definition updprog :: "prg \<Rightarrow> (Prog \<Rightarrow> Prog) \<Rightarrow> vm \<Rightarrow> vm" where
  "updprog p f \<sigma> = \<sigma>\<lparr>progs := (progs \<sigma>)(p := map_option f (progs \<sigma> p))\<rparr>"

definition updobj :: "ptr \<Rightarrow> (hobj \<Rightarrow> hobj) \<Rightarrow> vm \<Rightarrow> vm" where
  "updobj v f \<sigma> = \<sigma>\<lparr>hp := (hp \<sigma>)(v := map_option f (hp \<sigma> v))\<rparr>"

lemma updprog_sel [simp]:
  "mem (updprog p f \<sigma>) = mem \<sigma>" "hp (updprog p f \<sigma>) = hp \<sigma>" "heapmem (updprog p f \<sigma>) = heapmem \<sigma>" "types (updprog p f \<sigma>) = types \<sigma>"
  "mods (updprog p f \<sigma>) = mods \<sigma>" "modules (updprog p f \<sigma>) = modules \<sigma>"
  "gchalt (updprog p f \<sigma>) = gchalt \<sigma>" "mutator (updprog p f \<sigma>) = mutator \<sigma>"
  "runhd (updprog p f \<sigma>) = runhd \<sigma>" "runtl (updprog p f \<sigma>) = runtl \<sigma>"
  "phead (updprog p f \<sigma>) = phead \<sigma>" "ptail (updprog p f \<sigma>) = ptail \<sigma>"
  "progs (updprog p f \<sigma>) = (progs \<sigma>)(p := map_option f (progs \<sigma> p))" "regs (updprog p f \<sigma>) = regs \<sigma>"
  by (simp_all add: updprog_def)

lemma updobj_sel [simp]:
  "mem (updobj v f \<sigma>) = mem \<sigma>" "heapmem (updobj v f \<sigma>) = heapmem \<sigma>" "types (updobj v f \<sigma>) = types \<sigma>"
  "mods (updobj v f \<sigma>) = mods \<sigma>" "modules (updobj v f \<sigma>) = modules \<sigma>"
  "gchalt (updobj v f \<sigma>) = gchalt \<sigma>" "mutator (updobj v f \<sigma>) = mutator \<sigma>"
  "progs (updobj v f \<sigma>) = progs \<sigma>" "runhd (updobj v f \<sigma>) = runhd \<sigma>"
  "runtl (updobj v f \<sigma>) = runtl \<sigma>"
  "hp (updobj v f \<sigma>) = (hp \<sigma>)(v := map_option f (hp \<sigma> v))" "regs (updobj v f \<sigma>) = regs \<sigma>"
  by (simp_all add: updobj_def)

end
