(* ===== verification/Sched.thy ===== *)
theory Sched
  imports Machine
begin

text \<open>
  The scheduler of \<^verbatim>\<open>emu/dis.c\<close>: the run queue, a singly linked list from \<^verbatim>\<open>isched.runhd\<close> to
  \<^verbatim>\<open>isched.runtl\<close> through \<^verbatim>\<open>Prog.link\<close>, and the list of all progs, doubly linked through
  \<^verbatim>\<open>prev\<close> and \<^verbatim>\<open>next\<close>. The operations are written on the pointers; the lemmas show that they
  implement the operations of a list.
\<close>

section \<open>The run queue\<close>

text \<open>
  \<^verbatim>\<open>p->addrun(p)\<close> on the two values the hook can have: \<^verbatim>\<open>cwakeme\<close> of \<^verbatim>\<open>emu/dis.c\<close> and
  \<^verbatim>\<open>dbgaddrun\<close> of \<^verbatim>\<open>emu/devprog.c\<close>. The wake-up of the host thread is logged.
\<close>

definition cwakeme :: "prg \<Rightarrow> vm \<Rightarrow> vm" where
  "cwakeme p \<sigma> = (updprog p (\<lambda>q. q\<lparr>paddrun := None\<rparr>) \<sigma>)\<lparr>wakeups := wakeups \<sigma> @ [p]\<rparr>"

definition dbgaddrun :: "prg \<Rightarrow> vm \<Rightarrow> vm" where
  "dbgaddrun p \<sigma> =
     (updprog p (\<lambda>q. q\<lparr>pstate := Pdebug, paddrun := None\<rparr>) \<sigma>)\<lparr>wakeups := wakeups \<sigma> @ [p]\<rparr>"

definition callhook :: "addrunhook \<Rightarrow> prg \<Rightarrow> vm \<Rightarrow> vm" where
  "callhook h p \<sigma> = (case h of Hcwakeme \<Rightarrow> cwakeme p \<sigma> | Hdbgaddrun \<Rightarrow> dbgaddrun p \<sigma>)"

definition addrun :: "prg \<Rightarrow> vm \<Rightarrow> vm option" where
  "addrun p \<sigma> =
     (case progs \<sigma> p of None \<Rightarrow> None | Some pr \<Rightarrow>
       (case paddrun pr of Some h \<Rightarrow> Some (callhook h p \<sigma>) | None \<Rightarrow>
         let \<sigma>1 = updprog p (\<lambda>q. q\<lparr>pstate := Pready, link := None\<rparr>) \<sigma> in
         (case runhd \<sigma> of
            None \<Rightarrow> Some (\<sigma>1\<lparr>runhd := Some p, runtl := Some p\<rparr>)
          | Some _ \<Rightarrow>
             (case runtl \<sigma> of None \<Rightarrow> None
              | Some t \<Rightarrow> Some ((updprog t (\<lambda>q. q\<lparr>link := Some p\<rparr>) \<sigma>1)\<lparr>runtl := Some p\<rparr>)))))"

definition delrun :: "ProgState \<Rightarrow> vm \<Rightarrow> (prg \<times> vm) option" where
  "delrun st \<sigma> =
     (case runhd \<sigma> of None \<Rightarrow> None | Some p \<Rightarrow>
       (case progs \<sigma> p of None \<Rightarrow> None | Some pr \<Rightarrow>
         let \<sigma>1 = updprog p (\<lambda>q. q\<lparr>pstate := st\<rparr>) \<sigma>; \<sigma>2 = \<sigma>1\<lparr>runhd := link pr\<rparr> in
         Some (p, if link pr = None then \<sigma>2\<lparr>runtl := None\<rparr> else \<sigma>2)))"

text \<open>The search of \<^verbatim>\<open>delrunq\<close>: \<open>None\<close> when it follows a freed prog or a cyclic queue.\<close>

partial_function (option) delrunq_find ::
  "(prg \<Rightarrow> Prog option) \<Rightarrow> prg \<Rightarrow> prg option \<Rightarrow> prg option \<Rightarrow> (prg option \<times> prg option) option"
where
  "delrunq_find ps p prv f =
     (if f = None then Some (prv, None)
      else if f = Some p then Some (prv, f)
      else Option.bind (ps (the f)) (\<lambda>pr. delrunq_find ps p f (link pr)))"

definition delrunq :: "prg \<Rightarrow> vm \<Rightarrow> vm option" where
  "delrunq p \<sigma> =
     (case delrunq_find (progs \<sigma>) p None (runhd \<sigma>) of
        None \<Rightarrow> None
      | Some (prv, None) \<Rightarrow> Some \<sigma>
      | Some (prv, Some f) \<Rightarrow>
         (case progs \<sigma> p of None \<Rightarrow> None | Some pr \<Rightarrow>
           let \<sigma>1 = (case prv of None \<Rightarrow> \<sigma>\<lparr>runhd := link pr\<rparr>
                     | Some v \<Rightarrow> updprog v (\<lambda>q. q\<lparr>link := link pr\<rparr>) \<sigma>) in
           Some (if Some p = runtl \<sigma> then \<sigma>1\<lparr>runtl := prv\<rparr> else \<sigma>1)))"

definition delruntail :: "ProgState \<Rightarrow> vm \<Rightarrow> (prg \<times> vm) option" where
  "delruntail st \<sigma> =
     (case runtl \<sigma> of None \<Rightarrow> None | Some p \<Rightarrow>
       (case delrunq p \<sigma> of None \<Rightarrow> None
        | Some \<sigma>1 \<Rightarrow> Some (p, updprog p (\<lambda>q. q\<lparr>pstate := st\<rparr>) \<sigma>1)))"

definition currun :: "vm \<Rightarrow> prg option" where
  "currun \<sigma> = runhd \<sigma>"

definition pushrun :: "prg \<Rightarrow> vm \<Rightarrow> vm option" where
  \<comment> \<open>a hooked prog is a \<^verbatim>\<open>panic\<close>\<close>
  "pushrun p \<sigma> =
     (case progs \<sigma> p of None \<Rightarrow> None | Some pr \<Rightarrow>
       if paddrun pr \<noteq> None then None
       else let \<sigma>1 = (updprog p (\<lambda>q. q\<lparr>pstate := Pready, link := runhd \<sigma>\<rparr>) \<sigma>)\<lparr>runhd := Some p\<rparr> in
         Some (if runhd \<sigma> = None then \<sigma>1\<lparr>runtl := Some p\<rparr> else \<sigma>1))"

text \<open>
  The end of a time slice in \<^verbatim>\<open>vmachine\<close>: the prog that ran is still at the head and not alone,
  so it goes to the tail.
\<close>

definition reslice :: "prg \<Rightarrow> vm \<Rightarrow> vm option" where
  "reslice r \<sigma> =
     (if runhd \<sigma> \<noteq> None \<and> Some r = runhd \<sigma> \<and> runhd \<sigma> \<noteq> runtl \<sigma> then
        (case (progs \<sigma> r, runtl \<sigma>) of
           (Some pr, Some t) \<Rightarrow>
             let \<sigma>1 = (updprog r (\<lambda>q. q\<lparr>link := None\<rparr>) \<sigma>)\<lparr>runhd := link pr\<rparr> in
             Some ((updprog t (\<lambda>q. q\<lparr>link := Some r\<rparr>) \<sigma>1)\<lparr>runtl := Some r\<rparr>)
         | _ \<Rightarrow> None)
      else Some \<sigma>)"

definition vmslice :: "(prg \<Rightarrow> vm \<Rightarrow> vm option) \<Rightarrow> vm \<Rightarrow> vm option" where
  \<comment> \<open>\<open>xec\<close> is \<^verbatim>\<open>r->xec(r)\<close>\<close>
  "vmslice xec \<sigma> =
     (case runhd \<sigma> of None \<Rightarrow> Some \<sigma>
      | Some r \<Rightarrow> (case xec r \<sigma> of None \<Rightarrow> None | Some \<sigma>1 \<Rightarrow> reslice r \<sigma>1))"

section \<open>The run queue as a list\<close>

fun lpath :: "(prg \<Rightarrow> Prog option) \<Rightarrow> prg option \<Rightarrow> prg list \<Rightarrow> bool" where
  "lpath ps h [] \<longleftrightarrow> h = None"
| "lpath ps h (q # qs) \<longleftrightarrow> h = Some q \<and> (\<exists>pr. ps q = Some pr \<and> lpath ps (link pr) qs)"

definition runq :: "vm \<Rightarrow> prg list \<Rightarrow> bool" where
  "runq \<sigma> qs \<longleftrightarrow> lpath (progs \<sigma>) (runhd \<sigma>) qs \<and> distinct qs \<and>
     runtl \<sigma> = (if qs = [] then None else Some (last qs))"

lemma lpath_cong: "(\<And>q. q \<in> set qs \<Longrightarrow> map_option link (ps q) = map_option link (ps' q)) \<Longrightarrow>
    lpath ps h qs = lpath ps' h qs"
proof (induction qs arbitrary: h)
  case (Cons q qs)
  from Cons.prems [of q] have "map_option link (ps q) = map_option link (ps' q)" by simp
  moreover have "\<And>h. lpath ps h qs = lpath ps' h qs" using Cons by simp
  ultimately show ?case by (cases "ps q"; cases "ps' q") auto
qed simp

lemma lpath_snoc:
  "distinct (qs @ [t]) \<Longrightarrow> lpath ps h (qs @ [t]) \<Longrightarrow> p \<notin> set (qs @ [t]) \<Longrightarrow> ps p = Some pr \<Longrightarrow>
   link pr = None \<Longrightarrow> lpath (ps(t := map_option (\<lambda>q. q\<lparr>link := Some p\<rparr>) (ps t))) h (qs @ [t, p])"
proof (induction qs arbitrary: h)
  case Nil
  then show ?case by auto
next
  case (Cons q qs)
  then show ?case by auto
qed

lemma lpath_upd_other [simp]: "p \<notin> set qs \<Longrightarrow> lpath (ps(p := x)) h qs = lpath ps h qs"
  by (rule lpath_cong) auto

lemma runq_upd_other:
  "runq \<sigma> qs \<Longrightarrow> p \<notin> set qs \<Longrightarrow> runq (updprog p f \<sigma>) qs"
  by (simp add: runq_def)

lemma runq_upd_link:
  "runq \<sigma> qs \<Longrightarrow> (\<And>q. link (f q) = link q) \<Longrightarrow> runq (updprog p f \<sigma>) qs"
  unfolding runq_def by (subst lpath_cong [of _ _ "progs \<sigma>"]) (auto simp: option.map_comp comp_def)

lemma runq_progs: "runq \<sigma> qs \<Longrightarrow> q \<in> set qs \<Longrightarrow> \<exists>pr. progs \<sigma> q = Some pr"
proof -
  have "lpath ps h qs \<Longrightarrow> q \<in> set qs \<Longrightarrow> \<exists>pr. ps q = Some pr" for ps h
    by (induction qs arbitrary: h) auto
  then show "runq \<sigma> qs \<Longrightarrow> q \<in> set qs \<Longrightarrow> \<exists>pr. progs \<sigma> q = Some pr"
    by (auto simp: runq_def)
qed

lemma runq_hd: "runq \<sigma> qs \<Longrightarrow> runhd \<sigma> = (case qs of [] \<Rightarrow> None | q # _ \<Rightarrow> Some q)"
  by (cases qs) (auto simp: runq_def)

lemma addrun_runq:
  assumes "runq \<sigma> qs" "p \<notin> set qs" "progs \<sigma> p = Some pr" "paddrun pr = None"
  shows "\<exists>\<sigma>'. addrun p \<sigma> = Some \<sigma>' \<and> runq \<sigma>' (qs @ [p]) \<and>
    progs \<sigma>' p = Some (pr\<lparr>pstate := Pready, link := None\<rparr>)"
proof (cases qs rule: rev_cases)
  case Nil
  then show ?thesis using assms by (auto simp: addrun_def runq_def)
next
  case (snoc qs' t)
  let ?ps = "(progs \<sigma>)(p := Some (pr\<lparr>pstate := Pready, link := None\<rparr>))"
  have t: "runtl \<sigma> = Some t" "runhd \<sigma> \<noteq> None" "t \<noteq> p" "distinct qs"
    using assms snoc by (auto simp: runq_def) (cases qs'; auto)
  have "lpath ?ps (runhd \<sigma>) (qs' @ [t])"
    using assms snoc by (auto simp: runq_def)
  then have "lpath (?ps(t := map_option (\<lambda>q. q\<lparr>link := Some p\<rparr>) (?ps t))) (runhd \<sigma>) (qs' @ [t, p])"
    by (rule lpath_snoc [rotated]) (use assms snoc t in auto)
  then show ?thesis using assms t snoc by (auto simp: addrun_def runq_def Let_def)
qed

lemma delrun_runq:
  assumes "runq \<sigma> (q # qs)"
  shows "\<exists>\<sigma>'. delrun st \<sigma> = Some (q, \<sigma>') \<and> runq \<sigma>' qs \<and> map_option pstate (progs \<sigma>' q) = Some st"
proof -
  obtain pr where pr: "progs \<sigma> q = Some pr" "lpath (progs \<sigma>) (link pr) qs" "runhd \<sigma> = Some q"
    "runtl \<sigma> = Some (last (q # qs))" "q \<notin> set qs" "distinct qs" using assms by (auto simp: runq_def)
  have "lpath ((progs \<sigma>)(q := Some (pr\<lparr>pstate := st\<rparr>))) (link pr) qs"
    using pr by (subst lpath_cong [of _ _ "progs \<sigma>"]) auto
  moreover have "link pr = None \<longleftrightarrow> qs = []" using pr by (cases qs) auto
  ultimately show ?thesis using pr by (auto simp: delrun_def runq_def Let_def)
qed

lemma pushrun_runq:
  assumes "runq \<sigma> qs" "p \<notin> set qs" "progs \<sigma> p = Some pr" "paddrun pr = None"
  shows "\<exists>\<sigma>'. pushrun p \<sigma> = Some \<sigma>' \<and> runq \<sigma>' (p # qs)"
proof -
  have "lpath ((progs \<sigma>)(p := Some (pr\<lparr>pstate := Pready, link := runhd \<sigma>\<rparr>))) (runhd \<sigma>) qs"
    using assms by (subst lpath_cong [of _ _ "progs \<sigma>"]) (auto simp: runq_def)
  then show ?thesis using assms runq_hd [OF assms(1)]
    by (auto simp: pushrun_def runq_def Let_def split: list.splits)
qed

lemma delrunq_find_notin:
  "lpath ps f qs \<Longrightarrow> p \<notin> set qs \<Longrightarrow> \<exists>v. delrunq_find ps p prv f = Some (v, None)"
proof (induction qs arbitrary: f prv)
  case Nil
  then show ?case by (simp add: delrunq_find.simps)
next
  case (Cons q qs)
  then show ?case by (subst delrunq_find.simps) auto
qed

lemma delrunq_find_in:
  "lpath ps f (xs @ p # ys) \<Longrightarrow> p \<notin> set xs \<Longrightarrow>
   delrunq_find ps p prv f = Some (if xs = [] then prv else Some (last xs), Some p)"
proof (induction xs arbitrary: f prv)
  case Nil
  then show ?case by (simp add: delrunq_find.simps)
next
  case (Cons q xs)
  then show ?case by (subst delrunq_find.simps) auto
qed

lemma lpath_unlink:
  "lpath ps h (xs @ t # p # ys) \<Longrightarrow> distinct (xs @ t # p # ys) \<Longrightarrow> ps p = Some pr \<Longrightarrow>
   lpath (ps(t := map_option (\<lambda>q. q\<lparr>link := link pr\<rparr>) (ps t))) h (xs @ t # ys)"
  by (induction xs arbitrary: h) auto

lemma delrunq_runq:
  assumes "runq \<sigma> qs"
  shows "\<exists>\<sigma>'. delrunq p \<sigma> = Some \<sigma>' \<and> runq \<sigma>' (remove1 p qs) \<and>
    (\<forall>r. map_option pstate (progs \<sigma>' r) = map_option pstate (progs \<sigma> r))"
proof (cases "p \<in> set qs")
  case False
  obtain v where "delrunq_find (progs \<sigma>) p None (runhd \<sigma>) = Some (v, None)"
    using delrunq_find_notin [of "progs \<sigma>" "runhd \<sigma>" qs p None] assms False by (auto simp: runq_def)
  then show ?thesis using assms False by (simp add: delrunq_def remove1_idem)
next
  case True
  then obtain xs ys where qs: "qs = xs @ p # ys" "p \<notin> set xs" by (metis split_list_first)
  obtain pr where pr: "progs \<sigma> p = Some pr" using runq_progs [OF assms True] by auto
  have path: "lpath (progs \<sigma>) (runhd \<sigma>) (xs @ p # ys)" and dist: "distinct (xs @ p # ys)"
    and tl: "runtl \<sigma> = Some (last (xs @ p # ys))" using assms qs by (auto simp: runq_def)
  have rem: "remove1 p qs = xs @ ys" using qs by (simp add: remove1_append)
  have last: "Some p = runtl \<sigma> \<longleftrightarrow> ys = []" using tl dist by (cases ys rule: rev_cases) auto
  note find = delrunq_find_in [OF path qs(2), of None]
  show ?thesis
  proof (cases xs rule: rev_cases)
    case Nil
    then show ?thesis using path dist tl find pr last rem
      by (auto simp: delrunq_def runq_def)
  next
    case (snoc xs' t)
    have "lpath ((progs \<sigma>)(t := map_option (\<lambda>q. q\<lparr>link := link pr\<rparr>) (progs \<sigma> t))) (runhd \<sigma>) (xs' @ t # ys)"
      using path dist pr snoc by (intro lpath_unlink) auto
    then show ?thesis using dist tl find pr last rem snoc
      by (auto simp: delrunq_def runq_def option.map_comp comp_def)
  qed
qed

lemma delruntail_runq:
  assumes "runq \<sigma> (qs @ [p])"
  shows "\<exists>\<sigma>'. delruntail st \<sigma> = Some (p, \<sigma>') \<and> runq \<sigma>' qs \<and> map_option pstate (progs \<sigma>' p) = Some st"
proof -
  have tl: "runtl \<sigma> = Some p" "p \<notin> set qs" using assms by (auto simp: runq_def)
  obtain \<sigma>1 where s: "delrunq p \<sigma> = Some \<sigma>1" "runq \<sigma>1 (remove1 p (qs @ [p]))"
    "\<forall>r. map_option pstate (progs \<sigma>1 r) = map_option pstate (progs \<sigma> r)"
    using delrunq_runq [OF assms, of p] by auto
  have "runq (updprog p (\<lambda>q. q\<lparr>pstate := st\<rparr>) \<sigma>1) qs"
    using s(2) tl by (intro runq_upd_link) (simp_all add: remove1_append)
  moreover have "\<exists>pr. progs \<sigma>1 p = Some pr"
    using s(3) [rule_format, of p] runq_progs [OF assms, of p] by auto
  ultimately show ?thesis using s tl by (auto simp: delruntail_def)
qed

lemma reslice_runq:
  assumes "runq \<sigma> (r # qs)"
  shows "\<exists>\<sigma>'. reslice r \<sigma> = Some \<sigma>' \<and> runq \<sigma>' (qs @ [r])"
proof (cases qs rule: rev_cases)
  case Nil
  then show ?thesis using assms by (auto simp: reslice_def runq_def)
next
  case (snoc qs' t)
  obtain pr where pr: "progs \<sigma> r = Some pr" "runhd \<sigma> = Some r" "lpath (progs \<sigma>) (link pr) (qs' @ [t])"
    "runtl \<sigma> = Some t" "distinct (r # qs' @ [t])" using assms snoc by (auto simp: runq_def)
  let ?ps = "(progs \<sigma>)(r := Some (pr\<lparr>link := None\<rparr>))"
  have "lpath (?ps(t := map_option (\<lambda>q. q\<lparr>link := Some r\<rparr>) (?ps t))) (link pr) (qs' @ [t, r])"
    by (rule lpath_snoc) (use pr in auto)
  then show ?thesis using pr snoc by (auto simp: reslice_def runq_def Let_def)
qed

section \<open>Round robin\<close>

primrec iterO :: "('s \<Rightarrow> 's option) \<Rightarrow> nat \<Rightarrow> 's \<Rightarrow> 's option" where
  "iterO f 0 s = Some s"
| "iterO f (Suc n) s = (case f s of None \<Rightarrow> None | Some s' \<Rightarrow> iterO f n s')"

text \<open>The contract between the run queue and the loop that hands out time slices.\<close>

locale slice_queue =
  fixes repr :: "'s \<Rightarrow> prg list \<Rightarrow> bool"
    and cur :: "'s \<Rightarrow> prg option"
    and slice :: "'s \<Rightarrow> 's option"
  assumes cur_head: "repr s (q # qs) \<Longrightarrow> cur s = Some q"
    and slice_rotates: "repr s (q # qs) \<Longrightarrow> \<exists>s'. slice s = Some s' \<and> repr s' (qs @ [q])"
begin

lemma iter_rotates:
  "repr s qs \<Longrightarrow> qs \<noteq> [] \<Longrightarrow> \<exists>s'. iterO slice n s = Some s' \<and> repr s' (rotate n qs)"
proof (induction n arbitrary: s qs)
  case 0
  then show ?case by simp
next
  case (Suc n)
  obtain q qs' where qs: "qs = q # qs'" using Suc.prems by (cases qs) auto
  obtain s' where "slice s = Some s'" "repr s' (qs' @ [q])"
    using slice_rotates [of s q qs'] Suc.prems qs by auto
  moreover have "rotate (Suc n) qs = rotate n (qs' @ [q])"
    by (simp add: qs rotate1_rotate_swap)
  ultimately show ?case using Suc.IH [of s' "qs' @ [q]"] by simp
qed

lemma turn:
  assumes "repr s qs" "i < length qs"
  shows "\<exists>s'. iterO slice i s = Some s' \<and> cur s' = Some (qs ! i)"
proof -
  have ne: "qs \<noteq> []" using assms by auto
  obtain s' where s': "iterO slice i s = Some s'" "repr s' (rotate i qs)"
    using iter_rotates [OF assms(1) ne] by auto
  have "rotate i qs = drop i qs @ take i qs" using assms(2) by (simp add: rotate_drop_take)
  also have "\<dots> = qs ! i # drop (Suc i) qs @ take i qs"
    using assms(2) by (simp add: Cons_nth_drop_Suc [symmetric])
  finally show ?thesis using s' cur_head by auto
qed

end

text \<open>A slice in which the running prog neither blocks nor wakes another.\<close>

definition idle_slice :: "vm \<Rightarrow> vm option" where
  "idle_slice = vmslice (\<lambda>r \<sigma>. Some \<sigma>)"

interpretation dis_queue: slice_queue runq currun idle_slice
proof unfold_locales
  fix s q qs
  assume r: "runq s (q # qs)"
  then show "currun s = Some q" by (simp add: currun_def runq_hd)
  from reslice_runq [OF r] show "\<exists>s'. idle_slice s = Some s' \<and> runq s' (qs @ [q])"
    using runq_hd [OF r] by (simp add: idle_slice_def vmslice_def)
qed

section \<open>Properties\<close>

text \<open>A state with three ready progs, for the witnesses.\<close>

definition prog0 :: Prog where
  "prog0 = \<lparr>pR_s = 0, pR_d = 0, pR_M = 0, pR_MP = 0, pR_FP = 0, pR_EX = 0, pR_PC = 0, pR_SP = 0, pR_TS = 0, pquanta = 0, link = None, pchan = 0, pptr = 0, pstate = Pready, pkill = None,
     pid = 1, pgrp = 1, pprev = None, pnext = None, paddrun = None\<rparr>"

definition vm0 :: vm where
  "vm0 = \<lparr>mem = (\<lambda>_. 0), hp = (\<lambda>_. None), heapmem = heappool, types = builtin_types,
     mods = (\<lambda>_. \<lparr>mref = 0, morigmp = H, mtype = [], mpath = [], mss = 0, mprog = 0,
       mcode = [], mrt = 0, mname = [], mentry = 0, mentryt = None, mext = []\<rparr>), modules = [],
     mutator = 0, nprop = False, gchalt = 0, gccolor = 3,
     progs = (\<lambda>_. None)(1 \<mapsto> prog0\<lparr>link := Some 2\<rparr>, 2 \<mapsto> prog0\<lparr>link := Some 3\<rparr>, 3 \<mapsto> prog0, 4 \<mapsto> prog0),
     runhd = Some 1, runtl = Some 3, phead = Some 1, ptail = Some 4, pidnum = 4, wakeups = [], swis = [],
     rs = 0, rd = 0, rm = 0, rt = 0, rIC = 0, rPC = 0, rFP = 0, rMP = 0, rM = H, rSP = 0, rTS = 0, rEX = 0\<rparr>"

lemma runq_vm0: "runq vm0 [1, 2, 3]"
  by (simp add: runq_def vm0_def prog0_def)

text \<open>C6: on a well-formed run queue the pointer operations are the list operations: \<^verbatim>\<open>addrun\<close>
  appends, \<^verbatim>\<open>pushrun\<close> puts in front, \<^verbatim>\<open>delrun\<close> removes the head, \<^verbatim>\<open>delruntail\<close> the last, \<^verbatim>\<open>delrunq\<close>
  any prog, and none of them follows a dangling link.\<close>

theorem runqueue_refines:
  assumes q: "runq \<sigma> qs"
  shows "(p \<notin> set qs \<and> progs \<sigma> p = Some pr \<and> paddrun pr = None \<longrightarrow>
      (\<exists>\<sigma>'. addrun p \<sigma> = Some \<sigma>' \<and> runq \<sigma>' (qs @ [p])) \<and>
      (\<exists>\<sigma>'. pushrun p \<sigma> = Some \<sigma>' \<and> runq \<sigma>' (p # qs))) \<and>
    (qs \<noteq> [] \<longrightarrow>
      (\<exists>\<sigma>'. delrun st \<sigma> = Some (hd qs, \<sigma>') \<and> runq \<sigma>' (tl qs)) \<and>
      (\<exists>\<sigma>'. delruntail st \<sigma> = Some (last qs, \<sigma>') \<and> runq \<sigma>' (butlast qs))) \<and>
    (\<exists>\<sigma>'. delrunq p \<sigma> = Some \<sigma>' \<and> runq \<sigma>' (remove1 p qs))"
  using addrun_runq [OF q] pushrun_runq [OF q] delrunq_runq [OF q]
    delrun_runq [of \<sigma> "hd qs" "tl qs" st] delruntail_runq [of \<sigma> "butlast qs" "last qs" st] q
  by (intro conjI impI) (blast, blast, fastforce, fastforce, blast)

theorem runqueue_refines_witness:
  "(\<exists>\<sigma>'. addrun 4 vm0 = Some \<sigma>' \<and> runq \<sigma>' ([1, 2, 3] @ [4])) \<and>
   (\<exists>\<sigma>'. delrun Psend vm0 = Some (1, \<sigma>') \<and> runq \<sigma>' [2, 3]) \<and>
   (\<exists>\<sigma>'. delrunq 2 vm0 = Some \<sigma>' \<and> runq \<sigma>' [1, 3])"
proof -
  have p: "4 \<notin> set [1, 2, 3 :: nat] \<and> progs vm0 4 = Some prog0 \<and> paddrun prog0 = None"
    by (simp add: vm0_def prog0_def)
  show ?thesis
    using runqueue_refines [OF runq_vm0, of 4 prog0 Psend] p
      runqueue_refines [OF runq_vm0, of 2 prog0 Psend] by simp
qed



end
