(* ===== verification/Alt.thy ===== *)
theory Alt
  imports Sched
begin

text \<open>
  The first and third pass of the \<^verbatim>\<open>alt\<close> instruction, \<^verbatim>\<open>interp/alt.c\<close>: marking the channels of
  an \<^verbatim>\<open>Alt\<close> with the prog that waits on them, and withdrawing the marks. An \<^verbatim>\<open>Alt\<close> lies in the data
  memory: \<^verbatim>\<open>nsend\<close>, \<^verbatim>\<open>nrecv\<close>, then the entries \<^verbatim>\<open>ac[i]\<close>, each a channel pointer and a data pointer;
  the entries after the first \<^verbatim>\<open>nsend\<close> are receives, and a receive entry may hold an array of
  channels. The second pass is in the theory of the channels.
\<close>

section \<open>Access\<close>

definition getchan :: "vm \<Rightarrow> ptr \<Rightarrow> Channel option" where
  "getchan \<sigma> c = (case hp \<sigma> c of Some h \<Rightarrow> (case hs h of SChan ch \<Rightarrow> Some ch | _ \<Rightarrow> None) | None \<Rightarrow> None)"

definition updchan :: "ptr \<Rightarrow> (Channel \<Rightarrow> Channel) \<Rightarrow> vm \<Rightarrow> vm" where
  "updchan c f \<sigma> = updobj c (\<lambda>h. h\<lparr>hs := (case hs h of SChan ch \<Rightarrow> SChan (f ch) | x \<Rightarrow> x)\<rparr>) \<sigma>"

definition isarray :: "vm \<Rightarrow> ptr \<Rightarrow> bool" where
  \<comment> \<open>\<^verbatim>\<open>D2H(c)->t == &Tarray\<close>\<close>
  "isarray \<sigma> c = (case hp \<sigma> c of Some h \<Rightarrow> ht h = Some Tarray | None \<Rightarrow> False)"

definition nsend :: "mem \<Rightarrow> WORD \<Rightarrow> int" where "nsend m a = sint (rdW m a)"
definition nrecv :: "mem \<Rightarrow> WORD \<Rightarrow> int" where "nrecv m a = sint (rdW m (a + 4))"
definition ac_c :: "mem \<Rightarrow> WORD \<Rightarrow> nat \<Rightarrow> ptr" where "ac_c m a i = rdW m (a + 8 + 8 * of_nat i)"
definition ac_ptr :: "mem \<Rightarrow> WORD \<Rightarrow> nat \<Rightarrow> WORD" where "ac_ptr m a i = rdW m (a + 12 + 8 * of_nat i)"

definition sendix :: "mem \<Rightarrow> WORD \<Rightarrow> nat list" where
  "sendix m a = [0 ..< nat (nsend m a)]"

definition recvix :: "mem \<Rightarrow> WORD \<Rightarrow> nat list" where
  "recvix m a = [nat (nsend m a) ..< nat (nsend m a + nrecv m a)]"

definition arr_chan :: "mem \<Rightarrow> WORD \<Rightarrow> nat \<Rightarrow> ptr" where
  "arr_chan m d i = rdW m (d + 4 * of_nat i)"

section \<open>Pass 3: withdrawing\<close>

text \<open>\<^verbatim>\<open>W(p->R.d) = n; p->ptr = ptr; sel = nil\<close>: the prog is told which entry was chosen.\<close>

definition altpick :: "prg \<Rightarrow> nat \<Rightarrow> WORD \<Rightarrow> vm \<Rightarrow> vm option" where
  "altpick p n pt \<sigma> =
     (case progs \<sigma> p of None \<Rightarrow> None
      | Some pr \<Rightarrow> Some ((updprog p (\<lambda>q. q\<lparr>pptr := pt\<rparr>) \<sigma>)\<lparr>mem := wrW (mem \<sigma>) (pR_d pr) (of_nat n)\<rparr>))"

fun altunmark_loop ::
  "nat list \<Rightarrow> WORD \<Rightarrow> WORD \<Rightarrow> prg \<Rightarrow> int \<Rightarrow> nat \<Rightarrow> ptr \<times> vm \<Rightarrow> (ptr \<times> vm) option"
where
  "altunmark_loop [] d pt p sr dn (sel, \<sigma>) = Some (sel, \<sigma>)"
| "altunmark_loop (n # ns) d pt p sr dn (sel, \<sigma>) =
     (let c = arr_chan (mem \<sigma>) d n in
      if c \<noteq> H \<and> getchan \<sigma> c = None then None
      else
        let \<sigma>1 = (if c \<noteq> H \<and> map_option recvalt (getchan \<sigma> c) = Some (Some p)
                  then updchan c (\<lambda>ch. ch\<lparr>recvalt := None\<rparr>) \<sigma> else \<sigma>) in
        if sr = 1 \<and> sel = c then
          (case altpick p dn (pt + 4) \<sigma>1 of None \<Rightarrow> None
           | Some \<sigma>2 \<Rightarrow> altunmark_loop ns d pt p sr dn (0, \<sigma>2\<lparr>mem := wrW (mem \<sigma>2) pt (of_nat n)\<rparr>))
        else altunmark_loop ns d pt p sr dn (sel, \<sigma>1))"

definition altunmark :: "ptr \<Rightarrow> WORD \<Rightarrow> prg \<Rightarrow> int \<Rightarrow> nat \<Rightarrow> ptr \<times> vm \<Rightarrow> (ptr \<times> vm) option" where
  "altunmark c pt p sr dn s =
     (case hp (snd s) c of
        Some h \<Rightarrow> (case hs h of SArray len t root d \<Rightarrow> altunmark_loop [0 ..< nat len] d pt p sr dn s | _ \<Rightarrow> None)
      | None \<Rightarrow> None)"

text \<open>One entry of the send part and one of the receive part of \<^verbatim>\<open>altdone\<close>.\<close>

definition altdone_send :: "WORD \<Rightarrow> prg \<Rightarrow> int \<Rightarrow> nat \<Rightarrow> ptr \<times> vm \<Rightarrow> (ptr \<times> vm) option" where
  "altdone_send a p sr n = (\<lambda>(sel, \<sigma>).
     let c = ac_c (mem \<sigma>) a n in
     if c = H then Some (sel, \<sigma>)
     else (case getchan \<sigma> c of None \<Rightarrow> None | Some ch \<Rightarrow>
       let \<sigma>1 = (if sendalt ch = Some p then updchan c (\<lambda>ch. ch\<lparr>sendalt := None\<rparr>) \<sigma> else \<sigma>) in
       if sr = 0 \<and> c = sel then
         (case altpick p n (ac_ptr (mem \<sigma>1) a n) \<sigma>1 of None \<Rightarrow> None | Some \<sigma>2 \<Rightarrow> Some (0, \<sigma>2))
       else Some (sel, \<sigma>1)))"

definition altdone_recv :: "WORD \<Rightarrow> prg \<Rightarrow> int \<Rightarrow> nat \<Rightarrow> ptr \<times> vm \<Rightarrow> (ptr \<times> vm) option" where
  "altdone_recv a p sr n = (\<lambda>(sel, \<sigma>).
     let c = ac_c (mem \<sigma>) a n in
     if c = H then Some (sel, \<sigma>)
     else if isarray \<sigma> c then altunmark c (ac_ptr (mem \<sigma>) a n) p sr n (sel, \<sigma>)
     else (case getchan \<sigma> c of None \<Rightarrow> None | Some ch \<Rightarrow>
       let \<sigma>1 = (if recvalt ch = Some p then updchan c (\<lambda>ch. ch\<lparr>recvalt := None\<rparr>) \<sigma> else \<sigma>) in
       if sr = 1 \<and> c = sel then
         (case altpick p n (ac_ptr (mem \<sigma>1) a n) \<sigma>1 of None \<Rightarrow> None | Some \<sigma>2 \<Rightarrow> Some (0, \<sigma>2))
       else Some (sel, \<sigma>1)))"

definition altdone :: "WORD \<Rightarrow> prg \<Rightarrow> ptr \<Rightarrow> int \<Rightarrow> vm \<Rightarrow> vm option" where
  \<comment> \<open>\<open>sel = 0\<close> is \<^verbatim>\<open>nil\<close>\<close>
  "altdone a p sel sr \<sigma> =
     (case foldO (altdone_send a p sr) (sendix (mem \<sigma>) a) (sel, \<sigma>) of None \<Rightarrow> None
      | Some s1 \<Rightarrow> map_option snd (foldO (altdone_recv a p sr) (recvix (mem \<sigma>) a) s1))"

definition altgone :: "prg \<Rightarrow> vm \<Rightarrow> vm option" where
  "altgone p \<sigma> =
     (case progs \<sigma> p of None \<Rightarrow> None | Some pr \<Rightarrow>
       if pstate pr = Palt then
         (case altdone (pR_s pr) p 0 (-1) \<sigma> of None \<Rightarrow> None
          | Some \<sigma>1 \<Rightarrow> addrun p (updprog p (\<lambda>q. q\<lparr>pkill := Some ''alt channel hungup''\<rparr>) \<sigma>1))
       else Some \<sigma>)"

section \<open>Pass 1: counting and marking\<close>

definition sendrdy :: "Channel \<Rightarrow> bool" where
  \<comment> \<open>\<^verbatim>\<open>c->send || c->sendalt || c->sendq != H\<close>\<close>
  "sendrdy ch = (send ch \<noteq> [] \<or> sendalt ch \<noteq> None \<or> sendq ch \<noteq> H)"

text \<open>\<^verbatim>\<open>altmark\<close>: the number of ready channels of an array, \<open>-1\<close> when one is busy.\<close>

fun altmark_loop :: "nat list \<Rightarrow> WORD \<Rightarrow> prg \<Rightarrow> int \<Rightarrow> vm \<Rightarrow> (int \<times> vm) option" where
  "altmark_loop [] d p nrdy \<sigma> = Some (nrdy, \<sigma>)"
| "altmark_loop (n # ns) d p nrdy \<sigma> =
     (let c = arr_chan (mem \<sigma>) d n in
      if c = H then altmark_loop ns d p nrdy \<sigma>
      else (case getchan \<sigma> c of None \<Rightarrow> None | Some ch \<Rightarrow>
        let nrdy' = (if sendrdy ch then nrdy + 1 else nrdy) in
        if recvalt ch \<noteq> None then Some (-1, \<sigma>)
        else altmark_loop ns d p nrdy' (updchan c (\<lambda>ch. ch\<lparr>recvalt := Some p\<rparr>) \<sigma>)))"

definition altmark :: "ptr \<Rightarrow> prg \<Rightarrow> vm \<Rightarrow> (int \<times> vm) option" where
  "altmark c p \<sigma> =
     (case hp \<sigma> c of
        Some h \<Rightarrow> (case hs h of SArray len t root d \<Rightarrow> altmark_loop [0 ..< nat len] d p 0 \<sigma> | _ \<Rightarrow> None)
      | None \<Rightarrow> None)"

text \<open>The loop state of \<^verbatim>\<open>altrdy\<close>: the last error noted, the count, the machine.\<close>

type_synonym rdyst = "dis_error option \<times> int \<times> vm"

definition altrdy_recv :: "WORD \<Rightarrow> prg \<Rightarrow> nat \<Rightarrow> rdyst \<Rightarrow> rdyst option" where
  "altrdy_recv a p n = (\<lambda>(e, nrdy, \<sigma>).
     let c = ac_c (mem \<sigma>) a n in
     if c = H then Some (Some exNilref, nrdy, \<sigma>)
     else if isarray \<sigma> c then
       (case altmark c p \<sigma> of None \<Rightarrow> None
        | Some (r, \<sigma>1) \<Rightarrow> if r < 0 then Some (Some exBusy, nrdy, \<sigma>1) else Some (e, nrdy + r, \<sigma>1))
     else (case getchan \<sigma> c of None \<Rightarrow> None | Some ch \<Rightarrow>
       let nrdy' = (if sendrdy ch then nrdy + 1 else nrdy) in
       if recvalt ch \<noteq> None then Some (Some exBusy, nrdy', \<sigma>)
       else Some (e, nrdy', updchan c (\<lambda>ch. ch\<lparr>recvalt := Some p\<rparr>) \<sigma>)))"

definition altrdy_send :: "WORD \<Rightarrow> prg \<Rightarrow> nat \<Rightarrow> rdyst \<Rightarrow> rdyst option" where
  "altrdy_send a p n = (\<lambda>(e, nrdy, \<sigma>).
     let c = ac_c (mem \<sigma>) a n in
     if c = H then Some (Some exNilref, nrdy, \<sigma>)
     else (case getchan \<sigma> c of None \<Rightarrow> None | Some ch \<Rightarrow>
       if (recv ch \<noteq> [] \<or> recvalt ch \<noteq> None) \<and> recvalt ch = Some p then Some (Some exAlt, nrdy, \<sigma>)
       else
         let nrdy' = (if recv ch \<noteq> [] \<or> recvalt ch \<noteq> None then nrdy + 1 else nrdy) in
         if sendalt ch \<noteq> None then Some (Some exBusy, nrdy', \<sigma>)
         else Some (e, nrdy', updchan c (\<lambda>ch. ch\<lparr>sendalt := Some p\<rparr>) \<sigma>)))"

definition altrdy :: "WORD \<Rightarrow> prg \<Rightarrow> vm \<Rightarrow> int outcome" where
  "altrdy a p \<sigma> =
     (case foldO (altrdy_recv a p) (recvix (mem \<sigma>) a) (None, 0, \<sigma>) of None \<Rightarrow> Crash
      | Some s1 \<Rightarrow>
        (case foldO (altrdy_send a p) (sendix (mem \<sigma>) a) s1 of None \<Rightarrow> Crash
         | Some (None, nrdy, \<sigma>1) \<Rightarrow> Ret nrdy \<sigma>1
         | Some (Some e, nrdy, \<sigma>1) \<Rightarrow>
             (case altdone a p 0 (-1) \<sigma>1 of None \<Rightarrow> Crash | Some \<sigma>2 \<Rightarrow> Err e \<sigma>2)))"

section \<open>Withdrawing as one update\<close>

text \<open>
  \<open>clear p S R\<close> removes the marks of \<open>p\<close> from the send side of the channels in \<open>S\<close> and the receive
  side of those in \<open>R\<close>; \<open>mark p S R\<close> sets them. The loops of the source are these updates.
\<close>

definition clrobj :: "prg \<Rightarrow> bool \<Rightarrow> bool \<Rightarrow> hobj \<Rightarrow> hobj" where
  "clrobj p bs br h = h\<lparr>hs := (case hs h of
     SChan ch \<Rightarrow> SChan (ch\<lparr>sendalt := (if bs \<and> sendalt ch = Some p then None else sendalt ch),
                         recvalt := (if br \<and> recvalt ch = Some p then None else recvalt ch)\<rparr>)
   | x \<Rightarrow> x)\<rparr>"

definition mrkobj :: "prg \<Rightarrow> bool \<Rightarrow> bool \<Rightarrow> hobj \<Rightarrow> hobj" where
  "mrkobj p bs br h = h\<lparr>hs := (case hs h of
     SChan ch \<Rightarrow> SChan (ch\<lparr>sendalt := (if bs then Some p else sendalt ch),
                         recvalt := (if br then Some p else recvalt ch)\<rparr>)
   | x \<Rightarrow> x)\<rparr>"

definition clear :: "prg \<Rightarrow> ptr set \<Rightarrow> ptr set \<Rightarrow> vm \<Rightarrow> vm" where
  "clear p S R \<sigma> = \<sigma>\<lparr>hp := \<lambda>v. map_option (clrobj p (v \<in> S) (v \<in> R)) (hp \<sigma> v)\<rparr>"

definition mark :: "prg \<Rightarrow> ptr set \<Rightarrow> ptr set \<Rightarrow> vm \<Rightarrow> vm" where
  "mark p S R \<sigma> = \<sigma>\<lparr>hp := \<lambda>v. map_option (mrkobj p (v \<in> S) (v \<in> R)) (hp \<sigma> v)\<rparr>"

lemma clrobj_comp: "clrobj p bs br (clrobj p bs' br' h) = clrobj p (bs \<or> bs') (br \<or> br') h"
  by (auto simp: clrobj_def split: hstruct.splits)

lemma mrkobj_comp: "mrkobj p bs br (mrkobj p bs' br' h) = mrkobj p (bs \<or> bs') (br \<or> br') h"
  by (auto simp: mrkobj_def split: hstruct.splits)

lemma hobj_hs_id: "h\<lparr>hs := hs h\<rparr> = (h :: hobj)"
  by simp

lemma clrobj_False [simp]: "clrobj p False False = (\<lambda>h. h)"
  by (rule ext, rename_tac h, case_tac "hs h") (auto simp: clrobj_def intro: hobj_hs_id [THEN trans [rotated]])

lemma mrkobj_False [simp]: "mrkobj p False False = (\<lambda>h. h)"
  by (rule ext, rename_tac h, case_tac "hs h") (auto simp: mrkobj_def intro: hobj_hs_id [THEN trans [rotated]])

lemma clear_clear: "clear p S R (clear p S' R' \<sigma>) = clear p (S \<union> S') (R \<union> R') \<sigma>"
  by (simp add: clear_def option.map_comp comp_def clrobj_comp)

lemma mark_mark: "mark p S R (mark p S' R' \<sigma>) = mark p (S \<union> S') (R \<union> R') \<sigma>"
  by (simp add: mark_def option.map_comp comp_def mrkobj_comp)

lemma clear_empty [simp]: "clear p {} {} \<sigma> = \<sigma>"
  by (simp add: clear_def option.map_ident)

lemma mark_empty [simp]: "mark p {} {} \<sigma> = \<sigma>"
  by (simp add: mark_def option.map_ident)

lemma clear_sel [simp]:
  "mem (clear p S R \<sigma>) = mem \<sigma>" "progs (clear p S R \<sigma>) = progs \<sigma>" "runhd (clear p S R \<sigma>) = runhd \<sigma>"
  "runtl (clear p S R \<sigma>) = runtl \<sigma>" "isarray (clear p S R \<sigma>) c = isarray \<sigma> c"
  by (auto simp: clear_def isarray_def clrobj_def split: option.splits)

lemma mark_sel [simp]:
  "mem (mark p S R \<sigma>) = mem \<sigma>" "progs (mark p S R \<sigma>) = progs \<sigma>"
  "isarray (mark p S R \<sigma>) c = isarray \<sigma> c"
  by (auto simp: mark_def isarray_def mrkobj_def split: option.splits)

definition getarr :: "vm \<Rightarrow> ptr \<Rightarrow> (int \<times> WORD) option" where
  "getarr \<sigma> c = (case hp \<sigma> c of Some h \<Rightarrow> (case hs h of SArray len t root d \<Rightarrow> Some (len, d) | _ \<Rightarrow> None) | None \<Rightarrow> None)"

lemma getarr_clear [simp]: "getarr (clear p S R \<sigma>) c = getarr \<sigma> c"
  by (auto simp: getarr_def clear_def clrobj_def split: option.splits hstruct.splits)

lemma getarr_mark [simp]: "getarr (mark p S R \<sigma>) c = getarr \<sigma> c"
  by (auto simp: getarr_def mark_def mrkobj_def split: option.splits hstruct.splits)

lemma getchan_clear: "getchan (clear p S R \<sigma>) c =
    map_option (\<lambda>ch. ch\<lparr>sendalt := (if c \<in> S \<and> sendalt ch = Some p then None else sendalt ch),
                        recvalt := (if c \<in> R \<and> recvalt ch = Some p then None else recvalt ch)\<rparr>) (getchan \<sigma> c)"
  by (auto simp: getchan_def clear_def clrobj_def split: option.splits hstruct.splits)

lemma getchan_mark: "getchan (mark p S R \<sigma>) c =
    map_option (\<lambda>ch. ch\<lparr>sendalt := (if c \<in> S then Some p else sendalt ch),
                        recvalt := (if c \<in> R then Some p else recvalt ch)\<rparr>) (getchan \<sigma> c)"
  by (auto simp: getchan_def mark_def mrkobj_def split: option.splits hstruct.splits)

definition livech :: "vm \<Rightarrow> ptr \<Rightarrow> bool" where
  "livech \<sigma> c \<longleftrightarrow> getchan \<sigma> c \<noteq> None"

definition livearr :: "vm \<Rightarrow> ptr \<Rightarrow> bool" where
  "livearr \<sigma> c \<longleftrightarrow> getarr \<sigma> c \<noteq> None"

lemma live_sel [simp]:
  "livech (clear p S R \<sigma>) c = livech \<sigma> c" "livech (mark p S R \<sigma>) c = livech \<sigma> c"
  "livearr (clear p S R \<sigma>) c = livearr \<sigma> c" "livearr (mark p S R \<sigma>) c = livearr \<sigma> c"
  by (simp_all add: livech_def livearr_def getchan_clear getchan_mark)

lemma livechE: "livech \<sigma> c \<Longrightarrow> (\<And>ch. getchan \<sigma> c = Some ch \<Longrightarrow> P) \<Longrightarrow> P"
  by (auto simp: livech_def)

lemma vm_hp_eqI: "hp \<sigma> = f \<Longrightarrow> \<sigma>\<lparr>hp := f\<rparr> = \<sigma>"
  by auto

lemma unmark_recv:
  assumes "getchan \<sigma> c = Some ch"
  shows "(if recvalt ch = Some p then updchan c (\<lambda>ch. ch\<lparr>recvalt := None\<rparr>) \<sigma> else \<sigma>) = clear p {} {c} \<sigma>"
proof -
  have "clrobj p False True h = h" if "hp \<sigma> c = Some h" "recvalt ch \<noteq> Some p" for h
    using assms that by (auto simp: clrobj_def getchan_def split: hstruct.splits)
  then show ?thesis using assms
    by (auto simp: clear_def updchan_def updobj_def getchan_def clrobj_def fun_eq_iff map_option_case
        split: option.splits hstruct.splits intro!: vm.equality [THEN sym])
qed

lemma unmark_send:
  assumes "getchan \<sigma> c = Some ch"
  shows "(if sendalt ch = Some p then updchan c (\<lambda>ch. ch\<lparr>sendalt := None\<rparr>) \<sigma> else \<sigma>) = clear p {c} {} \<sigma>"
proof -
  have "clrobj p True False h = h" if "hp \<sigma> c = Some h" "sendalt ch \<noteq> Some p" for h
    using assms that by (auto simp: clrobj_def getchan_def split: hstruct.splits)
  then show ?thesis using assms
    by (auto simp: clear_def updchan_def updobj_def getchan_def clrobj_def fun_eq_iff map_option_case
        split: option.splits hstruct.splits intro!: vm.equality [THEN sym])
qed

lemma mark_one:
  "updchan c (\<lambda>ch. ch\<lparr>sendalt := Some p\<rparr>) \<sigma> = mark p {c} {} \<sigma>"
  "updchan c (\<lambda>ch. ch\<lparr>recvalt := Some p\<rparr>) \<sigma> = mark p {} {c} \<sigma>"
  by (auto simp: mark_def updchan_def updobj_def mrkobj_def fun_eq_iff map_option_case
      split: option.splits hstruct.splits intro!: vm.equality)

section \<open>The channels of an alt\<close>

definition arrcs :: "vm \<Rightarrow> ptr \<Rightarrow> ptr set" where
  "arrcs \<sigma> c = (case getarr \<sigma> c of None \<Rightarrow> {}
     | Some (len, d) \<Rightarrow> (\<lambda>i. arr_chan (mem \<sigma>) d i) ` {0 ..< nat len} - {H})"

definition sendcs :: "vm \<Rightarrow> WORD \<Rightarrow> ptr set" where
  "sendcs \<sigma> a = (\<lambda>n. ac_c (mem \<sigma>) a n) ` set (sendix (mem \<sigma>) a) - {H}"

definition entrycs :: "vm \<Rightarrow> WORD \<Rightarrow> nat \<Rightarrow> ptr set" where
  "entrycs \<sigma> a n = (let c = ac_c (mem \<sigma>) a n in
     if c = H then {} else if isarray \<sigma> c then arrcs \<sigma> c else {c})"

definition recvcs :: "vm \<Rightarrow> WORD \<Rightarrow> ptr set" where
  "recvcs \<sigma> a = (\<Union>n \<in> set (recvix (mem \<sigma>) a). entrycs \<sigma> a n)"

text \<open>Every pointer of the alt is nil or leads to a live channel or array of channels.\<close>

definition alt_wf :: "vm \<Rightarrow> WORD \<Rightarrow> bool" where
  "alt_wf \<sigma> a \<longleftrightarrow>
     (\<forall>c \<in> sendcs \<sigma> a \<union> recvcs \<sigma> a. livech \<sigma> c) \<and>
     (\<forall>n \<in> set (recvix (mem \<sigma>) a). let c = ac_c (mem \<sigma>) a n in
        c \<noteq> H \<and> isarray \<sigma> c \<longrightarrow> livearr \<sigma> c)"

lemma arrcs_sel [simp]:
  "arrcs (clear p S R \<sigma>) c = arrcs \<sigma> c" "arrcs (mark p S R \<sigma>) c = arrcs \<sigma> c"
  by (auto simp: arrcs_def split: option.splits)

lemma entrycs_sel [simp]:
  "entrycs (clear p S R \<sigma>) a n = entrycs \<sigma> a n" "entrycs (mark p S R \<sigma>) a n = entrycs \<sigma> a n"
  by (simp_all add: entrycs_def Let_def)

lemma altcs_sel [simp]:
  "sendcs (clear p S R \<sigma>) a = sendcs \<sigma> a" "recvcs (clear p S R \<sigma>) a = recvcs \<sigma> a"
  "sendcs (mark p S R \<sigma>) a = sendcs \<sigma> a" "recvcs (mark p S R \<sigma>) a = recvcs \<sigma> a"
  by (simp_all add: sendcs_def recvcs_def)

lemma alt_wf_sel [simp]:
  "alt_wf (clear p S R \<sigma>) a = alt_wf \<sigma> a" "alt_wf (mark p S R \<sigma>) a = alt_wf \<sigma> a"
  by (simp_all add: alt_wf_def Let_def)

lemma altdone_send_clear:
  assumes "ac_c (mem \<sigma>) a n = H \<or> livech \<sigma> (ac_c (mem \<sigma>) a n)"
  shows "altdone_send a p (-1) n (sel, \<sigma>) = Some (sel, clear p ({ac_c (mem \<sigma>) a n} - {H}) {} \<sigma>)"
  using assms unmark_send [of \<sigma> "ac_c (mem \<sigma>) a n" _ p]
  by (auto simp: altdone_send_def Let_def elim!: livechE)

lemma altdone_sends_clear:
  "(\<forall>n \<in> set ns. ac_c (mem \<sigma>) a n = H \<or> livech \<sigma> (ac_c (mem \<sigma>) a n)) \<Longrightarrow>
   foldO (altdone_send a p (-1)) ns (sel, \<sigma>) =
     Some (sel, clear p ((\<lambda>n. ac_c (mem \<sigma>) a n) ` set ns - {H}) {} \<sigma>)"
proof (induction ns arbitrary: \<sigma>)
  case (Cons n ns)
  have "(\<lambda>n. ac_c (mem \<sigma>) a n) ` set ns - {H} \<union> ({ac_c (mem \<sigma>) a n} - {H}) =
      (\<lambda>n. ac_c (mem \<sigma>) a n) ` set (n # ns) - {H}" by auto
  then show ?case using Cons by (simp add: altdone_send_clear clear_clear)
qed simp

lemma altunmark_loop_clear:
  "(\<forall>n \<in> set ns. arr_chan (mem \<sigma>) d n = H \<or> livech \<sigma> (arr_chan (mem \<sigma>) d n)) \<Longrightarrow>
   altunmark_loop ns d pt p (-1) dn (sel, \<sigma>) =
     Some (sel, clear p {} ((\<lambda>n. arr_chan (mem \<sigma>) d n) ` set ns - {H}) \<sigma>)"
proof (induction ns arbitrary: \<sigma>)
  case (Cons n ns)
  let ?c = "arr_chan (mem \<sigma>) d n"
  have s: "(\<lambda>n. arr_chan (mem \<sigma>) d n) ` set ns - {H} \<union> ({?c} - {H}) =
      (\<lambda>n. arr_chan (mem \<sigma>) d n) ` set (n # ns) - {H}" by auto
  have "(if ?c \<noteq> H \<and> map_option recvalt (getchan \<sigma> ?c) = Some (Some p)
      then updchan ?c (\<lambda>ch. ch\<lparr>recvalt := None\<rparr>) \<sigma> else \<sigma>) = clear p {} ({?c} - {H}) \<sigma>"
    using Cons.prems unmark_recv [of \<sigma> ?c _ p] by (cases "?c = H"; cases "getchan \<sigma> ?c") (auto simp: livech_def)
  moreover have "\<not> (?c \<noteq> H \<and> getchan \<sigma> ?c = None)" using Cons.prems by (auto simp: livech_def)
  ultimately show ?case using Cons s by (simp add: Let_def clear_clear)
qed simp

lemma altdone_recv_clear:
  assumes "\<forall>c \<in> entrycs \<sigma> a n. livech \<sigma> c"
    and "ac_c (mem \<sigma>) a n \<noteq> H \<and> isarray \<sigma> (ac_c (mem \<sigma>) a n) \<longrightarrow> livearr \<sigma> (ac_c (mem \<sigma>) a n)"
  shows "altdone_recv a p (-1) n (sel, \<sigma>) = Some (sel, clear p {} (entrycs \<sigma> a n) \<sigma>)"
proof -
  let ?c = "ac_c (mem \<sigma>) a n"
  consider "?c = H" | "?c \<noteq> H" "isarray \<sigma> ?c" | "?c \<noteq> H" "\<not> isarray \<sigma> ?c" by blast
  then show ?thesis
  proof cases
    case 1
    then show ?thesis by (simp add: altdone_recv_def entrycs_def)
  next
    case 2
    then obtain h len t root d where h: "hp \<sigma> ?c = Some h" "hs h = SArray len t root d"
      using assms(2) by (auto simp: livearr_def getarr_def split: option.splits hstruct.splits)
    then have "entrycs \<sigma> a n = (\<lambda>i. arr_chan (mem \<sigma>) d i) ` set [0 ..< nat len] - {H}"
      using 2 by (simp add: entrycs_def arrcs_def getarr_def)
    then show ?thesis using 2 h assms(1)
      by (simp add: altdone_recv_def altunmark_def) (subst altunmark_loop_clear; auto)
  next
    case 3
    then show ?thesis using assms(1) unmark_recv [of \<sigma> ?c _ p]
      by (auto simp: altdone_recv_def entrycs_def Let_def elim!: livechE)
  qed
qed

lemma altdone_recvs_clear:
  "(\<forall>n \<in> set ns. (\<forall>c \<in> entrycs \<sigma> a n. livech \<sigma> c) \<and>
      (ac_c (mem \<sigma>) a n \<noteq> H \<and> isarray \<sigma> (ac_c (mem \<sigma>) a n) \<longrightarrow> livearr \<sigma> (ac_c (mem \<sigma>) a n))) \<Longrightarrow>
   foldO (altdone_recv a p (-1)) ns (sel, \<sigma>) = Some (sel, clear p {} (\<Union>n \<in> set ns. entrycs \<sigma> a n) \<sigma>)"
proof (induction ns arbitrary: \<sigma>)
  case (Cons n ns)
  then show ?case by (simp add: altdone_recv_clear clear_clear Un_commute)
qed simp

lemma altdone_clear:
  assumes "alt_wf \<sigma> a"
  shows "altdone a p sel (-1) \<sigma> = Some (clear p (sendcs \<sigma> a) (recvcs \<sigma> a) \<sigma>)"
proof -
  have 1: "\<forall>n \<in> set (sendix (mem \<sigma>) a). ac_c (mem \<sigma>) a n = H \<or> livech \<sigma> (ac_c (mem \<sigma>) a n)"
    using assms by (auto simp: alt_wf_def sendcs_def)
  have 2: "\<forall>n \<in> set (recvix (mem \<sigma>) a). (\<forall>c \<in> entrycs \<sigma> a n. livech \<sigma> c) \<and>
      (ac_c (mem \<sigma>) a n \<noteq> H \<and> isarray \<sigma> (ac_c (mem \<sigma>) a n) \<longrightarrow> livearr \<sigma> (ac_c (mem \<sigma>) a n))"
    using assms by (auto simp: alt_wf_def recvcs_def Let_def)
  show ?thesis
    using altdone_sends_clear [OF 1, of p sel] 2
      altdone_recvs_clear [of "recvix (mem \<sigma>) a" "clear p (sendcs \<sigma> a) {} \<sigma>" a p sel]
    by (simp add: altdone_def sendcs_def [symmetric] recvcs_def [symmetric] clear_clear)
qed

section \<open>Marking as one update\<close>

text \<open>The channels about to be marked are free on the side that gets the mark.\<close>

definition okmark :: "ptr set \<Rightarrow> ptr set \<Rightarrow> vm \<Rightarrow> bool" where
  "okmark S R \<sigma> \<longleftrightarrow> (\<forall>c \<in> S. map_option sendalt (getchan \<sigma> c) = Some None) \<and>
     (\<forall>c \<in> R. map_option recvalt (getchan \<sigma> c) = Some None)"

definition nomark :: "prg \<Rightarrow> vm \<Rightarrow> bool" where
  "nomark p \<sigma> \<longleftrightarrow> (\<forall>c ch. getchan \<sigma> c = Some ch \<longrightarrow> sendalt ch \<noteq> Some p \<and> recvalt ch \<noteq> Some p)"

lemma okmark_Un:
  assumes "okmark S R \<sigma>" "okmark S' R' (mark p S R \<sigma>)"
  shows "okmark (S' \<union> S) (R' \<union> R) \<sigma>"
proof -
  have "map_option sendalt (getchan \<sigma> c) = Some None" if "c \<in> S'" for c
    using assms(2) that by (auto simp: okmark_def getchan_mark split: if_splits)
  moreover have "map_option recvalt (getchan \<sigma> c) = Some None" if "c \<in> R'" for c
    using assms(2) that by (auto simp: okmark_def getchan_mark split: if_splits)
  ultimately show ?thesis using assms(1) unfolding okmark_def by blast
qed

lemma clear_mark:
  assumes "okmark S R \<sigma>" "nomark p \<sigma>" "S \<subseteq> S'" "R \<subseteq> R'"
  shows "clear p S' R' (mark p S R \<sigma>) = \<sigma>"
proof -
  have "map_option (clrobj p (v \<in> S') (v \<in> R')) (map_option (mrkobj p (v \<in> S) (v \<in> R)) (hp \<sigma> v)) = hp \<sigma> v" for v
  proof (cases "hp \<sigma> v")
    case (Some h)
    have "clrobj p (v \<in> S') (v \<in> R') (mrkobj p (v \<in> S) (v \<in> R) h) = h"
    proof (cases "hs h")
      case (SChan ch)
      have "getchan \<sigma> v = Some ch" using Some SChan by (simp add: getchan_def)
      then have "sendalt ch \<noteq> Some p" "recvalt ch \<noteq> Some p" "v \<in> S \<Longrightarrow> sendalt ch = None"
        "v \<in> R \<Longrightarrow> recvalt ch = None"
        using assms(1,2) by (auto simp: okmark_def nomark_def)
      then show ?thesis using SChan assms(3,4)
        by (auto simp: clrobj_def mrkobj_def intro!: hobj.equality Channel.equality)
    qed (auto simp: clrobj_def mrkobj_def intro!: hobj.equality)
    then show ?thesis using Some by simp
  qed simp
  then show ?thesis by (auto simp: clear_def mark_def intro!: vm.equality)
qed

lemma altmark_loop_mark:
  "(\<forall>n \<in> set ns. arr_chan (mem \<sigma>) d n = H \<or> livech \<sigma> (arr_chan (mem \<sigma>) d n)) \<Longrightarrow> 0 \<le> k \<Longrightarrow>
   \<exists>r R. altmark_loop ns d p k \<sigma> = Some (r, mark p {} R \<sigma>) \<and> okmark {} R \<sigma> \<and>
     R \<subseteq> (\<lambda>n. arr_chan (mem \<sigma>) d n) ` set ns - {H} \<and>
     (0 \<le> r \<longrightarrow> R = (\<lambda>n. arr_chan (mem \<sigma>) d n) ` set ns - {H})"
proof (induction ns arbitrary: \<sigma> k)
  case Nil
  then show ?case by (auto simp: okmark_def intro!: exI [of _ "{}"])
next
  case (Cons n ns)
  let ?c = "arr_chan (mem \<sigma>) d n"
  let ?U = "\<lambda>ns. (\<lambda>n. arr_chan (mem \<sigma>) d n) ` set ns - {H}"
  show ?case
  proof (cases "?c = H")
    case True
    then show ?thesis using Cons.IH [of \<sigma> k] Cons.prems by simp
  next
    case False
    then obtain ch where ch: "getchan \<sigma> ?c = Some ch" using Cons.prems by (auto simp: livech_def)
    let ?k = "if sendrdy ch then k + 1 else k"
    show ?thesis
    proof (cases "recvalt ch = None")
      case busy: False
      then show ?thesis using False ch
        by (auto simp: Let_def okmark_def intro!: exI [of _ "{}"])
    next
      case True
      let ?\<sigma>1 = "mark p {} {?c} \<sigma>"
      have k: "0 \<le> ?k" using Cons.prems(2) by simp
      obtain r R where r: "altmark_loop ns d p ?k ?\<sigma>1 = Some (r, mark p {} R ?\<sigma>1)" "okmark {} R ?\<sigma>1"
        "R \<subseteq> ?U ns" "0 \<le> r \<longrightarrow> R = ?U ns"
        using Cons.IH [of ?\<sigma>1, OF _ k] Cons.prems by auto
      have "okmark {} ({?c}) \<sigma>" using ch True by (simp add: okmark_def)
      from okmark_Un [OF this r(2)] have "okmark {} (R \<union> {?c}) \<sigma>" by simp
      moreover have "altmark_loop (n # ns) d p k \<sigma> = Some (r, mark p {} (R \<union> {?c}) \<sigma>)"
        using r(1) False ch True by (simp add: Let_def mark_one mark_mark)
      moreover have "R \<union> {?c} \<subseteq> ?U (n # ns)" "0 \<le> r \<longrightarrow> R \<union> {?c} = ?U (n # ns)"
        using r(3,4) False by auto
      ultimately show ?thesis by blast
    qed
  qed
qed

lemma altrdy_recv_mark:
  assumes "\<forall>c \<in> entrycs \<sigma> a n. livech \<sigma> c"
    and "ac_c (mem \<sigma>) a n \<noteq> H \<and> isarray \<sigma> (ac_c (mem \<sigma>) a n) \<longrightarrow> livearr \<sigma> (ac_c (mem \<sigma>) a n)"
  shows "\<exists>e' k' R. altrdy_recv a p n (e, k, \<sigma>) = Some (e', k', mark p {} R \<sigma>) \<and> okmark {} R \<sigma> \<and>
    R \<subseteq> entrycs \<sigma> a n \<and> (e' = None \<longrightarrow> e = None \<and> R = entrycs \<sigma> a n)"
proof -
  let ?c = "ac_c (mem \<sigma>) a n"
  consider "?c = H" | "?c \<noteq> H" "isarray \<sigma> ?c" | "?c \<noteq> H" "\<not> isarray \<sigma> ?c" by blast
  then show ?thesis
  proof cases
    case 1
    then show ?thesis by (auto simp: altrdy_recv_def okmark_def intro!: exI [of _ "{}"])
  next
    case 2
    then obtain h len t root d where h: "hp \<sigma> ?c = Some h" "hs h = SArray len t root d"
      using assms(2) by (auto simp: livearr_def getarr_def split: option.splits hstruct.splits)
    then have en: "entrycs \<sigma> a n = (\<lambda>i. arr_chan (mem \<sigma>) d i) ` set [0 ..< nat len] - {H}"
      using 2 by (simp add: entrycs_def arrcs_def getarr_def)
    have "\<forall>i \<in> set [0 ..< nat len]. arr_chan (mem \<sigma>) d i = H \<or> livech \<sigma> (arr_chan (mem \<sigma>) d i)"
      using assms(1) unfolding en by auto
    from altmark_loop_mark [OF this, of 0 p] obtain r R where
      "altmark_loop [0 ..< nat len] d p 0 \<sigma> = Some (r, mark p {} R \<sigma>)" "okmark {} R \<sigma>"
      "R \<subseteq> entrycs \<sigma> a n" "0 \<le> r \<longrightarrow> R = entrycs \<sigma> a n" unfolding en by auto
    then show ?thesis using 2 h
      by (cases "r < 0") (auto simp: altrdy_recv_def altmark_def)
  next
    case 3
    then obtain ch where ch: "getchan \<sigma> ?c = Some ch"
      using assms(1) by (auto simp: entrycs_def elim!: livechE)
    show ?thesis
    proof (cases "recvalt ch = None")
      case True
      then show ?thesis using 3 ch
        by (auto simp: altrdy_recv_def Let_def entrycs_def mark_one okmark_def intro!: exI [of _ "{?c}"])
    next
      case False
      then show ?thesis using 3 ch
        by (auto simp: altrdy_recv_def Let_def entrycs_def okmark_def intro!: exI [of _ "{}"])
    qed
  qed
qed

lemma altrdy_recvs_mark:
  "(\<forall>n \<in> set ns. (\<forall>c \<in> entrycs \<sigma> a n. livech \<sigma> c) \<and>
      (ac_c (mem \<sigma>) a n \<noteq> H \<and> isarray \<sigma> (ac_c (mem \<sigma>) a n) \<longrightarrow> livearr \<sigma> (ac_c (mem \<sigma>) a n))) \<Longrightarrow>
   \<exists>e' k' R. foldO (altrdy_recv a p) ns (e, k, \<sigma>) = Some (e', k', mark p {} R \<sigma>) \<and> okmark {} R \<sigma> \<and>
    R \<subseteq> (\<Union>n \<in> set ns. entrycs \<sigma> a n) \<and> (e' = None \<longrightarrow> e = None \<and> R = (\<Union>n \<in> set ns. entrycs \<sigma> a n))"
proof (induction ns arbitrary: e k \<sigma>)
  case Nil
  then show ?case by (auto simp: okmark_def intro!: exI [of _ "{}"])
next
  case (Cons n ns)
  obtain e1 k1 R1 where 1: "altrdy_recv a p n (e, k, \<sigma>) = Some (e1, k1, mark p {} R1 \<sigma>)" "okmark {} R1 \<sigma>"
    "R1 \<subseteq> entrycs \<sigma> a n" "e1 = None \<longrightarrow> e = None \<and> R1 = entrycs \<sigma> a n"
    using altrdy_recv_mark [of \<sigma> a n p e k] Cons.prems by auto
  obtain e2 k2 R2 where 2: "foldO (altrdy_recv a p) ns (e1, k1, mark p {} R1 \<sigma>) =
      Some (e2, k2, mark p {} R2 (mark p {} R1 \<sigma>))" "okmark {} R2 (mark p {} R1 \<sigma>)"
    "R2 \<subseteq> (\<Union>n \<in> set ns. entrycs \<sigma> a n)" "e2 = None \<longrightarrow> e1 = None \<and> R2 = (\<Union>n \<in> set ns. entrycs \<sigma> a n)"
    using Cons.IH [of "mark p {} R1 \<sigma>" e1 k1] Cons.prems by auto
  have "okmark {} (R2 \<union> R1) \<sigma>" using okmark_Un [OF 1(2) 2(2)] by simp
  then show ?case using 1 2 by (auto simp: mark_mark intro!: exI [of _ "R2 \<union> R1"])
qed

lemma altrdy_send_mark:
  assumes "ac_c (mem \<sigma>) a n = H \<or> livech \<sigma> (ac_c (mem \<sigma>) a n)"
  shows "\<exists>e' k' S. altrdy_send a p n (e, k, \<sigma>) = Some (e', k', mark p S {} \<sigma>) \<and> okmark S {} \<sigma> \<and>
    S \<subseteq> {ac_c (mem \<sigma>) a n} - {H} \<and> (e' = None \<longrightarrow> e = None \<and> S = {ac_c (mem \<sigma>) a n} - {H})"
proof -
  let ?c = "ac_c (mem \<sigma>) a n"
  show ?thesis
  proof (cases "?c = H")
    case True
    then show ?thesis by (auto simp: altrdy_send_def okmark_def intro!: exI [of _ "{}"])
  next
    case False
    then obtain ch where ch: "getchan \<sigma> ?c = Some ch" using assms by (auto elim!: livechE)
    show ?thesis
    proof (cases "recvalt ch \<noteq> Some p \<and> sendalt ch = None")
      case True
      then show ?thesis using False ch
        by (auto simp: altrdy_send_def Let_def mark_one okmark_def intro!: exI [of _ "{?c}"])
    next
      case busy: False
      then show ?thesis using False ch
        by (auto simp: altrdy_send_def Let_def okmark_def intro!: exI [of _ "{}"])
    qed
  qed
qed

lemma altrdy_sends_mark:
  "(\<forall>n \<in> set ns. ac_c (mem \<sigma>) a n = H \<or> livech \<sigma> (ac_c (mem \<sigma>) a n)) \<Longrightarrow>
   \<exists>e' k' S. foldO (altrdy_send a p) ns (e, k, \<sigma>) = Some (e', k', mark p S {} \<sigma>) \<and> okmark S {} \<sigma> \<and>
    S \<subseteq> (\<lambda>n. ac_c (mem \<sigma>) a n) ` set ns - {H} \<and>
    (e' = None \<longrightarrow> e = None \<and> S = (\<lambda>n. ac_c (mem \<sigma>) a n) ` set ns - {H})"
proof (induction ns arbitrary: e k \<sigma>)
  case Nil
  then show ?case by (auto simp: okmark_def intro!: exI [of _ "{}"])
next
  case (Cons n ns)
  let ?U = "\<lambda>ns. (\<lambda>n. ac_c (mem \<sigma>) a n) ` set ns - {H}"
  obtain e1 k1 S1 where 1: "altrdy_send a p n (e, k, \<sigma>) = Some (e1, k1, mark p S1 {} \<sigma>)" "okmark S1 {} \<sigma>"
    "S1 \<subseteq> {ac_c (mem \<sigma>) a n} - {H}" "e1 = None \<longrightarrow> e = None \<and> S1 = {ac_c (mem \<sigma>) a n} - {H}"
    using altrdy_send_mark [of \<sigma> a n p e k] Cons.prems by auto
  obtain e2 k2 S2 where 2: "foldO (altrdy_send a p) ns (e1, k1, mark p S1 {} \<sigma>) =
      Some (e2, k2, mark p S2 {} (mark p S1 {} \<sigma>))" "okmark S2 {} (mark p S1 {} \<sigma>)"
    "S2 \<subseteq> ?U ns" "e2 = None \<longrightarrow> e1 = None \<and> S2 = ?U ns"
    using Cons.IH [of "mark p S1 {} \<sigma>" e1 k1] Cons.prems by auto
  have "okmark (S2 \<union> S1) {} \<sigma>" using okmark_Un [OF 1(2) 2(2)] by simp
  moreover have "S2 \<union> S1 \<subseteq> ?U (n # ns)" "e2 = None \<longrightarrow> e = None \<and> S2 \<union> S1 = ?U (n # ns)"
    using 1 2 by auto
  ultimately show ?case using 1 2 by (auto simp: mark_mark intro!: exI [of _ "S2 \<union> S1"])
qed

lemma altrdy_spec:
  assumes wf: "alt_wf \<sigma> a" and nm: "nomark p \<sigma>"
  shows "(\<exists>k. altrdy a p \<sigma> = Ret k (mark p (sendcs \<sigma> a) (recvcs \<sigma> a) \<sigma>) \<and>
            okmark (sendcs \<sigma> a) (recvcs \<sigma> a) \<sigma>) \<or>
         (\<exists>e. altrdy a p \<sigma> = Err e \<sigma>)"
proof -
  have r: "\<forall>n \<in> set (recvix (mem \<sigma>) a). (\<forall>c \<in> entrycs \<sigma> a n. livech \<sigma> c) \<and>
      (ac_c (mem \<sigma>) a n \<noteq> H \<and> isarray \<sigma> (ac_c (mem \<sigma>) a n) \<longrightarrow> livearr \<sigma> (ac_c (mem \<sigma>) a n))"
    using wf by (auto simp: alt_wf_def recvcs_def Let_def)
  obtain e1 k1 R where 1: "foldO (altrdy_recv a p) (recvix (mem \<sigma>) a) (None, 0, \<sigma>) = Some (e1, k1, mark p {} R \<sigma>)"
    "okmark {} R \<sigma>" "R \<subseteq> recvcs \<sigma> a" "e1 = None \<longrightarrow> R = recvcs \<sigma> a"
    using altrdy_recvs_mark [OF r, of p None 0] by (auto simp: recvcs_def)
  let ?\<sigma>1 = "mark p {} R \<sigma>"
  have s: "\<forall>n \<in> set (sendix (mem ?\<sigma>1) a). ac_c (mem ?\<sigma>1) a n = H \<or> livech ?\<sigma>1 (ac_c (mem ?\<sigma>1) a n)"
    using wf by (auto simp: alt_wf_def sendcs_def)
  obtain e2 k2 S where 2: "foldO (altrdy_send a p) (sendix (mem \<sigma>) a) (e1, k1, ?\<sigma>1) = Some (e2, k2, mark p S R \<sigma>)"
    "okmark S {} ?\<sigma>1" "S \<subseteq> sendcs \<sigma> a" "e2 = None \<longrightarrow> e1 = None \<and> S = sendcs \<sigma> a"
    using altrdy_sends_mark [OF s, of p e1 k1] by (auto simp: sendcs_def mark_mark)
  have ok: "okmark S R \<sigma>" using okmark_Un [OF 1(2) 2(2)] by simp
  show ?thesis
  proof (cases e2)
    case None
    then have "R = recvcs \<sigma> a" "S = sendcs \<sigma> a" using 1(4) 2(4) by auto
    then show ?thesis using None 1 2 ok by (auto simp: altrdy_def)
  next
    case (Some e)
    have "altdone a p 0 (-1) (mark p S R \<sigma>) = Some \<sigma>"
      using altdone_clear [of "mark p S R \<sigma>" a p 0] wf clear_mark [OF ok nm 2(3) 1(3)] by simp
    then show ?thesis using Some 1 2 by (auto simp: altrdy_def)
  qed
qed

section \<open>Properties\<close>


text \<open>An alt at address 256 with one send entry (channel 4096) and one receive entry (channel 8192).\<close>

definition chan0 :: Channel where
  "chan0 = \<lparr>sendq = H, send = [], sendalt = None, recv = [], recvalt = None, mover = mv_movw, midw = 0, midt = 0\<rparr>"

definition chobj :: "Channel \<Rightarrow> hobj" where
  "chobj ch = \<lparr>color = 0, href = 1, ht = Some Tchannel, hs = SChan ch\<rparr>"

definition vm_alt :: vm where
  "vm_alt = vm0\<lparr>mem := wrW (wrW (wrW (wrW (\<lambda>_. 0) 256 1) 260 1) 264 4096) 272 8192,
     hp := (\<lambda>_. None)(4096 \<mapsto> chobj chan0, 8192 \<mapsto> chobj (chan0\<lparr>send := [2]\<rparr>))\<rparr>"

lemma vm_alt_reads:
  "nsend (mem vm_alt) 256 = 1" "nrecv (mem vm_alt) 256 = 1"
  "ac_c (mem vm_alt) 256 0 = 4096" "ac_c (mem vm_alt) 256 (Suc 0) = 8192"
  by (simp_all add: vm_alt_def nsend_def nrecv_def ac_c_def rdW_wrW_other disjoint_def)

lemma vm_alt_wf: "alt_wf vm_alt 256" "nomark 1 vm_alt"
proof -
  have "recvix (mem vm_alt) 256 = [Suc 0]" "sendix (mem vm_alt) 256 = [0]"
    by (simp_all add: recvix_def sendix_def vm_alt_reads upt_rec)
  then show "alt_wf vm_alt 256"
    by (simp add: alt_wf_def sendcs_def recvcs_def entrycs_def vm_alt_reads livech_def)
      (simp add: vm_alt_def getchan_def chobj_def isarray_def H_def Tchannel_def Tarray_def)
  show "nomark 1 vm_alt"
    by (auto simp: nomark_def getchan_def vm_alt_def chobj_def chan0_def split: if_splits)
qed


lemma vm_alt_rdy: "\<exists>\<sigma>1. altrdy 256 1 vm_alt = Ret 1 \<sigma>1"
proof -
  have ix: "recvix (mem vm_alt) 256 = [Suc 0]" "sendix (mem vm_alt) 256 = [0]"
    by (simp_all add: recvix_def sendix_def vm_alt_reads upt_rec)
  have g: "getchan vm_alt 8192 = Some (chan0\<lparr>send := [2]\<rparr>)" "getchan vm_alt 4096 = Some chan0"
    "\<not> isarray vm_alt 8192"
    by (simp_all add: vm_alt_def getchan_def chobj_def isarray_def Tchannel_def Tarray_def)
  show ?thesis
    by (simp add: altrdy_def ix altrdy_recv_def altrdy_send_def vm_alt_reads g mark_one getchan_mark
        Let_def chan0_def sendrdy_def H_def)
qed

text \<open>C18: withdrawing from an alt that was entered undoes the first pass: all marks are gone and
  nothing else changed.\<close>

theorem altdone_undoes_altrdy:
  assumes "alt_wf \<sigma> a" and "nomark p \<sigma>" and "altrdy a p \<sigma> = Ret k \<sigma>1"
  shows "altdone a p 0 (-1) \<sigma>1 = Some \<sigma>"
proof -
  from altrdy_spec [OF assms(1,2)] assms(3)
  have m: "\<sigma>1 = mark p (sendcs \<sigma> a) (recvcs \<sigma> a) \<sigma>" "okmark (sendcs \<sigma> a) (recvcs \<sigma> a) \<sigma>" by auto
  have "altdone a p 0 (-1) \<sigma>1 = Some (clear p (sendcs \<sigma> a) (recvcs \<sigma> a) \<sigma>1)"
    using altdone_clear [of \<sigma>1 a p 0] assms(1) m(1) by simp
  also have "clear p (sendcs \<sigma> a) (recvcs \<sigma> a) \<sigma>1 = \<sigma>"
    unfolding m(1) by (rule clear_mark [OF m(2) assms(2)]) simp_all
  finally show ?thesis .
qed

theorem altdone_undoes_altrdy_witness:
  "\<exists>\<sigma>1. altrdy 256 1 vm_alt = Ret 1 \<sigma>1 \<and> altdone 256 1 0 (-1) \<sigma>1 = Some vm_alt"
  using vm_alt_rdy altdone_undoes_altrdy [OF vm_alt_wf] by blast

end
