(* ===== verification/Pool_Arena.thy ===== *)
theory Pool_Arena
  imports Pool
begin

text \<open>
  The allocator keeps its arena consistent: the free tree is a search tree by size that holds
  exactly the free blocks, blocks tile the chunks, free neighbours are joined, and an allocated
  block is never moved, shared or overlapped.
\<close>

unbundle bit_operations_syntax

section \<open>The free tree is a search tree\<close>

fun tblks :: "ftree \<Rightarrow> int set" where
  "tblks Tnil = {}"
| "tblks (Tnode l t rg r) = insert t (set rg) \<union> tblks l \<union> tblks r"

fun sorted_tree :: "(int \<Rightarrow> int) \<Rightarrow> ftree \<Rightarrow> bool" where
  "sorted_tree sz Tnil = True"
| "sorted_tree sz (Tnode l t rg r) \<longleftrightarrow>
     sorted_tree sz l \<and> sorted_tree sz r \<and> distinct (t # rg) \<and> (\<forall>x\<in>set rg. sz x = sz t) \<and>
     (\<forall>x\<in>tblks l. sz x < sz t) \<and> (\<forall>x\<in>tblks r. sz t < sz x)"

lemma sorted_tree_cong: "(\<And>x. x \<in> tblks T \<Longrightarrow> sz' x = sz x) \<Longrightarrow> sorted_tree sz T \<Longrightarrow> sorted_tree sz' T"
  by (induction T) auto

lemma tblks_treeadd: "tblks (treeadd sz q T) = insert q (tblks T)"
  by (induction T) auto

lemma treeadd_sorted: "sorted_tree sz T \<Longrightarrow> q \<notin> tblks T \<Longrightarrow> sorted_tree sz (treeadd sz q T)"
  by (induction T) (auto simp: tblks_treeadd)

lemma splitmin_ok:
  assumes "sorted_tree sz (Tnode l t rg r)" "splitmin l t rg r = ((m, mrg), T)"
  shows "sorted_tree sz T" "tblks (Tnode l t rg r) = insert m (set mrg) \<union> tblks T" "distinct (m # mrg)"
    "\<forall>x\<in>set mrg. sz x = sz m" "\<forall>x\<in>tblks T. sz m < sz x" "m \<notin> tblks T"
  using assms
proof (induction l t rg r arbitrary: m mrg T rule: splitmin.induct)
  case (1 t rg r) { case 1 with 1 show ?case by auto next case 2 with 1 show ?case by auto next case 3 with 1 show ?case by auto
    next case 4 with 1 show ?case by auto next case 5 with 1 show ?case by auto next case 6 with 1 show ?case by auto }
next
  case (2 l' t' rg' r' t rg r)
  { fix m mrg T assume s: "sorted_tree sz (Tnode (Tnode l' t' rg' r') t rg r)" "splitmin (Tnode l' t' rg' r') t rg r = ((m, mrg), T)"
    obtain T' where T: "splitmin l' t' rg' r' = ((m, mrg), T')" "T = Tnode T' t rg r"
      using s(2) by (auto split: prod.splits)
    have s': "sorted_tree sz (Tnode l' t' rg' r')" using s(1) by simp
    note I = "2.IH"(1) [OF s' T(1)] "2.IH"(2) [OF s' T(1)] "2.IH"(3) [OF s' T(1)] "2.IH"(4) [OF s' T(1)] "2.IH"(5) [OF s' T(1)] "2.IH"(6) [OF s' T(1)]
    have m: "sz m < sz t" using s(1) I(2) by auto
    have mm: "\<forall>x\<in>tblks T'. sz x < sz t" using s(1) I(2) by auto
    have "sorted_tree sz T" using s(1) I(1) mm T(2) by simp
    moreover have "tblks (Tnode (Tnode l' t' rg' r') t rg r) = insert m (set mrg) \<union> tblks T" using I(2) T(2) by auto
    moreover have "\<forall>x\<in>tblks T. sz m < sz x" using I(5) m s(1) T(2) by auto
    moreover then have "m \<notin> tblks T" by blast
    ultimately have "sorted_tree sz T \<and> tblks (Tnode (Tnode l' t' rg' r') t rg r) = insert m (set mrg) \<union> tblks T \<and>
       distinct (m # mrg) \<and> (\<forall>x\<in>set mrg. sz x = sz m) \<and> (\<forall>x\<in>tblks T. sz m < sz x) \<and> m \<notin> tblks T" using I(3,4) by blast }
  note A = this
  { case 1 show ?case using A [OF 1] by blast next case 2 show ?case using A [OF 2] by blast
   next case 3 show ?case using A [OF 3] by blast next case 4 show ?case using A [OF 4] by blast
   next case 5 show ?case using A [OF 5] by blast next case 6 show ?case using A [OF 6] by blast }
qed

lemma unlinkroot_ok:
  assumes "sorted_tree sz l" "sorted_tree sz r" "\<forall>x\<in>tblks l. \<forall>y\<in>tblks r. sz x < sz y"
  shows "sorted_tree sz (unlinkroot l r) \<and> tblks (unlinkroot l r) = tblks l \<union> tblks r"
proof (cases l)
  case Tnil
  then show ?thesis using assms by (simp add: unlinkroot_def)
next
  case l: (Tnode ll lt lrg lr)
  show ?thesis
  proof (cases r)
    case Tnil
    then show ?thesis using assms l by (simp add: unlinkroot_def)
  next
    case r: (Tnode rl rt rg rr)
    obtain m mrg T where s: "splitmin rl rt rg rr = ((m, mrg), T)" by (metis surj_pair)
    note S = splitmin_ok [OF assms(2) [unfolded r] s]
    have u: "unlinkroot l r = Tnode l m mrg T" using l r s by (simp add: unlinkroot_def)
    have b: "tblks r = insert m (set mrg) \<union> tblks T" using S(2) r by simp
    have "\<forall>x\<in>tblks l. sz x < sz m" using assms(3) b by blast
    then have "sorted_tree sz (Tnode l m mrg T)" using assms(1) S by simp
    moreover have "tblks (Tnode l m mrg T) = tblks l \<union> tblks r" using b by auto
    ultimately show ?thesis using u by simp
  qed
qed

lemma treedel_ok:
  assumes "sorted_tree sz T" "q \<in> tblks T"
  shows "sorted_tree sz (treedel sz q T) \<and> tblks (treedel sz q T) = tblks T - {q}"
  using assms
proof (induction T)
  case (Tnode l t rg r)
  have lr: "\<forall>x\<in>tblks l. sz x < sz t" "\<forall>x\<in>tblks r. sz t < sz x" "\<forall>x\<in>set rg. sz x = sz t" using Tnode.prems by auto
  show ?case
  proof (cases "sz q = sz t")
    case True
    then have q: "q \<notin> tblks l" "q \<notin> tblks r" using lr by auto
    show ?thesis
    proof (cases "q = t")
      case qt: True
      have tl: "t \<notin> tblks l" "t \<notin> tblks r" "t \<notin> set rg" using q qt Tnode.prems by auto
      show ?thesis
      proof (cases rg)
        case Nil
        have "\<forall>x\<in>tblks l. \<forall>y\<in>tblks r. sz x < sz y" using lr by fastforce
        then show ?thesis using unlinkroot_ok [of sz l r] Tnode.prems qt Nil tl by auto
      next
        case (Cons f fs)
        then have e: "sz f = sz t" "\<forall>x\<in>set fs. sz x = sz f" using lr(3) by simp_all
        have "sorted_tree sz (Tnode l f fs r)" using Tnode.prems(1) lr(1,2) e by (simp add: Cons)
        moreover have "tblks (Tnode l f fs r) = tblks (Tnode l t rg r) - {q}" using Cons qt tl by auto
        ultimately show ?thesis using Cons qt by simp
      qed
    next
      case False
      have d: "distinct rg" "t \<notin> set rg" using Tnode.prems(1) by simp_all
      have "sorted_tree sz (Tnode l t (remove1 q rg) r)" using Tnode.prems(1) d by (simp add: set_remove1_eq)
      moreover have "tblks (Tnode l t (remove1 q rg) r) = tblks (Tnode l t rg r) - {q}"
        using q False d by (auto simp: set_remove1_eq)
      ultimately show ?thesis using True False by simp
    qed
  next
    case False
    show ?thesis
    proof (cases "sz q < sz t")
      case True
      have "q \<noteq> t" "q \<notin> set rg" "q \<notin> tblks r" using True lr by (metis less_irrefl less_asym)+
      moreover from this have "q \<in> tblks l" using Tnode.prems(2) by simp
      ultimately have "sorted_tree sz (treedel sz q l)" "tblks (treedel sz q l) = tblks l - {q}"
        using Tnode.IH(1) Tnode.prems(1) by simp_all
      with Tnode.prems(1) \<open>q \<noteq> t\<close> \<open>q \<notin> set rg\<close> \<open>q \<notin> tblks r\<close> show ?thesis
        using False True by (simp add: insert_Diff_if Un_Diff)
    next
      case F2: False
      have "q \<noteq> t" "q \<notin> set rg" "q \<notin> tblks l" using F2 False lr by metis+
      moreover from this have "q \<in> tblks r" using Tnode.prems(2) by simp
      ultimately have "sorted_tree sz (treedel sz q r)" "tblks (treedel sz q r) = tblks r - {q}"
        using Tnode.IH(2) Tnode.prems(1) by simp_all
      with Tnode.prems(1) \<open>q \<noteq> t\<close> \<open>q \<notin> set rg\<close> \<open>q \<notin> tblks l\<close> show ?thesis
        using False F2 by (simp add: insert_Diff_if Un_Diff)
    qed
  qed
qed simp

text \<open>Best fit.\<close>

lemma treefind_ok:
  assumes "sorted_tree sz T"
  shows "case treefind sz n q T of
      Exact t \<Rightarrow> (t \<in> tblks T \<and> sz t = n) \<or> q = Exact t
    | Best b \<Rightarrow> (b \<in> tblks T \<and> n < sz b \<and> (\<forall>x\<in>tblks T. n \<le> sz x \<longrightarrow> sz b \<le> sz x)) \<or> (q = Best b \<and> (\<forall>x\<in>tblks T. sz x < n))
    | Nofit \<Rightarrow> (\<forall>x\<in>tblks T. sz x < n) \<and> q = Nofit"
  using assms
proof (induction T arbitrary: q)
  case Tnil
  then show ?case by (cases q) auto
next
  case (Tnode l t rg r)
  have lr: "\<forall>x\<in>tblks l. sz x < sz t" "\<forall>x\<in>tblks r. sz t < sz x" "\<forall>x\<in>set rg. sz x = sz t" using Tnode.prems by auto
  consider "sz t = n" | "n < sz t" | "sz t < n" by linarith
  then show ?case
  proof cases
    case 1
    have "(case rg of [] \<Rightarrow> t | f # _ \<Rightarrow> f) \<in> insert t (set rg)" by (cases rg) simp_all
    moreover from this have "sz (case rg of [] \<Rightarrow> t | f # _ \<Rightarrow> f) = n" using lr(3) 1 by (cases rg) simp_all
    ultimately show ?thesis using 1 by auto
  next
    case 2
    have b: "\<forall>x\<in>insert t (set rg) \<union> tblks r. sz t \<le> sz x" using lr by auto
    have "sorted_tree sz l" using Tnode.prems by simp
    from Tnode.IH(1) [OF this, of "Best t"] have i: "case treefind sz n (Best t) l of
        Exact t' \<Rightarrow> t' \<in> tblks l \<and> sz t' = n
      | Best b \<Rightarrow> (b \<in> tblks l \<and> n < sz b \<and> (\<forall>x\<in>tblks l. n \<le> sz x \<longrightarrow> sz b \<le> sz x)) \<or> (b = t \<and> (\<forall>x\<in>tblks l. sz x < n))
      | Nofit \<Rightarrow> False"
      by (auto split: found.splits)
    have e: "treefind sz n q (Tnode l t rg r) = treefind sz n (Best t) l" using 2 by simp
    show ?thesis
    proof (cases "treefind sz n (Best t) l")
      case (Best c)
      have "c \<in> tblks (Tnode l t rg r)" "n < sz c" using i Best 2 by auto
      moreover have "sz c \<le> sz x" if x: "x \<in> tblks (Tnode l t rg r)" "n \<le> sz x" for x
      proof (cases "x \<in> tblks l")
        case True
        then show ?thesis using i Best x(2) by fastforce
      next
        case False
        then have "sz t \<le> sz x" using b x(1) by auto
        moreover have "sz c \<le> sz t" using i Best lr(1) by fastforce
        ultimately show ?thesis by linarith
      qed
      ultimately show ?thesis unfolding e Best by simp
    next
      case (Exact c)
      then show ?thesis using i unfolding e by auto
    next
      case Nofit
      then show ?thesis using i by simp
    qed
  next
    case 3
    have b: "\<forall>x\<in>insert t (set rg) \<union> tblks l. sz x < n" using lr 3 by auto
    have "sorted_tree sz r" using Tnode.prems by simp
    have e: "treefind sz n q (Tnode l t rg r) = treefind sz n q r" using 3 by simp
    have nb: "x \<in> insert t (set rg) \<union> tblks l \<Longrightarrow> \<not> n \<le> sz x" for x using b by force
    from Tnode.IH(2) [OF \<open>sorted_tree sz r\<close>, of q] show ?thesis
      unfolding e using b nb by (cases "treefind sz n q r") auto
  qed
qed

section \<open>The arena\<close>

text \<open>
  \<open>chunked p BS ES\<close>: every leader of the chain starts a chunk, which ends at the next end mark; every block is in a
  chunk, chunks do not overlap, and no word outside blocks, leaders and end marks looks like the magic of a header.
\<close>

definition chunked :: "Pool \<Rightarrow> int set \<Rightarrow> int set \<Rightarrow> bool" where
  "chunked p BS ES \<longleftrightarrow> distinct (chain p) \<and>
     (\<forall>c\<in>set (chain p). c < B2LIMIT p c \<and> B2LIMIT p c \<in> ES \<and> (\<forall>e\<in>ES. c < e \<longrightarrow> B2LIMIT p c \<le> e)) \<and>
     (\<forall>c\<in>set (chain p). \<forall>d\<in>set (chain p). c < d \<longrightarrow> B2LIMIT p c \<le> d) \<and>
     (\<forall>b\<in>BS. \<exists>c\<in>set (chain p). c < b \<and> b < B2LIMIT p c) \<and>
     (\<forall>b. magic p b \<noteq> Mother \<longrightarrow> b \<in> BS \<union> set (chain p) \<union> ES)"

lemma chunked_shrink:
  assumes "chunked p BS ES" "chain p' = chain p" "csize p' = csize p" "BS' \<subseteq> BS"
    "\<And>b. magic p' b \<noteq> Mother \<Longrightarrow> b \<in> BS' \<union> set (chain p) \<union> ES"
  shows "chunked p' BS' ES"
proof -
  have "B2LIMIT p' = B2LIMIT p" by (simp add: B2LIMIT_def fun_eq_iff assms(3))
  moreover have "\<forall>b\<in>BS'. \<exists>c\<in>set (chain p). c < b \<and> b < B2LIMIT p c"
    using assms(1,4) unfolding chunked_def by (meson subsetD)
  moreover have "\<forall>b. magic p' b \<noteq> Mother \<longrightarrow> b \<in> BS' \<union> set (chain p) \<union> ES" using assms(5) by simp
  ultimately show ?thesis using assms(1) unfolding chunked_def assms(2) by simp
qed

lemma chunkedD: "chunked p BS ES \<Longrightarrow> magic p b \<noteq> Mother \<Longrightarrow> b \<in> BS \<union> set (chain p) \<union> ES"
  unfolding chunked_def by blast

text \<open>
  \<open>arena p BS ES\<close>: \<open>BS\<close> are the headers of the blocks and \<open>ES\<close> the end marks. Blocks and leaders
  do not overlap each other or an end mark; every block is followed by a block or an end mark and
  its tail points back to it; the free tree is sorted and holds exactly the free blocks; two free
  blocks are never adjacent; everything is below the break.
\<close>

definition arena :: "Pool \<Rightarrow> int set \<Rightarrow> int set \<Rightarrow> bool" where
  "arena p BS ES \<longleftrightarrow>
     quanta p = 31 \<and> finite BS \<and> 0 \<le> brk p \<and> (\<forall>b\<in>BS. 0 \<le> b) \<and>
     (\<forall>b\<in>BS. magic p b \<in> {MAGIC_A, MAGIC_I, MAGIC_F}) \<and>
     (\<forall>b\<in>set (chain p) \<union> ES. magic p b = MAGIC_E) \<and>
     (\<forall>b\<in>BS \<union> set (chain p). 0 < bsize p b \<and> 32 dvd bsize p b \<and> B2NB p b \<in> BS \<union> ES \<and>
        tailhdr p (B2NB p b) = b \<and> B2NB p b \<le> brk p) \<and>
     (\<forall>b\<in>BS. tailhdr p b \<in> BS \<union> set (chain p) \<and> B2NB p (tailhdr p b) = b) \<and>
     (\<forall>b\<in>BS \<union> set (chain p). \<forall>c\<in>BS \<union> set (chain p). b < c \<longrightarrow> B2NB p b \<le> c) \<and>
     (\<forall>b\<in>BS \<union> set (chain p). \<forall>e\<in>ES. B2NB p b \<le> e \<or> e + 4 \<le> b) \<and>
     (\<forall>e\<in>ES. e + 4 \<le> brk p) \<and>
     sorted_tree (bsize p) (froot p) \<and> tblks (froot p) = {b \<in> BS. magic p b = MAGIC_F} \<and>
     (\<forall>b\<in>BS. magic p b = MAGIC_F \<longrightarrow> magic p (B2NB p b) \<noteq> MAGIC_F) \<and> chunked p BS ES"

lemma arena_distinct:
  assumes "arena p BS ES"
  shows "BS \<inter> set (chain p) = {}" "BS \<inter> ES = {}" "set (chain p) \<inter> ES = {}"
proof -
  have m: "\<forall>b\<in>BS. magic p b \<in> {MAGIC_A, MAGIC_I, MAGIC_F}" "\<forall>b\<in>set (chain p) \<union> ES. magic p b = MAGIC_E"
    using assms unfolding arena_def by blast+
  then show "BS \<inter> set (chain p) = {}" "BS \<inter> ES = {}" by fastforce+
  have "\<forall>b\<in>BS \<union> set (chain p). 0 < bsize p b" "\<forall>b\<in>BS \<union> set (chain p). \<forall>e\<in>ES. B2NB p b \<le> e \<or> e + 4 \<le> b"
    using assms unfolding arena_def by blast+
  then have "b \<in> set (chain p) \<Longrightarrow> b \<notin> ES" for b by (force simp: B2NB_def)
  then show "set (chain p) \<inter> ES = {}" by blast
qed

lemma arenaD:
  assumes "arena p BS ES"
  shows "quanta p = 31" "finite BS"
    "b \<in> BS \<Longrightarrow> magic p b \<in> {MAGIC_A, MAGIC_I, MAGIC_F}"
    "b \<in> BS \<union> set (chain p) \<Longrightarrow> 0 < bsize p b" "b \<in> BS \<union> set (chain p) \<Longrightarrow> 32 dvd bsize p b"
    "b \<in> BS \<union> set (chain p) \<Longrightarrow> B2NB p b \<in> BS \<union> ES"
    "b \<in> BS \<union> set (chain p) \<Longrightarrow> tailhdr p (B2NB p b) = b"
    "b \<in> BS \<Longrightarrow> tailhdr p b \<in> BS \<union> set (chain p)" "b \<in> BS \<Longrightarrow> B2NB p (tailhdr p b) = b"
    "b \<in> BS \<union> set (chain p) \<Longrightarrow> c \<in> BS \<union> set (chain p) \<Longrightarrow> b < c \<Longrightarrow> B2NB p b \<le> c"
    "sorted_tree (bsize p) (froot p)" "tblks (froot p) = {b \<in> BS. magic p b = MAGIC_F}"
    "b \<in> BS \<Longrightarrow> magic p b = MAGIC_F \<Longrightarrow> magic p (B2NB p b) \<noteq> MAGIC_F"
    "b \<in> set (chain p) \<union> ES \<Longrightarrow> magic p b = MAGIC_E" "chunked p BS ES"
  using assms unfolding arena_def by blast+

lemma arena_blk:
  assumes "arena p BS ES" "b \<in> BS \<union> set (chain p)"
  shows "0 < bsize p b \<and> 32 dvd bsize p b \<and> B2NB p b \<in> BS \<union> ES \<and> tailhdr p (B2NB p b) = b \<and> B2NB p b \<le> brk p"
    "e \<in> ES \<Longrightarrow> B2NB p b \<le> e \<or> e + 4 \<le> b"
  using assms unfolding arena_def by blast+

lemma B2NB_inj:
  assumes "arena p BS ES" "b \<in> BS \<union> set (chain p)" "c \<in> BS \<union> set (chain p)" "B2NB p b = B2NB p c"
  shows "b = c"
  using arenaD(7) [OF assms(1)] assms(2-4) by metis

text \<open>A free block is taken: out of the tree, marked allocated.\<close>

definition take_blk :: "int \<Rightarrow> Pool \<Rightarrow> Pool" where
  "take_blk q p = setmagic q MAGIC_A (pooldel q p)"

lemma take_blk_sel [simp]:
  "bsize (take_blk q p) = bsize p" "tailhdr (take_blk q p) = tailhdr p" "chain (take_blk q p) = chain p"
  "magic (take_blk q p) = (magic p)(q := MAGIC_A)" "quanta (take_blk q p) = quanta p" "brk (take_blk q p) = brk p"
  "froot (take_blk q p) = treedel (bsize p) q (froot p)" "B2NB (take_blk q p) b = B2NB p b"
  "cursize (take_blk q p) = cursize p"
  by (simp_all add: take_blk_def pooldel_def B2NB_def)

lemma take_arena:
  assumes a: "arena p BS ES" and q: "q \<in> BS" "magic p q = MAGIC_F"
  shows "arena (take_blk q p) BS ES"
proof -
  have t: "q \<in> tblks (froot p)" using arenaD(12) [OF a] q by simp
  note d = treedel_ok [OF arenaD(11) [OF a] t]
  have n: "q \<notin> set (chain p)" "q \<notin> ES" using arena_distinct [OF a] q(1) by blast+
  have "tblks (treedel (bsize p) q (froot p)) = {b \<in> BS. (if b = q then MAGIC_A else magic p b) = MAGIC_F}"
    using d arenaD(12) [OF a] by auto
  moreover have "chunked (take_blk q p) BS ES"
    by (rule chunked_shrink [OF arenaD(15) [OF a]])
      (use q chunkedD [OF arenaD(15) [OF a]] in \<open>auto simp: take_blk_def pooldel_def split: if_splits\<close>)
  ultimately show ?thesis using d a n unfolding arena_def by auto
qed

text \<open>A block with no free neighbour is given to the tree.\<close>

lemma pooladd_sel [simp]:
  "bsize (pooladd q p) = bsize p" "tailhdr (pooladd q p) = tailhdr p" "chain (pooladd q p) = chain p"
  "magic (pooladd q p) = (magic p)(q := MAGIC_F)" "quanta (pooladd q p) = quanta p" "brk (pooladd q p) = brk p"
  "froot (pooladd q p) = treeadd (bsize p) q (froot p)" "B2NB (pooladd q p) b = B2NB p b"
  "cursize (pooladd q p) = cursize p"
  by (simp_all add: pooladd_def Let_def B2NB_def)

lemma B2NB_ne: "arena p BS ES \<Longrightarrow> b \<in> BS \<union> set (chain p) \<Longrightarrow> B2NB p b \<noteq> b"
  using arenaD(4) by (fastforce simp: B2NB_def)

lemma release_arena:
  assumes a: "arena p BS ES" and q: "q \<in> BS" "magic p q \<noteq> MAGIC_F"
    and n: "magic p (B2NB p q) \<noteq> MAGIC_F" "magic p (tailhdr p q) \<noteq> MAGIC_F"
  shows "arena (pooladd q p) BS ES"
proof -
  have t: "q \<notin> tblks (froot p)" using arenaD(12) [OF a] q by simp
  note d = treeadd_sorted [OF arenaD(11) [OF a] t] tblks_treeadd [of "bsize p" q "froot p"]
  have m: "q \<notin> set (chain p)" "q \<notin> ES" using arena_distinct [OF a] q(1) by blast+
  have "tblks (treeadd (bsize p) q (froot p)) = {b \<in> BS. (if b = q then MAGIC_F else magic p b) = MAGIC_F}"
    using d arenaD(12) [OF a] q by auto
  moreover have "(if B2NB p b = q then MAGIC_F else magic p (B2NB p b)) \<noteq> MAGIC_F"
    if b: "b \<in> BS" "(if b = q then MAGIC_F else magic p b) = MAGIC_F" for b
  proof (cases "b = q")
    case True
    then show ?thesis using n(1) B2NB_ne [OF a, of q] q(1) by simp
  next
    case False
    then have "B2NB p b \<noteq> q" using b n(2) arenaD(7) [OF a, of b] by auto
    then show ?thesis using arenaD(13) [OF a b(1)] b(2) False by simp
  qed
  moreover have "chunked (pooladd q p) BS ES"
    by (rule chunked_shrink [OF arenaD(15) [OF a]])
      (use q chunkedD [OF arenaD(15) [OF a]] in \<open>auto simp: pooladd_def Let_def split: if_splits\<close>)
  ultimately show ?thesis using d(1) a m unfolding arena_def by auto
qed


text \<open>Two adjacent blocks out of the tree become one.\<close>

definition merge_blk :: "int \<Rightarrow> int \<Rightarrow> Pool \<Rightarrow> Pool" where
  "merge_blk b c p = B2T_hdr b (setsize b (bsize p b + bsize p c) (setmagic c Mother p))"

lemma merge_sel:
  "bsize (merge_blk b c p) = (bsize p)(b := bsize p b + bsize p c)" "chain (merge_blk b c p) = chain p"
  "magic (merge_blk b c p) = (magic p)(c := Mother)" "quanta (merge_blk b c p) = quanta p" "brk (merge_blk b c p) = brk p"
  "froot (merge_blk b c p) = froot p" "cursize (merge_blk b c p) = cursize p"
  by (simp_all add: merge_blk_def B2T_hdr_def)

lemma merge_arena:
  assumes a: "arena p BS ES" and b: "b \<in> BS" "magic p b \<noteq> MAGIC_F" and c: "c \<in> BS" "magic p c \<noteq> MAGIC_F" "c = B2NB p b"
  shows "arena (merge_blk b c p) (BS - {c}) ES"
proof -
  have bc: "b \<noteq> c" using B2NB_ne [OF a, of b] b c by simp
  have nb: "B2NB (merge_blk b c p) x = (if x = b then B2NB p c else B2NB p x)" for x
    using c(3) by (simp add: B2NB_def merge_sel)
  have tl: "tailhdr (merge_blk b c p) = (tailhdr p)(B2NB p c := b)"
    using c(3) by (simp add: merge_blk_def B2T_hdr_def B2NB_def add.assoc)
  have m: "c \<notin> set (chain p)" "c \<notin> ES" "b \<notin> set (chain p)" using arena_distinct [OF a] c(1) b(1) by blast+
  have inj: "x \<in> BS \<union> set (chain p) \<Longrightarrow> B2NB p x = c \<Longrightarrow> x = b" "x \<in> BS \<union> set (chain p) \<Longrightarrow> B2NB p x = B2NB p c \<Longrightarrow> x = c" for x
    using B2NB_inj [OF a] b(1) c(1,3) by blast+
  let ?X = "BS - {c} \<union> set (chain p)"
  have 1: "\<forall>x\<in>?X. 0 < bsize (merge_blk b c p) x \<and> 32 dvd bsize (merge_blk b c p) x \<and> B2NB (merge_blk b c p) x \<in> BS - {c} \<union> ES \<and>
        tailhdr (merge_blk b c p) (B2NB (merge_blk b c p) x) = x \<and> B2NB (merge_blk b c p) x \<le> brk p"
  proof
    fix x assume x: "x \<in> ?X"
    show "0 < bsize (merge_blk b c p) x \<and> 32 dvd bsize (merge_blk b c p) x \<and> B2NB (merge_blk b c p) x \<in> BS - {c} \<union> ES \<and>
        tailhdr (merge_blk b c p) (B2NB (merge_blk b c p) x) = x \<and> B2NB (merge_blk b c p) x \<le> brk p"
    proof (cases "x = b")
      case True
      have "B2NB p c \<in> BS - {c} \<union> ES" using arenaD(6) [OF a, of c] c(1) B2NB_ne [OF a, of c] by blast
      moreover have "B2NB p c \<le> brk p" using arena_blk(1) [OF a, of c] c(1) by blast
      moreover have "0 < bsize p b + bsize p c" "32 dvd bsize p b + bsize p c"
        using arenaD(4) [OF a, of b] arenaD(4) [OF a, of c] arenaD(5) [OF a, of b] arenaD(5) [OF a, of c] b(1) c(1) by simp_all
      ultimately show ?thesis using True by (simp add: nb merge_sel tl)
    next
      case False
      have x': "x \<in> BS \<union> set (chain p)" "x \<noteq> c" using x m by auto
      have "B2NB p x \<noteq> c" "B2NB p x \<noteq> B2NB p c" using inj(1) [OF x'(1)] inj(2) [OF x'(1)] x'(2) False by metis+
      moreover have "0 < bsize p x \<and> 32 dvd bsize p x \<and> B2NB p x \<in> BS \<union> ES \<and> tailhdr p (B2NB p x) = x \<and> B2NB p x \<le> brk p"
        by (rule arena_blk(1) [OF a x'(1)])
      ultimately show ?thesis using False by (simp add: nb merge_sel tl)
    qed
  qed
  have 2: "\<forall>x\<in>BS - {c}. tailhdr (merge_blk b c p) x \<in> ?X \<and> B2NB (merge_blk b c p) (tailhdr (merge_blk b c p) x) = x"
  proof
    fix x assume x: "x \<in> BS - {c}"
    show "tailhdr (merge_blk b c p) x \<in> ?X \<and> B2NB (merge_blk b c p) (tailhdr (merge_blk b c p) x) = x"
    proof (cases "x = B2NB p c")
      case True
      then show ?thesis using b(1) bc by (simp add: tl nb)
    next
      case False
      then have "tailhdr p x \<noteq> c" "tailhdr p x \<noteq> b" using arenaD(9) [OF a, of x] x c(3) by auto
      then show ?thesis using False arenaD(8,9) [OF a, of x] x by (simp add: tl nb)
    qed
  qed
  have 3: "\<forall>x\<in>?X. \<forall>y\<in>?X. x < y \<longrightarrow> B2NB (merge_blk b c p) x \<le> y"
  proof (intro ballI impI)
    fix x y assume x: "x \<in> ?X" "y \<in> ?X" "x < y"
    have "B2NB p x \<le> y" using arenaD(10) [OF a, of x y] x by blast
    moreover have "B2NB p c \<le> y" if "x = b"
      using arenaD(10) [OF a, of c y] x c(1,3) calculation that m by force
    ultimately show "B2NB (merge_blk b c p) x \<le> y" by (simp add: nb)
  qed
  have 4: "\<forall>x\<in>?X. \<forall>e\<in>ES. B2NB (merge_blk b c p) x \<le> e \<or> e + 4 \<le> x"
  proof (intro ballI)
    fix x e assume x: "x \<in> ?X" "e \<in> ES"
    have o: "B2NB p x \<le> e \<or> e + 4 \<le> x" "B2NB p c \<le> e \<or> e + 4 \<le> c"
      using arena_blk(2) [OF a, of x e] arena_blk(2) [OF a, of c e] x c(1) by blast+
    have "32 dvd bsize p b" "0 < bsize p b" using arenaD(4,5) [OF a] b(1) by blast+
    have "x = b \<Longrightarrow> B2NB p c \<le> e \<or> e + 4 \<le> x" using o c(3) by auto
    then show "B2NB (merge_blk b c p) x \<le> e \<or> e + 4 \<le> x" using o(1) unfolding nb by presburger
  qed
  have 5: "sorted_tree (bsize (merge_blk b c p)) (froot p)"
    by (rule sorted_tree_cong [OF _ arenaD(11) [OF a]]) (use arenaD(12) [OF a] b(2) in \<open>auto simp: merge_sel\<close>)
  have 6: "\<forall>x\<in>BS - {c}. magic (merge_blk b c p) x = MAGIC_F \<longrightarrow> magic (merge_blk b c p) (B2NB (merge_blk b c p) x) \<noteq> MAGIC_F"
  proof (intro ballI impI)
    fix x assume x: "x \<in> BS - {c}" "magic (merge_blk b c p) x = MAGIC_F"
    then have "magic p x = MAGIC_F" "x \<noteq> b" using b(2) by (auto simp: merge_sel split: if_splits)
    then show "magic (merge_blk b c p) (B2NB (merge_blk b c p) x) \<noteq> MAGIC_F"
      using arenaD(13) [OF a, of x] x(1) by (simp add: nb merge_sel)
  qed
  have 7: "tblks (froot p) = {x \<in> BS - {c}. magic (merge_blk b c p) x = MAGIC_F}"
    using arenaD(12) [OF a] c(2) by (auto simp: merge_sel)
  have 8: "\<forall>x\<in>BS - {c}. magic (merge_blk b c p) x \<in> {MAGIC_A, MAGIC_I, MAGIC_F}"
    "\<forall>x\<in>set (chain p) \<union> ES. magic (merge_blk b c p) x = MAGIC_E"
    using arenaD(3,14) [OF a] m by (auto simp: merge_sel)
  have 9: "quanta p = 31" "finite BS" "\<forall>e\<in>ES. e + 4 \<le> brk p" using a unfolding arena_def by blast+
  have z: "0 \<le> brk p" "\<forall>x\<in>BS. 0 \<le> x" using a unfolding arena_def by blast+
  have 10: "finite (BS - {c})" "0 \<le> brk p" "\<forall>x\<in>BS - {c}. 0 \<le> x" using 9(2) z by simp_all
  have 11: "chunked (merge_blk b c p) (BS - {c}) ES"
  proof (rule chunked_shrink [OF arenaD(15) [OF a]])
    fix x assume "magic (merge_blk b c p) x \<noteq> Mother"
    then have "x \<noteq> c" "magic p x \<noteq> Mother" by (simp_all add: merge_sel split: if_splits)
    then show "x \<in> BS - {c} \<union> set (chain p) \<union> ES" using chunkedD [OF arenaD(15) [OF a], of x] by blast
  qed (simp_all add: merge_blk_def B2T_hdr_def)
  show ?thesis unfolding arena_def merge_sel(2,4,5,6)
    by (intro conjI 1 2 3 4 5 6 7 8 9 10 11)
qed


section \<open>\<^verbatim>\<open>poolfree\<close>\<close>

definition used_blks :: "Pool \<Rightarrow> int set \<Rightarrow> int set" where
  "used_blks p BS = {b \<in> BS. magic p b \<noteq> MAGIC_F}"

lemma arena_cong:
  assumes "arena p BS ES" "quanta p' = quanta p" "chain p' = chain p" "magic p' = magic p" "bsize p' = bsize p"
    "tailhdr p' = tailhdr p" "froot p' = froot p" "brk p \<le> brk p'" "csize p' = csize p"
  shows "arena p' BS ES"
proof -
  have "B2NB p' = B2NB p" by (simp add: B2NB_def fun_eq_iff assms)
  moreover have "chunked p' BS ES = chunked p BS ES" by (simp add: chunked_def B2LIMIT_def assms)
  ultimately show ?thesis using assms(1,8) unfolding arena_def assms by (auto intro: order_trans)
qed

text \<open>The forward join leaves an arena in which the block is followed by a used block or an end.\<close>

definition joinfwd :: "int \<Rightarrow> Pool \<Rightarrow> Pool" where
  "joinfwd b p = (let c = B2NB p b in
     if magic p c = MAGIC_F then
       B2T_hdr b (setsize b (bsize p b + bsize p c) (setmagic c Mother (pooldel c p)))
     else p)"

definition joinback :: "int \<Rightarrow> Pool \<Rightarrow> Pool" where
  "joinback b p = (let c = B2PT_hdr p b in
     if magic p c = MAGIC_F then
       pooladd c (B2T_hdr c (setsize c (bsize p c + bsize p b) (setmagic b Mother (pooldel c p))))
     else pooladd b p)"

lemma poolfree_joins:
  "poolfree v p = (case D2B p v of None \<Rightarrow> None
     | Some b \<Rightarrow> Some (joinback b (joinfwd b (p\<lparr>nfree := nfree p + 1, cursize := cursize p - bsize p b\<rparr>))))"
  by (simp add: poolfree_def joinfwd_def joinback_def Let_def split: option.splits)

lemma joinfwd_arena:
  assumes a: "arena p BS ES" and b: "b \<in> used_blks p BS"
  shows "\<exists>BS'. arena (joinfwd b p) BS' ES \<and> used_blks (joinfwd b p) BS' = used_blks p BS \<and>
    magic (joinfwd b p) (B2NB (joinfwd b p) b) \<noteq> MAGIC_F \<and>
    (\<forall>x\<in>used_blks p BS - {b}. bsize (joinfwd b p) x = bsize p x) \<and> (\<forall>x\<in>used_blks p BS. magic (joinfwd b p) x = magic p x)"
proof (cases "magic p (B2NB p b) = MAGIC_F")
  case True
  let ?c = "B2NB p b"
  have bB: "b \<in> BS" "magic p b \<noteq> MAGIC_F" using b by (simp_all add: used_blks_def)
  have "?c \<in> BS" using arenaD(6) [OF a, of b] bB arenaD(14) [OF a, of ?c] True by auto
  have t: "arena (take_blk ?c p) BS ES" using take_arena [OF a \<open>?c \<in> BS\<close> True] .
  have bc: "b \<noteq> ?c" using B2NB_ne [OF a, of b] bB(1) by auto
  have m: "arena (merge_blk b ?c (take_blk ?c p)) (BS - {?c}) ES"
    by (rule merge_arena [OF t]) (use bB bc \<open>?c \<in> BS\<close> in simp_all)
  have e: "joinfwd b p = merge_blk b ?c (take_blk ?c p)"
    using True by (simp add: joinfwd_def Let_def merge_blk_def take_blk_def pooldel_def)
  have "used_blks (merge_blk b ?c (take_blk ?c p)) (BS - {?c}) = used_blks p BS" using True by (auto simp: used_blks_def merge_sel)
  moreover have "magic (joinfwd b p) (B2NB (joinfwd b p) b) \<noteq> MAGIC_F"
  proof -
    have "magic p (B2NB p ?c) \<noteq> MAGIC_F" using arenaD(13) [OF a \<open>?c \<in> BS\<close> True] .
    then show ?thesis by (simp add: e merge_sel B2NB_def add.assoc)
  qed
  moreover have "\<forall>x\<in>used_blks p BS - {b}. bsize (joinfwd b p) x = bsize p x" "\<forall>x\<in>used_blks p BS. magic (joinfwd b p) x = magic p x"
    using True by (auto simp: e merge_sel used_blks_def)
  ultimately show ?thesis using m e by (intro exI [of _ "BS - {?c}"]) simp
next
  case False
  then have "joinfwd b p = p" by (simp add: joinfwd_def Let_def)
  then show ?thesis using a False by auto
qed

lemma joinback_arena:
  assumes a: "arena p BS ES" and b: "b \<in> used_blks p BS" and n: "magic p (B2NB p b) \<noteq> MAGIC_F"
  shows "\<exists>BS'. arena (joinback b p) BS' ES \<and> used_blks (joinback b p) BS' = used_blks p BS - {b} \<and>
    (\<forall>x\<in>used_blks p BS - {b}. bsize (joinback b p) x = bsize p x \<and> magic (joinback b p) x = magic p x)"
proof (cases "magic p (tailhdr p b) = MAGIC_F")
  case True
  let ?c = "tailhdr p b"
  have bB: "b \<in> BS" "magic p b \<noteq> MAGIC_F" using b by (simp_all add: used_blks_def)
  have cB: "?c \<in> BS" using arenaD(8) [OF a, of b] bB arenaD(14) [OF a, of ?c] True by auto
  have cn: "B2NB p ?c = b" using arenaD(9) [OF a bB(1)] .
  have bc: "?c \<noteq> b" using True bB(2) by auto
  have t: "arena (take_blk ?c p) BS ES" using take_arena [OF a cB True] .
  have m: "arena (merge_blk ?c b (take_blk ?c p)) (BS - {b}) ES"
    by (rule merge_arena [OF t]) (use bB bc cB cn in simp_all)
  let ?m = "merge_blk ?c b (take_blk ?c p)"
  have pv: "magic p (tailhdr p ?c) \<noteq> MAGIC_F"
  proof
    assume f: "magic p (tailhdr p ?c) = MAGIC_F"
    then have "tailhdr p ?c \<in> BS" using arenaD(8) [OF a cB] arenaD(14) [OF a, of "tailhdr p ?c"] by auto
    from arenaD(13) [OF a this f] arenaD(9) [OF a cB] True show False by simp
  qed
  have tl: "tailhdr ?m ?c = tailhdr p ?c" "B2NB ?m ?c = B2NB p b"
  proof -
    have "B2NB p b \<noteq> ?c"
    proof
      assume "B2NB p b = ?c"
      moreover have "0 < bsize p b" "0 < bsize p ?c" using arenaD(4) [OF a] bB cB by blast+
      ultimately show False using cn by (simp add: B2NB_def)
    qed
    then show "tailhdr ?m ?c = tailhdr p ?c" using cn by (simp add: merge_blk_def B2T_hdr_def B2NB_def add.assoc [symmetric])
    show "B2NB ?m ?c = B2NB p b" using cn by (simp add: merge_sel B2NB_def add.assoc [symmetric])
  qed
  have "arena (pooladd ?c ?m) (BS - {b}) ES"
    by (rule release_arena [OF m]) (use cB bc pv n tl in \<open>simp_all add: merge_sel\<close>)
  moreover have e: "joinback b p = pooladd ?c ?m"
    using True bc by (simp add: joinback_def B2PT_hdr_def Let_def merge_blk_def take_blk_def pooldel_def pooladd_def B2T_hdr_def B2NB_def fun_upd_twist)
  moreover have "used_blks (pooladd ?c ?m) (BS - {b}) = used_blks p BS - {b}" using True by (auto simp: used_blks_def merge_sel)
  moreover have "\<forall>x\<in>used_blks p BS - {b}. bsize (pooladd ?c ?m) x = bsize p x \<and> magic (pooladd ?c ?m) x = magic p x"
    using True by (auto simp: used_blks_def merge_sel)
  ultimately show ?thesis by (intro exI [of _ "BS - {b}"]) simp
next
  case False
  have bB: "b \<in> BS" "magic p b \<noteq> MAGIC_F" using b by (simp_all add: used_blks_def)
  have "arena (pooladd b p) BS ES" using release_arena [OF a bB n False] .
  moreover have "joinback b p = pooladd b p" using False by (simp add: joinback_def B2PT_hdr_def)
  ultimately show ?thesis by (intro exI [of _ BS]) (auto simp: used_blks_def)
qed

definition split_blk :: "int \<Rightarrow> int \<Rightarrow> Pool \<Rightarrow> Pool" where
  "split_blk q n p = (let t = q + n in
     B2T_hdr t (setsize t (bsize p q - n) (setmagic t MAGIC_A (B2T_hdr q (setsize q n p)))))"

lemma split_blk_sel:
  assumes "n \<noteq> 0"
  shows "bsize (split_blk q n p) = (bsize p)(q := n, q + n := bsize p q - n)"
    "magic (split_blk q n p) = (magic p)(q + n := MAGIC_A)"
    "tailhdr (split_blk q n p) = (tailhdr p)(q + n := q, B2NB p q := q + n)"
    "chain (split_blk q n p) = chain p" "quanta (split_blk q n p) = quanta p" "brk (split_blk q n p) = brk p"
    "froot (split_blk q n p) = froot p" "cursize (split_blk q n p) = cursize p"
  using assms by (simp_all add: split_blk_def Let_def B2T_hdr_def B2NB_def)

lemma arena_gap:
  assumes a: "arena p BS ES" and q: "q \<in> BS \<union> set (chain p)" and x: "x \<in> BS \<union> set (chain p) \<union> ES" "q < x" 
  shows "B2NB p q \<le> x"
proof (cases "x \<in> BS \<union> set (chain p)")
  case True
  then show ?thesis using arenaD(10) [OF a q True x(2)] by simp
next
  case False
  then have "x \<in> ES" using x(1) by blast
  then have "B2NB p q \<le> x \<or> x + 4 \<le> q" using a q unfolding arena_def by blast
  then show ?thesis using x(2) by auto
qed

lemma split_arena:
  assumes a: "arena p BS ES" and q: "q \<in> BS" "magic p q \<noteq> MAGIC_F" and n: "0 < n" "n < bsize p q" "32 dvd n"
  shows "arena (split_blk q n p) (insert (q + n) BS) ES"
proof -
  let ?t = "q + n" and ?p = "split_blk q n p" and ?X = "BS \<union> set (chain p)"
  have n0: "n \<noteq> 0" using n(1) by simp
  note S = split_blk_sel [OF n0]
  have tn: "?t < B2NB p q" using n(2) by (simp add: B2NB_def)
  have tX: "?t \<notin> ?X" "?t \<notin> ES"
    using arena_gap [OF a, of q ?t] q(1) n(1) tn by auto
  have q': "q \<notin> set (chain p)" "q \<notin> ES" using arena_distinct [OF a] q(1) by auto
  have nb: "B2NB ?p x = (if x = q then ?t else if x = ?t then B2NB p q else B2NB p x)" for x
    using n0 by (simp add: B2NB_def S)
  have tl: "tailhdr ?p = (tailhdr p)(?t := q, B2NB p q := ?t)" by (simp add: S)
  have nt: "B2NB p x \<noteq> ?t" if "x \<in> ?X" for x using arenaD(6) [OF a that] tX by auto
  have 1: "0 < bsize ?p x \<and> 32 dvd bsize ?p x \<and> B2NB ?p x \<in> insert ?t BS \<union> ES \<and>
        tailhdr ?p (B2NB ?p x) = x \<and> B2NB ?p x \<le> brk p" if x: "x \<in> insert ?t BS \<union> set (chain p)" for x
  proof -
    have aq: "0 < bsize p q \<and> 32 dvd bsize p q \<and> B2NB p q \<in> BS \<union> ES \<and> tailhdr p (B2NB p q) = q \<and> B2NB p q \<le> brk p"
      using a q(1) unfolding arena_def by blast
    consider "x = q" | "x = ?t" | "x \<in> ?X" "x \<noteq> q" "x \<noteq> ?t" using x by blast
    then show ?thesis
    proof cases
      case 1
      then show ?thesis using n aq tn by (simp add: nb S)
    next
      case 2
      then show ?thesis using n n0 aq by (simp add: nb S)
    next
      case 3
      have "B2NB p x \<noteq> B2NB p q" using B2NB_inj [OF a 3(1), of q] q(1) 3(2) by auto
      moreover have "0 < bsize p x \<and> 32 dvd bsize p x \<and> B2NB p x \<in> BS \<union> ES \<and> tailhdr p (B2NB p x) = x \<and> B2NB p x \<le> brk p"
        using a 3(1) unfolding arena_def by blast
      ultimately show ?thesis using 3(2,3) nt [OF 3(1)] by (simp add: nb S)
    qed
  qed
  have 2: "tailhdr ?p x \<in> insert ?t BS \<union> set (chain p) \<and> B2NB ?p (tailhdr ?p x) = x" if x: "x \<in> insert ?t BS" for x
  proof -
    consider "x = ?t" | "x = B2NB p q" "x \<noteq> ?t" | "x \<in> BS" "x \<noteq> B2NB p q" "x \<noteq> ?t" using x by blast
    then show ?thesis
    proof cases
      case 1
      then show ?thesis using q(1) tn by (simp add: nb tl)
    next
      case 2
      then show ?thesis using n0 by (simp add: nb tl)
    next
      case 3
      have "tailhdr p x \<noteq> q" using arenaD(9) [OF a 3(1)] 3(2) by auto
      moreover have "tailhdr p x \<in> ?X" using arenaD(8) [OF a 3(1)] .
      ultimately show ?thesis using 3 tX arenaD(9) [OF a 3(1)] by (auto simp: nb tl)
    qed
  qed
  have 3: "B2NB ?p x \<le> y" if x: "x \<in> insert ?t BS \<union> set (chain p)" "y \<in> insert ?t BS \<union> set (chain p)" "x < y" for x y
  proof -
    have qy: "B2NB p q \<le> y" if "q < y" "y \<noteq> ?t" using arena_gap [OF a, of q y] that q(1) x(2) by blast
    have xy: "B2NB p x \<le> y" if "x \<in> ?X" "y \<in> ?X" using arenaD(10) [OF a that x(3)] .
    have xq: "B2NB p x \<le> q" if "x \<in> ?X" "x < q" using arenaD(10) [OF a that(1), of q] q(1) that(2) by blast
    have xt: "B2NB p x \<le> ?t" if "x \<in> ?X" "x < ?t" "x \<noteq> q"
      using xq [OF that(1)] arena_gap [OF a, of q x] that q(1) tn n(1) by (cases "x < q") auto
    show ?thesis using x qy xy xt tn n(1) tX by (auto simp: nb)
  qed
  have 4: "B2NB ?p x \<le> e \<or> e + 4 \<le> x" if x: "x \<in> insert ?t BS \<union> set (chain p)" "e \<in> ES" for x e
  proof -
    have "B2NB p q \<le> e \<or> e + 4 \<le> q" "x \<in> ?X \<Longrightarrow> B2NB p x \<le> e \<or> e + 4 \<le> x" using a q(1) x(2) unfolding arena_def by blast+
    then show ?thesis using x(1) tn n(1) by (auto simp: nb)
  qed
  have 5: "sorted_tree (bsize ?p) (froot p)"
    by (rule sorted_tree_cong [OF _ arenaD(11) [OF a]]) (use arenaD(12) [OF a] q(2) tX in \<open>auto simp: S\<close>)
  have 6: "magic ?p (B2NB ?p x) \<noteq> MAGIC_F" if "x \<in> insert ?t BS" "magic ?p x = MAGIC_F" for x
  proof -
    have "x \<noteq> ?t" "magic p x = MAGIC_F" "x \<in> BS" using that by (auto simp: S split: if_splits)
    then show ?thesis using arenaD(13) [OF a, of x] q(2) by (auto simp: nb S)
  qed
  have 7: "tblks (froot p) = {x \<in> insert ?t BS. magic ?p x = MAGIC_F}"
    using arenaD(12) [OF a] tX by (auto simp: S)
  have 8: "magic ?p x \<in> {MAGIC_A, MAGIC_I, MAGIC_F}" if "x \<in> insert ?t BS" for x
    using arenaD(3) [OF a, of x] that by (auto simp: S)
  have 9: "magic ?p x = MAGIC_E" if "x \<in> set (chain p) \<union> ES" for x
    using arenaD(14) [OF a, of x] that tX by (auto simp: S)
  have 10: "quanta p = 31" "finite (insert ?t BS)" "\<forall>e\<in>ES. e + 4 \<le> brk p" "0 \<le> brk p" "\<forall>x\<in>BS. 0 \<le> x"
    using a unfolding arena_def by blast+
  have 11: "0 \<le> x" if "x \<in> insert ?t BS" for x using that 10(5) q(1) n(1) by force
  have 12: "chunked ?p (insert ?t BS) ES"
  proof -
    have k: "chunked p BS ES" using arenaD(15) [OF a] .
    have c: "csize ?p = csize p" by (simp add: split_blk_def Let_def B2T_hdr_def)
    obtain l where l: "l \<in> set (chain p)" "l < q" "q < B2LIMIT p l" "B2LIMIT p l \<in> ES" using k q(1) unfolding chunked_def by blast
    then have "B2NB p q \<le> B2LIMIT p l" using arena_gap [OF a, of q "B2LIMIT p l"] q(1) by blast
    then have "l < ?t \<and> ?t < B2LIMIT p l" using l n tn by simp
    moreover have "magic p b \<noteq> Mother \<Longrightarrow> b \<in> BS \<union> set (chain p) \<union> ES" for b using chunkedD [OF k] .
    ultimately show ?thesis using k l(1) unfolding chunked_def S(2,4) B2LIMIT_def c by auto
  qed
  show ?thesis unfolding arena_def S(4-7)
    by (intro conjI ballI impI 1 [THEN conjunct1] 1 [THEN conjunct2, THEN conjunct1] 1 [THEN conjunct2, THEN conjunct2, THEN conjunct1]
        1 [THEN conjunct2, THEN conjunct2, THEN conjunct2, THEN conjunct1] 1 [THEN conjunct2, THEN conjunct2, THEN conjunct2, THEN conjunct2]
        2 [THEN conjunct1] 2 [THEN conjunct2] 3 4 5 6 7 8 9 10(1,2,4) 10(3) [rule_format] 11 12) assumption+
qed

lemma and_not_31: "(x::int) AND NOT 31 = 32 * (x div 32)"
proof -
  have "x AND NOT (mask 5) = push_bit 5 (drop_bit 5 x)" by (rule bit_eqI) (auto simp: bit_simps)
  then show ?thesis by (simp add: mask_eq_exp_minus_1 push_bit_eq_mult drop_bit_eq_div)
qed

text \<open>A new chunk with one used block in it.\<close>

definition add_chunk :: "int \<Rightarrow> int \<Rightarrow> Pool \<Rightarrow> Pool" where
  "add_chunk c ns p = p\<lparr>magic := (magic p)(c := MAGIC_E, c + 32 := MAGIC_A, c + 32 + ns := MAGIC_E),
     bsize := (bsize p)(c := 32, c + 32 := ns), tailhdr := (tailhdr p)(c + 32 := c, c + 32 + ns := c + 32),
     csize := (csize p)(c := ns + 32), chain := c # chain p\<rparr>"

lemma chunk_arena:
  assumes a: "arena p BS ES" and c: "brk p \<le> c" "0 < ns" "32 dvd ns" and k: "c + 32 + ns + 4 \<le> k"
  shows "arena (add_chunk c ns (p\<lparr>brk := k\<rparr>)) (insert (c + 32) BS) (insert (c + 32 + ns) ES)"
proof -
  let ?t = "c + 32" and ?e = "c + 32 + ns" and ?p = "add_chunk c ns (p\<lparr>brk := k\<rparr>)" and ?X = "BS \<union> set (chain p)"
  have S: "magic ?p = (magic p)(c := MAGIC_E, ?t := MAGIC_A, ?e := MAGIC_E)" "bsize ?p = (bsize p)(c := 32, ?t := ns)"
    "tailhdr ?p = (tailhdr p)(?t := c, ?e := ?t)" "chain ?p = c # chain p" "quanta ?p = quanta p" "brk ?p = k" "froot ?p = froot p"
    by (simp_all add: add_chunk_def)
  have X: "B2NB p x \<le> brk p \<and> 0 < bsize p x" if "x \<in> ?X" for x using a that unfolding arena_def by blast
  have Xc: "x < c" if "x \<in> ?X" for x using X [OF that] c(1) by (auto simp: B2NB_def)
  have Ec: "e + 4 \<le> brk p" if "e \<in> ES" for e using a that unfolding arena_def by blast
  have nb: "B2NB ?p x = (if x = c then ?t else if x = ?t then ?e else B2NB p x)" for x
    using c by (auto simp: B2NB_def S)
  have nX: "x \<noteq> c" "x \<noteq> ?t" "x \<noteq> ?e" if "x \<in> ?X \<union> ES" for x using Xc [of x] Ec [of x] that c by auto
  have 1: "0 < bsize ?p x \<and> 32 dvd bsize ?p x \<and> B2NB ?p x \<in> insert ?t BS \<union> insert ?e ES \<and>
        tailhdr ?p (B2NB ?p x) = x \<and> B2NB ?p x \<le> k" if x: "x \<in> insert ?t BS \<union> set (c # chain p)" for x
  proof -
    consider "x = c" | "x = ?t" | "x \<in> ?X" using x by auto
    then show ?thesis
    proof cases
      case 1 then show ?thesis using c k by (simp add: nb S)
    next
      case 2 then show ?thesis using c k by (simp add: nb S)
    next
      case 3
      have "0 < bsize p x \<and> 32 dvd bsize p x \<and> B2NB p x \<in> BS \<union> ES \<and> tailhdr p (B2NB p x) = x \<and> B2NB p x \<le> brk p"
        using a 3 unfolding arena_def by blast
      then show ?thesis using nX [of x] nX [of "B2NB p x"] 3 c k by (auto simp: nb S)
    qed
  qed
  have 2: "tailhdr ?p x \<in> insert ?t BS \<union> set (c # chain p) \<and> B2NB ?p (tailhdr ?p x) = x" if x: "x \<in> insert ?t BS" for x
  proof (cases "x = ?t")
    case True then show ?thesis using c by (simp add: nb S)
  next
    case False
    then have x: "x \<in> BS" using x by blast
    then show ?thesis using arenaD(8,9) [OF a x] nX [of "tailhdr p x"] nX [of x] by (auto simp: nb S)
  qed
  have 3: "B2NB ?p x \<le> y" if x: "x \<in> insert ?t BS \<union> set (c # chain p)" "y \<in> insert ?t BS \<union> set (c # chain p)" "x < y" for x y
  proof (cases "x \<in> ?X")
    case True
    show ?thesis
    proof (cases "y \<in> ?X")
      case y: True then show ?thesis using arenaD(10) [OF a True y x(3)] nX [of x] True by (auto simp: nb)
    next
      case False then show ?thesis using x(2) X [OF True] c nX [of x] True by (auto simp: nb)
    qed
  next
    case False
    then have "x = c \<or> x = ?t" using x(1) by auto
    then have "y = ?t \<and> x = c" using x(2,3) Xc [of y] by auto
    then show ?thesis by (simp add: nb)
  qed
  have 4: "B2NB ?p x \<le> e \<or> e + 4 \<le> x" if x: "x \<in> insert ?t BS \<union> set (c # chain p)" "e \<in> insert ?e ES" for x e
  proof (cases "x \<in> ?X")
    case True
    have "e \<in> ES \<Longrightarrow> B2NB p x \<le> e \<or> e + 4 \<le> x" using a True unfolding arena_def by blast
    then show ?thesis using x(2) X [OF True] c nX [of x] True by (auto simp: nb)
  next
    case False
    then have "x = c \<or> x = ?t" using x(1) by auto
    then show ?thesis using x(2) Ec [of e] c by (auto simp: nb)
  qed
  have 5: "sorted_tree (bsize ?p) (froot p)"
  proof (rule sorted_tree_cong [OF _ arenaD(11) [OF a]])
    fix x assume "x \<in> tblks (froot p)"
    then have "x \<in> ?X \<union> ES" using arenaD(12) [OF a] by auto
    then show "bsize ?p x = bsize p x" using nX [of x] by (simp add: S)
  qed
  have 6: "magic ?p (B2NB ?p x) \<noteq> MAGIC_F" if x: "x \<in> insert ?t BS" "magic ?p x = MAGIC_F" for x
  proof -
    have x': "x \<in> BS" "magic p x = MAGIC_F" using x c by (auto simp: S split: if_splits)
    then show ?thesis using arenaD(13) [OF a x'] nX [of x] nX [of "B2NB p x"] arenaD(6) [OF a, of x] by (auto simp: nb S)
  qed
  have 7: "tblks (froot p) = {x \<in> insert ?t BS. magic ?p x = MAGIC_F}"
    using arenaD(12) [OF a] nX c by (auto simp: S)
  have 8: "magic ?p x \<in> {MAGIC_A, MAGIC_I, MAGIC_F}" if "x \<in> insert ?t BS" for x
    using arenaD(3) [OF a, of x] that nX [of x] c by (auto simp: S)
  have 9: "magic ?p x = MAGIC_E" if "x \<in> set (c # chain p) \<union> insert ?e ES" for x
    using arenaD(14) [OF a, of x] that nX [of x] c by (auto simp: S)
  have 10: "quanta p = 31" "finite (insert ?t BS)" and z: "0 \<le> brk p" "\<forall>x\<in>BS. 0 \<le> x" using a unfolding arena_def by blast+
  have 12: "0 \<le> k" "0 \<le> x" if "x \<in> insert ?t BS" for x using z c k that by auto
  have 11: "e + 4 \<le> k" if "e \<in> insert ?e ES" for e using that Ec [of e] c k by auto
  have 13: "chunked ?p (insert ?t BS) (insert ?e ES)"
  proof -
    have h: "chunked p BS ES" using arenaD(15) [OF a] .
    have lim: "B2LIMIT ?p d = (if d = c then ?e else B2LIMIT p d)" for d by (simp add: B2LIMIT_def add_chunk_def)
    have ch: "B2LIMIT p d \<in> ES" "d < B2LIMIT p d" "B2LIMIT p d < c" "d < c" if "d \<in> set (chain p)" for d
    proof -
      show d: "B2LIMIT p d \<in> ES" "d < B2LIMIT p d" using h that unfolding chunked_def by blast+
      show "B2LIMIT p d < c" using Ec [OF d(1)] c(1) by simp
      then show "d < c" using d(2) by simp
    qed
    have eE: "e < c" if "e \<in> ES" for e using Ec [OF that] c(1) by simp
    have "distinct (c # chain p)" using h ch(4) unfolding chunked_def by force
    moreover have "\<forall>d\<in>set (c # chain p). d < B2LIMIT ?p d \<and> B2LIMIT ?p d \<in> insert ?e ES \<and> (\<forall>e\<in>insert ?e ES. d < e \<longrightarrow> B2LIMIT ?p d \<le> e)"
    proof
      fix d assume d: "d \<in> set (c # chain p)"
      show "d < B2LIMIT ?p d \<and> B2LIMIT ?p d \<in> insert ?e ES \<and> (\<forall>e\<in>insert ?e ES. d < e \<longrightarrow> B2LIMIT ?p d \<le> e)"
      proof (cases "d = c")
        case True
        then show ?thesis using eE c(2) unfolding lim by force
      next
        case False
        then have d: "d \<in> set (chain p)" using d by simp
        then have "\<forall>e\<in>ES. d < e \<longrightarrow> B2LIMIT p d \<le> e" using h unfolding chunked_def by blast
        then show ?thesis using ch [OF d] False c(2) unfolding lim by simp
      qed
    qed
    moreover have "\<forall>d\<in>set (c # chain p). \<forall>d'\<in>set (c # chain p). d < d' \<longrightarrow> B2LIMIT ?p d \<le> d'"
    proof (intro ballI impI)
      fix d d' assume d: "d \<in> set (c # chain p)" "d' \<in> set (c # chain p)" "d < d'"
      then have d1: "d \<in> set (chain p)" "d \<noteq> c" using ch(4) by force+
      have "d' \<in> set (chain p) \<Longrightarrow> B2LIMIT p d \<le> d'" using h d1(1) d(3) unfolding chunked_def by blast
      then show "B2LIMIT ?p d \<le> d'" using ch(3) [OF d1(1)] d(2) d1(2) unfolding lim by auto
    qed
    moreover have "\<forall>b\<in>insert ?t BS. \<exists>d\<in>set (c # chain p). d < b \<and> b < B2LIMIT ?p d"
    proof
      fix b assume b: "b \<in> insert ?t BS"
      show "\<exists>d\<in>set (c # chain p). d < b \<and> b < B2LIMIT ?p d"
      proof (cases "b \<in> BS")
        case True
        then obtain d where d: "d \<in> set (chain p)" "d < b" "b < B2LIMIT p d" using h unfolding chunked_def by blast
        moreover have "d \<noteq> c" using ch(4) [OF d(1)] by simp
        ultimately show ?thesis unfolding lim by auto
      next
        case False
        then have "b = ?t" using b by simp
        then show ?thesis using c(2) unfolding lim by auto
      qed
    qed
    moreover have "b \<in> insert ?t BS \<union> set (c # chain p) \<union> insert ?e ES" if "magic ?p b \<noteq> Mother" for b
      using chunkedD [OF h, of b] that by (auto simp: S split: if_splits)
    ultimately show ?thesis unfolding chunked_def S(4) by blast
  qed
  show ?thesis unfolding arena_def S(4-7)
    by (intro conjI ballI impI 1 [THEN conjunct1] 1 [THEN conjunct2, THEN conjunct1] 1 [THEN conjunct2, THEN conjunct2, THEN conjunct1]
        1 [THEN conjunct2, THEN conjunct2, THEN conjunct2, THEN conjunct1] 1 [THEN conjunct2, THEN conjunct2, THEN conjunct2, THEN conjunct2]
        2 [THEN conjunct1] 2 [THEN conjunct2] 3 4 5 6 7 8 9 10 11 12(1) [OF insertI1] 12(2) 13) assumption+
qed


section \<open>The contract of the pool\<close>

definition pool_inv :: "Pool \<Rightarrow> int set \<Rightarrow> bool" where
  "pool_inv p A \<longleftrightarrow> (\<exists>BS ES. arena p BS ES \<and> used_blks p BS = A) \<and> cursize p = (\<Sum>b\<in>A. bsize p b) \<and>
     32 dvd chunk p \<and> \<not> moving p \<and> brk p \<le> brklim p \<and> brklim p < 2 ^ 32"

lemma joins_sel [simp]:
  "cursize (joinfwd b p) = cursize p" "chunk (joinfwd b p) = chunk p" "moving (joinfwd b p) = moving p"
  "cursize (joinback b p) = cursize p" "chunk (joinback b p) = chunk p" "moving (joinback b p) = moving p"
  "brk (joinfwd b p) = brk p" "brklim (joinfwd b p) = brklim p" "brk (joinback b p) = brk p" "brklim (joinback b p) = brklim p"
  by (simp_all add: joinfwd_def joinback_def Let_def B2T_hdr_def pooldel_def pooladd_def)

lemma pool_inv_range:
  assumes "pool_inv p A" "b \<in> A"
  shows "0 \<le> b" "b + bsize p b < 2 ^ 32" "32 \<le> bsize p b"
proof -
  obtain BS ES where a: "arena p BS ES" "b \<in> BS" using assms by (auto simp: pool_inv_def used_blks_def)
  then have "0 \<le> b \<and> B2NB p b \<le> brk p \<and> 0 < bsize p b \<and> 32 dvd bsize p b" unfolding arena_def by blast
  then show "0 \<le> b" "b + bsize p b < 2 ^ 32" "32 \<le> bsize p b"
    using assms(1) by (auto simp: pool_inv_def B2NB_def dest: zdvd_imp_le)
qed

lemma finite_used: "pool_inv p A \<Longrightarrow> finite A"
  by (auto simp: pool_inv_def used_blks_def dest: arenaD(2))

lemma poolfree_inv:
  assumes inv: "pool_inv p A" and b: "b \<in> A"
  shows "\<exists>p'. poolfree (B2D b) p = Some p' \<and> pool_inv p' (A - {b}) \<and>
    (\<forall>x\<in>A - {b}. bsize p' x = bsize p x \<and> magic p' x = magic p x)"
proof -
  obtain BS ES where a: "arena p BS ES" "used_blks p BS = A" using inv by (auto simp: pool_inv_def)
  let ?p1 = "p\<lparr>nfree := nfree p + 1, cursize := cursize p - bsize p b\<rparr>"
  have a1: "arena ?p1 BS ES" by (rule arena_cong [OF a(1)]) simp_all
  have u1: "used_blks ?p1 BS = A" using a(2) by (simp add: used_blks_def)
  obtain BS2 where 2: "arena (joinfwd b ?p1) BS2 ES" "used_blks (joinfwd b ?p1) BS2 = A"
    "magic (joinfwd b ?p1) (B2NB (joinfwd b ?p1) b) \<noteq> MAGIC_F"
    "\<forall>x\<in>A - {b}. bsize (joinfwd b ?p1) x = bsize p x" "\<forall>x\<in>A. magic (joinfwd b ?p1) x = magic p x"
    using joinfwd_arena [OF a1, of b] b u1 by auto
  obtain BS3 where 3: "arena (joinback b (joinfwd b ?p1)) BS3 ES" "used_blks (joinback b (joinfwd b ?p1)) BS3 = A - {b}"
    "\<forall>x\<in>A - {b}. bsize (joinback b (joinfwd b ?p1)) x = bsize (joinfwd b ?p1) x \<and>
       magic (joinback b (joinfwd b ?p1)) x = magic (joinfwd b ?p1) x"
    using joinback_arena [OF 2(1), of b] b 2(2,3) by auto
  let ?q = "joinback b (joinfwd b ?p1)"
  have same: "\<forall>x\<in>A - {b}. bsize ?q x = bsize p x \<and> magic ?q x = magic p x" using 3(3) 2(4,5) by auto
  have "(\<Sum>x\<in>A - {b}. bsize ?q x) = (\<Sum>x\<in>A - {b}. bsize p x)" using same by (intro sum.cong) simp_all
  also have "\<dots> = cursize p - bsize p b" using inv b finite_used [OF inv] by (simp add: pool_inv_def sum_diff1)
  finally have "pool_inv ?q (A - {b})" using 3(1,2) inv unfolding pool_inv_def by auto
  moreover have "magic p b \<in> {MAGIC_A, MAGIC_I}" using a b arenaD(3) [OF a(1), of b] by (auto simp: used_blks_def)
  then have "poolfree (B2D b) p = Some ?q" by (auto simp: poolfree_joins D2B_def B2D_def)
  ultimately show ?thesis using same by blast
qed

text \<open>What \<^verbatim>\<open>poolalloc\<close> promises when it returns a block.\<close>

definition fresh_block :: "Pool \<Rightarrow> int set \<Rightarrow> int \<Rightarrow> int \<Rightarrow> Pool \<Rightarrow> bool" where
  "fresh_block p A n b p' \<longleftrightarrow> b \<notin> A \<and> pool_inv p' (insert b A) \<and> n + BHDRSIZE \<le> bsize p' b \<and> magic p' b = MAGIC_A \<and>
     (\<forall>x\<in>A. bsize p' x = bsize p x \<and> magic p' x = magic p x \<and> (b + bsize p' b \<le> x \<or> x + bsize p x \<le> b))"

lemma fresh_blockI:
  assumes a: "arena p' BS ES" "used_blks p' BS = insert b A" and b: "b \<notin> A" "n + BHDRSIZE \<le> bsize p' b" "magic p' b = MAGIC_A"
    and s: "\<forall>x\<in>A. bsize p' x = bsize p x \<and> magic p' x = magic p x" and i: "pool_inv p A"
    and c: "cursize p' = cursize p + bsize p' b" "chunk p' = chunk p" "moving p' = moving p"
      "brklim p' = brklim p" "brk p' \<le> brklim p"
  shows "fresh_block p A n b p'"
proof -
  have "(\<Sum>x\<in>insert b A. bsize p' x) = bsize p' b + (\<Sum>x\<in>A. bsize p x)"
    using finite_used [OF i] b(1) s by (simp cong: sum.cong)
  then have "pool_inv p' (insert b A)" using a c i unfolding pool_inv_def by auto
  moreover have "b + bsize p' b \<le> x \<or> x + bsize p x \<le> b" if "x \<in> A" for x
  proof -
    have "x \<in> BS \<union> set (chain p')" "b \<in> BS \<union> set (chain p')" "x \<noteq> b" using a(2) b(1) that by (auto simp: used_blks_def)
    then have "b < x \<Longrightarrow> B2NB p' b \<le> x" "x < b \<Longrightarrow> B2NB p' x \<le> b" using arenaD(10) [OF a(1)] by blast+
    then show ?thesis using \<open>x \<noteq> b\<close> s that by (force simp: B2NB_def)
  qed
  ultimately show ?thesis unfolding fresh_block_def using b s by blast
qed

lemma usemem_sel [simp]:
  "magic (usemem t p) = magic p" "bsize (usemem t p) = bsize p" "tailhdr (usemem t p) = tailhdr p" "chain (usemem t p) = chain p"
  "froot (usemem t p) = froot p" "brk (usemem t p) = brk p" "quanta (usemem t p) = quanta p" "chunk (usemem t p) = chunk p"
  "moving (usemem t p) = moving p" "brklim (usemem t p) = brklim p" "csize (usemem t p) = csize p" "cursize (usemem t p) = cursize p + bsize p t"
  by (simp_all add: usemem_def Let_def)

lemma usemem_arena: "arena (usemem t p) BS ES \<longleftrightarrow> arena p BS ES"
  by (auto intro: arena_cong [of "usemem t p"] arena_cong [of p])

lemma used_usemem [simp]: "used_blks (usemem t p) BS = used_blks p BS"
  by (simp add: used_blks_def)

lemma misc_sel [simp]:
  "chunk (take_blk q p) = chunk p" "moving (take_blk q p) = moving p" "chunk (pooladd q p) = chunk p" "moving (pooladd q p) = moving p"
  "chunk (split_blk q n p) = chunk p" "moving (split_blk q n p) = moving p"
  "brklim (take_blk q p) = brklim p" "brklim (pooladd q p) = brklim p" "brklim (split_blk q n p) = brklim p"
  "brklim (add_chunk c ns p) = brklim p" "brk (split_blk q n p) = brk p" "brk (add_chunk c ns p) = brk p"
  "csize (take_blk q p) = csize p" "csize (pooladd q p) = csize p" "csize (split_blk q n p) = csize p"
  "chunk (add_chunk c ns p) = chunk p" "moving (add_chunk c ns p) = moving p" "cursize (add_chunk c ns p) = cursize p"
  by (simp_all add: take_blk_def pooldel_def pooladd_def Let_def split_blk_def B2T_hdr_def add_chunk_def)

lemma pool_inv_brk: "pool_inv p A \<Longrightarrow> brk p \<le> brklim p"
  by (simp add: pool_inv_def)

lemma alloc_whole:
  assumes i: "pool_inv p A" and a: "arena p BS ES" "used_blks p BS = A" and t: "t \<in> tblks (froot p)" "n + BHDRSIZE \<le> bsize p t"
  shows "fresh_block p A n t (usemem t (take_blk t p))"
proof -
  have tB: "t \<in> BS" "magic p t = MAGIC_F" using t arenaD(12) [OF a(1)] by auto
  show ?thesis
    by (rule fresh_blockI [where BS = BS and ES = ES])
      (use take_arena [OF a(1) tB] tB a(2) i t pool_inv_brk [OF i] in \<open>auto simp: usemem_arena used_blks_def\<close>)
qed

lemma alloc_split:
  assumes i: "pool_inv p A" and a: "arena p BS ES" "used_blks p BS = A" and q: "q \<in> tblks (froot p)"
    and n: "0 < w" "w < bsize p q" "32 dvd w" "n + BHDRSIZE \<le> w"
  shows "fresh_block p A n q (usemem q (pooladd (q + w) (split_blk q w (take_blk q p))))"
proof -
  have qB: "q \<in> BS" "magic p q = MAGIC_F" using q arenaD(12) [OF a(1)] by auto
  let ?p2 = "take_blk q p" and ?t = "q + w"
  let ?p3 = "split_blk q w ?p2"
  have w0: "w \<noteq> 0" using n(1) by simp
  note S = split_blk_sel [OF w0, of q ?p2]
  have a2: "arena ?p2 BS ES" using take_arena [OF a(1) qB] .
  have a3: "arena ?p3 (insert ?t BS) ES"
    by (rule split_arena [OF a2 qB(1)]) (use n in simp_all)
  have tn: "?t \<noteq> B2NB p q" using n by (simp add: B2NB_def)
  have tB: "?t \<notin> BS" using arena_gap [OF a(1), of q ?t] qB(1) n by (auto simp: B2NB_def)
  have nn: "magic p (B2NB p q) \<noteq> MAGIC_F" using arenaD(13) [OF a(1) qB] .
  have "B2NB ?p3 ?t = B2NB p q" using w0 by (simp add: B2NB_def S)
  then have a4: "arena (pooladd ?t ?p3) (insert ?t BS) ES"
    by (intro release_arena [OF a3]) (use nn tn in \<open>simp_all add: S\<close>)
  show ?thesis
    by (rule fresh_blockI [where BS = "insert ?t BS" and ES = ES])
      (use a4 qB a(2) i n w0 tB pool_inv_brk [OF i] in \<open>auto simp: usemem_arena used_blks_def S\<close>)
qed

lemma layblk_sel [simp]:
  "bsize (layblk t n p) = (bsize p)(t := n)" "tailhdr (layblk t n p) = (tailhdr p)(t + n := t)"
  "magic (layblk t n p) = magic p" "chain (layblk t n p) = chain p" "csize (layblk t n p) = csize p"
  "froot (layblk t n p) = froot p" "quanta (layblk t n p) = quanta p" "brk (layblk t n p) = brk p"
  "cursize (layblk t n p) = cursize p" "chunk (layblk t n p) = chunk p" "moving (layblk t n p) = moving p" "brklim (layblk t n p) = brklim p"
  by (simp_all add: layblk_def B2T_hdr_def B2NB_def)

text \<open>The fields of the pool after \<^verbatim>\<open>newchunk\<close> are those of the chunk with its block cut in two.\<close>

definition same_arena :: "Pool \<Rightarrow> Pool \<Rightarrow> bool" where
  "same_arena p p' \<longleftrightarrow> quanta p' = quanta p \<and> chain p' = chain p \<and> magic p' = magic p \<and> bsize p' = bsize p \<and>
    tailhdr p' = tailhdr p \<and> froot p' = froot p \<and> brk p' = brk p \<and> cursize p' = cursize p \<and> chunk p' = chunk p \<and> moving p' = moving p \<and>
    brklim p' = brklim p \<and> csize p' = csize p"

lemma mkleader_sel:
  assumes "quanta p = 31"
  shows "bsize (mkleader c ns p) = (bsize p)(c := 32)" "tailhdr (mkleader c ns p) = (tailhdr p)(c + 32 := c)"
  "magic (mkleader c ns p) = (magic p)(c := MAGIC_E)" "chain (mkleader c ns p) = c # chain p" 
  "froot (mkleader c ns p) = froot p" "quanta (mkleader c ns p) = 31" "brk (mkleader c ns p) = brk p"
  "cursize (mkleader c ns p) = cursize p" "chunk (mkleader c ns p) = chunk p" "moving (mkleader c ns p) = moving p" "brklim (mkleader c ns p) = brklim p"
  "csize (mkleader c ns p) = (csize p)(c := ns + 32)"
  using assms by (simp_all add: mkleader_def Let_def)

lemma add_chunk_sel:
  "magic (add_chunk c ns p) = (magic p)(c := MAGIC_E, c + 32 := MAGIC_A, c + 32 + ns := MAGIC_E)"
  "bsize (add_chunk c ns p) = (bsize p)(c := 32, c + 32 := ns)"
  "tailhdr (add_chunk c ns p) = (tailhdr p)(c + 32 := c, c + 32 + ns := c + 32)"
  "chain (add_chunk c ns p) = c # chain p" "quanta (add_chunk c ns p) = quanta p" "brk (add_chunk c ns p) = brk p"
  "froot (add_chunk c ns p) = froot p" "csize (add_chunk c ns p) = (csize p)(c := ns + 32)"
  by (simp_all add: add_chunk_def)

lemma newchunk_split:
  assumes w: "0 < w" "w < ns" and q: "quanta p = 31" and p2: "p2 = mkleader c ns p" 
    and p3: "p3 = layblk (c + 32) w (setmagic (c + 32) MAGIC_A p2)"
    and p4: "p4 = pooladd (c + 32 + w) (layblk (c + 32 + w) (ns - w) p3)"
  shows "same_arena (pooladd (c + 32 + w) (split_blk (c + 32) w (add_chunk c ns p)))
     (setmagic (B2NB p4 (c + 32 + w)) MAGIC_E p4)"
proof -
  have w0: "w \<noteq> 0" "ns - w \<noteq> 0" using w by simp_all
  have n: "B2NB p4 (c + 32 + w) = c + 32 + ns" by (simp add: p4 B2NB_def)
  show ?thesis unfolding n same_arena_def
    by (simp add: p4 p3 p2 mkleader_sel [OF q] add_chunk_sel split_blk_sel [OF w0(1)] q w0 B2NB_def fun_upd_twist)
      (use w in \<open>simp only: add.assoc fun_upd_twist [of "c + (32 + ns)" "c + (32 + w)"] simp_thms add_left_cancel\<close>)
qed

lemma newchunk_whole:
  assumes w: "0 < ns" and q: "quanta p = 31" and p2: "p2 = mkleader c ns p"
    and p3: "p3 = layblk (c + 32) ns (setmagic (c + 32) MAGIC_A p2)"
  shows "same_arena (add_chunk c ns p) (setmagic (B2NB p3 (c + 32)) MAGIC_E p3)"
  using w by (simp add: same_arena_def p3 p2 mkleader_sel [OF q] add_chunk_sel q B2NB_def)

lemma same_arena_fresh:
  assumes "same_arena p1 p2" "arena p1 BS ES" "used_blks p1 BS = insert b A" "b \<notin> A" "n + BHDRSIZE \<le> bsize p1 b" "magic p1 b = MAGIC_A"
    "\<forall>x\<in>A. bsize p1 x = bsize p x \<and> magic p1 x = magic p x" "pool_inv p A" "cursize p1 = cursize p" "chunk p1 = chunk p" "moving p1 = moving p"
    "brklim p1 = brklim p" "brk p1 \<le> brklim p"
  shows "fresh_block p A n b (usemem b p2)"
proof (rule fresh_blockI [where BS = BS and ES = ES])
  show "arena (usemem b p2) BS ES" unfolding usemem_arena
    by (rule arena_cong [OF assms(2)]) (use assms(1) in \<open>simp_all add: same_arena_def\<close>)
  show "used_blks (usemem b p2) BS = insert b A" using assms(1,3) by (simp add: used_blks_def same_arena_def)
qed (use assms in \<open>simp_all add: same_arena_def\<close>)

lemma newchunk_ok:
  assumes i: "pool_inv p A" and w: "0 < w" "w \<le> ns" "32 dvd w" "32 dvd ns" "n + BHDRSIZE \<le> w" and al: "alloc = ns + 32 + 4"
  shows "case newchunk w ns alloc p of (None, p') \<Rightarrow> pool_inv p' A
     | (Some v, p') \<Rightarrow> \<exists>b. v = B2D b \<and> fresh_block p A n b p'"
proof -
  obtain BS ES where a: "arena p BS ES" "used_blks p BS = A" using i by (auto simp: pool_inv_def)
  have q: "quanta p = 31" using arenaD(1) [OF a(1)] .
  show ?thesis
  proof (cases "brk p + (alloc + 31) > brklim p")
    case True
    then show ?thesis using i by (simp add: newchunk_def sbrk_def q)
  next
    case False
    define c where "c = 32 * ((brk p + 31) div 32)"
    define k where "k = brk p + (alloc + 31)"
    define p1 where "p1 = p\<lparr>brk := k, nbrk := nbrk p + 1\<rparr>"
    have cb: "brk p \<le> c" "c + 32 + ns + 4 \<le> k" by (simp_all add: c_def k_def al)
    have a0: "arena (p\<lparr>nbrk := nbrk p + 1\<rparr>) BS ES" by (rule arena_cong [OF a(1)]) simp_all
    have p1': "p1 = (p\<lparr>nbrk := nbrk p + 1\<rparr>)\<lparr>brk := k\<rparr>" by (simp add: p1_def)
    have a1: "arena (add_chunk c ns p1) (insert (c + 32) BS) (insert (c + 32 + ns) ES)"
      unfolding p1' by (rule chunk_arena [OF a0]) (use cb w in simp_all)
    have q1: "quanta p1 = 31" using q by (simp add: p1_def)
    define p2 where "p2 = mkleader c ns p1"
    define p3 where "p3 = layblk (c + 32) w (setmagic (c + 32) MAGIC_A p2)"
    define p4 where "p4 = pooladd (c + 32 + w) (layblk (c + 32 + w) (ns - w) p3)"
    have t: "B2NB p2 c = c + 32" "B2NB p3 (c + 32) = c + 32 + w"
      by (simp_all add: B2NB_def p2_def p3_def mkleader_sel [OF q1])
    have an: "(brk p + 31) AND NOT 31 = c" unfolding c_def by (rule and_not_31)
    have e: "newchunk w ns alloc p = (if 0 < ns - w
        then (Some (B2D (c + 32)), usemem (c + 32) (setmagic (B2NB p4 (c + 32 + w)) MAGIC_E p4))
        else (Some (B2D (c + 32)), usemem (c + 32) (setmagic (B2NB p3 (c + 32)) MAGIC_E p3)))"
    proof -
      have s: "sbrk (alloc + 31) p = Some (brk p, p\<lparr>brk := k\<rparr>)" using False by (simp add: sbrk_def k_def)
      have p1'': "p\<lparr>brk := k, nbrk := nbrk (p\<lparr>brk := k\<rparr>) + 1\<rparr> = p1" by (simp add: p1_def)
      show ?thesis
        by (simp only: newchunk_def q s option.case prod.case an Let_def p1'' p2_def [symmetric] t(1) p3_def [symmetric]
            t(2) p4_def [symmetric])
    qed
    have old: "x < c" if "x \<in> A" for x
    proof -
      have "x \<in> BS \<union> set (chain p)" using a(2) that by (auto simp: used_blks_def)
      then have "B2NB p x \<le> brk p" "0 < bsize p x" using a(1) unfolding arena_def by blast+
      then show ?thesis using cb(1) by (simp add: B2NB_def)
    qed
    have oB: "x < c" if "x \<in> BS" for x
    proof -
      have "B2NB p x \<le> brk p" "0 < bsize p x" using a(1) that unfolding arena_def by blast+
      then show ?thesis using cb(1) by (simp add: B2NB_def)
    qed
    have nA: "c + 32 \<notin> A" using old by force
    show ?thesis
    proof (cases "w < ns")
      case True
      let ?P = "split_blk (c + 32) w (add_chunk c ns p1)" and ?t = "c + 32 + w"
      have w0: "w \<noteq> 0" using w(1) by simp
      have "brk p1 \<le> brklim p" using \<open>\<not> brk p + (alloc + 31) > brklim p\<close> by (simp add: p1_def k_def)
      then have pm: "brk p1 \<le> brklim p" "brklim p1 = brklim p" "magic p1 = magic p" "bsize p1 = bsize p" "cursize p1 = cursize p" "chunk p1 = chunk p" "moving p1 = moving p"
        by (simp_all add: p1_def)
      note S = split_blk_sel [OF w0, of "c + 32" "add_chunk c ns p1"] add_chunk_sel [of c ns p1]
      have nb: "B2NB ?P ?t = c + 32 + ns" "B2NB (add_chunk c ns p1) (c + 32) = c + 32 + ns" using w0 by (simp_all add: B2NB_def S)
      have a2: "arena ?P (insert ?t (insert (c + 32) BS)) (insert (c + 32 + ns) ES)"
        by (rule split_arena [OF a1]) (use w True in \<open>simp_all add: S\<close>)
      have a3: "arena (pooladd ?t ?P) (insert ?t (insert (c + 32) BS)) (insert (c + 32 + ns) ES)"
        by (rule release_arena [OF a2]) (use w True w0 in \<open>simp_all add: nb S\<close>)
      have "used_blks (pooladd ?t ?P) (insert ?t (insert (c + 32) BS)) = insert (c + 32) A"
      proof -
        have "magic (pooladd ?t ?P) x = magic p x" if "x \<in> BS" for x using oB [OF that] w by (simp add: S pm)
        moreover have "magic (pooladd ?t ?P) ?t = MAGIC_F" "magic (pooladd ?t ?P) (c + 32) = MAGIC_A"
          using w True w0 by (simp_all add: S)
        ultimately show ?thesis unfolding used_blks_def a(2) [symmetric] by (auto simp del: pooladd_sel)
      qed
      then have "fresh_block p A n (c + 32) (usemem (c + 32) (setmagic (B2NB p4 ?t) MAGIC_E p4))"
        by (intro same_arena_fresh [OF newchunk_split [OF w(1) True q1 p2_def p3_def p4_def] a3])
          (use w True w0 nA i in \<open>auto simp: S pm dest: old\<close>)
      then show ?thesis using e True by auto
    next
      case False
      then have wn: "w = ns" using w(2) by simp
      have kl: "k \<le> brklim p" using \<open>\<not> brk p + (alloc + 31) > brklim p\<close> by (simp add: k_def)
      have "used_blks (add_chunk c ns p1) (insert (c + 32) BS) = insert (c + 32) A"
        using a(2) oB w by (force simp: used_blks_def add_chunk_sel p1_def)
      then have "fresh_block p A n (c + 32) (usemem (c + 32) (setmagic (B2NB p3 (c + 32)) MAGIC_E p3))"
        by (intro same_arena_fresh [OF newchunk_whole [OF _ q1 p2_def p3_def [unfolded wn]] a1])
          (use w wn nA i old kl in \<open>auto simp: add_chunk_sel p1_def dest: old\<close>)
      then show ?thesis using e wn by auto
    qed
  qed
qed


lemma growpool_ok:
  assumes i: "pool_inv p A" and w: "0 < w" "32 dvd w" "n + BHDRSIZE \<le> w"
  shows "\<exists>r p'. growpool w p = Done (r, p') \<and>
    (case r of None \<Rightarrow> pool_inv p' A | Some v \<Rightarrow> \<exists>b. v = B2D b \<and> fresh_block p A n b p')"
proof -
  have q: "quanta p = 31" "32 dvd chunk p" "\<not> moving p" using i arenaD(1) by (auto simp: pool_inv_def)
  let ?ns = "if w > chunk p then w else chunk p"
  have ns: "w \<le> ?ns" "32 dvd ?ns" using w q by auto
  have inv: "pool_inv (p\<lparr>arenasize := k\<rparr>) A" for k
  proof -
    have "arena (p\<lparr>arenasize := k\<rparr>) BS ES = arena p BS ES" for BS ES
      by (auto intro: arena_cong [of "p\<lparr>arenasize := k\<rparr>"] arena_cong [of p])
    then show ?thesis using i by (simp add: pool_inv_def used_blks_def)
  qed
  have fr: "fresh_block (p\<lparr>arenasize := k\<rparr>) A n b p' \<Longrightarrow> fresh_block p A n b p'" for k b p'
    by (simp add: fresh_block_def)
  have pc: "poolcompact p = Some (False, p)" using q by (simp add: poolcompact_def)
  have nc: "\<exists>r p'. Done (newchunk w m (m + 32 + 4) (p\<lparr>arenasize := k\<rparr>)) = Done (r, p') \<and>
    (case r of None \<Rightarrow> pool_inv p' A | Some v \<Rightarrow> \<exists>b. v = B2D b \<and> fresh_block p A n b p')" if "w \<le> m" "32 dvd m" for m k
    using newchunk_ok [OF inv w(1) that(1) w(2) that(2) w(3) refl, of k] fr
    by (cases "newchunk w m (m + 32 + 4) (p\<lparr>arenasize := k\<rparr>)") (auto split: option.splits)
  define ns1 where "ns1 = (maxsize p - arenasize p - 32 - 4) AND NOT 31"
  have d1: "32 dvd ns1" unfolding ns1_def and_not_31 by simp
  have e: "growpool w p =
      (if arenasize p + (?ns + 32 + 4) > maxsize p then
         (if ns1 < w then Done (None, p) else Done (newchunk w ns1 (ns1 + 32 + 4) (p\<lparr>arenasize := arenasize p + (ns1 + 32 + 4)\<rparr>)))
       else Done (newchunk w ?ns (?ns + 32 + 4) (p\<lparr>arenasize := arenasize p + (?ns + 32 + 4)\<rparr>)))"
    unfolding growpool_def Let_def q(1) pc ns1_def by simp
  show ?thesis
  proof (cases "arenasize p + (?ns + 32 + 4) > maxsize p")
    case True
    show ?thesis
    proof (cases "ns1 < w")
      case True
      with \<open>arenasize p + _ > _\<close> i show ?thesis unfolding e by simp
    next
      case False
      have "growpool w p = Done (newchunk w ns1 (ns1 + 32 + 4) (p\<lparr>arenasize := arenasize p + (ns1 + 32 + 4)\<rparr>))"
        unfolding e using True False by (simp only: if_True if_False)
      with nc [of ns1] False d1 show ?thesis by simp
    qed
  next
    case False
    have "growpool w p = Done (newchunk w ?ns (?ns + 32 + 4) (p\<lparr>arenasize := arenasize p + (?ns + 32 + 4)\<rparr>))"
      unfolding e using False by (simp only: if_False)
    with nc [OF ns] show ?thesis by simp
  qed
qed

lemma roundup:
  fixes n :: int assumes "0 \<le> n"
  defines "w \<equiv> (n + BHDRSIZE + 31) AND NOT 31"
  shows "0 < w" "32 dvd w" "n + BHDRSIZE \<le> w"
  unfolding w_def and_not_31 BHDRSIZE_def using assms(1) by auto

lemma poolalloc_inv:
  assumes i: "pool_inv p A" and n: "0 \<le> n" "n < 1024 * 1024 * 1024"
  shows "\<exists>r p'. poolalloc n p = Some (r, p') \<and>
    (case r of None \<Rightarrow> pool_inv p' A | Some v \<Rightarrow> \<exists>b. v = B2D b \<and> fresh_block p A n b p')"
proof -
  let ?p = "p\<lparr>nalloc := nalloc p + 1\<rparr>"
  define w where "w = (n + BHDRSIZE + 31) AND NOT 31"
  note w = roundup [OF n(1), folded w_def]
  obtain BS ES where a0: "arena p BS ES" "used_blks p BS = A" using i by (auto simp: pool_inv_def)
  have q: "quanta p = 31" using arenaD(1) [OF a0(1)] .
  have a: "arena ?p BS ES" by (rule arena_cong [OF a0(1)]) simp_all
  have u: "used_blks ?p BS = A" using a0(2) by (simp add: used_blks_def)
  have i1: "pool_inv ?p A" using i a u unfolding pool_inv_def by auto
  have fr: "fresh_block ?p A n b p' \<Longrightarrow> fresh_block p A n b p'" for b p' by (simp add: fresh_block_def)
  note F = treefind_ok [OF arenaD(11) [OF a], of w Nofit]
  have e: "poolalloc1 n p = (case treefind (bsize p) w Nofit (froot p) of
           Exact t \<Rightarrow> Done (Some (B2D t), usemem t (take_blk t ?p))
         | Best q \<Rightarrow> if bsize p q - w < drop_bit 2 w then Done (Some (B2D q), usemem q (take_blk q ?p))
              else Done (Some (B2D q), usemem q (pooladd (q + w) (split_blk q w (take_blk q ?p))))
         | Nofit \<Rightarrow> growpool w ?p)"
  proof -
    have "pooladd (x + w) (layblk (x + w) (bsize p x - w) (layblk x w (take_blk x ?p))) = pooladd (x + w) (split_blk x w (take_blk x ?p))" for x
      by (simp add: split_blk_def Let_def layblk_def pooladd_def B2T_hdr_def B2NB_def)
    then show ?thesis
      unfolding poolalloc1_def Let_def q w_def [symmetric]
      using n by (simp add: take_blk_def [symmetric] B2NB_def split: found.splits)
  qed
  have whole: "fresh_block p A n t (usemem t (take_blk t ?p))" if "t \<in> tblks (froot p)" "w \<le> bsize p t" for t
    using alloc_whole [OF i1 a u, of t n] that w by (intro fr) simp
  show ?thesis
  proof (cases "treefind (bsize p) w Nofit (froot p)")
    case (Exact t)
    then have "t \<in> tblks (froot p)" "bsize p t = w" using F by simp_all
    with whole [of t] show ?thesis by (auto simp: poolalloc_def e Exact)
  next
    case (Best t)
    then have t: "t \<in> tblks (froot p)" "w < bsize p t" using F by simp_all
    have "fresh_block p A n t (usemem t (pooladd (t + w) (split_blk t w (take_blk t ?p))))"
      using alloc_split [OF i1 a u, of t w n] t w by (intro fr) simp
    with whole [OF t(1)] t(2) show ?thesis by (auto simp: poolalloc_def e Best)
  next
    case Nofit
    from growpool_ok [OF i1 w] fr show ?thesis
      by (fastforce simp: poolalloc_def e Nofit split: option.splits)
  qed
qed

lemma heappool_inv: "pool_inv heappool {}"
  unfolding pool_inv_def by (intro conjI exI [of _ "{}"]) (simp_all add: arena_def chunked_def used_blks_def heappool_def)


section \<open>Allocators\<close>

text \<open>
  What a client of an allocator relies on: \<open>inv p A\<close> says that the pool is consistent with \<open>A\<close> the blocks handed out. Any
  sequence of requests then runs without a fault and never hands out a block twice.
\<close>

datatype request = Get int | Put nat   \<comment> \<open>allocate a size, free one of the blocks held\<close>

locale allocator =
  fixes alloc :: "int \<Rightarrow> 'p \<Rightarrow> (int option \<times> 'p) option" and release :: "int \<Rightarrow> 'p \<Rightarrow> 'p option"
    and inv :: "'p \<Rightarrow> int set \<Rightarrow> bool" and addr :: "int \<Rightarrow> int" and limit :: int
    and fresh :: "'p \<Rightarrow> int set \<Rightarrow> int \<Rightarrow> int \<Rightarrow> 'p \<Rightarrow> bool"
  assumes alloc_law: "inv p A \<Longrightarrow> 0 \<le> n \<Longrightarrow> n < limit \<Longrightarrow>
      \<exists>r p'. alloc n p = Some (r, p') \<and> (case r of None \<Rightarrow> inv p' A | Some v \<Rightarrow> \<exists>b. v = addr b \<and> fresh p A n b p')"
    and fresh_law: "fresh p A n b p' \<Longrightarrow> b \<notin> A \<and> inv p' (insert b A)"
    and release_law: "inv p A \<Longrightarrow> b \<in> A \<Longrightarrow> \<exists>p'. release (addr b) p = Some p' \<and> inv p' (A - {b})"
begin

fun serve :: "request list \<Rightarrow> 'p \<Rightarrow> int list \<Rightarrow> ('p \<times> int list) option" where
  \<comment> \<open>the requests in turn; the list holds the addresses in the hands of the client\<close>
  "serve [] p vs = Some (p, vs)"
| "serve (Get n # rs) p vs =
     (case alloc n p of None \<Rightarrow> None | Some (None, p') \<Rightarrow> serve rs p' vs | Some (Some v, p') \<Rightarrow> serve rs p' (v # vs))"
| "serve (Put k # rs) p vs =
     (if k < length vs then (case release (vs ! k) p of None \<Rightarrow> None | Some p' \<Rightarrow> serve rs p' (take k vs @ drop (Suc k) vs))
      else serve rs p vs)"

lemma serve_ok:
  assumes "inv p (set bs)" "distinct bs" "\<forall>n. Get n \<in> set rs \<longrightarrow> 0 \<le> n \<and> n < limit"
  shows "\<exists>p' cs. serve rs p (map addr bs) = Some (p', map addr cs) \<and> distinct cs \<and> inv p' (set cs)"
  using assms
proof (induction rs arbitrary: p bs)
  case (Cons r rs)
  show ?case
  proof (cases r)
    case (Get n)
    have n: "0 \<le> n" "n < limit" using Cons.prems(3) Get by auto
    from alloc_law [OF Cons.prems(1) n] obtain v p' where a: "alloc n p = Some (v, p')"
      "case v of None \<Rightarrow> inv p' (set bs) | Some v \<Rightarrow> \<exists>b. v = addr b \<and> fresh p (set bs) n b p'" by blast
    show ?thesis
    proof (cases v)
      case None
      then show ?thesis using Cons.IH [of p' bs] Cons.prems a Get by simp
    next
      case (Some w)
      then obtain b where b: "w = addr b" "b \<notin> set bs" "inv p' (set (b # bs))" using a(2) fresh_law by auto
      then show ?thesis using Cons.IH [of p' "b # bs"] Cons.prems a Some Get by simp
    qed
  next
    case (Put k)
    show ?thesis
    proof (cases "k < length bs")
      case True
      let ?cs = "take k bs @ drop (Suc k) bs"
      have bs: "bs = take k bs @ bs ! k # drop (Suc k) bs" using True by (rule id_take_nth_drop)
      have d: "distinct ?cs" "bs ! k \<notin> set ?cs" using Cons.prems(2) by (subst (asm) bs, simp)+
      have "set bs - {bs ! k} = set ?cs" using d(2) by (subst bs) auto
      then obtain p' where p': "release (addr (bs ! k)) p = Some p'" "inv p' (set ?cs)"
        using release_law [OF Cons.prems(1), of "bs ! k"] True by auto
      have "map addr ?cs = take k (map addr bs) @ drop (Suc k) (map addr bs)" by (simp add: take_map drop_map)
      then show ?thesis using Cons.IH [OF p'(2) d(1)] Cons.prems(3) p'(1) True Put by simp
    qed (use Cons Put in simp)
  qed
qed auto

end

interpretation pools: allocator poolalloc poolfree pool_inv B2D "1024 * 1024 * 1024" fresh_block
proof unfold_locales
  show "fresh_block p A n b p' \<Longrightarrow> b \<notin> A \<and> pool_inv p' (insert b A)" for p A n b p' by (simp add: fresh_block_def)
  show "pool_inv p A \<Longrightarrow> b \<in> A \<Longrightarrow> \<exists>p'. poolfree (B2D b) p = Some p' \<and> pool_inv p' (A - {b})" for p A b
    using poolfree_inv by blast
qed (rule poolalloc_inv)

section \<open>Properties\<close>

text \<open>
  C4. The allocator. In a pool whose arena is consistent, with \<open>A\<close> the allocated blocks,
  poolalloc of a size in range never faults; the block it returns is new, holds at least the size asked for,
  overlaps no allocated block, leaves every allocated block where and as it was, and the arena is
  consistent again with exactly that block added (the free tree holds all the free blocks, sorted by size, free
  neighbours are joined, \<^verbatim>\<open>cursize\<close> is the memory in use); when it returns nil nothing is allocated.
\<close>

theorem poolalloc_fresh:
  assumes "pool_inv p A" and "0 \<le> n" "n < 1024 * 1024 * 1024"
  shows "\<exists>r p'. poolalloc n p = Some (r, p') \<and>
    (case r of None \<Rightarrow> pool_inv p' A | Some v \<Rightarrow> \<exists>b. v = B2D b \<and> fresh_block p A n b p')"
  using assms by (rule poolalloc_inv)

theorem poolalloc_fresh_witness:
  "\<exists>r p'. poolalloc 100 heappool = Some (r, p') \<and>
    (case r of None \<Rightarrow> pool_inv p' {} | Some v \<Rightarrow> \<exists>b. v = B2D b \<and> fresh_block heappool {} 100 b p')"
  using poolalloc_fresh [OF heappool_inv, of 100] by simp

text \<open>
  C5. Freeing a block. In a consistent arena poolfree of an allocated block never faults, joins it with free
  neighbours, and leaves a consistent arena in which exactly that block is no longer allocated and every other
  allocated block keeps its header.
\<close>

theorem poolfree_gives_back:
  assumes "pool_inv p A" and "b \<in> A"
  shows "\<exists>p'. poolfree (B2D b) p = Some p' \<and> pool_inv p' (A - {b}) \<and>
    (\<forall>x\<in>A - {b}. bsize p' x = bsize p x \<and> magic p' x = magic p x)"
  using assms by (rule poolfree_inv)

text \<open>One chunk with one used block.\<close>

definition pool1 :: Pool where "pool1 = (add_chunk 0x10000 64 (heappool\<lparr>brk := 0x20000\<rparr>))\<lparr>cursize := 64\<rparr>"

lemma pool1_inv: "pool_inv pool1 {0x10020}"
proof -
  have "arena heappool {} {}" by (simp add: arena_def chunked_def heappool_def)
  from chunk_arena [OF this, of 65536 64 131072]
  have "arena (add_chunk 65536 64 (heappool\<lparr>brk := 131072\<rparr>)) {65568} {65632}" by (simp add: heappool_def)
  then have "arena pool1 {65568} {65632}" by (rule arena_cong) (simp_all add: pool1_def)
  moreover have "used_blks pool1 {65568} = {65568}" by (auto simp: used_blks_def pool1_def add_chunk_def)
  ultimately show ?thesis
    unfolding pool_inv_def by (intro conjI exI [of _ "{65568}"] exI [of _ "{65632}"]) (simp_all add: pool1_def add_chunk_def heappool_def)
qed

theorem poolfree_gives_back_witness: "\<exists>p'. poolfree (B2D 0x10020) pool1 = Some p' \<and> pool_inv p' {}"
  using poolfree_gives_back [OF pool1_inv, of 65568] by auto

definition pool2 :: Pool where
  \<comment> \<open>a free block of 32 bytes, then a used block of 32 bytes\<close>
  "pool2 = pooladd 0x10020 (split_blk 0x10020 32 (pool1\<lparr>moving := True, nfree := 1\<rparr>))"


end
