(* ===== verification/Heap.thy ===== *)
theory Heap
  imports Alt Pool_Arena
begin

text \<open>
  The reference-counted heap, \<^verbatim>\<open>interp/heap.c\<close> with \<^verbatim>\<open>unload\<close> of \<^verbatim>\<open>interp/load.c\<close> and \<^verbatim>\<open>killcomm\<close>
  of \<^verbatim>\<open>emu/dis.c\<close>, which it calls: dropping a reference (\<^verbatim>\<open>destroy\<close> and the free functions of the
  type descriptors), taking references on the pointers of a block (\<^verbatim>\<open>incmem\<close>), allocation and
  initialisation. A descriptor whose count reaches zero stays readable in the model: the reuse
  of its memory is not modelled. The native-code pointers \<^verbatim>\<open>initialize\<close> and \<^verbatim>\<open>destroy\<close> of a
  descriptor are left out.
\<close>

unbundle bit_operations_syntax

section \<open>Pointer maps\<close>

text \<open>
  The addresses of the pointer words of a block at \<open>w\<close>: bit \<open>7 - j\<close> of a map byte stands for word
  \<open>j\<close> of its group of eight. \<open>js\<close> is the order in which the source visits a group.
\<close>

definition byte_slots :: "nat list \<Rightarrow> WORD \<Rightarrow> byte \<Rightarrow> WORD list" where
  "byte_slots js w c = map (\<lambda>j. w + 4 * of_nat j) (filter (\<lambda>j. bit c (7 - j)) js)"

fun map_slots :: "nat list \<Rightarrow> WORD \<Rightarrow> byte list \<Rightarrow> WORD list" where
  "map_slots js w [] = []"
| "map_slots js w (c # cs) = byte_slots js w c @ map_slots js (w + 32) cs"

abbreviation slots_down :: "WORD \<Rightarrow> Type \<Rightarrow> WORD list" where
  "slots_down v t \<equiv> map_slots [7, 6, 5, 4, 3, 2, 1, 0] v (tmap t)"

abbreviation slots_up :: "WORD \<Rightarrow> Type \<Rightarrow> WORD list" where
  "slots_up v t \<equiv> map_slots [0, 1, 2, 3, 4, 5, 6, 7] v (tmap t)"

definition ldata :: "ptr \<Rightarrow> WORD" where
  \<comment> \<open>\<^verbatim>\<open>l->data\<close>\<close>
  "ldata l = l + 8"

section \<open>Colours and counts\<close>

definition propagator :: int where "propagator = 3"

definition Setmark :: "ptr \<Rightarrow> vm \<Rightarrow> vm" where
  "Setmark v \<sigma> =
     (case hp \<sigma> v of None \<Rightarrow> \<sigma> | Some h \<Rightarrow>
       if color h \<noteq> mutator \<sigma> then (updobj v (\<lambda>h. h\<lparr>color := propagator\<rparr>) \<sigma>)\<lparr>nprop := True\<rparr> else \<sigma>)"

definition incref :: "ptr \<Rightarrow> vm \<Rightarrow> vm option" where
  \<comment> \<open>\<^verbatim>\<open>h = D2H(x); h->ref++; Setmark(h)\<close>\<close>
  "incref v \<sigma> = (case hp \<sigma> v of None \<Rightarrow> None
     | Some h \<Rightarrow> Some (Setmark v (updobj v (\<lambda>h. h\<lparr>href := href h + 1\<rparr>) \<sigma>)))"

definition typeref :: "int \<Rightarrow> tid \<Rightarrow> vm \<Rightarrow> vm" where
  \<comment> \<open>\<^verbatim>\<open>t->ref += k\<close>\<close>
  "typeref k t \<sigma> = \<sigma>\<lparr>types := (types \<sigma>)(t := (types \<sigma> t)\<lparr>tref := tref (types \<sigma> t) + k\<rparr>)\<rparr>"

definition freetype :: "tid option \<Rightarrow> vm \<Rightarrow> vm" where
  "freetype t \<sigma> = (case t of None \<Rightarrow> \<sigma> | Some t \<Rightarrow> typeref (-1) t \<sigma>)"

definition D2H :: "ptr \<Rightarrow> int" where
  \<comment> \<open>the header of the block, a pool address\<close>
  "D2H v = uint v - 12"

definition heapfree :: "ptr \<Rightarrow> vm \<Rightarrow> vm option" where
  \<comment> \<open>\<^verbatim>\<open>poolfree(heapmem, D2H(v))\<close>\<close>
  "heapfree v \<sigma> = map_option (\<lambda>P. \<sigma>\<lparr>hp := (hp \<sigma>)(v := None), heapmem := P\<rparr>) (poolfree (D2H v) (heapmem \<sigma>))"

definition gclock :: "vm \<Rightarrow> vm" where "gclock \<sigma> = \<sigma>\<lparr>gchalt := gchalt \<sigma> + 1\<rparr>"
definition gcunlock :: "vm \<Rightarrow> vm" where "gcunlock \<sigma> = \<sigma>\<lparr>gchalt := gchalt \<sigma> - 1\<rparr>"

section \<open>Freeing\<close>

text \<open>
  The free functions call \<^verbatim>\<open>destroy\<close> on the pointers of the block; \<open>D\<close> is that call.
\<close>

definition freeptrs :: "(ptr \<Rightarrow> vm \<Rightarrow> vm option) \<Rightarrow> WORD \<Rightarrow> Type \<Rightarrow> vm \<Rightarrow> vm option" where
  "freeptrs D v t =
     foldO (\<lambda>a \<sigma>. let x = rdW (mem \<sigma>) a in if x \<noteq> H then D x \<sigma> else Some \<sigma>) (slots_down v t)"

definition swiprog :: "prg \<Rightarrow> vm \<Rightarrow> vm" where
  "swiprog p \<sigma> = \<sigma>\<lparr>swis := swis \<sigma> @ [p]\<rparr>"

definition changup :: string where "changup = ''channel hangup''"

definition killcomm1 :: "prg \<Rightarrow> vm \<Rightarrow> vm option" where
  "killcomm1 p \<sigma> =
     (case progs \<sigma> p of None \<Rightarrow> None | Some pr \<Rightarrow>
       let \<sigma>1 = updprog p (\<lambda>q. q\<lparr>pptr := 0\<rparr>) \<sigma> in
       (case pstate pr of
          Prelease \<Rightarrow> Some (swiprog p \<sigma>1)
        | Psend \<Rightarrow> addrun p (updprog p (\<lambda>q. q\<lparr>pkill := Some changup\<rparr>) \<sigma>1)
        | Precv \<Rightarrow> addrun p (updprog p (\<lambda>q. q\<lparr>pkill := Some changup\<rparr>) \<sigma>1)
        | _ \<Rightarrow> Some \<sigma>1))"

definition killcomm :: "prg list \<Rightarrow> vm \<Rightarrow> vm option" where
  \<comment> \<open>the caller's queue is empty afterwards\<close>
  "killcomm = foldO killcomm1"

definition altgone_opt :: "prg option \<Rightarrow> vm \<Rightarrow> vm option" where
  "altgone_opt p \<sigma> = (case p of None \<Rightarrow> Some \<sigma> | Some p \<Rightarrow> altgone p \<sigma>)"

definition freechan :: "(ptr \<Rightarrow> vm \<Rightarrow> vm option) \<Rightarrow> ptr \<Rightarrow> bool \<Rightarrow> vm \<Rightarrow> vm option" where
  "freechan D c swept \<sigma> =
     (case getchan \<sigma> c of None \<Rightarrow> None | Some ch \<Rightarrow>
       let \<sigma>1 = (if mover ch = mv_movtmp then freetype (Some (midt ch)) \<sigma> else \<sigma>) in
       Option.bind (altgone_opt (sendalt ch) \<sigma>1) (\<lambda>\<sigma>2.
       Option.bind (getchan \<sigma>2 c) (\<lambda>ch2.
       Option.bind (altgone_opt (recvalt ch2) \<sigma>2) (\<lambda>\<sigma>3.
       Option.bind (getchan \<sigma>3 c) (\<lambda>ch3.
       Option.bind (killcomm (send ch3) \<sigma>3) (\<lambda>\<sigma>4.
       Option.bind (killcomm (recv ch3) (updchan c (\<lambda>ch. ch\<lparr>send := []\<rparr>) \<sigma>4)) (\<lambda>\<sigma>5.
       let \<sigma>6 = updchan c (\<lambda>ch. ch\<lparr>recv := []\<rparr>) \<sigma>5 in
       Option.bind (getchan \<sigma>6 c) (\<lambda>ch6.
       if \<not> swept \<and> sendq ch6 \<noteq> H then D (sendq ch6) \<sigma>6 else Some \<sigma>6))))))))"

definition freestring :: "ptr \<Rightarrow> bool \<Rightarrow> vm \<Rightarrow> vm option" where
  \<comment> \<open>frees the \<^verbatim>\<open>string2c\<close> buffer, which lies outside the heap pool\<close>
  "freestring v swept \<sigma> =
     Some (updobj v (\<lambda>h. h\<lparr>hs := (case hs h of SString s \<Rightarrow> SString (s\<lparr>stmp := None\<rparr>) | x \<Rightarrow> x)\<rparr>) \<sigma>)"

definition freearray :: "(ptr \<Rightarrow> vm \<Rightarrow> vm option) \<Rightarrow> ptr \<Rightarrow> bool \<Rightarrow> vm \<Rightarrow> vm option" where
  "freearray D v swept \<sigma> =
     (case hp \<sigma> v of Some h \<Rightarrow>
       (case hs h of SArray len t root d \<Rightarrow>
          let ty = types \<sigma> t in
          Option.bind
            (if swept then Some \<sigma>
             else if root \<noteq> H then D root \<sigma>
             else if np ty \<noteq> 0 then
               foldO (\<lambda>i. freeptrs D (d + of_nat i * of_int (tsize ty)) ty) [0 ..< nat len] \<sigma>
             else Some \<sigma>)
            (\<lambda>\<sigma>1. Some (typeref (-1) t \<sigma>1))
        | _ \<Rightarrow> None)
      | None \<Rightarrow> None)"

text \<open>The data part of a list cell: its pointers, then its reference on the type.\<close>

definition freecell :: "(ptr \<Rightarrow> vm \<Rightarrow> vm option) \<Rightarrow> ptr \<Rightarrow> tid option \<Rightarrow> bool \<Rightarrow> vm \<Rightarrow> vm option" where
  "freecell D l t swept \<sigma> =
     (case t of None \<Rightarrow> Some \<sigma> | Some ty \<Rightarrow>
       Option.bind (if \<not> swept \<and> np (types \<sigma> ty) \<noteq> 0 then freeptrs D (ldata l) (types \<sigma> ty) \<sigma> else Some \<sigma>)
         (\<lambda>\<sigma>1. Some (typeref (-1) ty \<sigma>1)))"

text \<open>
  The loop over the tail. Every turn that goes on frees a block, so the number of addresses is
  fuel enough.
\<close>

definition gettail :: "vm \<Rightarrow> ptr \<Rightarrow> ptr option" where
  \<comment> \<open>\<^verbatim>\<open>l->tail\<close>\<close>
  "gettail \<sigma> l = (case hp \<sigma> l of Some h \<Rightarrow> (case hs h of SList nx t \<Rightarrow> Some nx | _ \<Rightarrow> None) | None \<Rightarrow> None)"

fun freetail :: "nat \<Rightarrow> (ptr \<Rightarrow> vm \<Rightarrow> vm option) \<Rightarrow> ptr \<Rightarrow> vm \<Rightarrow> vm option" where
  "freetail 0 D l \<sigma> = None"
| "freetail (Suc n) D l \<sigma> =
     (if l = H then Some \<sigma>
      else (case hp \<sigma> l of Some h \<Rightarrow>
        (case hs h of SList _ t \<Rightarrow>
           let \<sigma>1 = updobj l (\<lambda>h. h\<lparr>href := href h - 1\<rparr>) \<sigma> in
           if href h \<noteq> 1 then Some \<sigma>1
           else Option.bind (freecell D l t False \<sigma>1) (\<lambda>\<sigma>2.
                Option.bind (gettail \<sigma>2 l) (\<lambda>nx.
                Option.bind (heapfree l \<sigma>2) (\<lambda>\<sigma>3. freetail n D nx \<sigma>3)))
         | _ \<Rightarrow> None)
       | None \<Rightarrow> None))"

definition nblocks :: nat where "nblocks = 4294967297"

definition freelist :: "(ptr \<Rightarrow> vm \<Rightarrow> vm option) \<Rightarrow> ptr \<Rightarrow> bool \<Rightarrow> vm \<Rightarrow> vm option" where
  "freelist D v swept \<sigma> =
     (case hp \<sigma> v of Some h \<Rightarrow>
       (case hs h of SList _ t \<Rightarrow>
          Option.bind (freecell D v t swept \<sigma>)
            (\<lambda>\<sigma>1. if swept then Some \<sigma>1
                  else Option.bind (gettail \<sigma>1 v) (\<lambda>nx. freetail nblocks D nx \<sigma>1))
        | _ \<Rightarrow> None)
      | None \<Rightarrow> None)"

definition unload :: "(ptr \<Rightarrow> vm \<Rightarrow> vm option) \<Rightarrow> mid \<Rightarrow> vm \<Rightarrow> vm option" where
  "unload D m \<sigma> =
     (let r = mref (mods \<sigma> m) - 1;
          \<sigma>1 = \<sigma>\<lparr>mods := (mods \<sigma>)(m := (mods \<sigma> m)\<lparr>mref := r\<rparr>)\<rparr> in
      if r > 0 then Some \<sigma>1
      else if r = -1 then None
      else
        let \<sigma>2 = \<sigma>1\<lparr>modules := remove1 m (modules \<sigma>1)\<rparr> in
        Option.bind (D (morigmp (mods \<sigma> m)) \<sigma>2)
          (\<lambda>\<sigma>3. Some (fold freetype (mtype (mods \<sigma> m)) \<sigma>3)))"

definition freemodlink :: "(ptr \<Rightarrow> vm \<Rightarrow> vm option) \<Rightarrow> ptr \<Rightarrow> bool \<Rightarrow> vm \<Rightarrow> vm option" where
  "freemodlink D v swept \<sigma> =
     (case hp \<sigma> v of Some h \<Rightarrow>
       (case hs h of SModlink MP m cmp lks \<Rightarrow>
          Option.bind (if \<not> swept then D MP \<sigma> else Some \<sigma>) (\<lambda>\<sigma>1.
            case hp \<sigma>1 v of Some h1 \<Rightarrow>
              (case hs h1 of SModlink MP1 m1 cmp1 lks1 \<Rightarrow> unload D m1 \<sigma>1 | _ \<Rightarrow> None)
            | None \<Rightarrow> None)
        | _ \<Rightarrow> None)
      | None \<Rightarrow> None)"

definition freeheap :: "(ptr \<Rightarrow> vm \<Rightarrow> vm option) \<Rightarrow> ptr \<Rightarrow> bool \<Rightarrow> vm \<Rightarrow> vm option" where
  "freeheap D v swept \<sigma> =
     (if swept then Some \<sigma>
      else (case hp \<sigma> v of Some h \<Rightarrow>
        (case ht h of Some t \<Rightarrow> if np (types \<sigma> t) \<noteq> 0 then freeptrs D v (types \<sigma> t) \<sigma> else Some \<sigma>
         | None \<Rightarrow> None)
       | None \<Rightarrow> None))"

definition callfree :: "freefn \<Rightarrow> (ptr \<Rightarrow> vm \<Rightarrow> vm option) \<Rightarrow> ptr \<Rightarrow> bool \<Rightarrow> vm \<Rightarrow> vm option" where
  \<comment> \<open>\<^verbatim>\<open>t->free(h, swept)\<close>\<close>
  "callfree f D v swept \<sigma> =
     (case f of
        Ffreearray \<Rightarrow> freearray D v swept \<sigma>
      | Ffreestring \<Rightarrow> freestring v swept \<sigma>
      | Ffreelist \<Rightarrow> freelist D v swept \<sigma>
      | Ffreemodlink \<Rightarrow> freemodlink D v swept \<sigma>
      | Ffreechan \<Rightarrow> freechan D v swept \<sigma>
      | Ffreeheap \<Rightarrow> freeheap D v swept \<sigma>
      | Fnil \<Rightarrow> None)"

text \<open>
  \<^verbatim>\<open>destroy\<close>. The block must be allocated (the \<^verbatim>\<open>D2B\<close> check panics otherwise). The nesting of
  calls is bounded by the code itself: \<^verbatim>\<open>gchalt\<close> grows with every level and a call above 64 does
  not free. The fuel of \<open>destroyF\<close> is that bound.
\<close>

definition destroy_body :: "(ptr \<Rightarrow> vm \<Rightarrow> vm option) \<Rightarrow> ptr \<Rightarrow> vm \<Rightarrow> vm option" where
  "destroy_body D v \<sigma> =
     (if v = H then Some \<sigma>
      else if D2B (heapmem \<sigma>) (D2H v) = None then None
      else (case hp \<sigma> v of None \<Rightarrow> None | Some h \<Rightarrow>
        let \<sigma>1 = updobj v (\<lambda>h. h\<lparr>href := href h - 1\<rparr>) \<sigma> in
        if href h - 1 > 0 \<or> gchalt \<sigma> > 64 then Some \<sigma>1
        else
          Option.bind
            (case ht h of None \<Rightarrow> Some \<sigma>1
             | Some t \<Rightarrow> Option.bind (callfree (tfree (types \<sigma> t)) D v False (gclock \<sigma>1))
                 (\<lambda>\<sigma>2. Some (freetype (Some t) (gcunlock \<sigma>2))))
            (heapfree v)))"

fun destroyF :: "nat \<Rightarrow> ptr \<Rightarrow> vm \<Rightarrow> vm option" where
  "destroyF 0 v \<sigma> = None"
| "destroyF (Suc n) v \<sigma> = destroy_body (destroyF n) v \<sigma>"

definition destroy :: "ptr \<Rightarrow> vm \<Rightarrow> vm option" where
  "destroy v \<sigma> = destroyF (Suc (nat (65 - gchalt \<sigma>))) v \<sigma>"


section \<open>Exact reference counts\<close>

text \<open>
  \<open>kids\<close> are the references a block holds. In \<open>counted B F R M\<close> every live block outside \<open>F\<close>
  has as its count the references from the multiset \<open>R\<close> (registers, frames, pending drops), from
  the live blocks outside \<open>F\<close> and from the loaded modules, and nothing refers to any other
  block; \<open>F\<close> are the blocks being freed, whose references are already in \<open>R\<close>. \<open>M\<close> counts the
  references on modules the same way. Every channel a prog waits on is held by \<open>B\<close>, the part of
  \<open>R\<close> that is not given up (the frame of the waiting prog).
\<close>

definition ptrs_at :: "mem \<Rightarrow> WORD \<Rightarrow> Type \<Rightarrow> ptr multiset" where
  "ptrs_at m v t = mset (map (rdW m) (slots_down v t))"

definition cellptrs :: "mem \<Rightarrow> (tid \<Rightarrow> Type) \<Rightarrow> ptr \<Rightarrow> tid option \<Rightarrow> ptr multiset" where
  "cellptrs m ty l e = (case e of None \<Rightarrow> {#} | Some e \<Rightarrow> ptrs_at m (ldata l) (ty e))"

definition kids_of :: "mem \<Rightarrow> (tid \<Rightarrow> Type) \<Rightarrow> ptr \<Rightarrow> hobj \<Rightarrow> ptr multiset" where
  "kids_of m ty v h =
     (case ht h of None \<Rightarrow> {#} | Some t \<Rightarrow>
       (case hs h of
          SData \<Rightarrow> ptrs_at m v (ty t)
        | SArray len e root d \<Rightarrow>
            if root \<noteq> H then {#root#}
            else sum_list (map (\<lambda>i. ptrs_at m (d + of_nat i * of_int (tsize (ty e))) (ty e)) [0 ..< nat len])
        | SList nx e \<Rightarrow> add_mset nx (cellptrs m ty v e)
        | SString s \<Rightarrow> {#}
        | SChan ch \<Rightarrow> {#sendq ch#}
        | SModlink MP md c l \<Rightarrow> {#MP#}))"

definition kids :: "vm \<Rightarrow> ptr \<Rightarrow> ptr multiset" where
  "kids \<sigma> v = (case hp \<sigma> v of None \<Rightarrow> {#} | Some h \<Rightarrow> kids_of (mem \<sigma>) (types \<sigma>) v h)"

definition modkids :: "vm \<Rightarrow> ptr \<Rightarrow> mid multiset" where
  "modkids \<sigma> v = (case hp \<sigma> v of None \<Rightarrow> {#}
     | Some h \<Rightarrow> (case ht h of None \<Rightarrow> {#} | Some t \<Rightarrow>
         (case hs h of SModlink MP md c l \<Rightarrow> {#md#} | _ \<Rightarrow> {#})))"

definition shaped :: "(tid \<Rightarrow> Type) \<Rightarrow> hobj \<Rightarrow> bool" where
  \<comment> \<open>the free function of the descriptor is the one for the structure\<close>
  "shaped ty h = (case ht h of None \<Rightarrow> True | Some t \<Rightarrow> tfree (ty t) =
     (case hs h of SData \<Rightarrow> Ffreeheap | SArray _ _ _ _ \<Rightarrow> Ffreearray | SList _ _ \<Rightarrow> Ffreelist
      | SString _ \<Rightarrow> Ffreestring | SChan _ \<Rightarrow> Ffreechan | SModlink _ _ _ _ \<Rightarrow> Ffreemodlink))"

definition islist :: "hobj \<Rightarrow> bool" where
  "islist h = (case hs h of SList _ _ \<Rightarrow> ht h \<noteq> None | _ \<Rightarrow> False)"

definition tailok :: "vm \<Rightarrow> hobj \<Rightarrow> bool" where
  \<comment> \<open>the tail of a list cell is a list cell\<close>
  "tailok \<sigma> h = (ht h = None \<or> (case hs h of SList nx _ \<Rightarrow> pred_option islist (hp \<sigma> nx) | _ \<Rightarrow> True))"

definition waited :: "hobj \<Rightarrow> bool" where
  "waited h = (case hs h of
     SChan ch \<Rightarrow> send ch \<noteq> [] \<or> recv ch \<noteq> [] \<or> sendalt ch \<noteq> None \<or> recvalt ch \<noteq> None | _ \<Rightarrow> False)"

definition live :: "ptr set \<Rightarrow> vm \<Rightarrow> ptr set" where
  "live F \<sigma> = dom (hp \<sigma>) - F"

definition refsto :: "ptr set \<Rightarrow> ptr multiset \<Rightarrow> vm \<Rightarrow> ptr \<Rightarrow> nat" where
  "refsto F R \<sigma> u = count R u + (\<Sum>w\<in>live F \<sigma>. count (kids \<sigma> w) u)
     + count (mset (map (\<lambda>m. morigmp (mods \<sigma> m)) (modules \<sigma>))) u"

definition modrefs :: "ptr set \<Rightarrow> mid multiset \<Rightarrow> vm \<Rightarrow> mid \<Rightarrow> nat" where
  "modrefs F M \<sigma> m = count M m + (\<Sum>w\<in>live F \<sigma>. count (modkids \<sigma> w) m)"

definition refcount :: "ptr set \<Rightarrow> vm \<Rightarrow> ptr \<Rightarrow> nat" where
  "refcount F \<sigma> u = (case hp \<sigma> u of None \<Rightarrow> 0 | Some h \<Rightarrow> if u \<in> F then 0 else unat (href h))"

definition hblk :: "ptr \<Rightarrow> int" where
  \<comment> \<open>the pool block of a heap block\<close>
  "hblk v = uint v - 20"

definition counted :: "ptr multiset \<Rightarrow> ptr set \<Rightarrow> ptr multiset \<Rightarrow> mid multiset \<Rightarrow> vm \<Rightarrow> bool" where
  "counted B F R M \<sigma> \<longleftrightarrow>
     (\<forall>u. u \<noteq> H \<longrightarrow> refsto F R \<sigma> u = refcount F \<sigma> u) \<and>
     (\<forall>u h. hp \<sigma> u = Some h \<longrightarrow> u \<notin> F \<longrightarrow> shaped (types \<sigma>) h \<and> tailok \<sigma> h \<and> (waited h \<longrightarrow> u \<in># B \<and> u \<noteq> H)) \<and>
     pool_inv (heapmem \<sigma>) (hblk ` dom (hp \<sigma>)) \<and>
     distinct (modules \<sigma>) \<and>
     (\<forall>m. if m \<in> set (modules \<sigma>) then mref (mods \<sigma> m) = int (modrefs F M \<sigma> m) else modrefs F M \<sigma> m = 0)"

text \<open>What dropping a reference leaves alone.\<close>

definition same_shape :: "Type \<Rightarrow> Type \<Rightarrow> bool" where
  "same_shape t t' \<longleftrightarrow> t' = t\<lparr>tref := tref t'\<rparr>"

definition samegc :: "vm \<Rightarrow> vm \<Rightarrow> bool" where
  \<comment> \<open>what the collector works with: its variables, the chunks of the pool and the roots, but for modules that are unloaded\<close>
  "samegc \<sigma> \<sigma>' \<longleftrightarrow> mutator \<sigma>' = mutator \<sigma> \<and> nprop \<sigma>' = nprop \<sigma> \<and> gccolor \<sigma>' = gccolor \<sigma> \<and> phead \<sigma>' = phead \<sigma> \<and>
     chain (heapmem \<sigma>') = chain (heapmem \<sigma>) \<and> csize (heapmem \<sigma>') = csize (heapmem \<sigma>) \<and>
     (\<forall>b. magic (heapmem \<sigma>') b = MAGIC_I \<longrightarrow> magic (heapmem \<sigma>) b = MAGIC_I) \<and> set (modules \<sigma>') \<subseteq> set (modules \<sigma>)"

definition kept :: "ptr set \<Rightarrow> ptr set \<Rightarrow> vm \<Rightarrow> vm \<Rightarrow> bool" where
  "kept F V \<sigma> \<sigma>' \<longleftrightarrow> mem \<sigma>' = mem \<sigma> \<and> regs \<sigma>' = regs \<sigma> \<and> gchalt \<sigma>' = gchalt \<sigma> \<and> progs \<sigma>' = progs \<sigma> \<and>
     (\<forall>t. same_shape (types \<sigma> t) (types \<sigma>' t)) \<and>
     (\<forall>m. morigmp (mods \<sigma>' m) = morigmp (mods \<sigma> m)) \<and>
     samegc \<sigma> \<sigma>' \<and> (\<forall>u\<in>F. hp \<sigma>' u = hp \<sigma> u) \<and>
     (\<forall>u h'. hp \<sigma>' u = Some h' \<longrightarrow> (\<exists>h. hp \<sigma> u = Some h \<and> (u \<notin> V \<longrightarrow> h' = h\<lparr>href := href h'\<rparr>)))"

section \<open>Taking references\<close>

definition incmem :: "WORD \<Rightarrow> Type \<Rightarrow> vm \<Rightarrow> vm option" where
  "incmem vw t = foldO (\<lambda>q \<sigma>. let wp = rdW (mem \<sigma>) q in if wp \<noteq> H then incref wp \<sigma> else Some \<sigma>) (slots_up vw t)"

definition scanptrs :: "WORD \<Rightarrow> Type \<Rightarrow> (ptr \<Rightarrow> vm \<Rightarrow> vm option) \<Rightarrow> vm \<Rightarrow> vm option" where
  "scanptrs vw t f = foldO (\<lambda>q \<sigma>. let wp = rdW (mem \<sigma>) q in if wp \<noteq> H then f wp \<sigma> else Some \<sigma>) (slots_up vw t)"

definition heapref :: "ptr \<Rightarrow> vm \<Rightarrow> WORD option" where
  "heapref v \<sigma> = map_option href (hp \<sigma> v)"

section \<open>Allocation\<close>

definition initmem :: "Type \<Rightarrow> WORD \<Rightarrow> mem \<Rightarrow> mem" where
  "initmem t vw m = fold (\<lambda>a m. wrW m a H) (slots_down vw t) m"

definition sizeof_Heap :: int where "sizeof_Heap = 12"
definition sizeof_Array :: int where "sizeof_Array = 16"
definition sizeof_String :: int where "sizeof_String = 16"

text \<open>
  The structure of a block of a built-in type before its fields are set: \<^verbatim>\<open>initmem\<close> puts \<^verbatim>\<open>H\<close> in the
  fields the map names, the rest is not read before it is written.
\<close>

definition struct0 :: "tid option \<Rightarrow> hstruct" where
  "struct0 t =
     (if t = Some Tarray then SArray 0 0 H 0
      else if t = Some Tlist then SList H None
      else if t = Some Tstring then SString \<lparr>slen = 0, smax = 0, stmp = None, Sascii = [], Srune = []\<rparr>
      else if t = Some Tchannel then SChan \<lparr>sendq = H, send = [], sendalt = None, recv = [], recvalt = None,
             mover = mv_movl, midw = 0, midt = 0\<rparr>
      else if t = Some Tmodlink then SModlink H 0 False []
      else SData)"

definition newblock :: "int \<Rightarrow> tid option \<Rightarrow> vm \<Rightarrow> ptr outcome" where
  \<comment> \<open>\<^verbatim>\<open>poolalloc(heapmem, sizeof(Heap)+n)\<close> and the header\<close>
  "newblock n t \<sigma> =
     (case poolalloc (sizeof_Heap + n) (heapmem \<sigma>) of
        None \<Rightarrow> Crash
      | Some (None, P) \<Rightarrow> Err exHeap (\<sigma>\<lparr>heapmem := P\<rparr>)
      | Some (Some h, P) \<Rightarrow>
          (let v = of_int (h + sizeof_Heap) in
           Ret v (\<sigma>\<lparr>heapmem := P, hp := (hp \<sigma>)(v \<mapsto> \<lparr>color = mutator \<sigma>, href = 1, ht = t, hs = struct0 t\<rparr>)\<rparr>)))"

definition nheap :: "int \<Rightarrow> vm \<Rightarrow> ptr outcome" where
  "nheap n \<sigma> = newblock n None \<sigma>"

definition heap :: "tid \<Rightarrow> vm \<Rightarrow> ptr outcome" where
  "heap t \<sigma> = bindM (newblock (tsize (types \<sigma> t)) (Some t) \<sigma>) (\<lambda>v \<sigma>1.
     let \<sigma>2 = typeref 1 t \<sigma>1 in
     Ret v (if np (types \<sigma> t) \<noteq> 0 then \<sigma>2\<lparr>mem := initmem (types \<sigma> t) v (mem \<sigma>2)\<rparr> else \<sigma>2))"

definition heapz :: "tid \<Rightarrow> vm \<Rightarrow> ptr outcome" where
  "heapz t \<sigma> = bindM (newblock (tsize (types \<sigma> t)) (Some t) \<sigma>) (\<lambda>v \<sigma>1.
     let \<sigma>2 = typeref 1 t \<sigma>1;
         \<sigma>3 = \<sigma>2\<lparr>mem := memset0 (mem \<sigma>2) v (nat (tsize (types \<sigma> t)))\<rparr> in
     Ret v (if np (types \<sigma> t) \<noteq> 0 then \<sigma>3\<lparr>mem := initmem (types \<sigma> t) v (mem \<sigma>3)\<rparr> else \<sigma>3))"

definition settype :: "tid \<Rightarrow> hstruct \<Rightarrow> ptr \<Rightarrow> vm \<Rightarrow> vm" where
  \<comment> \<open>\<^verbatim>\<open>h->t = &T; T.ref++\<close> after \<^verbatim>\<open>nheap\<close>, with the fields of the structure\<close>
  "settype t s v \<sigma> = typeref 1 t (updobj v (\<lambda>h. h\<lparr>ht := Some t, hs := s\<rparr>) \<sigma>)"

definition initarray :: "tid \<Rightarrow> ptr \<Rightarrow> vm \<Rightarrow> vm option" where
  "initarray t a \<sigma> =
     (case hp \<sigma> a of Some h \<Rightarrow>
       (case hs h of SArray len e root d \<Rightarrow>
          let ty = types \<sigma> t; \<sigma>1 = typeref 1 t \<sigma> in
          Some (if np ty = 0 then \<sigma>1
                else \<sigma>1\<lparr>mem := fold (\<lambda>i. initmem ty (d + of_nat i * of_int (tsize ty))) [0 ..< nat len] (mem \<sigma>1)\<rparr>)
        | _ \<Rightarrow> None)
      | None \<Rightarrow> None)"

text \<open>
  \<^verbatim>\<open>arraycpy\<close> recurs through arrays of arrays, which the loader nests at most \<^verbatim>\<open>DADEPTH\<close> deep: the
  fuel is that bound.
\<close>

definition DADEPTH :: nat where "DADEPTH = 4"

fun copyelems :: "(ptr \<Rightarrow> vm \<Rightarrow> ptr outcome) \<Rightarrow> WORD \<Rightarrow> WORD \<Rightarrow> nat \<Rightarrow> vm \<Rightarrow> unit outcome" where
  "copyelems f dp sp 0 \<sigma> = Ret () \<sigma>"
| "copyelems f dp sp (Suc n) \<sigma> =
     bindM (f (rdW (mem \<sigma>) sp) \<sigma>) (\<lambda>v \<sigma>1.
       copyelems f (dp + 4) (sp + 4) n (\<sigma>1\<lparr>mem := wrW (mem \<sigma>1) dp v\<rparr>))"

fun arraycpyF :: "nat \<Rightarrow> ptr \<Rightarrow> vm \<Rightarrow> ptr outcome" where
  "arraycpyF 0 sa \<sigma> = Crash"
| "arraycpyF (Suc k) sa \<sigma> =
     (if sa = H then Ret H \<sigma>
      else (case hp \<sigma> sa of Some h \<Rightarrow>
        (case hs h of SArray len e root d \<Rightarrow>
           let ty = types \<sigma> e in
           bindM (nheap (sizeof_Array + tsize ty * len) \<sigma>) (\<lambda>da \<sigma>1.
             let dd = da + of_int sizeof_Array;
                 \<sigma>2 = typeref 1 e (settype Tarray (SArray len e H dd) da \<sigma>1) in
             if e = Tarray then
               bindM (copyelems (arraycpyF k) dd d (nat len) \<sigma>2) (\<lambda>_ \<sigma>3. Ret da \<sigma>3)
             else
               (let \<sigma>3 = \<sigma>2\<lparr>mem := memmove (mem \<sigma>2) dd d (nat (len * tsize ty))\<rparr> in
                bindM (liftO (foldO (\<lambda>i. incmem (dd + of_nat i * of_int (tsize ty)) ty) [0 ..< nat len] \<sigma>3))
                  (\<lambda>_ \<sigma>4. Ret da \<sigma>4)))
         | _ \<Rightarrow> Crash)
       | None \<Rightarrow> Crash))"

definition arraycpy :: "ptr \<Rightarrow> vm \<Rightarrow> ptr outcome" where
  "arraycpy = arraycpyF (Suc DADEPTH)"

fun copymp :: "WORD list \<Rightarrow> vm \<Rightarrow> unit outcome" where
  "copymp [] \<sigma> = Ret () \<sigma>"
| "copymp (q # qs) \<sigma> =
     (let wp = rdW (mem \<sigma>) q in
      if wp = H then copymp qs \<sigma>
      else (case hp \<sigma> wp of None \<Rightarrow> Crash | Some h \<Rightarrow>
        if ht h = Some Tarray then
          bindM (arraycpy wp \<sigma>) (\<lambda>v \<sigma>1. copymp qs (\<sigma>1\<lparr>mem := wrW (mem \<sigma>1) q v\<rparr>))
        else bindM (liftO (incref wp \<sigma>)) (\<lambda>_ \<sigma>1. copymp qs \<sigma>1)))"

definition newmp :: "WORD \<Rightarrow> WORD \<Rightarrow> tid \<Rightarrow> vm \<Rightarrow> unit outcome" where
  "newmp dst src t \<sigma> =
     (let ty = types \<sigma> t in
      copymp (slots_up dst ty) (\<sigma>\<lparr>mem := memmove (mem \<sigma>) dst src (nat (tsize ty))\<rparr>))"

end
