(* ===== verification/Heap_Counts.thy ===== *)
theory Heap_Counts
  imports Heap
begin

text \<open>
  The reference counts of the heap are exact. The contract of \<^verbatim>\<open>destroy\<close> is the locale
  \<open>releasing\<close>: the free functions are its clients, and \<^verbatim>\<open>destroy\<close> itself, which calls them one lock
  deeper, provides it.
\<close>

lemma same_shape_sel:
  "same_shape t t' \<Longrightarrow> tfree t' = tfree t \<and> tmap t' = tmap t \<and> tsize t' = tsize t"
  by (metis Type.select_convs Type.surjective Type.update_convs(1) same_shape_def)

lemma same_shape_refl [simp]: "same_shape t t"
  by (simp add: same_shape_def)

lemma same_shape_trans: "same_shape t u \<Longrightarrow> same_shape u w \<Longrightarrow> same_shape t w"
  unfolding same_shape_def by (cases t, cases u, cases w) simp

lemma same_shape_tref [simp]: "same_shape t (t\<lparr>tref := k\<rparr>)"
  by (simp add: same_shape_def)

lemma ptrs_at_shape: "same_shape t t' \<Longrightarrow> ptrs_at m v t' = ptrs_at m v t"
  by (drule same_shape_sel) (simp add: ptrs_at_def)

lemma kids_of_cong:
  assumes "\<And>t. same_shape (ty t) (ty' t)" "hs h' = hs h" "ht h' = ht h"
  shows "kids_of m ty' v h' = kids_of m ty v h"
proof -
  have p: "ptrs_at m w (ty' t) = ptrs_at m w (ty t)" for w t by (rule ptrs_at_shape) (rule assms)
  have s: "tsize (ty' t) = tsize (ty t)" for t using same_shape_sel assms(1) by blast
  show ?thesis unfolding kids_of_def assms by (simp add: p s cellptrs_def split: option.splits hstruct.splits)
qed

lemma shaped_cong:
  assumes "\<And>t. same_shape (ty t) (ty' t)" "hs h' = hs h" "ht h' = ht h"
  shows "shaped ty' h' = shaped ty h"
  unfolding shaped_def assms(2,3) using same_shape_sel [OF assms(1)] by (auto split: option.splits)

lemma href_only: "h' = h\<lparr>href := k\<rparr> \<Longrightarrow> hs h' = hs h \<and> ht h' = ht h"
  by simp

lemma waited_cong: "hs h' = hs h \<Longrightarrow> waited h' = waited h"
  by (simp add: waited_def)

definition lists_stay :: "vm \<Rightarrow> vm \<Rightarrow> bool" where
  "lists_stay \<sigma> \<sigma>' \<longleftrightarrow> (\<forall>u. pred_option islist (hp \<sigma> u) \<longrightarrow> pred_option islist (hp \<sigma>' u))"

lemma lists_stay_hp [simp]: "hp \<sigma>' = hp \<sigma> \<Longrightarrow> lists_stay \<sigma> \<sigma>'"
  by (simp add: lists_stay_def)

lemma lists_stay_updobj: "(\<And>h. islist h \<Longrightarrow> islist (f h)) \<Longrightarrow> lists_stay \<sigma> (updobj v f \<sigma>)"
  by (auto simp: lists_stay_def option.pred_set)

lemma tailok_stay: "lists_stay \<sigma> \<sigma>' \<Longrightarrow> hs h' = hs h \<Longrightarrow> ht h' = ht h \<Longrightarrow> tailok \<sigma> h \<Longrightarrow> tailok \<sigma>' h'"
  by (auto simp: tailok_def lists_stay_def split: hstruct.splits)

lemma islist_href [simp]: "islist (h\<lparr>href := k\<rparr>) = islist h"
  by (simp add: islist_def split: hstruct.splits)

text \<open>
  Two states that agree on everything the counts are computed from: the same blocks outside \<open>F\<close>
  with the same structure and descriptor.
\<close>

definition agree :: "ptr set \<Rightarrow> vm \<Rightarrow> vm \<Rightarrow> bool" where
  "agree F \<sigma> \<sigma>' \<longleftrightarrow> mem \<sigma>' = mem \<sigma> \<and> (\<forall>t. same_shape (types \<sigma> t) (types \<sigma>' t)) \<and>
     (\<forall>u. u \<notin> F \<longrightarrow> rel_option (\<lambda>h h'. hs h' = hs h \<and> ht h' = ht h) (hp \<sigma> u) (hp \<sigma>' u)) \<and>
     lists_stay \<sigma> \<sigma>' \<and> heapmem \<sigma>' = heapmem \<sigma> \<and> dom (hp \<sigma>') = dom (hp \<sigma>)"

lemma agree_obj:
  assumes "agree F \<sigma> \<sigma>'" "u \<notin> F"
  obtains "hp \<sigma> u = None" "hp \<sigma>' u = None"
  | h h' where "hp \<sigma> u = Some h" "hp \<sigma>' u = Some h'" "hs h' = hs h" "ht h' = ht h"
proof -
  have "rel_option (\<lambda>h h'. hs h' = hs h \<and> ht h' = ht h) (hp \<sigma> u) (hp \<sigma>' u)"
    using assms by (auto simp: agree_def)
  then show ?thesis using that by cases auto
qed

lemma agree_live:
  assumes "agree F \<sigma> \<sigma>'"
  shows "live F \<sigma>' = live F \<sigma>"
proof -
  have "u \<in> live F \<sigma>' \<longleftrightarrow> u \<in> live F \<sigma>" for u
  proof (cases "u \<in> F")
    case False
    with assms show ?thesis by (rule agree_obj) (auto simp: live_def)
  qed (simp add: live_def)
  then show ?thesis by blast
qed

lemma agree_kids:
  assumes "agree F \<sigma> \<sigma>'" "u \<notin> F"
  shows "kids \<sigma>' u = kids \<sigma> u" "modkids \<sigma>' u = modkids \<sigma> u"
proof -
  have m: "mem \<sigma>' = mem \<sigma>" "\<And>t. same_shape (types \<sigma> t) (types \<sigma>' t)"
    using assms by (auto simp: agree_def)
  show "kids \<sigma>' u = kids \<sigma> u"
    using assms by (rule agree_obj) (simp_all add: kids_def m(1) kids_of_cong [OF m(2)])
  show "modkids \<sigma>' u = modkids \<sigma> u"
    using assms by (rule agree_obj) (simp_all add: modkids_def split: option.splits)
qed

lemma agree_sum:
  assumes "agree F \<sigma> \<sigma>'"
  shows "(\<Sum>w\<in>live F \<sigma>'. count (kids \<sigma>' w) u) = (\<Sum>w\<in>live F \<sigma>. count (kids \<sigma> w) u)"
    and "(\<Sum>w\<in>live F \<sigma>'. count (modkids \<sigma>' w) m) = (\<Sum>w\<in>live F \<sigma>. count (modkids \<sigma> w) m)"
proof -
  have n: "w \<in> live F \<sigma> \<Longrightarrow> w \<notin> F" for w by (simp add: live_def)
  show "(\<Sum>w\<in>live F \<sigma>'. count (kids \<sigma>' w) u) = (\<Sum>w\<in>live F \<sigma>. count (kids \<sigma> w) u)"
    unfolding agree_live [OF assms] using agree_kids(1) [OF assms] n by (intro sum.cong) simp_all
  show "(\<Sum>w\<in>live F \<sigma>'. count (modkids \<sigma>' w) m) = (\<Sum>w\<in>live F \<sigma>. count (modkids \<sigma> w) m)"
    unfolding agree_live [OF assms] using agree_kids(2) [OF assms] n by (intro sum.cong) simp_all
qed

lemma agree_refsto:
  assumes "agree F \<sigma> \<sigma>'" "\<And>m. morigmp (mods \<sigma>' m) = morigmp (mods \<sigma> m)" "modules \<sigma>' = modules \<sigma>"
  shows "refsto F R \<sigma>' u = refsto F R \<sigma> u"
  unfolding refsto_def agree_sum(1) [OF assms(1)] by (simp add: assms)

lemma agree_modrefs: "agree F \<sigma> \<sigma>' \<Longrightarrow> modrefs F M \<sigma>' u = modrefs F M \<sigma> u"
  by (simp add: modrefs_def agree_sum(2))

lemma agree_shape_waited:
  assumes "agree F \<sigma> \<sigma>'" "hp \<sigma>' u = Some h'" "u \<notin> F"
  shows "\<exists>h. hp \<sigma> u = Some h \<and> shaped (types \<sigma>') h' = shaped (types \<sigma>) h \<and> waited h' = waited h \<and> (tailok \<sigma> h \<longrightarrow> tailok \<sigma>' h')"
proof -
  have "rel_option (\<lambda>h h'. hs h' = hs h \<and> ht h' = ht h) (hp \<sigma> u) (hp \<sigma>' u)" "\<And>t. same_shape (types \<sigma> t) (types \<sigma>' t)" "lists_stay \<sigma> \<sigma>'"
    using assms by (auto simp: agree_def)
  with assms(2) obtain h where "hp \<sigma> u = Some h" "hs h' = hs h" "ht h' = ht h"
    by (auto simp: option_rel_Some2)
  with shaped_cong \<open>\<And>t. same_shape (types \<sigma> t) (types \<sigma>' t)\<close> waited_cong tailok_stay [OF \<open>lists_stay \<sigma> \<sigma>'\<close>]
  show ?thesis by metis
qed

text \<open>The count of one block changes together with the outside references.\<close>

lemma counted_step:
  assumes c: "counted B F R M \<sigma>" and a: "agree F \<sigma> \<sigma>'"
    and m: "mods \<sigma>' = mods \<sigma>" "modules \<sigma>' = modules \<sigma>"
    and h: "\<And>u. u \<noteq> H \<Longrightarrow> refcount F \<sigma>' u + count R u = refcount F \<sigma> u + count R' u"
  shows "counted B F R' M \<sigma>'"
proof -
  have r: "refsto F R' \<sigma>' u + count R u = refsto F R \<sigma> u + count R' u" for u
    using agree_refsto [OF a, of R' u] m by (simp add: refsto_def)
  have "refsto F R' \<sigma>' u = refcount F \<sigma>' u" if u: "u \<noteq> H" for u
  proof -
    have "refsto F R \<sigma> u = refcount F \<sigma> u" using c u by (simp add: counted_def)
    with r [of u] h [OF u] show ?thesis by linarith
  qed
  moreover have "shaped (types \<sigma>') h \<and> tailok \<sigma>' h \<and> (waited h \<longrightarrow> u \<in># B \<and> u \<noteq> H)" if "hp \<sigma>' u = Some h" "u \<notin> F" for u h
    using agree_shape_waited [OF a that] c that(2) unfolding counted_def by metis
  moreover have "pool_inv (heapmem \<sigma>') (hblk ` dom (hp \<sigma>'))" using a c by (simp add: agree_def counted_def)
  ultimately show ?thesis using c unfolding counted_def m agree_modrefs [OF a] by blast
qed

lemma kids_nonlive [simp]: "hp \<sigma> u = None \<Longrightarrow> kids \<sigma> u = {#}"
  by (simp add: kids_def)

lemma finite_live [simp]: "finite (live F \<sigma>)"
  by (rule finite_subset [of _ UNIV]) simp_all


lemma samegc_intros [simp]:
  "samegc \<sigma> \<sigma>" "samegc \<sigma> (typeref k t \<sigma>)" "samegc \<sigma> (freetype u \<sigma>)" "samegc \<sigma> (updobj v f \<sigma>)"
  by (simp_all add: samegc_def typeref_def freetype_def updobj_def split: option.splits)

lemma samegc_trans: "samegc \<sigma> \<sigma>1 \<Longrightarrow> samegc \<sigma>1 \<sigma>2 \<Longrightarrow> samegc \<sigma> \<sigma>2"
  by (auto simp: samegc_def)

lemma samegc_freetypes [simp]: "samegc \<sigma> (fold freetype ts \<sigma>)"
  by (induction ts arbitrary: \<sigma>) (auto intro: samegc_trans samegc_intros)

definition samechunks :: "Pool \<Rightarrow> Pool \<Rightarrow> bool" where
  "samechunks p p' \<longleftrightarrow> chain p' = chain p \<and> csize p' = csize p \<and> (\<forall>b. magic p' b = MAGIC_I \<longrightarrow> magic p b = MAGIC_I)"

lemma poolfree_chunks: "poolfree v p = Some p' \<Longrightarrow> samechunks p p'"
  unfolding samechunks_def
  by (auto simp: poolfree_joins joinfwd_def joinback_def Let_def B2T_hdr_def pooldel_def split: option.splits if_splits)

lemma kept_refl [simp]: "kept F V \<sigma> \<sigma>"
  by (simp add: kept_def)

lemma kept_objD:
  "kept F V \<sigma> \<sigma>' \<Longrightarrow> hp \<sigma>' u = Some h' \<Longrightarrow> \<exists>h. hp \<sigma> u = Some h \<and> (u \<notin> V \<longrightarrow> h' = h\<lparr>href := href h'\<rparr>)"
  by (simp add: kept_def)

lemma kept_sel:
  "kept F V \<sigma> \<sigma>' \<Longrightarrow> mem \<sigma>' = mem \<sigma>" "kept F V \<sigma> \<sigma>' \<Longrightarrow> gchalt \<sigma>' = gchalt \<sigma>"
  "kept F V \<sigma> \<sigma>' \<Longrightarrow> progs \<sigma>' = progs \<sigma>" "kept F V \<sigma> \<sigma>' \<Longrightarrow> u \<in> F \<Longrightarrow> hp \<sigma>' u = hp \<sigma> u"
  by (simp_all add: kept_def)

lemma kept_dom: "kept F V \<sigma> \<sigma>' \<Longrightarrow> dom (hp \<sigma>') \<subseteq> dom (hp \<sigma>)"
  using kept_objD by blast

lemma updobj_id: "hp \<sigma> v = Some h \<Longrightarrow> f h = h \<Longrightarrow> updobj v f \<sigma> = \<sigma>"
  by (simp add: updobj_def fun_upd_idem)

lemma updchan_id:
  assumes "getchan \<sigma> c = Some ch" "f ch = ch"
  shows "updchan c f \<sigma> = \<sigma>"
proof -
  obtain h where h: "hp \<sigma> c = Some h" "hs h = SChan ch"
    using assms(1) by (auto simp: getchan_def split: option.splits hstruct.splits)
  then have "h\<lparr>hs := SChan ch\<rparr> = h" by (cases h) simp
  then show ?thesis unfolding updchan_def by (intro updobj_id [OF h(1)]) (simp add: h(2) assms(2))
qed

lemma kept_trans:
  assumes "kept F V \<sigma> \<sigma>1" "kept F' V' \<sigma>1 \<sigma>2" "G \<subseteq> F" "G \<subseteq> F'" "V \<subseteq> W" "V' \<subseteq> W"
  shows "kept G W \<sigma> \<sigma>2"
proof -
  have t: "same_shape (types \<sigma> t) (types \<sigma>2 t)" for t
    using assms(1,2) same_shape_trans unfolding kept_def by blast
  have o: "\<exists>h. hp \<sigma> u = Some h \<and> (u \<notin> W \<longrightarrow> h2 = h\<lparr>href := href h2\<rparr>)" if h2: "hp \<sigma>2 u = Some h2" for u h2
  proof -
    obtain h1 where h1: "hp \<sigma>1 u = Some h1" "u \<notin> V' \<longrightarrow> h2 = h1\<lparr>href := href h2\<rparr>"
      using kept_objD [OF assms(2) h2] by blast
    obtain h where h: "hp \<sigma> u = Some h" "u \<notin> V \<longrightarrow> h1 = h\<lparr>href := href h1\<rparr>"
      using kept_objD [OF assms(1) h1(1)] by blast
    have "u \<notin> W \<Longrightarrow> h2 = h\<lparr>href := href h2\<rparr>"
    proof -
      assume "u \<notin> W"
      then have "h2 = h1\<lparr>href := href h2\<rparr>" "h1 = h\<lparr>href := href h1\<rparr>" using h1(2) h(2) assms(5,6) by auto
      then have "h2 = (h\<lparr>href := href h1\<rparr>)\<lparr>href := href h2\<rparr>" by metis
      then show ?thesis by simp
    qed
    with h(1) show ?thesis by blast
  qed
  have f: "hp \<sigma>2 u = hp \<sigma> u" if "u \<in> G" for u
    using assms(1-4) that by (simp add: kept_def subset_iff)
  have "samegc \<sigma> \<sigma>2" using assms(1,2) samegc_trans unfolding kept_def by blast
  then show ?thesis unfolding kept_def
    using assms(1,2) o t f by (simp add: kept_def)
qed

lemma kept_types: "kept F V \<sigma> \<sigma>' \<Longrightarrow> tfree (types \<sigma>' t) = tfree (types \<sigma> t) \<and> tmap (types \<sigma>' t) = tmap (types \<sigma> t) \<and> tsize (types \<sigma>' t) = tsize (types \<sigma> t)"
  unfolding kept_def using same_shape_sel by blast

lemma kept_tail: "kept F {} \<sigma> \<sigma>' \<Longrightarrow> pred_option islist (hp \<sigma> u) \<Longrightarrow> pred_option islist (hp \<sigma>' u)"
proof (cases "hp \<sigma>' u")
  case (Some h')
  assume "kept F {} \<sigma> \<sigma>'" "pred_option islist (hp \<sigma> u)"
  then obtain h where "hp \<sigma> u = Some h" "h' = h\<lparr>href := href h'\<rparr>" "islist h"
    using kept_objD Some by fastforce
  then show ?thesis using Some islist_href [of "href h'" h] by simp
qed simp

lemma kept_kids: "kept F V \<sigma> \<sigma>' \<Longrightarrow> u \<in> F \<Longrightarrow> kids \<sigma>' u = kids \<sigma> u"
  unfolding kept_def kids_def by (auto split: option.splits intro!: kids_of_cong)

lemma counted_same:
  assumes "counted B F R M \<sigma>" "agree F \<sigma> \<sigma>'" "mods \<sigma>' = mods \<sigma>" "modules \<sigma>' = modules \<sigma>"
    "\<And>u. refcount F \<sigma>' u = refcount F \<sigma> u"
  shows "counted B F R M \<sigma>'"
  using assms by (intro counted_step [OF assms(1-4)]) simp

lemma agree_refl_hp: "hp \<sigma>' = hp \<sigma> \<Longrightarrow> heapmem \<sigma>' = heapmem \<sigma> \<Longrightarrow> mem \<sigma>' = mem \<sigma> \<Longrightarrow> (\<And>t. same_shape (types \<sigma> t) (types \<sigma>' t)) \<Longrightarrow> agree F \<sigma> \<sigma>'"
  by (simp add: agree_def option.rel_refl)

lemma typeref_sel [simp]:
  "mem (typeref k t \<sigma>) = mem \<sigma>" "heapmem (typeref k t \<sigma>) = heapmem \<sigma>" "hp (typeref k t \<sigma>) = hp \<sigma>" "mods (typeref k t \<sigma>) = mods \<sigma>"
  "modules (typeref k t \<sigma>) = modules \<sigma>" "gchalt (typeref k t \<sigma>) = gchalt \<sigma>" "progs (typeref k t \<sigma>) = progs \<sigma>"
  "same_shape (types \<sigma> s) (types (typeref k t \<sigma>) s)" "regs (typeref k t \<sigma>) = regs \<sigma>"
  by (simp_all add: typeref_def)

lemma freetype_sel [simp]:
  "mem (freetype t \<sigma>) = mem \<sigma>" "heapmem (freetype t \<sigma>) = heapmem \<sigma>" "hp (freetype t \<sigma>) = hp \<sigma>" "mods (freetype t \<sigma>) = mods \<sigma>"
  "modules (freetype t \<sigma>) = modules \<sigma>" "gchalt (freetype t \<sigma>) = gchalt \<sigma>" "progs (freetype t \<sigma>) = progs \<sigma>"
  "same_shape (types \<sigma> s) (types (freetype t \<sigma>) s)" "regs (freetype t \<sigma>) = regs \<sigma>"
  by (simp_all add: freetype_def split: option.splits)

lemma gclock_sel [simp]:
  "heapmem (gclock \<sigma>) = heapmem \<sigma>" "heapmem (gcunlock \<sigma>) = heapmem \<sigma>" "mem (gclock \<sigma>) = mem \<sigma>" "hp (gclock \<sigma>) = hp \<sigma>" "mods (gclock \<sigma>) = mods \<sigma>" "types (gclock \<sigma>) = types \<sigma>"
  "modules (gclock \<sigma>) = modules \<sigma>" "gchalt (gclock \<sigma>) = gchalt \<sigma> + 1" "progs (gclock \<sigma>) = progs \<sigma>"
  "mem (gcunlock \<sigma>) = mem \<sigma>" "hp (gcunlock \<sigma>) = hp \<sigma>" "mods (gcunlock \<sigma>) = mods \<sigma>" "types (gcunlock \<sigma>) = types \<sigma>"
  "modules (gcunlock \<sigma>) = modules \<sigma>" "gchalt (gcunlock \<sigma>) = gchalt \<sigma> - 1" "progs (gcunlock \<sigma>) = progs \<sigma>"
  "regs (gclock \<sigma>) = regs \<sigma>" "regs (gcunlock \<sigma>) = regs \<sigma>"
  by (simp_all add: gclock_def gcunlock_def)

lemma counted_hp_same:
  assumes "counted B F R M \<sigma>" "hp \<sigma>' = hp \<sigma>" "heapmem \<sigma>' = heapmem \<sigma>" "mem \<sigma>' = mem \<sigma>" "mods \<sigma>' = mods \<sigma>" "modules \<sigma>' = modules \<sigma>"
    "\<And>t. same_shape (types \<sigma> t) (types \<sigma>' t)"
  shows "counted B F R M \<sigma>'"
  using assms by (intro counted_same [OF assms(1)] agree_refl_hp) (simp_all add: refcount_def)

lemmas counted_types [simp] = counted_hp_same [of B F R M \<sigma> "typeref k t \<sigma>" for B F R M \<sigma> k t, simplified]
  counted_hp_same [of B F R M \<sigma> "freetype t \<sigma>" for B F R M \<sigma> t, simplified]
  counted_hp_same [of B F R M \<sigma> "gclock \<sigma>" for B F R M \<sigma>, simplified]
  counted_hp_same [of B F R M \<sigma> "gcunlock \<sigma>" for B F R M \<sigma>, simplified]

lemma kept_typeref [simp]: "kept F V \<sigma> (typeref k t \<sigma>)"
  by (simp add: kept_def)

lemma kept_freetype [simp]: "kept F V \<sigma> (freetype t \<sigma>)"
  by (simp add: kept_def)

subsection \<open>One reference dropped, a block entered, a block left\<close>

lemma count_sum_le: "w \<in> live F \<sigma> \<Longrightarrow> count (kids \<sigma> w) u \<le> (\<Sum>w\<in>live F \<sigma>. count (kids \<sigma> w) u)"
  by (rule member_le_sum) simp_all

lemma counted_held:
  assumes "counted B F R M \<sigma>" "v \<in># R" "v \<noteq> H"
  obtains h where "hp \<sigma> v = Some h" "v \<notin> F" "0 < unat (href h)"
proof -
  have "refsto F R \<sigma> v = refcount F \<sigma> v" using assms by (simp add: counted_def)
  moreover have "0 < count R v" using assms by simp
  ultimately have "0 < refcount F \<sigma> v" unfolding refsto_def by linarith
  then show ?thesis using that by (auto simp: refcount_def split: option.splits if_splits)
qed

lemma unat_dec: "0 < unat (w :: WORD) \<Longrightarrow> unat (w - 1) = unat w - 1"
  by (metis One_nat_def Suc_leI unat_1 unat_sub word_le_nat_alt)

lemma counted_drop:
  assumes "counted B F (add_mset v R) M \<sigma>" "v \<noteq> H"
  shows "counted B F R M (updobj v (\<lambda>h. h\<lparr>href := href h - 1\<rparr>) \<sigma>)"
proof -
  obtain h where h: "hp \<sigma> v = Some h" "v \<notin> F" "0 < unat (href h)"
    by (rule counted_held [OF assms(1)]) (use assms(2) in simp_all)
  have "agree F \<sigma> (updobj v (\<lambda>h. h\<lparr>href := href h - 1\<rparr>) \<sigma>)"
    using h by (auto simp: agree_def option.rel_refl lists_stay_updobj insert_absorb domIff)
  then show ?thesis
    by (rule counted_step [OF assms(1)]) (use h in \<open>auto simp: refcount_def unat_dec\<close>)
qed

lemma counted_swap:
  assumes c: "counted B F R M \<sigma>"
    and r: "\<And>u. u \<noteq> H \<Longrightarrow> refsto F' R' \<sigma>' u = refsto F R \<sigma> u" "\<And>m. modrefs F' M' \<sigma>' m = modrefs F M \<sigma> m"
    and o: "\<And>u. u \<noteq> H \<Longrightarrow> refcount F' \<sigma>' u = refcount F \<sigma> u"
      "\<And>u h. hp \<sigma>' u = Some h \<Longrightarrow> u \<notin> F' \<Longrightarrow> hp \<sigma> u = Some h \<and> u \<notin> F"
    and t: "lists_stay \<sigma> \<sigma>'" "pool_inv (heapmem \<sigma>') (hblk ` dom (hp \<sigma>'))"
    and s: "types \<sigma>' = types \<sigma>" "mods \<sigma>' = mods \<sigma>" "modules \<sigma>' = modules \<sigma>"
  shows "counted B F' R' M' \<sigma>'"
proof -
  have "shaped (types \<sigma>') h \<and> tailok \<sigma>' h \<and> (waited h \<longrightarrow> u \<in># B \<and> u \<noteq> H)" if "hp \<sigma>' u = Some h" "u \<notin> F'" for u h
    using o(2) [OF that] c tailok_stay [OF t(1) refl refl] unfolding counted_def s by blast
  moreover have "refsto F' R' \<sigma>' u = refcount F' \<sigma>' u" if "u \<noteq> H" for u
    using c r(1) [OF that] o(1) [OF that] that unfolding counted_def by simp
  ultimately show ?thesis using c t(2) unfolding counted_def s r(2) by blast
qed

lemma counted_enter:
  assumes c: "counted B F R M \<sigma>" and h: "hp \<sigma> v = Some h" "href h = 0" "v \<notin> F"
  shows "counted B (insert v F) (R + kids \<sigma> v) (M + modkids \<sigma> v) \<sigma>"
proof (rule counted_swap [OF c])
  have l: "live F \<sigma> = insert v (live (insert v F) \<sigma>)" "v \<notin> live (insert v F) \<sigma>"
    using h by (auto simp: live_def)
  show "refsto (insert v F) (R + kids \<sigma> v) \<sigma> u = refsto F R \<sigma> u" for u
    using l(2) by (simp add: refsto_def l(1))
  show "modrefs (insert v F) (M + modkids \<sigma> v) \<sigma> u = modrefs F M \<sigma> u" for u
    using l(2) by (simp add: modrefs_def l(1))
  show "refcount (insert v F) \<sigma> u = refcount F \<sigma> u" for u
    using h by (auto simp: refcount_def split: option.splits)
  show "pool_inv (heapmem \<sigma>) (hblk ` dom (hp \<sigma>))" using c by (simp add: counted_def)
qed simp_all

lemma counted_swap0:
  \<comment> \<open>a nil reference counts for nothing\<close>
  assumes "counted B F (add_mset H R) M \<sigma>"
  shows "counted B F R M \<sigma>"
proof (rule counted_swap [OF assms])
  show "pool_inv (heapmem \<sigma>) (hblk ` dom (hp \<sigma>))" using assms by (simp add: counted_def)
qed (simp_all add: refsto_def)

lemma hblk_inj: "hblk u = hblk v \<Longrightarrow> u = v"
  by (simp add: hblk_def) (metis word_of_int_uint)

lemma hblk_D2H: "D2H v = hblk v + 8"
  by (simp add: hblk_def D2H_def)

lemma counted_D2B:
  assumes "counted B F R M \<sigma>" "hp \<sigma> v = Some h"
  shows "D2B (heapmem \<sigma>) (D2H v) \<noteq> None"
proof -
  have "pool_inv (heapmem \<sigma>) (hblk ` dom (hp \<sigma>))" "hblk v \<in> hblk ` dom (hp \<sigma>)" using assms by (auto simp: counted_def)
  from poolfree_inv [OF this] show ?thesis by (auto simp: hblk_D2H B2D_def poolfree_def split: option.splits)
qed

lemma heapfree_ok:
  assumes "counted B F R M \<sigma>" "hp \<sigma> v = Some h"
  obtains P where "heapfree v \<sigma> = Some (\<sigma>\<lparr>hp := (hp \<sigma>)(v := None), heapmem := P\<rparr>)"
    "pool_inv P (hblk ` (dom (hp \<sigma>) - {v}))" "samechunks (heapmem \<sigma>) P"
proof -
  have "pool_inv (heapmem \<sigma>) (hblk ` dom (hp \<sigma>))" "hblk v \<in> hblk ` dom (hp \<sigma>)" using assms by (auto simp: counted_def)
  from pools.release_law [OF this] obtain P where "poolfree (B2D (hblk v)) (heapmem \<sigma>) = Some P"
    "pool_inv P (hblk ` dom (hp \<sigma>) - {hblk v})" by blast
  moreover have "hblk ` dom (hp \<sigma>) - {hblk v} = hblk ` (dom (hp \<sigma>) - {v})" using hblk_inj by blast
  ultimately show ?thesis using that poolfree_chunks [of "hblk v + 8"] by (simp add: heapfree_def hblk_D2H B2D_def)
qed

lemma counted_leave:
  assumes c: "counted B (insert v F) R M \<sigma>" and h: "v \<notin> F"
    and P: "pool_inv P (hblk ` (dom (hp \<sigma>) - {v}))"
  shows "counted B F R M (\<sigma>\<lparr>hp := (hp \<sigma>)(v := None), heapmem := P\<rparr>)"
proof (rule counted_swap [OF c])
  let ?s = "\<sigma>\<lparr>hp := (hp \<sigma>)(v := None), heapmem := P\<rparr>"
  have l: "live F ?s = live (insert v F) \<sigma>"
    using h by (auto simp: live_def)
  have k: "w \<noteq> v \<Longrightarrow> kids ?s w = kids \<sigma> w \<and> modkids ?s w = modkids \<sigma> w" for w
    by (simp add: kids_def modkids_def split: option.splits)
  have k': "w \<in> live (insert v F) \<sigma> \<Longrightarrow> kids ?s w = kids \<sigma> w"
    "w \<in> live (insert v F) \<sigma> \<Longrightarrow> modkids ?s w = modkids \<sigma> w" for w
    using k by (auto simp: live_def)
  show "refsto F R ?s u = refsto (insert v F) R \<sigma> u" for u
    by (simp add: refsto_def l k' cong: sum.cong)
  show "modrefs F M ?s u = modrefs (insert v F) M \<sigma> u" for u
    by (simp add: modrefs_def l k' cong: sum.cong)
  show "refcount F ?s u = refcount (insert v F) \<sigma> u" for u
    using h by (auto simp: refcount_def split: option.splits)
  show "hp \<sigma> u = Some h \<and> u \<notin> insert v F" if "hp ?s u = Some h" "u \<notin> F" for u h
    using that by (auto split: if_splits)
  show "lists_stay \<sigma> ?s" by (simp add: lists_stay_def)
  show "pool_inv (heapmem ?s) (hblk ` dom (hp ?s))" using P by (simp add: dom_fun_upd)
qed simp_all

lemma counted_F_only:
  assumes "counted B F R M \<sigma>" "v \<in> F" "\<And>h. islist h \<Longrightarrow> islist (f h)"
  shows "counted B F R M (updobj v f \<sigma>)"
  by (rule counted_same [OF assms(1)]) (use assms(2,3) in \<open>auto simp: agree_def option.rel_refl refcount_def lists_stay_updobj split: option.splits\<close>)


lemma freetypes_sel:
  "mem (fold freetype ts \<sigma>) = mem \<sigma>" "hp (fold freetype ts \<sigma>) = hp \<sigma>"
  "mods (fold freetype ts \<sigma>) = mods \<sigma>" "modules (fold freetype ts \<sigma>) = modules \<sigma>"
  "heapmem (fold freetype ts \<sigma>) = heapmem \<sigma>"
  "gchalt (fold freetype ts \<sigma>) = gchalt \<sigma>" "progs (fold freetype ts \<sigma>) = progs \<sigma>"
  "regs (fold freetype ts \<sigma>) = regs \<sigma>"
  by (induction ts arbitrary: \<sigma>) simp_all

lemma freetypes_shape: "same_shape (types \<sigma> s) (types (fold freetype ts \<sigma>) s)"
proof (induction ts arbitrary: \<sigma>)
  case (Cons t ts)
  have "same_shape (types \<sigma> s) (types (freetype t \<sigma>) s)" by simp
  from same_shape_trans [OF this Cons.IH] show ?case by simp
qed simp

lemma live_hp: "hp \<sigma>' = hp \<sigma> \<Longrightarrow> live F \<sigma>' = live F \<sigma>"
  by (simp add: live_def)

lemma unload_counted:
  assumes c: "counted B F R (add_mset m M) \<sigma>"
  shows "m \<in> set (modules \<sigma>)" "mref (mods \<sigma> m) > 0"
    and "counted B F R M (\<sigma>\<lparr>mods := (mods \<sigma>)(m := (mods \<sigma> m)\<lparr>mref := mref (mods \<sigma> m) - 1\<rparr>)\<rparr>)"
    and "mref (mods \<sigma> m) = 1 \<Longrightarrow> counted B F (add_mset (morigmp (mods \<sigma> m)) R) M
      (\<sigma>\<lparr>mods := (mods \<sigma>)(m := (mods \<sigma> m)\<lparr>mref := 0\<rparr>), modules := remove1 m (modules \<sigma>)\<rparr>)"
proof -
  let ?f = "\<lambda>k. (mods \<sigma>)(m := (mods \<sigma> m)\<lparr>mref := k\<rparr>)"
  have o: "morigmp (?f k x) = morigmp (mods \<sigma> x)" for k x by simp
  have K: "kids (\<sigma>\<lparr>mods := f\<rparr>) = kids \<sigma>" "kids (\<sigma>\<lparr>mods := f, modules := ms\<rparr>) = kids \<sigma>"
    "modkids (\<sigma>\<lparr>mods := f\<rparr>) = modkids \<sigma>" "modkids (\<sigma>\<lparr>mods := f, modules := ms\<rparr>) = modkids \<sigma>"
    "live F (\<sigma>\<lparr>mods := f\<rparr>) = live F \<sigma>" "live F (\<sigma>\<lparr>mods := f, modules := ms\<rparr>) = live F \<sigma>"
    "refcount F (\<sigma>\<lparr>mods := f\<rparr>) = refcount F \<sigma>" "refcount F (\<sigma>\<lparr>mods := f, modules := ms\<rparr>) = refcount F \<sigma>"
    "tailok (\<sigma>\<lparr>mods := f\<rparr>) = tailok \<sigma>" "tailok (\<sigma>\<lparr>mods := f, modules := ms\<rparr>) = tailok \<sigma>"
    for f ms by (auto simp: fun_eq_iff kids_def modkids_def live_def refcount_def tailok_def split: option.splits hstruct.splits)
  have q: "\<forall>x. if x \<in> set (modules \<sigma>) then mref (mods \<sigma> x) = int (modrefs F (add_mset m M) \<sigma> x) else modrefs F (add_mset m M) \<sigma> x = 0"
    and d: "distinct (modules \<sigma>)" using c unfolding counted_def by blast+
  have m: "modrefs F (add_mset m M) \<sigma> x = modrefs F M \<sigma> x + (if x = m then 1 else 0)" for x
    by (simp add: modrefs_def)
  have m': "modrefs F M (\<sigma>\<lparr>mods := f\<rparr>) = modrefs F M \<sigma>" "modrefs F M (\<sigma>\<lparr>mods := f, modules := ms\<rparr>) = modrefs F M \<sigma>" for f ms
    by (simp_all add: modrefs_def K fun_eq_iff)
  show mm: "m \<in> set (modules \<sigma>)" using q [rule_format, of m] m [of m] by (simp split: if_splits)
  show "mref (mods \<sigma> m) > 0" using q [rule_format, of m] m [of m] mm by simp
  have r1: "refsto F R (\<sigma>\<lparr>mods := ?f k\<rparr>) u = refsto F R \<sigma> u" for k u
    unfolding refsto_def K by (simp add: o del: fun_upd_apply)
  show "counted B F R M (\<sigma>\<lparr>mods := ?f (mref (mods \<sigma> m) - 1)\<rparr>)"
    using c q mm unfolding counted_def K r1 m' by (auto simp: m split: if_splits)
  have r2: "refsto F (add_mset (morigmp (mods \<sigma> m)) R) (\<sigma>\<lparr>mods := ?f k, modules := remove1 m (modules \<sigma>)\<rparr>) u = refsto F R \<sigma> u" for k u
  proof -
    have "add_mset m (mset (remove1 m (modules \<sigma>))) = mset (modules \<sigma>)" using mm by simp
    then have "mset (map (\<lambda>x. morigmp (mods \<sigma> x)) (modules \<sigma>))
       = add_mset (morigmp (mods \<sigma> m)) (mset (map (\<lambda>x. morigmp (mods \<sigma> x)) (remove1 m (modules \<sigma>))))"
      by (metis image_mset_add_mset mset_map)
    then show ?thesis unfolding refsto_def K by (simp add: o del: fun_upd_apply)
  qed
  show "counted B F (add_mset (morigmp (mods \<sigma> m)) R) M (\<sigma>\<lparr>mods := ?f 0, modules := remove1 m (modules \<sigma>)\<rparr>)" if "mref (mods \<sigma> m) = 1"
    using c q mm that d unfolding counted_def K r2 m' by (auto simp: m split: if_splits)
qed

lemma kept_href: "v \<notin> F \<Longrightarrow> kept F V \<sigma> (updobj v (\<lambda>h. h\<lparr>href := k h\<rparr>) \<sigma>)"
  by (auto simp: kept_def)

lemma kept_heapfree:
  "v \<notin> F \<Longrightarrow> samechunks (heapmem \<sigma>) P \<Longrightarrow> kept F V \<sigma> (\<sigma>\<lparr>hp := (hp \<sigma>)(v := None), heapmem := P\<rparr>)"
  by (auto simp: kept_def samegc_def samechunks_def)

lemma tail_href: "pred_option islist (hp \<sigma> u) \<Longrightarrow> pred_option islist (hp (updobj v (\<lambda>h. h\<lparr>href := k h\<rparr>) \<sigma>) u)"
  using lists_stay_updobj [of "\<lambda>h. h\<lparr>href := k h\<rparr>" \<sigma> v] by (simp add: lists_stay_def del: updobj_sel)

lemma leave_block:
  assumes c: "counted B (insert v F) R M \<sigma>2" and k: "kept F {v} (gclock \<sigma>) \<sigma>2" "v \<in> dom (hp \<sigma>2)" and v: "v \<notin> F"
  shows "\<exists>\<sigma>3. heapfree v (freetype (Some t) (gcunlock \<sigma>2)) = Some \<sigma>3 \<and> hp \<sigma>3 v = None \<and> counted B F R M \<sigma>3 \<and> kept F {} \<sigma> \<sigma>3"
proof -
  let ?s3 = "freetype (Some t) (gcunlock \<sigma>2)"
  have c3: "counted B (insert v F) R M ?s3" using c by simp
  have "\<exists>h. hp ?s3 v = Some h" using k(2) by auto
  then obtain P where P: "heapfree v ?s3 = Some (?s3\<lparr>hp := (hp ?s3)(v := None), heapmem := P\<rparr>)" "pool_inv P (hblk ` (dom (hp ?s3) - {v}))"
    "samechunks (heapmem ?s3) P" using heapfree_ok [OF c3] by blast
  let ?s4 = "?s3\<lparr>hp := (hp ?s3)(v := None), heapmem := P\<rparr>"
  have "counted B F R M ?s4" using counted_leave [OF c3 v P(2)] .
  moreover have "kept F {} \<sigma> ?s4"
  proof -
    have "same_shape (types \<sigma> x) (types ?s3 x)" for x
      using k(1) same_shape_trans [OF _ freetype_sel(8)] by (simp add: kept_def)
    moreover have "\<exists>h. hp \<sigma> u = Some h \<and> h' = h\<lparr>href := href h'\<rparr>" if "hp ?s4 u = Some h'" for u h'
      using kept_objD [OF k(1), of u h'] that by (simp split: if_splits)
    moreover have "hp ?s4 u = hp \<sigma> u" if "u \<in> F" for u
      using kept_sel(4) [OF k(1) that] v that by auto
    moreover have "samegc (gclock \<sigma>) \<sigma>2" using k(1) by (simp add: kept_def)
    then have "samegc \<sigma> ?s4" using P(3)
      by (simp add: samegc_def samechunks_def gclock_def gcunlock_def freetype_def typeref_def)
    ultimately show ?thesis using k(1) by (simp add: kept_def)
  qed
  ultimately show ?thesis using P(1) by auto
qed

lemma freestring_counted:
  assumes "counted B (insert v F) R M \<sigma>" "v \<notin> F" "hp \<sigma> v = Some h"
  shows "\<exists>\<sigma>'. freestring v w \<sigma> = Some \<sigma>' \<and> counted B (insert v F) R M \<sigma>' \<and> kept F {v} \<sigma> \<sigma>' \<and> v \<in> dom (hp \<sigma>')"
proof -
  let ?f = "\<lambda>h. h\<lparr>hs := (case hs h of SString s \<Rightarrow> SString (s\<lparr>stmp := None\<rparr>) | x \<Rightarrow> x)\<rparr>"
  have "counted B (insert v F) R M (updobj v ?f \<sigma>)"
    using assms(1) by (rule counted_F_only) (auto simp: islist_def split: hstruct.splits)
  moreover have "kept F {v} \<sigma> (updobj v ?f \<sigma>)" using assms(2) by (auto simp: kept_def)
  moreover have "v \<in> dom (hp (updobj v ?f \<sigma>))" using assms(3) by simp
  ultimately show ?thesis by (simp add: freestring_def)
qed

subsection \<open>The contract of \<^verbatim>\<open>destroy\<close> and its clients\<close>

locale releasing =
  fixes D :: "ptr \<Rightarrow> vm \<Rightarrow> vm option" and g :: int and B :: "ptr multiset"
  assumes release: "counted B F (add_mset v R) M \<sigma> \<Longrightarrow> B \<subseteq># R \<Longrightarrow> g \<le> gchalt \<sigma> \<Longrightarrow>
    \<exists>\<sigma>'. D v \<sigma> = Some \<sigma>' \<and> counted B F R M \<sigma>' \<and> kept F {} \<sigma> \<sigma>'"
begin

lemma release_or_nil:
  assumes "counted B F (add_mset v R) M \<sigma>" "B \<subseteq># R" "g \<le> gchalt \<sigma>"
  shows "\<exists>\<sigma>'. (if v \<noteq> H then D v \<sigma> else Some \<sigma>) = Some \<sigma>' \<and> counted B F R M \<sigma>' \<and> kept F {} \<sigma> \<sigma>'"
proof (cases "v = H")
  case True
  have "counted B F R M \<sigma>" using assms(1) unfolding True by (rule counted_swap0)
  with True show ?thesis by simp
qed (use release assms in simp)

lemma release_list:
  assumes "counted B F (mset (map (rdW (mem \<sigma>)) as) + R) M \<sigma>" "B \<subseteq># R" "g \<le> gchalt \<sigma>"
  shows "\<exists>\<sigma>'. foldO (\<lambda>a \<sigma>. let x = rdW (mem \<sigma>) a in if x \<noteq> H then D x \<sigma> else Some \<sigma>) as \<sigma> = Some \<sigma>'
    \<and> counted B F R M \<sigma>' \<and> kept F {} \<sigma> \<sigma>'"
  using assms
proof (induction as arbitrary: \<sigma>)
  case (Cons a as)
  let ?x = "rdW (mem \<sigma>) a" and ?xs = "map (rdW (mem \<sigma>)) as"
  have c: "counted B F (add_mset ?x (mset ?xs + R)) M \<sigma>" using Cons.prems by simp
  have b: "B \<subseteq># mset ?xs + R" using Cons.prems(2) by (simp add: subset_mset.add_increasing)
  obtain \<sigma>1 where 1: "(if ?x \<noteq> H then D ?x \<sigma> else Some \<sigma>) = Some \<sigma>1"
    "counted B F (mset ?xs + R) M \<sigma>1" "kept F {} \<sigma> \<sigma>1"
    using release_or_nil [OF c b Cons.prems(3)] by blast
  then have m: "mem \<sigma>1 = mem \<sigma>" "gchalt \<sigma>1 = gchalt \<sigma>" by (simp_all add: kept_def)
  obtain \<sigma>2 where 2: "foldO (\<lambda>a \<sigma>. let x = rdW (mem \<sigma>) a in if x \<noteq> H then D x \<sigma> else Some \<sigma>) as \<sigma>1 = Some \<sigma>2"
    "counted B F R M \<sigma>2" "kept F {} \<sigma>1 \<sigma>2"
    using Cons.IH [of \<sigma>1] 1(2) Cons.prems(2,3) m by auto
  have "kept F {} \<sigma> \<sigma>2" using 1(3) 2(3) by (rule kept_trans) simp_all
  with 1(1) 2 show ?case by (auto simp: Let_def)
qed simp

lemma freeptrs_ok:
  assumes "counted B F (ptrs_at (mem \<sigma>) v t + R) M \<sigma>" "B \<subseteq># R" "g \<le> gchalt \<sigma>"
  shows "\<exists>\<sigma>'. freeptrs D v t \<sigma> = Some \<sigma>' \<and> counted B F R M \<sigma>' \<and> kept F {} \<sigma> \<sigma>'"
  unfolding freeptrs_def using assms by (intro release_list) (simp_all add: ptrs_at_def)

lemma freeelems_ok:
  assumes "counted B F (sum_list (map (\<lambda>i. ptrs_at (mem \<sigma>) (f i) t) is) + R) M \<sigma>" "B \<subseteq># R" "g \<le> gchalt \<sigma>"
  shows "\<exists>\<sigma>'. foldO (\<lambda>i. freeptrs D (f i) t) is \<sigma> = Some \<sigma>' \<and> counted B F R M \<sigma>' \<and> kept F {} \<sigma> \<sigma>'"
  using assms
proof (induction "is" arbitrary: \<sigma>)
  case (Cons i "is")
  let ?S = "\<lambda>\<sigma>. sum_list (map (\<lambda>i. ptrs_at (mem \<sigma>) (f i) t) is) + R"
  have b: "B \<subseteq># ?S \<sigma>" using Cons.prems(2) by (simp add: subset_mset.add_increasing)
  obtain \<sigma>1 where 1: "freeptrs D (f i) t \<sigma> = Some \<sigma>1" "counted B F (?S \<sigma>) M \<sigma>1" "kept F {} \<sigma> \<sigma>1"
    using freeptrs_ok [OF _ b Cons.prems(3), of F "f i" t] Cons.prems(1) by (auto simp: ac_simps)
  then have m: "mem \<sigma>1 = mem \<sigma>" "gchalt \<sigma>1 = gchalt \<sigma>" by (simp_all add: kept_def)
  obtain \<sigma>2 where 2: "foldO (\<lambda>i. freeptrs D (f i) t) is \<sigma>1 = Some \<sigma>2" "counted B F R M \<sigma>2" "kept F {} \<sigma>1 \<sigma>2"
    using Cons.IH [of \<sigma>1] 1(2) Cons.prems(2,3) by (auto simp: m)
  have "kept F {} \<sigma> \<sigma>2" using 1(3) 2(3) by (rule kept_trans) simp_all
  with 1 2 show ?case by simp
qed simp

lemma freearray_ok:
  assumes c: "counted B F (R + kids \<sigma> v) M \<sigma>" and b: "B \<subseteq># R" and g: "g \<le> gchalt \<sigma>"
    and h: "hp \<sigma> v = Some h" "ht h = Some t" "hs h = SArray len e root d"
  shows "\<exists>\<sigma>'. freearray D v False \<sigma> = Some \<sigma>' \<and> counted B F R M \<sigma>' \<and> kept F {} \<sigma> \<sigma>'"
proof -
  have k: "kids \<sigma> v = (if root \<noteq> H then {#root#} else
      sum_list (map (\<lambda>i. ptrs_at (mem \<sigma>) (d + of_nat i * of_int (tsize (types \<sigma> e))) (types \<sigma> e)) [0 ..< nat len]))"
    by (simp add: kids_def kids_of_def h)
  have "\<exists>\<sigma>1. (if root \<noteq> H then D root \<sigma>
      else if np (types \<sigma> e) \<noteq> 0 then
        foldO (\<lambda>i. freeptrs D (d + of_nat i * of_int (tsize (types \<sigma> e))) (types \<sigma> e)) [0 ..< nat len] \<sigma>
      else Some \<sigma>) = Some \<sigma>1 \<and> counted B F R M \<sigma>1 \<and> kept F {} \<sigma> \<sigma>1"
  proof (cases "root = H")
    case False
    with release [of F root R M \<sigma>] c b g k show ?thesis by simp
  next
    case root: True
    show ?thesis
    proof (cases "np (types \<sigma> e) = 0")
      case True
      then have "sum_list (map (\<lambda>i. ptrs_at (mem \<sigma>) (f i) (types \<sigma> e)) is) = {#}" for f :: "nat \<Rightarrow> WORD" and "is"
        by (induction "is") (simp_all add: ptrs_at_def)
      with c k root True show ?thesis by simp
    next
      case False
      with freeelems_ok [OF _ b g, of F _ "types \<sigma> e" "[0 ..< nat len]"] c k root show ?thesis
        by (simp add: ac_simps)
    qed
  qed
  then obtain \<sigma>1 where 1: "(if root \<noteq> H then D root \<sigma>
      else if np (types \<sigma> e) \<noteq> 0 then
        foldO (\<lambda>i. freeptrs D (d + of_nat i * of_int (tsize (types \<sigma> e))) (types \<sigma> e)) [0 ..< nat len] \<sigma>
      else Some \<sigma>) = Some \<sigma>1" "counted B F R M \<sigma>1" "kept F {} \<sigma> \<sigma>1" by blast
  have "kept F {} \<sigma> (typeref (-1) e \<sigma>1)" by (rule kept_trans [OF 1(3) kept_typeref [of F "{}"]]) simp_all
  moreover have "freearray D v False \<sigma> = Some (typeref (-1) e \<sigma>1)"
    using 1(1) by (simp add: freearray_def h Let_def split: if_splits)
  ultimately show ?thesis using 1(2) by simp
qed

lemma freecell_ok:
  assumes c: "counted B F (cellptrs (mem \<sigma>) (types \<sigma>) l e + R) M \<sigma>"
    and b: "B \<subseteq># R" and g: "g \<le> gchalt \<sigma>"
  shows "\<exists>\<sigma>'. freecell D l e False \<sigma> = Some \<sigma>' \<and> counted B F R M \<sigma>' \<and> kept F {} \<sigma> \<sigma>'"
proof (cases e)
  case None
  with c show ?thesis by (simp add: freecell_def cellptrs_def)
next
  case (Some t)
  have "\<exists>\<sigma>1. (if np (types \<sigma> t) \<noteq> 0 then freeptrs D (ldata l) (types \<sigma> t) \<sigma> else Some \<sigma>) = Some \<sigma>1
     \<and> counted B F R M \<sigma>1 \<and> kept F {} \<sigma> \<sigma>1"
    using c freeptrs_ok [OF _ b g] by (auto simp: Some ptrs_at_def cellptrs_def)
  then obtain \<sigma>1 where 1: "(if np (types \<sigma> t) \<noteq> 0 then freeptrs D (ldata l) (types \<sigma> t) \<sigma> else Some \<sigma>) = Some \<sigma>1"
    "counted B F R M \<sigma>1" "kept F {} \<sigma> \<sigma>1" by blast
  have "kept F {} \<sigma> (typeref (-1) t \<sigma>1)" by (rule kept_trans [OF 1(3) kept_typeref [of F "{}"]]) simp_all
  moreover have "freecell D l e False \<sigma> = Some (typeref (-1) t \<sigma>1)"
    using 1(1) by (simp add: freecell_def Some split: if_splits)
  ultimately show ?thesis using 1(2) by simp
qed

lemma freetail_ok:
  assumes "counted B F (add_mset l R) M \<sigma>" "B \<subseteq># R" "g \<le> gchalt \<sigma>" "pred_option islist (hp \<sigma> l)"
    "card (dom (hp \<sigma>)) < n"
  shows "\<exists>\<sigma>'. freetail n D l \<sigma> = Some \<sigma>' \<and> counted B F R M \<sigma>' \<and> kept F {} \<sigma> \<sigma>'"
  using assms
proof (induction n arbitrary: l \<sigma>)
  case (Suc n)
  show ?case
  proof (cases "l = H")
    case True
    have "counted B F R M \<sigma>" using Suc.prems(1) unfolding True by (rule counted_swap0)
    with True show ?thesis by simp
  next
    case False
    obtain h where h: "hp \<sigma> l = Some h" "l \<notin> F" "0 < unat (href h)"
      by (rule counted_held [OF Suc.prems(1)]) (use False in simp_all)
    obtain nx e t where s: "hs h = SList nx e" "ht h = Some t"
      using Suc.prems(4) h(1) by (auto simp: islist_def split: hstruct.splits)
    let ?s1 = "updobj l (\<lambda>h. h\<lparr>href := href h - 1\<rparr>) \<sigma>"
    have c1: "counted B F R M ?s1" using counted_drop Suc.prems(1) False by blast
    have k1: "kept F {} \<sigma> ?s1" using h(2) by (rule kept_href)
    show ?thesis
    proof (cases "href h = 1")
      case False
      then have "freetail (Suc n) D l \<sigma> = Some ?s1" using \<open>l \<noteq> H\<close> by (simp add: Let_def h(1) s)
      with c1 k1 show ?thesis by blast
    next
      case True
      have bR: "B \<subseteq># add_mset nx R"
        using Suc.prems(2) subset_mset.order_trans [of B R "add_mset nx R"] by simp
      let ?d = "cellptrs (mem \<sigma>) (types \<sigma>) l e"
      have h1: "hp ?s1 l = Some (h\<lparr>href := 0\<rparr>)" using h True by simp
      have "counted B (insert l F) (?d + add_mset nx R) M ?s1"
      proof -
        have "kids ?s1 l = add_mset nx ?d" "modkids ?s1 l = {#}"
          by (simp_all add: kids_def modkids_def kids_of_def h(1) s)
        with counted_enter [OF c1 h1 _ h(2)] show ?thesis by (simp add: ac_simps)
      qed
      then obtain s2 where 2: "freecell D l e False ?s1 = Some s2" "counted B (insert l F) (add_mset nx R) M s2"
        "kept (insert l F) {} ?s1 s2"
        using freecell_ok [of "insert l F" ?s1 l e "add_mset nx R" M] bR Suc.prems(3) by auto
      have g2: "gettail s2 l = Some nx"
        using kept_sel(4) [OF 2(3), of l] h(1) by (simp add: gettail_def s)
      have l2: "hp s2 l = Some (h\<lparr>href := 0\<rparr>)" using kept_sel(4) [OF 2(3), of l] h1 by simp
      obtain P where P: "heapfree l s2 = Some (s2\<lparr>hp := (hp s2)(l := None), heapmem := P\<rparr>)" "pool_inv P (hblk ` (dom (hp s2) - {l}))"
          "samechunks (heapmem s2) P"
        by (rule heapfree_ok [OF 2(2) l2])
      define s2' where "s2' = s2\<lparr>hp := (hp s2)(l := None), heapmem := P\<rparr>"
      have c3: "counted B F (add_mset nx R) M s2'" unfolding s2'_def using counted_leave [OF 2(2) h(2) P(2)] .
      have "dom (hp s2) \<subseteq> dom (hp \<sigma>)" "l \<in> dom (hp \<sigma>)" using kept_dom [OF 2(3)] kept_dom [OF k1] h(1) by blast+
      then have "dom (hp s2') \<subset> dom (hp \<sigma>)" by (simp add: psubset_eq s2'_def) blast
      then have cd: "card (dom (hp s2')) < n"
        using Suc.prems(5) psubset_card_mono [of "dom (hp \<sigma>)" "dom (hp s2')"] by simp
      have t: "pred_option islist (hp s2' nx)"
      proof -
        have "tailok \<sigma> h" using Suc.prems(1) h(1,2) unfolding counted_def by blast
        then have "pred_option islist (hp \<sigma> nx)" by (simp add: tailok_def s)
        then have "pred_option islist (hp ?s1 nx)" by (rule tail_href)
        from kept_tail [OF 2(3) this] show ?thesis by (simp add: s2'_def)
      qed
      obtain s3 where 3: "freetail n D nx s2' = Some s3" "counted B F R M s3" "kept F {} s2' s3"
        using Suc.IH [OF c3 Suc.prems(2) _ t cd] Suc.prems(3) kept_sel(2) [OF 2(3)] by (auto simp: s2'_def)
      have "kept F {} s2 s2'" unfolding s2'_def using h(2) P(3) by (rule kept_heapfree)
      then have "kept F {} ?s1 s2'" by (rule kept_trans [OF 2(3)]) auto
      from kept_trans [OF k1 this] have "kept F {} \<sigma> s2'" by simp
      from kept_trans [OF this 3(3)] have "kept F {} \<sigma> s3" by simp
      moreover have "freetail (Suc n) D l \<sigma> = Some s3"
        using \<open>l \<noteq> H\<close> by (simp add: Let_def h(1) s True 2(1) g2 P(1) 3(1) flip: s2'_def)
      ultimately show ?thesis using 3(2) by blast
    qed
  qed
qed simp

lemma freelist_ok:
  assumes c: "counted B F (R + kids \<sigma> v) M \<sigma>" and b: "B \<subseteq># R" and g: "g \<le> gchalt \<sigma>"
    and h: "hp \<sigma> v = Some h" "ht h = Some t" "hs h = SList nx e" "v \<in> F" and t: "tailok \<sigma> h"
  shows "\<exists>\<sigma>'. freelist D v False \<sigma> = Some \<sigma>' \<and> counted B F R M \<sigma>' \<and> kept F {} \<sigma> \<sigma>'"
proof -
  have bR: "B \<subseteq># add_mset nx R"
    using b subset_mset.order_trans [of B R "add_mset nx R"] by simp
  have "counted B F (cellptrs (mem \<sigma>) (types \<sigma>) v e + add_mset nx R) M \<sigma>"
    using c by (simp add: kids_def kids_of_def h ac_simps)
  then obtain s1 where 1: "freecell D v e False \<sigma> = Some s1" "counted B F (add_mset nx R) M s1" "kept F {} \<sigma> s1"
    using freecell_ok bR g by blast
  have "gettail s1 v = Some nx" using kept_sel(4) [OF 1(3) h(4)] h by (simp add: gettail_def)
  moreover have "pred_option islist (hp s1 nx)"
    using kept_tail [OF 1(3)] t by (simp add: tailok_def h)
  moreover have "card (dom (hp s1)) < nblocks"
    using card_mono [of "UNIV :: WORD set" "dom (hp s1)"] by (simp add: nblocks_def card_word)
  ultimately obtain s2 where 2: "freetail nblocks D nx s1 = Some s2" "counted B F R M s2" "kept F {} s1 s2"
    using freetail_ok [OF 1(2) b] kept_sel(2) [OF 1(3)] g by auto
  have "kept F {} \<sigma> s2" using 1(3) 2(3) by (rule kept_trans) simp_all
  moreover have "freelist D v False \<sigma> = Some s2"
    using 1 2 \<open>gettail s1 v = Some nx\<close> by (simp add: freelist_def h)
  ultimately show ?thesis using 2(2) by blast
qed

lemma unload_ok:
  assumes c: "counted B F R (add_mset m M) \<sigma>" and b: "B \<subseteq># R" and g: "g \<le> gchalt \<sigma>"
  shows "\<exists>\<sigma>'. unload D m \<sigma> = Some \<sigma>' \<and> counted B F R M \<sigma>' \<and> kept F {} \<sigma> \<sigma>'"
proof (cases "mref (mods \<sigma> m) > 1")
  case True
  with unload_counted(3) [OF c] show ?thesis
    by (simp add: unload_def Let_def kept_def samegc_def)
next
  case False
  with unload_counted(2) [OF c] have r: "mref (mods \<sigma> m) = 1" by simp
  let ?s = "\<sigma>\<lparr>mods := (mods \<sigma>)(m := (mods \<sigma> m)\<lparr>mref := 0\<rparr>), modules := remove1 m (modules \<sigma>)\<rparr>"
  obtain s1 where 1: "D (morigmp (mods \<sigma> m)) ?s = Some s1" "counted B F R M s1" "kept F {} ?s s1"
    using release [OF unload_counted(4) [OF c r] b] g by auto
  let ?s2 = "fold freetype (mtype (mods \<sigma> m)) s1"
  have "counted B F R M ?s2"
    by (rule counted_hp_same [OF 1(2)]) (simp_all add: freetypes_sel freetypes_shape)
  moreover have "kept F {} s1 ?s2" by (simp add: kept_def freetypes_sel freetypes_shape)
  then have "kept F {} ?s ?s2" by (rule kept_trans [OF 1(3)]) simp_all
  moreover have "kept F {} \<sigma> ?s" by (simp add: kept_def samegc_def set_remove1_subset)
  ultimately have "kept F {} \<sigma> ?s2" using kept_trans [of F "{}" \<sigma> ?s F "{}" ?s2 F "{}"] by simp
  moreover have "unload D m \<sigma> = Some ?s2" using 1(1) by (simp add: unload_def Let_def r)
  ultimately show ?thesis using \<open>counted B F R M ?s2\<close> by blast
qed

lemma freemodlink_ok:
  assumes c: "counted B F (R + kids \<sigma> v) (M + modkids \<sigma> v) \<sigma>" and b: "B \<subseteq># R" and g: "g \<le> gchalt \<sigma>"
    and h: "hp \<sigma> v = Some h" "ht h = Some t" "hs h = SModlink MP m cp lks" "v \<in> F"
  shows "\<exists>\<sigma>'. freemodlink D v False \<sigma> = Some \<sigma>' \<and> counted B F R M \<sigma>' \<and> kept F {} \<sigma> \<sigma>'"
proof -
  have "counted B F (add_mset MP R) (add_mset m M) \<sigma>"
    using c by (simp add: kids_def kids_of_def modkids_def h)
  then obtain s1 where 1: "D MP \<sigma> = Some s1" "counted B F R (add_mset m M) s1" "kept F {} \<sigma> s1"
    using release b g by blast
  obtain s2 where 2: "unload D m s1 = Some s2" "counted B F R M s2" "kept F {} s1 s2"
    using unload_ok [OF 1(2) b] kept_sel(2) [OF 1(3)] g by auto
  have "hp s1 v = hp \<sigma> v" using kept_sel(4) [OF 1(3) h(4)] .
  then have "freemodlink D v False \<sigma> = Some s2"
    using 1 2 by (simp add: freemodlink_def h)
  moreover have "kept F {} \<sigma> s2" using 1(3) 2(3) by (rule kept_trans) simp_all
  ultimately show ?thesis using 2(2) by blast
qed

lemma freeheap_ok:
  assumes c: "counted B F (R + kids \<sigma> v) M \<sigma>" and b: "B \<subseteq># R" and g: "g \<le> gchalt \<sigma>"
    and h: "hp \<sigma> v = Some h" "ht h = Some t" "hs h = SData"
  shows "\<exists>\<sigma>'. freeheap D v False \<sigma> = Some \<sigma>' \<and> counted B F R M \<sigma>' \<and> kept F {} \<sigma> \<sigma>'"
proof -
  have "counted B F (ptrs_at (mem \<sigma>) v (types \<sigma> t) + R) M \<sigma>"
    using c by (simp add: kids_def kids_of_def h ac_simps)
  then show ?thesis
    using freeptrs_ok [OF _ b g] by (auto simp: freeheap_def h ptrs_at_def)
qed

lemma freechan_ok:
  assumes c: "counted B F (R + kids \<sigma> v) M \<sigma>" and b: "B \<subseteq># R" and g: "g \<le> gchalt \<sigma>"
    and h: "hp \<sigma> v = Some h" "ht h = Some t" "hs h = SChan ch" "v \<in> F" "\<not> waited h"
  shows "\<exists>\<sigma>'. freechan D v False \<sigma> = Some \<sigma>' \<and> counted B F R M \<sigma>' \<and> kept F {} \<sigma> \<sigma>'"
proof -
  have w: "send ch = []" "recv ch = []" "sendalt ch = None" "recvalt ch = None"
    using h(3,5) by (simp_all add: waited_def)
  define s1 where "s1 = (if mover ch = mv_movtmp then freetype (Some (midt ch)) \<sigma> else \<sigma>)"
  have g1: "gchalt s1 = gchalt \<sigma>" by (simp add: s1_def)
  have c1: "getchan s1 v = Some ch" using h by (simp add: getchan_def s1_def)
  have u: "updchan v (\<lambda>ch. ch\<lparr>recv := []\<rparr>) s1 = s1" "updchan v (\<lambda>ch. ch\<lparr>send := []\<rparr>) s1 = s1"
    by (rule updchan_id [OF c1], use w in simp)+
  have "counted B F (add_mset (sendq ch) R) M s1"
    using c by (simp add: kids_def kids_of_def h s1_def)
  then obtain s3 where 3: "(if sendq ch \<noteq> H then D (sendq ch) s1 else Some s1) = Some s3" "counted B F R M s3" "kept F {} s1 s3"
    using release_or_nil [OF _ b, of F "sendq ch" M s1] g g1 by auto
  have "kept F {} \<sigma> s1" by (simp add: s1_def)
  from kept_trans [OF this 3(3)] have "kept F {} \<sigma> s3" by auto
  moreover have "freechan D v False \<sigma> = Some s3"
  proof -
    have c0: "getchan \<sigma> v = Some ch" using h by (simp add: getchan_def)
    show ?thesis
      unfolding freechan_def c0 option.case s1_def [symmetric] w Let_def altgone_opt_def bind.simps c1 killcomm_def foldO.simps u
      using 3(1) by simp
  qed
  ultimately show ?thesis using 3(2) by blast
qed

lemma callfree_ok:
  assumes c: "counted B (insert v F) (R + kids \<sigma> v) (M + modkids \<sigma> v) \<sigma>" and b: "B \<subseteq># R" and g: "g \<le> gchalt \<sigma>"
    and h: "hp \<sigma> v = Some h" "ht h = Some t" and s: "shaped (types \<sigma>) h" "tailok \<sigma> h" "\<not> waited h" and v: "v \<notin> F"
  shows "\<exists>\<sigma>'. callfree (tfree (types \<sigma> t)) D v False \<sigma> = Some \<sigma>' \<and> counted B (insert v F) R M \<sigma>' \<and> kept F {v} \<sigma> \<sigma>' \<and>
    v \<in> dom (hp \<sigma>')"
proof -
  have "hs h = SString st \<or> (\<exists>\<sigma>'. callfree (tfree (types \<sigma> t)) D v False \<sigma> = Some \<sigma>' \<and> counted B (insert v F) R M \<sigma>' \<and> kept (insert v F) {} \<sigma> \<sigma>')"
    if "\<forall>x. hs h = SString x \<longrightarrow> x = st" for st
  proof (cases "hs h")
    case SData
    then show ?thesis using freeheap_ok [OF _ b g h] c s by (auto simp: shaped_def h callfree_def modkids_def)
  next
    case (SArray len e root d)
    then show ?thesis using freearray_ok [OF _ b g h] c s by (auto simp: shaped_def h callfree_def modkids_def)
  next
    case (SList nx e)
    then show ?thesis using freelist_ok [OF _ b g h] c s by (auto simp: shaped_def h callfree_def modkids_def)
  next
    case (SChan ch)
    then show ?thesis using freechan_ok [OF _ b g h] c s by (auto simp: shaped_def h callfree_def modkids_def)
  next
    case (SModlink MP m cp lks)
    then show ?thesis using freemodlink_ok [OF _ b g h] c s by (auto simp: shaped_def h callfree_def)
  qed (use that in simp)
  moreover have "\<exists>\<sigma>'. callfree (tfree (types \<sigma> t)) D v False \<sigma> = Some \<sigma>' \<and> counted B (insert v F) R M \<sigma>' \<and> kept F {v} \<sigma> \<sigma>' \<and> v \<in> dom (hp \<sigma>')"
    if st: "hs h = SString st" for st
  proof -
    have "counted B (insert v F) R M \<sigma>" using c by (simp add: kids_def kids_of_def modkids_def h st)
    from freestring_counted [OF this v h(1)] show ?thesis using s(1) by (simp add: shaped_def h st callfree_def)
  qed
  moreover have "kept F {v} \<sigma> \<sigma>' \<and> v \<in> dom (hp \<sigma>')" if "kept (insert v F) {} \<sigma> \<sigma>'" for \<sigma>'
    using kept_trans [OF that kept_refl [of F "{}"]] kept_sel(4) [OF that, of v] h(1) by auto
  ultimately show ?thesis by (cases "hs h") blast+
qed

lemma free_block:
  assumes c: "counted B F R M \<sigma>" and b: "B \<subseteq># R" and g: "g \<le> gchalt \<sigma> + 1"
    and h: "hp \<sigma> v = Some h" "href h = 0" "ht h = Some t" "v \<notin> F"
  shows "\<exists>\<sigma>2 \<sigma>3. callfree (tfree (types \<sigma> t)) D v False (gclock \<sigma>) = Some \<sigma>2 \<and>
    heapfree v (freetype (Some t) (gcunlock \<sigma>2)) = Some \<sigma>3 \<and> hp \<sigma>3 v = None \<and> counted B F R M \<sigma>3 \<and> kept F {} \<sigma> \<sigma>3"
proof -
  have kk: "kids (gclock \<sigma>) v = kids \<sigma> v" "modkids (gclock \<sigma>) v = modkids \<sigma> v"
    by (simp_all add: kids_def modkids_def h)
  have e: "counted B (insert v F) (R + kids (gclock \<sigma>) v) (M + modkids (gclock \<sigma>) v) (gclock \<sigma>)"
    using counted_enter [OF c h(1,2,4)] by (simp add: kk)
  have s: "shaped (types \<sigma>) h" "tailok \<sigma> h" "waited h \<Longrightarrow> v \<in># B \<and> v \<noteq> H"
    using c h(1,4) unfolding counted_def by blast+
  have "count R v = 0" if "v \<noteq> H"
  proof -
    have "refsto F R \<sigma> v = refcount F \<sigma> v" using c that unfolding counted_def by blast
    then show ?thesis by (simp add: refsto_def refcount_def h)
  qed
  then have w: "\<not> waited h" using s(3) b by (metis mset_subset_eqD not_in_iff)
  have "tailok (gclock \<sigma>) h" using s(2) by (simp add: tailok_def split: hstruct.splits)
  then obtain \<sigma>2 where 2: "callfree (tfree (types \<sigma> t)) D v False (gclock \<sigma>) = Some \<sigma>2"
    "counted B (insert v F) R M \<sigma>2" "kept F {v} (gclock \<sigma>) \<sigma>2" "v \<in> dom (hp \<sigma>2)"
    using callfree_ok [OF e b, of h t] h s(1) w g by auto
  from leave_block [OF 2(2-4) h(4), of t] 2(1) show ?thesis by blast
qed

end

text \<open>One level of \<^verbatim>\<open>destroy\<close> keeps the contract if the nested calls, one lock deeper, do.\<close>

lemma destroy_body_releasing:
  assumes D: "g \<le> 64 \<Longrightarrow> releasing D (g + 1) B"
  shows "releasing (destroy_body D) g B"
proof
  fix F v R M \<sigma>
  assume c: "counted B F (add_mset v R) M \<sigma>" and b: "B \<subseteq># R" and g: "g \<le> gchalt \<sigma>"
  show "\<exists>\<sigma>'. destroy_body D v \<sigma> = Some \<sigma>' \<and> counted B F R M \<sigma>' \<and> kept F {} \<sigma> \<sigma>'"
  proof (cases "v = H")
    case True
    have "counted B F R M \<sigma>" using c unfolding True by (rule counted_swap0)
    with True show ?thesis by (simp add: destroy_body_def)
  next
    case False
    obtain h where h: "hp \<sigma> v = Some h" "v \<notin> F" "0 < unat (href h)"
      by (rule counted_held [OF c]) (use False in simp_all)
    let ?s1 = "updobj v (\<lambda>h. h\<lparr>href := href h - 1\<rparr>) \<sigma>"
    have c1: "counted B F R M ?s1" using counted_drop c False by blast
    have k1: "kept F {} \<sigma> ?s1" using h(2) by (rule kept_href)
    have db: "D2B (heapmem \<sigma>) (D2H v) \<noteq> None" using counted_D2B [OF c h(1)] .
    show ?thesis
    proof (cases "href h - 1 > 0 \<or> gchalt \<sigma> > 64")
      case True
      then have "destroy_body D v \<sigma> = Some ?s1" using False db by (simp add: destroy_body_def h(1) Let_def del: not_None_eq)
      with c1 k1 show ?thesis by blast
    next
      case drop: False
      then have z: "href h - 1 = 0" by (simp add: word_gt_0)
      let ?h1 = "h\<lparr>href := 0\<rparr>"
      have h1: "hp ?s1 v = Some ?h1" using h z by simp
      have e: "counted B (insert v F) (R + kids ?s1 v) (M + modkids ?s1 v) ?s1"
        using counted_enter [OF c1 h1 _ h(2)] by simp
      show ?thesis
      proof (cases "ht h")
        case None
        then have "kids ?s1 v = {#}" "modkids ?s1 v = {#}" by (simp_all add: kids_def modkids_def kids_of_def h(1))
        then have e': "counted B (insert v F) R M ?s1" using e by simp
        obtain P where P: "heapfree v ?s1 = Some (?s1\<lparr>hp := (hp ?s1)(v := None), heapmem := P\<rparr>)" "pool_inv P (hblk ` (dom (hp ?s1) - {v}))"
            "samechunks (heapmem ?s1) P"
          by (rule heapfree_ok [OF e' h1])
        let ?s2 = "?s1\<lparr>hp := (hp ?s1)(v := None), heapmem := P\<rparr>"
        have "counted B F R M ?s2" using counted_leave [OF e' h(2) P(2)] .
        moreover have "kept F {} \<sigma> ?s2" using kept_trans [OF k1 kept_heapfree [OF h(2) P(3), of "{}"]] by simp
        moreover have "destroy_body D v \<sigma> = Some ?s2"
          using False drop db by (simp add: destroy_body_def h(1) Let_def None P(1) del: updobj_sel not_None_eq)
        ultimately show ?thesis by blast
      next
        case (Some t)
        have r: "releasing D (g + 1) B" using D drop g by simp
        obtain \<sigma>2 \<sigma>3 where 2: "callfree (tfree (types \<sigma> t)) D v False (gclock ?s1) = Some \<sigma>2"
            "heapfree v (freetype (Some t) (gcunlock \<sigma>2)) = Some \<sigma>3" "counted B F R M \<sigma>3" "kept F {} ?s1 \<sigma>3"
          using releasing.free_block [OF r c1 b _ h1] Some h(2) g by auto
        moreover have "destroy_body D v \<sigma> = Some \<sigma>3"
          using False drop db by (simp add: destroy_body_def h(1) Let_def Some 2(1,2) del: not_None_eq)
        moreover have "kept F {} \<sigma> \<sigma>3" using kept_trans [OF k1 2(4)] by simp
        ultimately show ?thesis by blast
      qed
    qed
  qed
qed

lemma destroyF_releasing: "66 \<le> g + int n \<Longrightarrow> releasing (destroyF n) g B \<or> n = 0"
proof (induction n arbitrary: g)
  case (Suc n)
  have "releasing (destroy_body (destroyF n)) g B"
    by (rule destroy_body_releasing) (use Suc.IH [of "g + 1"] Suc.prems in auto)
  moreover have "destroyF (Suc n) = destroy_body (destroyF n)" by (simp add: fun_eq_iff)
  ultimately show ?case by simp
qed simp

lemma destroy_releasing: "releasing destroy g B"
proof
  fix F v R M \<sigma>
  assume c: "counted B F (add_mset v R) M \<sigma>" "B \<subseteq># R"
  have "releasing (destroyF (Suc (nat (65 - gchalt \<sigma>)))) (gchalt \<sigma>) B"
    using destroyF_releasing [of "gchalt \<sigma>" "Suc (nat (65 - gchalt \<sigma>))"] by simp
  from releasing.release [OF this c]
  show "\<exists>\<sigma>'. destroy v \<sigma> = Some \<sigma>' \<and> counted B F R M \<sigma>' \<and> kept F {} \<sigma> \<sigma>'"
    by (simp add: destroy_def)
qed

interpretation dis_heap: releasing destroy g B for g B
  by (rule destroy_releasing)


text \<open>The block is given back when the last reference goes and the C stack is not too deep.\<close>

lemma destroy_last_ref:
  assumes "hp \<sigma> v = Some h" "href h = 1" "v \<noteq> H" "gchalt \<sigma> \<le> 64" "destroy v \<sigma> = Some \<sigma>'"
  shows "hp \<sigma>' v = None"
  using assms by (auto simp: destroy_def destroy_body_def Let_def bind_eq_Some_conv heapfree_def split: option.splits if_splits)

text \<open>
  C1. Dropping a reference. In a state whose reference counts are exact, destroy always returns
  (no freed or nil block is touched, the list loop and the recursion end, no module count goes
  below zero); afterwards the counts are exact for the references that are left, whatever was
  freed on the way; the memory, the progs and the collector's lock are as before; and a block
  whose last reference was dropped is given back unless the nesting is over the limit the code
  sets to protect the C stack.
\<close>

theorem destroy_exact:
  assumes "counted B {} (add_mset v R) M \<sigma>" and "B \<subseteq># R"
  shows "\<exists>\<sigma>'. destroy v \<sigma> = Some \<sigma>' \<and> counted B {} R M \<sigma>' \<and> kept {} {} \<sigma> \<sigma>' \<and>
    (\<forall>h. v \<noteq> H \<longrightarrow> hp \<sigma> v = Some h \<longrightarrow> href h = 1 \<longrightarrow> gchalt \<sigma> \<le> 64 \<longrightarrow> hp \<sigma>' v = None)"
proof -
  obtain \<sigma>' where "destroy v \<sigma> = Some \<sigma>'" "counted B {} R M \<sigma>'" "kept {} {} \<sigma> \<sigma>'"
    using dis_heap.release [OF assms order_refl] by blast
  with destroy_last_ref show ?thesis by blast
qed

definition pool_two :: Pool where
  \<comment> \<open>one chunk with two used blocks\<close>
  "pool_two = (split_blk 0x10020 64 (add_chunk 0x10000 128 (heappool\<lparr>brk := 0x20000\<rparr>)))\<lparr>cursize := 128\<rparr>"

lemma pool_two_inv: "pool_inv pool_two {0x10020, 0x10060}"
proof -
  let ?p = "add_chunk 65536 128 (heappool\<lparr>brk := 131072\<rparr>)"
  have "arena heappool {} {}" by (simp add: arena_def chunked_def heappool_def)
  from chunk_arena [OF this, of 65536 128 131072]
  have "arena ?p {65568} {65696}" by (simp add: heappool_def)
  from split_arena [OF this, of 65568 64]
  have "arena (split_blk 65568 64 ?p) {65632, 65568} {65696}" by (simp add: add_chunk_def)
  then have "arena pool_two {65632, 65568} {65696}" by (rule arena_cong) (simp_all add: pool_two_def)
  moreover have "used_blks pool_two {65632, 65568} = {65568, 65632}"
    by (auto simp: used_blks_def pool_two_def split_blk_sel add_chunk_sel)
  ultimately show ?thesis
    unfolding pool_inv_def by (intro conjI exI [of _ "{65632, 65568}"] exI [of _ "{65696}"])
      (simp_all add: pool_two_def split_blk_sel add_chunk_sel heappool_def)
qed

definition cell0 :: hobj where
  "cell0 = \<lparr>color = 0, href = 1, ht = Some Tlist, hs = SList H None\<rparr>"

definition vm_heap :: "mem \<Rightarrow> vm" where
  \<comment> \<open>a list of two cells, the second shared\<close>
  "vm_heap m = vm0\<lparr>mem := m, hp := (\<lambda>_. None)(0x10034 \<mapsto> cell0\<lparr>hs := SList 0x10074 None\<rparr>, 0x10074 \<mapsto> cell0\<lparr>href := 2\<rparr>),
     heapmem := pool_two\<rparr>"

lemma vm_heap_counted: "counted {#} {} (add_mset 0x10034 {#0x10074#}) {#} (vm_heap m)"
proof -
  have hp: "hp (vm_heap m) = (\<lambda>_. None)(0x10034 \<mapsto> cell0\<lparr>hs := SList 0x10074 None\<rparr>, 0x10074 \<mapsto> cell0\<lparr>href := 2\<rparr>)"
    by (simp add: vm_heap_def)
  have l: "live {} (vm_heap m) = {0x10034, 0x10074}" by (auto simp: live_def hp)
  have k: "kids (vm_heap m) 0x10034 = {#0x10074#}" "kids (vm_heap m) 0x10074 = {#H#}"
    "modkids (vm_heap m) 0x10034 = {#}" "modkids (vm_heap m) 0x10074 = {#}"
    by (simp_all add: kids_def modkids_def kids_of_def hp cell0_def cellptrs_def)
  have m: "modules (vm_heap m) = []" by (simp add: vm_heap_def vm0_def)
  have t: "types (vm_heap m) = builtin_types" by (simp add: vm_heap_def vm0_def)
  have d: "hblk ` dom (hp (vm_heap m)) = {0x10020, 0x10060}" by (auto simp: hp hblk_def image_iff)
  have p: "pool_inv (heapmem (vm_heap m)) (hblk ` dom (hp (vm_heap m)))"
    unfolding d using pool_two_inv by (simp add: vm_heap_def)
  have "\<forall>u. u \<noteq> H \<longrightarrow> refsto {} (add_mset 0x10034 {#0x10074#}) (vm_heap m) u = refcount {} (vm_heap m) u"
    unfolding refsto_def m l by (auto simp: k refcount_def hp cell0_def)
  moreover have "\<forall>u h. hp (vm_heap m) u = Some h \<longrightarrow> u \<notin> {} \<longrightarrow> shaped (types (vm_heap m)) h \<and> tailok (vm_heap m) h \<and> (waited h \<longrightarrow> u \<in># {#} \<and> u \<noteq> H)"
    by (auto simp: hp cell0_def H_def shaped_def tailok_def waited_def islist_def t
        builtin_types_def Tlist_def Tarray_def Tstring_def split: if_splits)
  ultimately show ?thesis using p unfolding counted_def modrefs_def m l by (simp add: k)
qed

theorem destroy_exact_witness:
  "\<exists>\<sigma>'. destroy 0x10034 (vm_heap (\<lambda>_. 0)) = Some \<sigma>' \<and> counted {#} {} {#0x10074#} {#} \<sigma>' \<and> hp \<sigma>' 0x10034 = None"
proof -
  have "hp (vm_heap (\<lambda>_. 0)) 0x10034 = Some (cell0\<lparr>hs := SList 0x10074 None\<rparr>)" "href (cell0\<lparr>hs := SList 0x10074 None\<rparr>) = 1"
    "gchalt (vm_heap (\<lambda>_. 0)) = 0" by (simp_all add: vm_heap_def cell0_def vm0_def)
  then show ?thesis
    using destroy_exact [OF vm_heap_counted [of "\<lambda>_. 0"]] by (auto simp: H_def)
qed

subsection \<open>Taking references on the pointers of a block\<close>

lemma Setmark_sel [simp]:
  "mem (Setmark v \<sigma>) = mem \<sigma>" "heapmem (Setmark v \<sigma>) = heapmem \<sigma>" "types (Setmark v \<sigma>) = types \<sigma>"
  "mods (Setmark v \<sigma>) = mods \<sigma>" "modules (Setmark v \<sigma>) = modules \<sigma>" "gchalt (Setmark v \<sigma>) = gchalt \<sigma>"
  "progs (Setmark v \<sigma>) = progs \<sigma>"
  by (auto simp: Setmark_def updobj_def split: option.splits)

lemma hp_Setmark: "hp (Setmark v \<sigma>) u = map_option (\<lambda>h. if u = v \<and> color h \<noteq> mutator \<sigma> then h\<lparr>color := propagator\<rparr> else h) (hp \<sigma> u)"
  by (cases "hp \<sigma> u") (auto simp: Setmark_def split: option.splits)

lemma islist_upd: "islist (h\<lparr>href := k, color := c\<rparr>) = islist h" "islist (h\<lparr>color := c\<rparr>) = islist h"
  by (simp_all add: islist_def split: hstruct.splits)

lemma incref_counted:
  assumes c: "counted B F R M \<sigma>" and h: "hp \<sigma> v = Some h" "v \<notin> F" "unat (href h) + 1 < 2 ^ 32"
  shows "\<exists>\<sigma>'. incref v \<sigma> = Some \<sigma>' \<and> counted B F (add_mset v R) M \<sigma>' \<and> mem \<sigma>' = mem \<sigma> \<and> types \<sigma>' = types \<sigma> \<and>
    (\<forall>u. map_option href (hp \<sigma>' u) = map_option (\<lambda>h. if u = v then href h + 1 else href h) (hp \<sigma> u))"
proof -
  let ?s = "Setmark v (updobj v (\<lambda>h. h\<lparr>href := href h + 1\<rparr>) \<sigma>)"
  have hp: "hp ?s u = map_option (\<lambda>h. if u = v then (if color h \<noteq> mutator \<sigma> then h\<lparr>href := href h + 1, color := propagator\<rparr> else h\<lparr>href := href h + 1\<rparr>) else h) (hp \<sigma> u)" for u
    by (cases "hp \<sigma> u") (auto simp: hp_Setmark)
  have n: "unat (href h + 1) = unat (href h) + 1" using h(3) by (simp add: unat_word_ariths)
  have "agree F \<sigma> ?s" unfolding agree_def lists_stay_def
    by (auto simp: hp option.rel_map option.pred_map comp_def islist_upd dom_def intro!: option.rel_refl elim!: option.pred_mono_strong split: if_splits)
  then have "counted B F (add_mset v R) M ?s"
    by (rule counted_step [OF c]) (use h n in \<open>auto simp: refcount_def hp split: option.splits\<close>)
  then show ?thesis using h(1) by (auto simp: incref_def hp option.map_comp comp_def intro!: option.map_cong0 if_cong)
qed


lemma map_slots_mset: "mset js = mset js' \<Longrightarrow> mset (map_slots js w cs) = mset (map_slots js' w cs)"
proof (induction cs arbitrary: w)
  case (Cons c cs)
  have "mset (byte_slots js w c) = mset (byte_slots js' w c)"
    using Cons.prems by (simp add: byte_slots_def mset_filter)
  with Cons show ?case by simp
qed simp

lemma ptrs_at_up: "ptrs_at m v t = mset (map (rdW m) (slots_up v t))"
proof -
  have "mset (slots_down v t) = mset (slots_up v t)" by (rule map_slots_mset) simp
  then show ?thesis by (simp add: ptrs_at_def)
qed

lemma incmem_list:
  assumes "counted B F R M \<sigma>" "\<forall>x\<in>set (map (rdW (mem \<sigma>)) as). x \<noteq> H \<longrightarrow> x \<in> dom (hp \<sigma>) - F"
    "\<forall>x h. hp \<sigma> x = Some h \<longrightarrow> unat (href h) + count (mset (map (rdW (mem \<sigma>)) as)) x < 2 ^ 32"
  shows "\<exists>\<sigma>'. foldO (\<lambda>q \<sigma>. let wp = rdW (mem \<sigma>) q in if wp \<noteq> H then incref wp \<sigma> else Some \<sigma>) as \<sigma> = Some \<sigma>'
    \<and> counted B F (mset (map (rdW (mem \<sigma>)) as) + R) M \<sigma>' \<and> mem \<sigma>' = mem \<sigma>"
  using assms
proof (induction as arbitrary: R \<sigma>)
  case (Cons a as)
  let ?x = "rdW (mem \<sigma>) a" and ?f = "\<lambda>q \<sigma>. let wp = rdW (mem \<sigma>) q in if wp \<noteq> H then incref wp \<sigma> else Some \<sigma>"
  show ?case
  proof (cases "?x = H")
    case True
    have p: "\<forall>x h. hp \<sigma> x = Some h \<longrightarrow> unat (href h) + count (mset (map (rdW (mem \<sigma>)) as)) x < 2 ^ 32"
    proof (intro allI impI)
      fix x h assume "hp \<sigma> x = Some h"
      with Cons.prems(3) have "unat (href h) + count (mset (map (rdW (mem \<sigma>)) (a # as))) x < 2 ^ 32" by blast
      then show "unat (href h) + count (mset (map (rdW (mem \<sigma>)) as)) x < 2 ^ 32" by (simp split: if_splits)
    qed
    obtain \<sigma>' where s: "foldO ?f as \<sigma> = Some \<sigma>'" "counted B F (mset (map (rdW (mem \<sigma>)) as) + R) M \<sigma>'" "mem \<sigma>' = mem \<sigma>"
      using Cons.IH [OF Cons.prems(1) _ p] Cons.prems(2) by auto
    have "counted B F (add_mset H (mset (map (rdW (mem \<sigma>)) as) + R)) M \<sigma>'"
    proof (rule counted_swap [OF s(2)])
      show "pool_inv (heapmem \<sigma>') (hblk ` dom (hp \<sigma>'))" using s(2) by (simp add: counted_def)
    qed (simp_all add: refsto_def)
    with s True show ?thesis by simp
  next
    case False
    obtain h where h: "hp \<sigma> ?x = Some h" "?x \<notin> F" using Cons.prems(2) False by auto
    have "unat (href h) + count (mset (map (rdW (mem \<sigma>)) (a # as))) ?x < 2 ^ 32" using Cons.prems(3) h(1) by blast
    then have "unat (href h) + 1 < 2 ^ 32" by simp
    then obtain s1 where 1: "incref ?x \<sigma> = Some s1" "counted B F (add_mset ?x R) M s1" "mem s1 = mem \<sigma>"
      "\<forall>u. map_option href (hp s1 u) = map_option (\<lambda>h. if u = ?x then href h + 1 else href h) (hp \<sigma> u)"
      using incref_counted [OF Cons.prems(1) h] by blast
    have d: "dom (hp s1) = dom (hp \<sigma>)"
    proof -
      have "(hp s1 u = None) = (hp \<sigma> u = None)" for u using 1(4) [rule_format, of u] by (cases "hp s1 u"; cases "hp \<sigma> u") simp_all
      then show ?thesis by (simp add: dom_def)
    qed
    have p: "\<forall>x h. hp s1 x = Some h \<longrightarrow> unat (href h) + count (mset (map (rdW (mem s1)) as)) x < 2 ^ 32"
    proof (intro allI impI)
      fix x h1 assume x: "hp s1 x = Some h1"
      then obtain h0 where h0: "hp \<sigma> x = Some h0" "href h1 = (if x = ?x then href h0 + 1 else href h0)"
        using 1(4) [rule_format, of x] by (cases "hp \<sigma> x") auto
      have "unat (href h0 + 1) \<le> unat (href h0) + 1" by (simp add: unat_word_ariths mod_less_eq_dividend)
      then show "unat (href h1) + count (mset (map (rdW (mem s1)) as)) x < 2 ^ 32"
        using Cons.prems(3) [rule_format, OF h0(1)] h0(2) 1(3) by (auto split: if_splits)
    qed
    obtain \<sigma>' where 2: "foldO ?f as s1 = Some \<sigma>'" "counted B F (mset (map (rdW (mem s1)) as) + add_mset ?x R) M \<sigma>'" "mem \<sigma>' = mem s1"
      using Cons.IH [OF 1(2) _ p] Cons.prems(2) d 1(3) by auto
    then show ?thesis using 1 False by simp
  qed
qed simp

text \<open>
  C35. \<^verbatim>\<open>incmem\<close> takes exactly the references that \<^verbatim>\<open>freeptrs\<close> gives back: on a block whose pointers are all to
  live blocks (and whose counts do not overflow) it returns with exact counts for the block's pointers as
  additional references, and dropping them again leaves the counts exact as before.
\<close>

theorem incmem_exact:
  assumes "counted B {} R M \<sigma>" and "\<forall>x\<in>#ptrs_at (mem \<sigma>) v t. x \<noteq> H \<longrightarrow> x \<in> dom (hp \<sigma>)"
    and "\<forall>x h. hp \<sigma> x = Some h \<longrightarrow> unat (href h) + count (ptrs_at (mem \<sigma>) v t) x < 2 ^ 32" and "B \<subseteq># R"
  shows "\<exists>\<sigma>'. incmem v t \<sigma> = Some \<sigma>' \<and> mem \<sigma>' = mem \<sigma> \<and> counted B {} (ptrs_at (mem \<sigma>) v t + R) M \<sigma>' \<and>
    (\<exists>\<sigma>2. freeptrs destroy v t \<sigma>' = Some \<sigma>2 \<and> counted B {} R M \<sigma>2)"
proof -
  have "\<exists>\<sigma>'. incmem v t \<sigma> = Some \<sigma>' \<and> counted B {} (ptrs_at (mem \<sigma>) v t + R) M \<sigma>' \<and> mem \<sigma>' = mem \<sigma>"
    using assms(1-3) unfolding incmem_def ptrs_at_up by (intro incmem_list) auto
  then obtain \<sigma>' where s: "incmem v t \<sigma> = Some \<sigma>'" "counted B {} (ptrs_at (mem \<sigma>') v t + R) M \<sigma>'" "mem \<sigma>' = mem \<sigma>"
    by auto
  from dis_heap.freeptrs_ok [OF s(2) assms(4) order_refl] s show ?thesis by auto
qed


theorem incmem_exact_witness:
  "\<exists>\<sigma>'. incmem 0x200 (builtin_types Tptr) (vm_heap (wrW (\<lambda>_. 0) 0x200 0x10074)) = Some \<sigma>' \<and>
     counted {#} {} {#0x10074, 0x10034, 0x10074#} {#} \<sigma>'"
proof -
  let ?\<sigma> = "vm_heap (wrW (\<lambda>_. 0) 0x200 0x10074)"
  have p: "ptrs_at (mem ?\<sigma>) 0x200 (builtin_types Tptr) = {#0x10074#}"
    by (simp add: ptrs_at_def byte_slots_def builtin_types_def Tptr_def Tarray_def Tstring_def Tlist_def Tmodlink_def
        Tchannel_def vm_heap_def)
  have h: "hp ?\<sigma> = (\<lambda>_. None)(0x10034 \<mapsto> cell0\<lparr>hs := SList 0x10074 None\<rparr>, 0x10074 \<mapsto> cell0\<lparr>href := 2\<rparr>)"
    by (simp add: vm_heap_def)
  have "\<forall>x\<in>#ptrs_at (mem ?\<sigma>) 0x200 (builtin_types Tptr). x \<noteq> H \<longrightarrow> x \<in> dom (hp ?\<sigma>)"
    "\<forall>x h. hp ?\<sigma> x = Some h \<longrightarrow> unat (href h) + count (ptrs_at (mem ?\<sigma>) 0x200 (builtin_types Tptr)) x < 2 ^ 32"
    unfolding p h by (auto simp: cell0_def)
  from incmem_exact [OF vm_heap_counted this] p show ?thesis by (auto simp: add_mset_commute)
qed

subsection \<open>New blocks\<close>

abbreviation heap_ok :: "vm \<Rightarrow> bool" where
  "heap_ok \<sigma> \<equiv> pool_inv (heapmem \<sigma>) (hblk ` dom (hp \<sigma>))"

definition blank :: "vm \<Rightarrow> tid option \<Rightarrow> hobj" where
  "blank \<sigma> t = \<lparr>color = mutator \<sigma>, href = 1, ht = t, hs = struct0 t\<rparr>"

lemma newblock_ok:
  assumes p: "heap_ok \<sigma>" and n: "0 \<le> n" "n < 1073741812"
  obtains P where "newblock n t \<sigma> = Err exHeap (\<sigma>\<lparr>heapmem := P\<rparr>)" "heap_ok (\<sigma>\<lparr>heapmem := P\<rparr>)"
  | v P where "newblock n t \<sigma> = Ret v (\<sigma>\<lparr>heapmem := P, hp := (hp \<sigma>)(v \<mapsto> blank \<sigma> t)\<rparr>)" "v \<noteq> H" "hp \<sigma> v = None"
      "heap_ok (\<sigma>\<lparr>heapmem := P, hp := (hp \<sigma>)(v \<mapsto> blank \<sigma> t)\<rparr>)" "n + 28 \<le> bsize P (hblk v)" "magic P (hblk v) = MAGIC_A"
proof -
  have "0 \<le> sizeof_Heap + n" "sizeof_Heap + n < 1024 * 1024 * 1024" using n by (simp_all add: sizeof_Heap_def)
  from pools.alloc_law [OF p this] obtain r P where r: "poolalloc (sizeof_Heap + n) (heapmem \<sigma>) = Some (r, P)"
    "case r of None \<Rightarrow> pool_inv P (hblk ` dom (hp \<sigma>))
     | Some v \<Rightarrow> \<exists>b. v = B2D b \<and> fresh_block (heapmem \<sigma>) (hblk ` dom (hp \<sigma>)) (sizeof_Heap + n) b P" by blast
  show ?thesis
  proof (cases r)
    case None
    with r that(1) show ?thesis by (simp add: newblock_def)
  next
    case (Some a)
    then obtain b where b: "a = B2D b" "b \<notin> hblk ` dom (hp \<sigma>)" "pool_inv P (insert b (hblk ` dom (hp \<sigma>)))"
      "n + 28 \<le> bsize P b" "magic P b = MAGIC_A"
      using r(2) by (auto simp: fresh_block_def sizeof_Heap_def BHDRSIZE_def)
    let ?v = "of_int (a + sizeof_Heap) :: WORD"
    have g: "0 \<le> b" "b + bsize P b < 2 ^ 32" using pool_inv_range [OF b(3), of b] by simp_all
    have u: "uint ?v = b + 20"
    proof -
      have "a + sizeof_Heap = b + 20" by (simp add: b(1) B2D_def sizeof_Heap_def)
      then have "uint ?v = (b + 20) mod 2 ^ 32" by (simp only: uint_word_of_int) simp
      then show ?thesis using g b(4) n(1) by simp
    qed
    then have hv: "hblk ?v = b" by (simp add: hblk_def)
    have vH: "?v \<noteq> H"
    proof
      assume "?v = H"
      moreover have "uint H = 4294967295" by (simp add: H_def unsigned_minus_1_eq_mask mask_eq_exp_minus_1)
      ultimately have "uint ?v = 4294967295" by metis
      then show False using u g b(4) n(1) by simp
    qed
    have "hp \<sigma> ?v = None" using b(2) hv by (metis domI image_eqI option.exhaust)
    moreover have "hblk ` insert ?v (dom (hp \<sigma>)) = insert b (hblk ` dom (hp \<sigma>))" using hv by simp
    ultimately show ?thesis
      using that(2) [of ?v P] vH b hv r(1) Some by (simp add: newblock_def blank_def Let_def)
  qed
qed

lemma blank_counted:
  assumes c: "counted B F R M \<sigma>" "F \<subseteq> dom (hp \<sigma>)" and v: "v \<noteq> H" "hp \<sigma> v = None"
    and s: "s = \<sigma>\<lparr>heapmem := P, hp := (hp \<sigma>)(v \<mapsto> blank \<sigma> None)\<rparr>" and ok: "heap_ok s"
  shows "counted B F (add_mset v R) M s"
proof -
  have vF: "v \<notin> F" using c(2) v(2) by blast
  have l: "live F s = insert v (live F \<sigma>)" "v \<notin> live F \<sigma>" using v(2) vF by (auto simp: live_def s)
  have k: "kids s v = {#}" "modkids s v = {#}" "\<And>w. w \<noteq> v \<Longrightarrow> kids s w = kids \<sigma> w" "\<And>w. w \<noteq> v \<Longrightarrow> modkids s w = modkids \<sigma> w"
    by (simp_all add: kids_def modkids_def kids_of_def blank_def s split: option.splits)
  have S: "(\<Sum>w\<in>live F s. count (kids s w) u) = (\<Sum>w\<in>live F \<sigma>. count (kids \<sigma> w) u)"
    "(\<Sum>w\<in>live F s. count (modkids s w) m) = (\<Sum>w\<in>live F \<sigma>. count (modkids \<sigma> w) m)" for u m
  proof -
    have "w \<noteq> v" if "w \<in> live F \<sigma>" for w using that l(2) by blast
    then have "\<And>w. w \<in> live F \<sigma> \<Longrightarrow> count (kids s w) u = count (kids \<sigma> w) u"
      "\<And>w. w \<in> live F \<sigma> \<Longrightarrow> count (modkids s w) m = count (modkids \<sigma> w) m" using k(3,4) by metis+
    then show "(\<Sum>w\<in>live F s. count (kids s w) u) = (\<Sum>w\<in>live F \<sigma>. count (kids \<sigma> w) u)"
      "(\<Sum>w\<in>live F s. count (modkids s w) m) = (\<Sum>w\<in>live F \<sigma>. count (modkids \<sigma> w) m)"
      using l(2) by (simp_all add: l(1) k(1,2) cong: sum.cong)
  qed
  have M: "modules s = modules \<sigma>" "mods s = mods \<sigma>" "types s = types \<sigma>" by (simp_all add: s)
  have "refsto F (add_mset v R) s u = refcount F s u" if "u \<noteq> H" for u
  proof -
    have "refsto F R \<sigma> u = refcount F \<sigma> u" using c(1) that by (simp add: counted_def)
    moreover have "refsto F (add_mset v R) s u = (if u = v then 1 else 0) + refsto F R \<sigma> u"
      unfolding refsto_def S M by simp
    moreover have "refcount F s u = (if u = v then 1 else refcount F \<sigma> u)" "refcount F \<sigma> v = 0"
      using v(2) vF by (simp_all add: refcount_def blank_def s)
    ultimately show ?thesis by auto
  qed
  moreover have "shaped (types s) h \<and> tailok s h \<and> (waited h \<longrightarrow> u \<in># B \<and> u \<noteq> H)" if u: "hp s u = Some h" "u \<notin> F" for u h
  proof (cases "u = v")
    case True
    then show ?thesis using u by (auto simp: blank_def shaped_def tailok_def waited_def struct0_def s)
  next
    case False
    then have u0: "hp \<sigma> u = Some h" using u by (simp add: s)
    then have h: "shaped (types \<sigma>) h" "tailok \<sigma> h" "waited h \<longrightarrow> u \<in># B \<and> u \<noteq> H" using u(2) c(1) unfolding counted_def by blast+
    have "nx \<noteq> v" if "hs h = SList nx e" "ht h \<noteq> None" for nx e
    proof
      assume "nx = v"
      then have "v \<in># kids \<sigma> u" using u0 that by (auto simp: kids_def kids_of_def)
      moreover have "u \<in> live F \<sigma>" using u0 u(2) by (auto simp: live_def)
      ultimately have "0 < (\<Sum>w\<in>live F \<sigma>. count (kids \<sigma> w) v)"
        using count_sum_le [of u F \<sigma> v] by (metis count_greater_zero_iff gr_zeroI le_zero_eq less_irrefl)
      moreover have "refsto F R \<sigma> v = refcount F \<sigma> v" using c(1) v(1) by (simp add: counted_def)
      ultimately show False using v(2) by (simp add: refsto_def refcount_def)
    qed
    then have "tailok s h" using h(2) by (cases "ht h") (auto simp: tailok_def s split: hstruct.splits)
    then show ?thesis using h M by simp
  qed
  ultimately show ?thesis using c(1) ok unfolding counted_def modrefs_def S M by blast
qed

text \<open>
  C34. Allocation on the heap. With the pool consistent and exact counts, \<^verbatim>\<open>nheap\<close> either raises
  out-of-memory with the blocks as they were, or returns a block that was not allocated, big enough for the size asked,
  and the counts are exact with the caller holding the one reference to it.
\<close>

theorem nheap_fresh:
  assumes "counted B {} R M \<sigma>" and "0 \<le> n" "n < 1073741812"
  shows "(\<exists>\<sigma>'. nheap n \<sigma> = Err exHeap \<sigma>' \<and> counted B {} R M \<sigma>' \<and> hp \<sigma>' = hp \<sigma> \<and> mem \<sigma>' = mem \<sigma>) \<or>
    (\<exists>v \<sigma>'. nheap n \<sigma> = Ret v \<sigma>' \<and> v \<noteq> H \<and> hp \<sigma> v = None \<and> n + sizeof_Heap + BHDRSIZE \<le> bsize (heapmem \<sigma>') (hblk v) \<and>
       (\<forall>u. u \<noteq> v \<longrightarrow> hp \<sigma>' u = hp \<sigma> u) \<and> mem \<sigma>' = mem \<sigma> \<and> counted B {} (add_mset v R) M \<sigma>')"
proof -
  have p: "heap_ok \<sigma>" using assms(1) by (simp add: counted_def)
  show ?thesis
  proof (rule newblock_ok [OF p assms(2,3), of None])
    fix P assume P: "newblock n None \<sigma> = Err exHeap (\<sigma>\<lparr>heapmem := P\<rparr>)" "heap_ok (\<sigma>\<lparr>heapmem := P\<rparr>)"
    have "kids (\<sigma>\<lparr>heapmem := P\<rparr>) = kids \<sigma>" "modkids (\<sigma>\<lparr>heapmem := P\<rparr>) = modkids \<sigma>"
      by (simp_all add: fun_eq_iff kids_def modkids_def split: option.splits)
    then have "counted B {} R M (\<sigma>\<lparr>heapmem := P\<rparr>)"
      by (intro counted_swap [OF assms(1)])
        (use P in \<open>simp_all add: refsto_def modrefs_def live_def refcount_def\<close>)
    with P show ?thesis by (simp add: nheap_def)
  next
    fix v P
    let ?s = "\<sigma>\<lparr>heapmem := P, hp := (hp \<sigma>)(v \<mapsto> blank \<sigma> None)\<rparr>"
    assume v: "newblock n None \<sigma> = Ret v ?s" "v \<noteq> H" "hp \<sigma> v = None" "heap_ok ?s" "n + 28 \<le> bsize P (hblk v)"
    have "counted B {} (add_mset v R) M ?s" by (rule blank_counted [OF assms(1) _ v(2,3) refl v(4)]) simp
    with v show ?thesis by (simp add: nheap_def sizeof_Heap_def BHDRSIZE_def)
  qed
qed


theorem nheap_fresh_witness:
  "(\<exists>\<sigma>'. nheap 100 (vm_heap (\<lambda>_. 0)) = Err exHeap \<sigma>') \<or>
   (\<exists>v \<sigma>'. nheap 100 (vm_heap (\<lambda>_. 0)) = Ret v \<sigma>' \<and> v \<notin> {0x10034, 0x10074} \<and> counted {#} {} {#v, 0x10034, 0x10074#} {#} \<sigma>')"
  using nheap_fresh [OF vm_heap_counted [of "\<lambda>_. 0"], of 100] by (auto simp: vm_heap_def)

end
