(* ===== verification/Str.thy ===== *)
theory Str
  imports Heap_Counts Rune
begin

text \<open>
  Strings, \<^verbatim>\<open>interp/string.c\<close> with \<^verbatim>\<open>mem2array\<close> of \<^verbatim>\<open>interp/runt.c\<close>. A string holds bytes while all its
  characters are ASCII and runes otherwise (negative \<^verbatim>\<open>len\<close>); the two lists of the record are the
  characters in use, the bytes after them are never read. \<^verbatim>\<open>Sascii\<close> is an array of \<^verbatim>\<open>char\<close>, which is
  signed on the 386: a byte read into an integer is sign-extended.
\<close>

unbundle bit_operations_syntax

section \<open>Strings on the heap\<close>

definition strobj :: "vm \<Rightarrow> ptr \<Rightarrow> String option" where
  "strobj \<sigma> p = (case hp \<sigma> p of Some h \<Rightarrow> (case hs h of SString s \<Rightarrow> Some s | _ \<Rightarrow> None) | None \<Rightarrow> None)"

definition setstr :: "ptr \<Rightarrow> (String \<Rightarrow> String) \<Rightarrow> vm \<Rightarrow> vm" where
  "setstr p f \<sigma> = updobj p (\<lambda>h. h\<lparr>hs := (case hs h of SString s \<Rightarrow> SString (f s) | x \<Rightarrow> x)\<rparr>) \<sigma>"

definition UTFmax :: int where "UTFmax = 3"

definition newstring :: "int \<Rightarrow> vm \<Rightarrow> ptr outcome" where
  "newstring nb \<sigma> =
     bindM (nheap (sizeof_String + nb) \<sigma>) (\<lambda>v \<sigma>1.
       case msize (D2H v) (heapmem \<sigma>1) of None \<Rightarrow> Crash
       | Some ms \<Rightarrow> Ret v (settype Tstring
           (SString \<lparr>slen = nb, smax = ms - (sizeof_String + sizeof_Heap), stmp = None, Sascii = replicate (nat nb) 0, Srune = []\<rparr>)
           v \<sigma>1))"

definition setrunes :: "ptr \<Rightarrow> Rune list \<Rightarrow> vm \<Rightarrow> vm" where
  \<comment> \<open>\<^verbatim>\<open>ns->len = -n; ns->max /= sizeof(Rune)\<close> and the copy of the runes\<close>
  "setrunes v us = setstr v (\<lambda>s. s\<lparr>slen := - int (length us), smax := smax s div 2, Sascii := [], Srune := us\<rparr>)"

definition setascii :: "ptr \<Rightarrow> byte list \<Rightarrow> vm \<Rightarrow> vm" where
  \<comment> \<open>the copy of the bytes\<close>
  "setascii v bs = setstr v (\<lambda>s. s\<lparr>slen := int (length bs), Sascii := bs, Srune := []\<rparr>)"

definition cvtup :: "String \<Rightarrow> Rune list" where
  "cvtup s = map ucast (Sascii s)"

definition stringdup :: "ptr \<Rightarrow> vm \<Rightarrow> ptr outcome" where
  "stringdup p \<sigma> =
     (if p = H then Ret H \<sigma>
      else case strobj \<sigma> p of None \<Rightarrow> Crash | Some s \<Rightarrow>
        if slen s \<ge> 0 then bindM (newstring (slen s) \<sigma>) (\<lambda>ns \<sigma>1. Ret ns (setascii ns (Sascii s) \<sigma>1))
        else bindM (newstring (- slen s * 2) \<sigma>) (\<lambda>ns \<sigma>1. Ret ns (setrunes ns (Srune s) \<sigma>1)))"

definition replacep :: "ptr \<Rightarrow> vm \<Rightarrow> unit outcome" where
  \<comment> \<open>\<^verbatim>\<open>sp = R.d; destroy(*sp); *sp = ns\<close>\<close>
  "replacep ns \<sigma> =
     bindM (liftO (destroy (rdW (mem \<sigma>) (rd \<sigma>)) \<sigma>)) (\<lambda>_ \<sigma>1. Ret () (\<sigma>1\<lparr>mem := wrW (mem \<sigma>1) (rd \<sigma>1) ns\<rparr>))"

definition splitc :: "WORD \<Rightarrow> bool \<Rightarrow> vm \<Rightarrow> ptr outcome" where
  "splitc a expand \<sigma> =
     (let ss = rdW (mem \<sigma>) a in
      case strobj \<sigma> ss of None \<Rightarrow> Crash | Some s \<Rightarrow>
        bindM (if expand \<and> slen s > 0
               then bindM (newstring (slen s * 2) \<sigma>) (\<lambda>ns \<sigma>1. Ret ns (setrunes ns (cvtup s) \<sigma>1))
               else stringdup ss \<sigma>)
          (\<lambda>ns \<sigma>1. bindM (liftO (destroy ss \<sigma>1)) (\<lambda>_ \<sigma>2. Ret ns (\<sigma>2\<lparr>mem := wrW (mem \<sigma>2) a ns\<rparr>))))"

section \<open>Indexing\<close>

definition indc :: "vm \<Rightarrow> unit outcome" where
  "indc \<sigma> =
     (let v = rdW (mem \<sigma>) (rm \<sigma>); ss = rdW (mem \<sigma>) (rs \<sigma>) in
      if ss = H then Err exNilref \<sigma>
      else case strobj \<sigma> ss of None \<Rightarrow> Crash | Some s \<Rightarrow>
        if slen s < 0 then
          (if uint v \<ge> - slen s then Err exBounds \<sigma>
           else Ret () (\<sigma>\<lparr>mem := wrW (mem \<sigma>) (rd \<sigma>) (ucast (Srune s ! unat v))\<rparr>))
        else
          (if uint v \<ge> slen s then Err exBounds \<sigma>
           else Ret () (\<sigma>\<lparr>mem := wrW (mem \<sigma>) (rd \<sigma>) (scast (Sascii s ! unat v))\<rparr>)))"

text \<open>The body of \<^verbatim>\<open>insc\<close> once the string may be written: the string the character is in.\<close>

definition insrune :: "ptr \<Rightarrow> String \<Rightarrow> WORD \<Rightarrow> WORD \<Rightarrow> vm \<Rightarrow> ptr outcome" where
  "insrune ss s v r \<sigma> =
     (let l = - slen s in
      if uint v < l then Ret ss (setstr ss (\<lambda>s. s\<lparr>Srune := (Srune s)[unat v := ucast r]\<rparr>) \<sigma>)
      else if uint v = l \<and> uint v < smax s then
        Ret ss (setstr ss (\<lambda>s. s\<lparr>smax := (if l = 0 then smax s div 2 else smax s), slen := - (uint v + 1),
          Sascii := [], Srune := take (nat l) (Srune s) @ [ucast r]\<rparr>) \<sigma>)
      else if uint v \<noteq> l then Err exBounds \<sigma>
      else bindM (newstring ((uint v + 1 + uint v div 4) * 2) \<sigma>) (\<lambda>ns \<sigma>1.
        Ret ns (setrunes ns (take (nat l) (Srune s) @ [ucast r]) \<sigma>1)))"

definition insascii :: "ptr \<Rightarrow> String \<Rightarrow> WORD \<Rightarrow> WORD \<Rightarrow> vm \<Rightarrow> ptr outcome" where
  "insascii ss s v r \<sigma> =
     (let l = slen s in
      if uint v < l then Ret ss (setstr ss (\<lambda>s. s\<lparr>Sascii := (Sascii s)[unat v := ucast r]\<rparr>) \<sigma>)
      else if uint v = l \<and> uint v < smax s then
        Ret ss (setstr ss (\<lambda>s. s\<lparr>slen := uint v + 1, Sascii := take (nat l) (Sascii s) @ [ucast r]\<rparr>) \<sigma>)
      else if uint v \<noteq> l then Err exBounds \<sigma>
      else bindM (newstring (uint v + 1 + uint v div 4) \<sigma>) (\<lambda>ns \<sigma>1.
        Ret ns (setascii ns (take (nat l) (Sascii s) @ [ucast r]) \<sigma>1)))"

definition insc :: "vm \<Rightarrow> unit outcome" where
  "insc \<sigma> =
     (let r = rdW (mem \<sigma>) (rs \<sigma>); v = rdW (mem \<sigma>) (rm \<sigma>); ss = rdW (mem \<sigma>) (rd \<sigma>);
          expand = (sint r \<ge> 0x80) in
      bindM
        (if ss = H then newstring 0 \<sigma>
         else case strobj \<sigma> ss of None \<Rightarrow> Crash | Some s \<Rightarrow>
           (case heapref ss \<sigma> of None \<Rightarrow> Crash | Some n \<Rightarrow>
             if n > 1 \<or> (expand \<and> slen s > 0) then splitc (rd \<sigma>) expand \<sigma> else Ret ss \<sigma>))
        (\<lambda>ss \<sigma>1. case strobj \<sigma>1 ss of None \<Rightarrow> Crash | Some s \<Rightarrow>
          bindM (if slen s < 0 \<or> expand then insrune ss s v r \<sigma>1 else insascii ss s v r \<sigma>1)
            (\<lambda>ss \<sigma>2. if ss \<noteq> rdW (mem \<sigma>2) (rd \<sigma>2) then replacep ss \<sigma>2 else Ret () \<sigma>2)))"

section \<open>Slices and concatenation\<close>

definition slicer :: "WORD \<Rightarrow> WORD \<Rightarrow> ptr \<Rightarrow> vm \<Rightarrow> ptr outcome" where
  "slicer start v ds \<sigma> =
     (if ds = H then (if start = 0 \<and> v = 0 then Ret H \<sigma> else Err exBounds \<sigma>)
      else case strobj \<sigma> ds of None \<Rightarrow> Crash | Some s \<Rightarrow>
        let nc = uint v - uint start in
        if slen s < 0 then
          (if v < start \<or> uint v > - slen s then Err exBounds \<sigma>
           else bindM (newstring (nc * 2) \<sigma>) (\<lambda>ns \<sigma>1.
             Ret ns (setrunes ns (take (nat nc) (drop (unat start) (Srune s))) \<sigma>1)))
        else
          (if v < start \<or> uint v > slen s then Err exBounds \<sigma>
           else bindM (newstring nc \<sigma>) (\<lambda>ns \<sigma>1.
             Ret ns (setascii ns (take (nat nc) (drop (unat start) (Sascii s))) \<sigma>1))))"

definition slicec :: "vm \<Rightarrow> unit outcome" where
  "slicec \<sigma> = bindM (slicer (rdW (mem \<sigma>) (rs \<sigma>)) (rdW (mem \<sigma>) (rm \<sigma>)) (rdW (mem \<sigma>) (rd \<sigma>)) \<sigma>) (\<lambda>ns \<sigma>1. replacep ns \<sigma>1)"

text \<open>
  In place, \<^verbatim>\<open>addstring\<close> sets the new length before it copies \<open>s2->len\<close> characters. When both
  operands are the same string it therefore copies twice as many, and runs past the block when
  they do not fit: \<open>Crash\<close> is that write (the characters start four bytes before the end of the
  \<^verbatim>\<open>String\<close> structure, which \<^verbatim>\<open>max\<close> does not count).
\<close>

definition addstring :: "ptr \<Rightarrow> ptr \<Rightarrow> bool \<Rightarrow> vm \<Rightarrow> ptr outcome" where
  "addstring s1 s2 inplace \<sigma> =
     (if s1 = H then (if s2 = H then Ret H \<sigma> else stringdup s2 \<sigma>)
      else case heapref s1 \<sigma> of None \<Rightarrow> Crash | Some n \<Rightarrow>
        let app = (inplace \<and> \<not> n > 1) in
        if s2 = H then (if app then Ret s1 \<sigma> else stringdup s1 \<sigma>)
        else case strobj \<sigma> s1 of None \<Rightarrow> Crash | Some a \<Rightarrow>
        case strobj \<sigma> s2 of None \<Rightarrow> Crash | Some b \<Rightarrow>
        let cap = (\<lambda>l. if app then l + l div 4 else l) in
        if slen a < 0 then
          let tail = (if slen b < 0 then Srune b else cvtup b);
              l = - slen a + (if slen b < 0 then - slen b else slen b) in
          if app \<and> l \<le> smax a then
            if s1 = s2 \<and> - slen a + l > smax a + 2 then Crash
            else Ret s1 (setstr s1 (\<lambda>s. s\<lparr>slen := - l, Srune := Srune a @ tail\<rparr>) \<sigma>)
          else bindM (newstring (cap l * 2) \<sigma>) (\<lambda>ns \<sigma>1. Ret ns (setrunes ns (Srune a @ tail) \<sigma>1))
        else if slen b < 0 then
          let l = slen a + - slen b in
          bindM (newstring (cap l * 2) \<sigma>) (\<lambda>ns \<sigma>1. Ret ns (setrunes ns (cvtup a @ Srune b) \<sigma>1))
        else
          let l = slen a + slen b in
          if app \<and> l \<le> smax a then
            if s1 = s2 \<and> slen a + l > smax a + 4 then Crash
            else Ret s1 (setstr s1 (\<lambda>s. s\<lparr>slen := l, Sascii := Sascii a @ Sascii b\<rparr>) \<sigma>)
          else bindM (newstring (cap l) \<sigma>) (\<lambda>ns \<sigma>1. Ret ns (setascii ns (Sascii a @ Sascii b) \<sigma>1)))"

definition addc :: "vm \<Rightarrow> unit outcome" where
  "addc \<sigma> =
     bindM (addstring (rdW (mem \<sigma>) (rm \<sigma>)) (rdW (mem \<sigma>) (rs \<sigma>)) (rm \<sigma> = rd \<sigma>) \<sigma>) (\<lambda>ns \<sigma>1.
       if ns \<noteq> rdW (mem \<sigma>1) (rd \<sigma>1) then replacep ns \<sigma>1 else Ret () \<sigma>1)"

definition lenc :: "vm \<Rightarrow> unit outcome" where
  "lenc \<sigma> =
     (let ss = rdW (mem \<sigma>) (rs \<sigma>) in
      if ss = H then Ret () (\<sigma>\<lparr>mem := wrW (mem \<sigma>) (rd \<sigma>) 0\<rparr>)
      else case strobj \<sigma> ss of None \<Rightarrow> Crash | Some s \<Rightarrow>
        Ret () (\<sigma>\<lparr>mem := wrW (mem \<sigma>) (rd \<sigma>) (of_int (if slen s < 0 then - slen s else slen s))\<rparr>))"

section \<open>Conversions\<close>

definition string2c :: "ptr \<Rightarrow> vm \<Rightarrow> byte list option" where
  \<comment> \<open>the bytes before the final NUL; the conversion buffer is on the main pool, which the model leaves out\<close>
  "string2c p \<sigma> =
     (if p = H then Some []
      else case strobj \<sigma> p of None \<Rightarrow> None | Some s \<Rightarrow>
        if slen s \<ge> 0 then Some (Sascii s)
        else Some (concat (map (\<lambda>c. if (ucast c :: WORD) < Runeself then [ucast c] else runetochar c) (Srune s))))"

fun c2s_count :: "nat \<Rightarrow> byte list \<Rightarrow> nat option" where
  \<comment> \<open>the counting loop; the fuel is the number of bytes\<close>
  "c2s_count 0 p = (if p = [] then Some 0 else None)"
| "c2s_count (Suc k) p =
     (case p of [] \<Rightarrow> Some 0
      | c # p1 \<Rightarrow>
        if (ucast c :: WORD) < Runeself then map_option Suc (c2s_count k p1)
        else if UTFmax \<le> int (length p) \<or> fullrune p (length p) = Some True then
          (case chartorune p of None \<Rightarrow> None | Some (junk, n) \<Rightarrow> map_option Suc (c2s_count k (drop n p)))
        else Some 0)"

fun c2s_decode :: "nat \<Rightarrow> byte list \<Rightarrow> Rune list option" where
  "c2s_decode 0 cs = Some []"
| "c2s_decode (Suc nc) cs =
     (case chartorune cs of None \<Rightarrow> None | Some (r, n) \<Rightarrow> map_option ((#) r) (c2s_decode nc (drop n cs)))"

definition c2string :: "byte list \<Rightarrow> vm \<Rightarrow> ptr outcome" where
  "c2string cs \<sigma> =
     (let asc = takeWhile (\<lambda>c. (ucast c :: WORD) < Runeself) cs in
      if asc = cs then bindM (newstring (int (length cs)) \<sigma>) (\<lambda>s \<sigma>1. Ret s (setascii s cs \<sigma>1))
      else case c2s_count (length cs) (drop (length asc) cs) of None \<Rightarrow> Crash | Some n \<Rightarrow>
        let nc = length asc + n in
        bindM (newstring (int nc * 2) \<sigma>) (\<lambda>s \<sigma>1.
          case c2s_decode nc cs of None \<Rightarrow> Crash | Some us \<Rightarrow> Ret s (setrunes s us \<sigma>1)))"

definition wrbytes :: "mem \<Rightarrow> WORD \<Rightarrow> byte list \<Rightarrow> mem" where
  "wrbytes m a bs = (\<lambda>x. if unat (x - a) < length bs then bs ! unat (x - a) else m x)"

definition rdbytes :: "mem \<Rightarrow> WORD \<Rightarrow> nat \<Rightarrow> byte list" where
  "rdbytes m a n = map (\<lambda>i. m (a + of_nat i)) [0 ..< n]"

definition mem2array :: "byte list option \<Rightarrow> int \<Rightarrow> vm \<Rightarrow> ptr outcome" where
  "mem2array va n \<sigma> =
     bindM (nheap (sizeof_Array + n) \<sigma>) (\<lambda>a \<sigma>1.
       let d = a + of_int sizeof_Array;
           \<sigma>2 = typeref 1 Tbyte (settype Tarray (SArray n Tbyte H d) a \<sigma>1) in
       Ret a (case va of None \<Rightarrow> \<sigma>2 | Some bs \<Rightarrow> \<sigma>2\<lparr>mem := wrbytes (mem \<sigma>2) d bs\<rparr>))"

definition arrdata :: "vm \<Rightarrow> ptr \<Rightarrow> (int \<times> WORD) option" where
  "arrdata \<sigma> a = (case hp \<sigma> a of Some h \<Rightarrow> (case hs h of SArray len e root d \<Rightarrow> Some (len, d) | _ \<Rightarrow> None) | None \<Rightarrow> None)"

definition cvtca :: "vm \<Rightarrow> unit outcome" where
  "cvtca \<sigma> =
     (let ss = rdW (mem \<sigma>) (rs \<sigma>) in
      bindM
        (if ss = H then mem2array None 0 \<sigma>
         else case strobj \<sigma> ss of None \<Rightarrow> Crash | Some s \<Rightarrow>
           if slen s < 0 then
             bindM (mem2array None (int (runenlen (Srune s))) \<sigma>) (\<lambda>a \<sigma>1.
               case arrdata \<sigma>1 a of None \<Rightarrow> Crash | Some (len, d) \<Rightarrow>
                 Ret a (\<sigma>1\<lparr>mem := wrbytes (mem \<sigma>1) d (concat (map runetochar (Srune s)))\<rparr>))
           else mem2array (Some (Sascii s)) (slen s) \<sigma>)
        (\<lambda>a \<sigma>1. replacep a \<sigma>1))"

definition cvtac :: "vm \<Rightarrow> unit outcome" where
  "cvtac \<sigma> =
     (let a = rdW (mem \<sigma>) (rs \<sigma>) in
      bindM
        (if a = H then Ret H \<sigma>
         else case arrdata \<sigma> a of None \<Rightarrow> Crash | Some (len, d) \<Rightarrow> c2string (rdbytes (mem \<sigma>) d (nat len)) \<sigma>)
        (\<lambda>ds \<sigma>1. replacep ds \<sigma>1))"

section \<open>Comparison\<close>

fun strncmp :: "byte list \<Rightarrow> byte list \<Rightarrow> nat \<Rightarrow> int" where
  \<comment> \<open>of the C library: bytes compare unsigned and the comparison stops at a NUL\<close>
  "strncmp (a # as) (b # bs) (Suc n) =
     (if a \<noteq> b then (if a < b then -1 else 1) else if a = 0 then 0 else strncmp as bs n)"
| "strncmp as bs n = 0"

fun cmploop :: "int list \<Rightarrow> int list \<Rightarrow> int option" where
  \<comment> \<open>the loop over the shorter length: \<open>Some\<close> is \<^verbatim>\<open>goto ne\<close>\<close>
  "cmploop (c1 # a) (c2 # b) = (if c1 \<noteq> c2 then Some (if c1 < c2 then -1 else 1) else cmploop a b)"
| "cmploop a b = None"

definition snil :: String where
  "snil = \<lparr>slen = 0, smax = 0, stmp = None, Sascii = [], Srune = []\<rparr>"

definition stringcmp_s :: "String \<Rightarrow> String \<Rightarrow> int" where
  "stringcmp_s s1 s2 =
     (let n1 = \<bar>slen s1\<bar>; n2 = \<bar>slen s2\<bar>;
          n = nat (min n1 n2);
          asc = (\<lambda>s. map sint (Sascii s)); rn = (\<lambda>s. map uint (Srune s)) in
      if slen s1 \<ge> 0 \<and> slen s2 \<ge> 0 then
        (let c = strncmp (Sascii s1) (Sascii s2) n in if c = 0 then n1 - n2 else c)
      else
        (case cmploop (take n (if slen s1 < 0 then rn s1 else asc s1)) (take n (if slen s2 < 0 then rn s2 else asc s2)) of
           Some c \<Rightarrow> c | None \<Rightarrow> n1 - n2))"

definition stringcmp :: "ptr \<Rightarrow> ptr \<Rightarrow> vm \<Rightarrow> int option" where
  "stringcmp p1 p2 \<sigma> =
     (let get = (\<lambda>p. if p = H then Some snil else strobj \<sigma> p) in
      case get p1 of None \<Rightarrow> None | Some s1 \<Rightarrow> (case get p2 of None \<Rightarrow> None | Some s2 \<Rightarrow> Some (stringcmp_s s1 s2)))"

section \<open>Numbers\<close>

text \<open>\<^verbatim>\<open>strtol(s, nil, 10)\<close> and \<^verbatim>\<open>sprint("%d")\<close> of the C library.\<close>

definition isdigit :: "byte \<Rightarrow> bool" where "isdigit c = (48 \<le> c \<and> c \<le> 57)"
definition isspace :: "byte \<Rightarrow> bool" where "isspace c = (c = 32 \<or> (9 \<le> c \<and> c \<le> 13))"

definition strtol10 :: "byte list \<Rightarrow> int" where
  "strtol10 bs =
     (let t = dropWhile isspace bs;
          neg = (t \<noteq> [] \<and> hd t = 45);
          t1 = (if t \<noteq> [] \<and> (hd t = 45 \<or> hd t = 43) then tl t else t);
          n = fold (\<lambda>c k. 10 * k + (uint c - 48)) (takeWhile isdigit t1) 0 in
      if neg then (if n > 2147483648 then -2147483648 else - n)
      else (if n > 2147483647 then 2147483647 else n))"

fun digits :: "nat \<Rightarrow> byte list" where
  "digits n = (if n < 10 then [of_nat (48 + n)] else digits (n div 10) @ [of_nat (48 + n mod 10)])"

declare digits.simps [simp del]

definition decimal :: "int \<Rightarrow> byte list" where
  "decimal i = (if i < 0 then 45 # digits (nat (- i)) else digits (nat i))"

definition cvtcw :: "vm \<Rightarrow> unit outcome" where
  "cvtcw \<sigma> =
     (let s = rdW (mem \<sigma>) (rs \<sigma>) in
      case string2c s \<sigma> of None \<Rightarrow> Crash
      | Some bs \<Rightarrow> Ret () (\<sigma>\<lparr>mem := wrW (mem \<sigma>) (rd \<sigma>) (if s = H then 0 else of_int (strtol10 (takeWhile (\<lambda>c. c \<noteq> 0) bs)))\<rparr>))"

definition putdecimal :: "int \<Rightarrow> vm \<Rightarrow> ptr outcome" where
  \<comment> \<open>\<^verbatim>\<open>ds = newstring(16); ds->len = sprint(ds->Sascii, "%d", i)\<close>\<close>
  "putdecimal i \<sigma> = bindM (newstring 16 \<sigma>) (\<lambda>ds \<sigma>1. Ret ds (setascii ds (decimal i) \<sigma>1))"

definition cvtwc :: "vm \<Rightarrow> unit outcome" where
  "cvtwc \<sigma> = bindM (putdecimal (sint (rdW (mem \<sigma>) (rs \<sigma>))) \<sigma>) (\<lambda>ds \<sigma>1. replacep ds \<sigma>1)"

definition cvtlc :: "vm \<Rightarrow> unit outcome" where
  "cvtlc \<sigma> = bindM (putdecimal (sint (rdV (mem \<sigma>) (rs \<sigma>))) \<sigma>) (\<lambda>ds \<sigma>1. replacep ds \<sigma>1)"

section \<open>The value of a string\<close>

definition runes :: "String \<Rightarrow> Rune list" where
  "runes s = (if slen s < 0 then Srune s else map ucast (Sascii s))"

definition wfstr :: "String \<Rightarrow> bool" where
  "wfstr s \<longleftrightarrow> (if slen s < 0 then int (length (Srune s)) = - slen s
     else int (length (Sascii s)) = slen s \<and> (\<forall>c\<in>set (Sascii s). c < 0x80)) \<and> \<bar>slen s\<bar> \<le> smax s"

definition strval :: "vm \<Rightarrow> ptr \<Rightarrow> Rune list option" where
  "strval \<sigma> p = (if p = H then Some [] else map_option runes (strobj \<sigma> p))"

definition isstr :: "vm \<Rightarrow> ptr \<Rightarrow> bool" where
  "isstr \<sigma> p \<longleftrightarrow> p = H \<or> (\<exists>s. strobj \<sigma> p = Some s \<and> wfstr s \<and> \<bar>slen s\<bar> < 2 ^ 26)"

text \<open>
  The contract of the operations that return a string: they fail only for want of memory, leaving
  every string as it was, or return a well-formed string with the value asked for; every other
  string is unchanged.
\<close>

definition makes :: "ptr outcome \<Rightarrow> vm \<Rightarrow> Rune list \<Rightarrow> bool" where
  "makes r \<sigma> w \<longleftrightarrow> (\<exists>\<sigma>'. r = Err exHeap \<sigma>' \<and> strobj \<sigma>' = strobj \<sigma> \<and> heap_ok \<sigma>') \<or>
     (\<exists>p \<sigma>'. r = Ret p \<sigma>' \<and> heap_ok \<sigma>' \<and> strval \<sigma>' p = Some w \<and> (p \<noteq> H \<longrightarrow> pred_option wfstr (strobj \<sigma>' p)) \<and>
        mem \<sigma>' = mem \<sigma> \<and> (\<forall>q. q \<noteq> p \<longrightarrow> strobj \<sigma>' q = strobj \<sigma> q))"

lemma strobj_upd: "strobj (updobj v f \<sigma>) q = (if q = v then (case map_option f (hp \<sigma> v) of Some h \<Rightarrow> (case hs h of SString s \<Rightarrow> Some s | _ \<Rightarrow> None) | None \<Rightarrow> None) else strobj \<sigma> q)"
  by (simp add: strobj_def)

lemma strobj_setstr: "strobj (setstr v f \<sigma>) q = (if q = v then map_option f (strobj \<sigma> v) else strobj \<sigma> q)"
  by (auto simp: setstr_def strobj_def split: option.splits hstruct.splits)

lemma setstr_sel [simp]: "mem (setstr v f \<sigma>) = mem \<sigma>" "heapmem (setstr v f \<sigma>) = heapmem \<sigma>"
  "dom (hp (setstr v f \<sigma>)) = dom (hp \<sigma>)" "rd (setstr v f \<sigma>) = rd \<sigma>"
  by (auto simp: setstr_def updobj_def split: if_splits)

lemma typeref_str [simp]: "strobj (typeref k t \<sigma>) = strobj \<sigma>"
  by (simp add: strobj_def fun_eq_iff)

lemma msize_ok: "magic P b = MAGIC_A \<Longrightarrow> msize (b + 8) P = Some (bsize P b - 16)"
  by (simp add: msize_def D2B_def BHDRSIZE_def)

lemma pool_inv_dvd:
  assumes "pool_inv p A" "b \<in> A"
  shows "32 dvd bsize p b"
proof -
  obtain BS ES where "arena p BS ES" "used_blks p BS = A" using assms(1) unfolding pool_inv_def by blast
  moreover then have "b \<in> BS \<union> set (chain p)" using assms(2) by (auto simp: used_blks_def)
  ultimately show ?thesis by (intro arenaD(5))
qed

lemma newstring_ok:
  assumes p: "heap_ok \<sigma>" and n: "0 \<le> n" "n < 2 ^ 29"
  obtains \<sigma>' where "newstring n \<sigma> = Err exHeap \<sigma>'" "hp \<sigma>' = hp \<sigma>" "heap_ok \<sigma>'"
  | v s \<sigma>' where "newstring n \<sigma> = Ret v \<sigma>'" "v \<noteq> H" "hp \<sigma> v = None" "strobj \<sigma>' v = Some s" "slen s = n" "n \<le> smax s"
      "32 dvd smax s + 44" "Srune s = []" "heap_ok \<sigma>'" "mem \<sigma>' = mem \<sigma>" "\<And>q. q \<noteq> v \<Longrightarrow> hp \<sigma>' q = hp \<sigma> q" "rd \<sigma>' = rd \<sigma>"
proof -
  have n': "0 \<le> sizeof_String + n" "sizeof_String + n < 1073741812" using n by (simp_all add: sizeof_String_def)
  show ?thesis
  proof (rule newblock_ok [OF p n', of None])
    fix P assume "newblock (sizeof_String + n) None \<sigma> = Err exHeap (\<sigma>\<lparr>heapmem := P\<rparr>)" "heap_ok (\<sigma>\<lparr>heapmem := P\<rparr>)"
    with that(1) [of "\<sigma>\<lparr>heapmem := P\<rparr>"] show ?thesis by (simp add: newstring_def nheap_def)
  next
    fix v P
    let ?s = "\<sigma>\<lparr>heapmem := P, hp := (hp \<sigma>)(v \<mapsto> blank \<sigma> None)\<rparr>"
    assume v: "newblock (sizeof_String + n) None \<sigma> = Ret v ?s" "v \<noteq> H" "hp \<sigma> v = None" "heap_ok ?s"
      "sizeof_String + n + 28 \<le> bsize P (hblk v)" "magic P (hblk v) = MAGIC_A"
    let ?st = "\<lparr>slen = n, smax = bsize P (hblk v) - 16 - (sizeof_String + sizeof_Heap), stmp = None, Sascii = replicate (nat n) 0, Srune = []\<rparr>"
    let ?t = "settype Tstring (SString ?st) v ?s"
    have "newstring n \<sigma> = Ret v ?t"
      using v(1) by (simp add: newstring_def nheap_def hblk_D2H msize_ok [OF v(6)])
    moreover have "heap_ok ?t" using v(4) by (simp add: settype_def)
    moreover have "strobj ?t v = Some ?st" by (simp add: settype_def strobj_upd)
    moreover have "n \<le> smax ?st" using v(5) by (simp add: sizeof_String_def sizeof_Heap_def)
    moreover have "32 dvd smax ?st + 44"
      using pool_inv_dvd [OF v(4), of "hblk v"] by (simp add: sizeof_String_def sizeof_Heap_def)
    ultimately show ?thesis using that(2) [of v ?t ?st] v(2,3) by (simp add: settype_def typeref_def updobj_def)
  qed
qed

lemma makes_ascii_cap:
  assumes p: "heap_ok \<sigma>" and n0: "0 \<le> n" and n: "\<And>k. n \<le> k \<Longrightarrow> 32 dvd k + 44 \<Longrightarrow> int (length bs) \<le> k" "n < 2 ^ 29"
    and b: "\<forall>c\<in>set bs. c < 0x80"
  shows "makes (bindM (newstring n \<sigma>) (\<lambda>ns \<sigma>1. Ret ns (setascii ns bs \<sigma>1))) \<sigma> (map ucast bs)"
proof -
  show ?thesis
  proof (rule newstring_ok [OF p n0 n(2)])
    fix \<sigma>' assume "newstring n \<sigma> = Err exHeap \<sigma>'" "hp \<sigma>' = hp \<sigma>" "heap_ok \<sigma>'"
    then show ?thesis by (auto simp: makes_def strobj_def fun_eq_iff)
  next
    fix v s \<sigma>' assume v: "newstring n \<sigma> = Ret v \<sigma>'" "v \<noteq> H" "strobj \<sigma>' v = Some s" "n \<le> smax s"
      "heap_ok \<sigma>'" "mem \<sigma>' = mem \<sigma>" "\<And>q. q \<noteq> v \<Longrightarrow> hp \<sigma>' q = hp \<sigma> q" and d: "32 dvd smax s + 44"
    have len: "int (length bs) \<le> smax s" using n(1) v(4) d by simp
    have "strobj \<sigma>' q = strobj \<sigma> q" if "q \<noteq> v" for q using v(7) [OF that] by (simp add: strobj_def)
    then show ?thesis unfolding makes_def
      by (intro disjI2 exI [of _ v] exI [of _ "setascii v bs \<sigma>'"])
        (use v len b in \<open>simp add: setascii_def strobj_setstr strval_def runes_def wfstr_def\<close>)
  qed
qed

lemma makes_ascii:
  assumes "heap_ok \<sigma>" "int (length bs) \<le> n" "n < 2 ^ 29" "\<forall>c\<in>set bs. c < 0x80"
  shows "makes (bindM (newstring n \<sigma>) (\<lambda>ns \<sigma>1. Ret ns (setascii ns bs \<sigma>1))) \<sigma> (map ucast bs)"
  using assms by (intro makes_ascii_cap) (auto intro: order_trans)

lemma makes_runes:
  assumes p: "heap_ok \<sigma>" and n: "2 * int (length us) \<le> n" "n < 2 ^ 29"
  shows "makes (bindM (newstring n \<sigma>) (\<lambda>ns \<sigma>1. Ret ns (setrunes ns us \<sigma>1))) \<sigma> us"
proof -
  have n0: "0 \<le> n" using n(1) by linarith
  show ?thesis
  proof (rule newstring_ok [OF p n0 n(2)])
    fix \<sigma>' assume "newstring n \<sigma> = Err exHeap \<sigma>'" "hp \<sigma>' = hp \<sigma>" "heap_ok \<sigma>'"
    then show ?thesis by (auto simp: makes_def strobj_def fun_eq_iff)
  next
    fix v s \<sigma>' assume v: "newstring n \<sigma> = Ret v \<sigma>'" "v \<noteq> H" "strobj \<sigma>' v = Some s" "n \<le> smax s"
      "heap_ok \<sigma>'" "mem \<sigma>' = mem \<sigma>" "\<And>q. q \<noteq> v \<Longrightarrow> hp \<sigma>' q = hp \<sigma> q"
    have "strobj \<sigma>' q = strobj \<sigma> q" if "q \<noteq> v" for q using v(7) [OF that] by (simp add: strobj_def)
    then show ?thesis unfolding makes_def
      by (intro disjI2 exI [of _ v] exI [of _ "setrunes v us \<sigma>'"])
        (use v n in \<open>auto simp: setrunes_def strobj_setstr strval_def runes_def wfstr_def\<close>)
  qed
qed

lemma isstrE:
  assumes "isstr \<sigma> p" "p \<noteq> H"
  obtains s where "strobj \<sigma> p = Some s" "wfstr s" "\<bar>slen s\<bar> < 2 ^ 26" "strval \<sigma> p = Some (runes s)"
  using assms by (auto simp: isstr_def strval_def)

lemma stringdup_makes:
  assumes "heap_ok \<sigma>" "isstr \<sigma> p"
  shows "makes (stringdup p \<sigma>) \<sigma> (the (strval \<sigma> p))"
proof (cases "p = H")
  case True
  then show ?thesis using assms by (auto simp: stringdup_def makes_def strval_def)
next
  case False
  obtain s where s: "strobj \<sigma> p = Some s" "wfstr s" "\<bar>slen s\<bar> < 2 ^ 26" "strval \<sigma> p = Some (runes s)"
    using assms(2) False by (rule isstrE)
  show ?thesis
  proof (cases "slen s < 0")
    case True
    have "makes (bindM (newstring (- slen s * 2) \<sigma>) (\<lambda>ns \<sigma>1. Ret ns (setrunes ns (Srune s) \<sigma>1))) \<sigma> (Srune s)"
      by (rule makes_runes [OF assms(1)]) (use s True in \<open>auto simp: wfstr_def\<close>)
    with True False s show ?thesis by (simp add: stringdup_def runes_def)
  next
    case F: False
    have "makes (bindM (newstring (slen s) \<sigma>) (\<lambda>ns \<sigma>1. Ret ns (setascii ns (Sascii s) \<sigma>1))) \<sigma> (map ucast (Sascii s))"
      by (rule makes_ascii [OF assms(1)]) (use s F in \<open>auto simp: wfstr_def\<close>)
    with F False s show ?thesis by (simp add: stringdup_def runes_def)
  qed
qed

lemma cvtup_runes: "slen s \<ge> 0 \<Longrightarrow> cvtup s = runes s"
  by (simp add: cvtup_def runes_def)

lemma makes_inplace:
  assumes "heap_ok \<sigma>" "strobj \<sigma> p = Some s" "p \<noteq> H" "wfstr (f s)" "runes (f s) = w"
  shows "makes (Ret p (setstr p f \<sigma>)) \<sigma> w"
  using assms by (auto simp: makes_def strobj_setstr strval_def)

lemma div4_bound: "0 \<le> (l::int) \<Longrightarrow> l < 2 ^ 27 \<Longrightarrow> l \<le> (if app then l + l div 4 else l) \<and> (if app then l + l div 4 else l) * 2 < 2 ^ 29"
  by auto

lemma addstring_makes:
  assumes ok: "heap_ok \<sigma>" and s: "isstr \<sigma> s1" "isstr \<sigma> s2" and r: "s1 \<noteq> H \<longrightarrow> s1 \<in> dom (hp \<sigma>)"
    and ne: "s1 = s2 \<longrightarrow> \<not> ip"
  shows "makes (addstring s1 s2 ip \<sigma>) \<sigma> (the (strval \<sigma> s1) @ the (strval \<sigma> s2))"
proof (cases "s1 = H \<or> s2 = H")
  case True
  have "makes (Ret s1 \<sigma>) \<sigma> (the (strval \<sigma> s1))"
    using ok s(1) by (auto simp: makes_def strval_def isstr_def)
  note d1 = this
  have H: "strval \<sigma> H = Some []" by (simp add: strval_def)
  show ?thesis
  proof (cases "s1 = H")
    case True
    then have "addstring s1 s2 ip \<sigma> = (if s2 = H then Ret H \<sigma> else stringdup s2 \<sigma>)" by (simp add: addstring_def)
    then show ?thesis using True d1 stringdup_makes [OF ok s(2)] H by (cases "s2 = H") simp_all
  next
    case F: False
    then obtain n where "heapref s1 \<sigma> = Some n" using r by (auto simp: heapref_def)
    then have "addstring s1 s2 ip \<sigma> = (if ip \<and> \<not> n > 1 then Ret s1 \<sigma> else stringdup s1 \<sigma>)" "s2 = H"
      using F True by (simp_all add: addstring_def Let_def)
    then show ?thesis using d1 stringdup_makes [OF ok s(1)] H by (cases "ip \<and> \<not> n > 1") simp_all
  qed
next
  case False
  then obtain a b where a: "strobj \<sigma> s1 = Some a" "wfstr a" "\<bar>slen a\<bar> < 2 ^ 26" "strval \<sigma> s1 = Some (runes a)"
    and b: "strobj \<sigma> s2 = Some b" "wfstr b" "\<bar>slen b\<bar> < 2 ^ 26" "strval \<sigma> s2 = Some (runes b)"
    using s by (metis isstrE)
  have nn: "(s1 = H) = False" "(s2 = H) = False" using False by simp_all
  obtain n where n: "heapref s1 \<sigma> = Some n" using r False by (auto simp: heapref_def)
  define app where "app = (ip \<and> \<not> n > 1)"
  define cap where "cap = (\<lambda>l::int. if app then l + l div 4 else l)"
  have capb: "l \<le> cap l" "cap l * 2 < 2 ^ 29" "cap l < 2 ^ 29" if "0 \<le> l" "l < 2 ^ 27" for l
    using div4_bound [OF that, of app] by (auto simp: cap_def)
  let ?tl = "if slen b < 0 then Srune b else cvtup b"
  have tl: "?tl = runes b" by (simp add: runes_def cvtup_def)
  have lb: "int (length (runes b)) = \<bar>slen b\<bar>" "int (length (runes a)) = \<bar>slen a\<bar>" using a(2) b(2) by (auto simp: wfstr_def runes_def)
  have sm: "\<bar>slen a\<bar> + \<bar>slen b\<bar> < 2 ^ 27" using a(3) b(3) by simp
  have "makes (addstring s1 s2 ip \<sigma>) \<sigma> (runes a @ runes b)"
  proof (cases "slen a < 0")
    case True
    define l where "l = - slen a + (if slen b < 0 then - slen b else slen b)"
    have l: "l = \<bar>slen a\<bar> + \<bar>slen b\<bar>" using True by (simp add: l_def)
    have e: "addstring s1 s2 ip \<sigma> = (if app \<and> l \<le> smax a
        then if s1 = s2 \<and> - slen a + l > smax a + 2 then Crash
          else Ret s1 (setstr s1 (\<lambda>s. s\<lparr>slen := - l, Srune := Srune a @ ?tl\<rparr>) \<sigma>)
        else bindM (newstring (cap l * 2) \<sigma>) (\<lambda>ns \<sigma>1. Ret ns (setrunes ns (Srune a @ ?tl) \<sigma>1)))"
      by (simp only: addstring_def nn if_False if_True n option.case a(1) b(1) Let_def True cap_def app_def l_def)
    show ?thesis
    proof (cases "app \<and> l \<le> smax a")
      case T: True
      have "makes (Ret s1 (setstr s1 (\<lambda>s. s\<lparr>slen := - l, Srune := Srune a @ ?tl\<rparr>) \<sigma>)) \<sigma> (runes a @ runes b)"
        by (rule makes_inplace [OF ok a(1)]) (use False True T lb l tl in \<open>auto simp: wfstr_def runes_def\<close>)
      then show ?thesis using e T ne by (auto simp: app_def)
    next
      case F: False
      have "makes (bindM (newstring (cap l * 2) \<sigma>) (\<lambda>ns \<sigma>1. Ret ns (setrunes ns (runes a @ runes b) \<sigma>1))) \<sigma> (runes a @ runes b)"
        by (rule makes_runes [OF ok]) (use capb [of l] lb l sm in simp_all)
      then show ?thesis using e F True tl by (simp add: runes_def)
    qed
  next
    case A: False
    show ?thesis
    proof (cases "slen b < 0")
      case True
      define l where "l = slen a + - slen b"
      have l: "l = \<bar>slen a\<bar> + \<bar>slen b\<bar>" using A True by (simp add: l_def)
      have "makes (bindM (newstring (cap l * 2) \<sigma>) (\<lambda>ns \<sigma>1. Ret ns (setrunes ns (runes a @ runes b) \<sigma>1))) \<sigma> (runes a @ runes b)"
        by (rule makes_runes [OF ok]) (use capb [of l] lb l sm in simp_all)
      moreover have "addstring s1 s2 ip \<sigma> = bindM (newstring (cap l * 2) \<sigma>) (\<lambda>ns \<sigma>1. Ret ns (setrunes ns (cvtup a @ Srune b) \<sigma>1))"
        using A by (simp only: addstring_def nn if_False if_True n option.case a(1) b(1) Let_def True cap_def app_def l_def)
      ultimately show ?thesis using A True by (simp add: runes_def cvtup_def)
    next
      case B: False
      define l where "l = slen a + slen b"
      have l: "l = \<bar>slen a\<bar> + \<bar>slen b\<bar>" using A B by (simp add: l_def)
      have e: "addstring s1 s2 ip \<sigma> = (if app \<and> l \<le> smax a
          then if s1 = s2 \<and> slen a + l > smax a + 4 then Crash
            else Ret s1 (setstr s1 (\<lambda>s. s\<lparr>slen := l, Sascii := Sascii a @ Sascii b\<rparr>) \<sigma>)
          else bindM (newstring (cap l) \<sigma>) (\<lambda>ns \<sigma>1. Ret ns (setascii ns (Sascii a @ Sascii b) \<sigma>1)))"
        using A B by (simp only: addstring_def nn if_False if_True n option.case a(1) b(1) Let_def cap_def app_def l_def)
      have asc: "\<forall>c\<in>set (Sascii a @ Sascii b). c < 0x80" using a(2) b(2) A B by (auto simp: wfstr_def)
      show ?thesis
      proof (cases "app \<and> l \<le> smax a")
        case T: True
        have "makes (Ret s1 (setstr s1 (\<lambda>s. s\<lparr>slen := l, Sascii := Sascii a @ Sascii b\<rparr>) \<sigma>)) \<sigma> (runes a @ runes b)"
          by (rule makes_inplace [OF ok a(1)]) (use False A B T lb l asc in \<open>auto simp: wfstr_def runes_def\<close>)
        then show ?thesis using e T ne by (auto simp: app_def)
      next
        case F: False
        have "makes (bindM (newstring (cap l) \<sigma>) (\<lambda>ns \<sigma>1. Ret ns (setascii ns (Sascii a @ Sascii b) \<sigma>1))) \<sigma> (map ucast (Sascii a @ Sascii b))"
          by (rule makes_ascii [OF ok]) (use capb [of l] lb l sm asc A B in \<open>simp_all add: runes_def\<close>)
        then show ?thesis using e F A B by (simp add: runes_def)
      qed
    qed
  qed
  then show ?thesis by (simp add: a(4) b(4))
qed

lemma slice_range:
  assumes "0 \<le> L"
  shows "v < start \<or> uint v > L \<longleftrightarrow> \<not> (start \<le> v \<and> unat (v :: WORD) \<le> nat L)"
proof -
  have "unat v \<le> nat L \<longleftrightarrow> uint v \<le> L" using assms by (simp add: le_nat_iff)
  then show ?thesis by (simp add: not_le)
qed

lemma slice_count:
  assumes "start \<le> (v :: WORD)"
  shows "nat (uint v - uint start) = unat v - unat start" "0 \<le> uint v - uint start" "uint v - uint start \<le> uint v"
proof -
  have "uint start \<le> uint v" using assms by (simp add: word_le_def)
  moreover have "0 \<le> uint start" by simp
  ultimately show "0 \<le> uint v - uint start" "uint v - uint start \<le> uint v" by linarith+
  show "nat (uint v - uint start) = unat v - unat start"
    using \<open>0 \<le> uint start\<close> by (simp only: nat_diff_distrib' nat_uint_eq uint_ge_0)
qed

lemma slicer_makes:
  assumes ok: "heap_ok \<sigma>" and s: "isstr \<sigma> ds"
  shows "if start \<le> v \<and> unat v \<le> length (the (strval \<sigma> ds))
    then makes (slicer start v ds \<sigma>) \<sigma> (take (unat v - unat start) (drop (unat start) (the (strval \<sigma> ds))))
    else slicer start v ds \<sigma> = Err exBounds \<sigma>"
proof (cases "ds = H")
  case True
  then show ?thesis using ok by (auto simp: slicer_def makes_def strval_def unat_eq_0)
next
  case False
  obtain s where s: "strobj \<sigma> ds = Some s" "wfstr s" "\<bar>slen s\<bar> < 2 ^ 26" "strval \<sigma> ds = Some (runes s)"
    using s False by (rule isstrE)
  define L where "L = \<bar>slen s\<bar>"
  define nc where "nc = uint v - uint start"
  have L: "length (runes s) = nat L" "0 \<le> L" "L < 2 ^ 26" using s(2,3) by (auto simp: runes_def wfstr_def L_def)
  have e: "slicer start v ds \<sigma> = (if v < start \<or> uint v > L then Err exBounds \<sigma>
      else if slen s < 0 then bindM (newstring (nc * 2) \<sigma>) (\<lambda>ns \<sigma>1. Ret ns (setrunes ns (take (nat nc) (drop (unat start) (Srune s))) \<sigma>1))
      else bindM (newstring nc \<sigma>) (\<lambda>ns \<sigma>1. Ret ns (setascii ns (take (nat nc) (drop (unat start) (Sascii s))) \<sigma>1)))"
    using False s(1) by (simp add: slicer_def Let_def nc_def L_def)
  show ?thesis
  proof (cases "start \<le> v \<and> unat v \<le> nat L")
    case F: False
    then have "v < start \<or> uint v > L" using slice_range [OF L(2)] by simp
    then have "slicer start v ds \<sigma> = Err exBounds \<sigma>" by (simp only: e if_True)
    then show ?thesis using F s(4) by (simp only: option.sel L(1) if_False)
  next
    case T: True
    have T': "v < start \<or> uint v > L \<longleftrightarrow> False" using T slice_range [OF L(2)] by simp
    then have nc: "nat nc = unat v - unat start" "0 \<le> nc" "nc \<le> L"
      using slice_count [of start v] T order_trans [of nc "uint v" L] by (simp_all add: nc_def)
    have "makes (slicer start v ds \<sigma>) \<sigma> (take (nat nc) (drop (unat start) (runes s)))"
    proof (cases "slen s < 0")
      case True
      have "makes (bindM (newstring (nc * 2) \<sigma>) (\<lambda>ns \<sigma>1. Ret ns (setrunes ns (take (nat nc) (drop (unat start) (Srune s))) \<sigma>1))) \<sigma>
          (take (nat nc) (drop (unat start) (Srune s)))"
        by (rule makes_runes [OF ok]) (use nc L(3) in \<open>simp_all add: min_le_iff_disj\<close>)
      then show ?thesis using e T' True by (simp add: runes_def)
    next
      case A: False
      have "\<forall>c\<in>set (take (nat nc) (drop (unat start) (Sascii s))). c < 0x80"
        using s(2) A by (auto simp: wfstr_def dest: in_set_takeD in_set_dropD)
      then have "makes (bindM (newstring nc \<sigma>) (\<lambda>ns \<sigma>1. Ret ns (setascii ns (take (nat nc) (drop (unat start) (Sascii s))) \<sigma>1))) \<sigma>
          (map ucast (take (nat nc) (drop (unat start) (Sascii s))))"
        by (intro makes_ascii [OF ok]) (use nc L(3) in simp_all)
      then show ?thesis using e T' A by (simp add: runes_def take_map drop_map)
    qed
    then show ?thesis using T s(4) L(1) nc(1) by simp
  qed
qed

section \<open>Conversion to and from UTF\<close>

lemma c2s_decode_utf: "c2s_decode (length us) (utf us @ z) = Some us"
  by (induction us) (simp_all add: chartorune_runetochar_aux)

lemma runetochar_ascii:
  assumes "unat (r :: Rune) < 0x80"
  shows "runetochar r = [ucast r]"
proof -
  obtain b bs where b: "runetochar r = b # bs" "unat r < 0x80 \<longrightarrow> bs = [] \<and> unat b = unat r" by (rule runetochar_hd)
  have "unat (ucast r :: byte) = unat r" using assms by (subst unsigned_ucast_eq) (simp add: take_bit_eq_mod)
  then show ?thesis using b assms by (simp add: word_eq_unat)
qed

lemma utf_ascii: "\<forall>c\<in>set bs. c < 0x80 \<Longrightarrow> utf (map ucast bs) = bs"
proof (induction bs)
  case (Cons c bs)
  have u: "unat (ucast c :: Rune) = unat c" by (subst unsigned_ucast_eq) (simp add: take_bit_eq_mod order_less_trans [OF unat_byte_lt])
  moreover have "unat c < 0x80" using Cons.prems by (simp add: word_less_alt)
  ultimately have "runetochar (ucast c) = [ucast (ucast c :: Rune)]" by (simp add: runetochar_ascii)
  moreover have "ucast (ucast c :: Rune) = c" by (rule bit_word_eqI) (auto simp: bit_simps)
  ultimately show ?case using Cons by simp
qed simp

lemma string2c_utf:
  assumes "isstr \<sigma> p"
  shows "string2c p \<sigma> = Some (utf (the (strval \<sigma> p)))"
proof (cases "p = H")
  case True
  then show ?thesis by (simp add: string2c_def strval_def)
next
  case False
  obtain s where s: "strobj \<sigma> p = Some s" "wfstr s" "strval \<sigma> p = Some (runes s)"
    using assms False by (rule isstrE)
  have "(if (ucast c :: WORD) < Runeself then [ucast c] else runetochar c) = runetochar c" for c
    using runetochar_ascii [of c] by (simp add: Runeself_def word_less_alt)
  then show ?thesis using s False utf_ascii [of "Sascii s"] by (auto simp: string2c_def runes_def wfstr_def)
qed

lemma runetochar_fullrune:
  assumes "length (runetochar r) = 2"
  shows "fullrune (runetochar r) 2 = Some True"
proof -
  have r: "128 \<le> unat r" "unat r < 2048" using assms by (auto simp: length_runetochar split: if_splits)
  obtain b bs where b: "runetochar r = b # bs" by (cases "runetochar r") (use assms in auto)
  have "unat b < 224" using runetochar_unat [of r] r b by (auto simp: Let_def split: if_splits)
  then have "(ucast b :: WORD) < T3" by (simp add: rune_consts word_less_alt)
  then show ?thesis by (simp add: fullrune_def rdc_def b)
qed

lemma c2s_count_rune:
  assumes "p = c # p1" "\<not> (ucast c :: WORD) < Runeself" "UTFmax \<le> int (length p) \<or> fullrune p (length p) = Some True"
    "chartorune p = Some (r, n)"
  shows "c2s_count (Suc k) p = map_option Suc (c2s_count k (drop n p))"
  using assms by auto

lemma c2s_count_utf: "length (utf us) \<le> k \<Longrightarrow> c2s_count k (utf us) = Some (length us)"
proof (induction us arbitrary: k)
  case Nil
  then show ?case by (cases k) simp_all
next
  case (Cons r us)
  obtain b bs where b: "runetochar r = b # bs" "unat b < 0x80 \<longleftrightarrow> unat r < 0x80" "b = 0 \<longleftrightarrow> r = 0"
    "unat r < 0x80 \<longrightarrow> bs = [] \<and> unat b = unat r" by (rule runetochar_hd)
  obtain k' where k: "k = Suc k'" using Cons.prems b(1) by (cases k) auto
  have k': "length (utf us) \<le> k'" using Cons.prems b(1) k by simp
  let ?p = "runetochar r @ utf us"
  have ch: "chartorune ?p = Some (r, length (runetochar r))" by (rule chartorune_runetochar_aux)
  have as: "(ucast b :: WORD) < Runeself \<longleftrightarrow> unat r < 0x80" using b(2) by (simp add: Runeself_def word_less_alt)
  have full: "UTFmax \<le> int (length ?p) \<or> fullrune ?p (length ?p) = Some True" if "\<not> unat r < 0x80"
  proof (cases "UTFmax \<le> int (length ?p)")
    case False
    moreover have "2 \<le> length (runetochar r)" using that by (simp add: length_runetochar)
    moreover have "length ?p = length (runetochar r) + length (utf us)" by (rule length_append)
    ultimately have "length (runetochar r) = 2" "length (utf us) = 0" unfolding UTFmax_def by linarith+
    then have "length (runetochar r) = 2" "utf us = []" by (simp_all only: length_0_conv)
    then show ?thesis using runetochar_fullrune [of r] by (simp only: append_Nil2 simp_thms)
  qed simp
  have "c2s_count (Suc k') ?p = map_option Suc (c2s_count k' (utf us))"
  proof (cases "unat r < 0x80")
    case True
    then show ?thesis using b as by simp
  next
    case False
    then show ?thesis using full as c2s_count_rune [of ?p b "bs @ utf us", OF _ _ _ ch] by (simp add: b(1))
  qed
  then show ?case using Cons.IH [OF k'] k by simp
qed

lemma takeWhile_utf:
  obtains bs us' where "us = map ucast bs @ us'" "takeWhile (\<lambda>c. (ucast c :: WORD) < Runeself) (utf us) = bs"
    "\<forall>c\<in>set bs. c < 0x80"
proof -
  have "\<exists>bs us'. us = map ucast bs @ us' \<and> takeWhile (\<lambda>c. (ucast c :: WORD) < Runeself) (utf us) = bs \<and> (\<forall>c\<in>set bs. c < 0x80)"
  proof (induction us)
    case (Cons r us)
    obtain b cs where b: "runetochar r = b # cs" "unat b < 0x80 \<longleftrightarrow> unat r < 0x80"
      "unat r < 0x80 \<longrightarrow> cs = [] \<and> unat b = unat r" by (rule runetochar_hd)
    show ?case
    proof (cases "unat r < 0x80")
      case True
      then have "unat (ucast b :: Rune) = unat r" using b by (subst unsigned_ucast_eq) (simp add: take_bit_eq_mod)
      then have "ucast b = r" by (simp add: word_eq_unat)
      moreover obtain bs us' where "us = map ucast bs @ us'" "takeWhile (\<lambda>c. (ucast c :: WORD) < Runeself) (utf us) = bs"
        "\<forall>c\<in>set bs. c < 0x80" using Cons.IH by blast
      ultimately show ?thesis using b True
        by (intro exI [of _ "b # bs"] exI [of _ us']) (auto simp: Runeself_def word_less_alt)
    next
      case False
      then show ?thesis using b by (intro exI [of _ "[]"] exI [of _ "r # us"]) (simp add: Runeself_def word_less_alt)
    qed
  qed simp
  then show thesis using that by blast
qed

lemma c2string_makes:
  assumes ok: "heap_ok \<sigma>" and n: "length us < 2 ^ 26"
  shows "makes (c2string (utf us) \<sigma>) \<sigma> us"
proof -
  obtain bs us' where bs: "us = map ucast bs @ us'" "takeWhile (\<lambda>c. (ucast c :: WORD) < Runeself) (utf us) = bs"
    "\<forall>c\<in>set bs. c < 0x80" by (rule takeWhile_utf)
  have us: "utf us = bs @ utf us'" using bs(1) utf_ascii [OF bs(3)] by simp
  show ?thesis
  proof (cases "bs = utf us")
    case True
    then have "utf us' = []" using us by simp
    then have "us' = []" using length_runetochar [of "hd us'"] by (cases us') (auto split: if_splits)
    then have "makes (bindM (newstring (int (length (utf us))) \<sigma>) (\<lambda>s \<sigma>1. Ret s (setascii s (utf us) \<sigma>1))) \<sigma> us"
      using makes_ascii [OF ok, of bs "int (length bs)"] True [symmetric] bs n by simp
    then show ?thesis using True bs(2) by (simp add: c2string_def)
  next
    case False
    have "makes (bindM (newstring (int (length us) * 2) \<sigma>) (\<lambda>s \<sigma>1. Ret s (setrunes s us \<sigma>1))) \<sigma> us"
      by (rule makes_runes [OF ok]) (use n in simp_all)
    moreover have "c2s_count (length (utf us)) (utf us') = Some (length us')" by (rule c2s_count_utf) (simp add: us)
    moreover have "length bs + length us' = length us" using bs by simp
    moreover have "c2s_decode (length us) (utf us) = Some us" using c2s_decode_utf [of us "[]"] by simp
    moreover have "drop (length bs) (utf us) = utf us'" using us by simp
    ultimately show ?thesis using False bs(2) by (simp only: c2string_def Let_def if_False option.case)
  qed
qed

section \<open>Comparison\<close>

text \<open>The reference: the sign of the lexicographic comparison of the characters.\<close>

fun runecmp :: "Rune list \<Rightarrow> Rune list \<Rightarrow> int" where
  "runecmp [] [] = 0"
| "runecmp [] (y # ys) = -1"
| "runecmp (x # xs) [] = 1"
| "runecmp (x # xs) (y # ys) = (if x < y then -1 else if y < x then 1 else runecmp xs ys)"

lemma runecmp_nil: "runecmp [] ys = (if ys = [] then 0 else -1)" "runecmp xs [] = (if xs = [] then 0 else 1)"
  by (cases ys; simp) (cases xs; simp)

lemma cmploop_runecmp:
  fixes xs ys :: "Rune list"
  assumes "n = min (length xs) (length ys)"
  shows "sgn (case cmploop (take n (map uint xs)) (take n (map uint ys)) of Some c \<Rightarrow> c | None \<Rightarrow> int (length xs) - int (length ys))
     = runecmp xs ys"
  using assms
proof (induction xs ys arbitrary: n rule: runecmp.induct)
  case (4 x xs y ys)
  have l: "int (length (x # xs)) - int (length (y # ys)) = int (length xs) - int (length ys)" by simp
  show ?case using 4 unfolding l by (auto simp: word_less_def)
qed (auto simp: sgn_if)

lemma strncmp_runecmp:
  "0 \<notin> set xs \<Longrightarrow> n = min (length xs) (length ys) \<Longrightarrow>
     sgn (let c = strncmp xs ys n in if c = 0 then int (length xs) - int (length ys) else c) = runecmp (map ucast xs) (map ucast ys)"
proof (induction xs ys n rule: strncmp.induct)
  case (1 a as b bs n)
  have "(ucast a :: Rune) < ucast b \<longleftrightarrow> a < b" "(ucast b :: Rune) < ucast a \<longleftrightarrow> b < a"
    by (simp_all add: word_less_alt unsigned_ucast_eq take_bit_eq_mod order_less_trans [OF unat_byte_lt])
  then show ?case using 1 by (auto simp: Let_def)
qed (auto simp: sgn_if runecmp_nil)

lemma sint_ascii:
  assumes "(c :: byte) < 0x80"
  shows "sint c = uint (ucast c :: Rune)"
proof -
  have "unat c < 0x80" using assms by (simp add: word_less_alt)
  then have "int (unat c) < 128" by linarith
  then have "0 \<le> uint c" "uint c < 128" by simp_all
  then have "signed_take_bit 7 (uint c) = uint c"
    using order_trans [of "- 128" 0 "uint c"] by (intro signed_take_bit_int_eq_self) simp_all
  moreover have "uint (ucast c :: Rune) = uint c"
    using \<open>uint c < 128\<close> by (subst unsigned_ucast_eq) (simp add: take_bit_eq_mod)
  ultimately show ?thesis by (simp add: sint_uint)
qed

lemma stringcmp_s_lex:
  assumes w: "wfstr s1" "wfstr s2" and z: "0 \<notin> set (runes s1)"
  shows "sgn (stringcmp_s s1 s2) = runecmp (runes s1) (runes s2)"
proof -
  have l: "\<bar>slen s\<bar> = int (length (runes s))" if "wfstr s" for s using that by (auto simp: wfstr_def runes_def)
  have asc: "map sint (Sascii s) = map uint (runes s)" if "wfstr s" "\<not> slen s < 0" for s
    using that by (auto simp: wfstr_def runes_def sint_ascii)
  have rn: "(if slen s < 0 then map uint (Srune s) else map sint (Sascii s)) = map uint (runes s)" if "wfstr s" for s
    using asc [OF that] by (simp add: runes_def)
  have n: "nat (min (int a) (int b)) = min a b" for a b by linarith
  show ?thesis
  proof (cases "slen s1 \<ge> 0 \<and> slen s2 \<ge> 0")
    case True
    have r: "runes s1 = map ucast (Sascii s1)" "runes s2 = map ucast (Sascii s2)" using True by (simp_all add: runes_def)
    have "0 \<notin> set (Sascii s1)" using z unfolding r(1) by (auto intro: rev_image_eqI)
    moreover have "\<bar>slen s1\<bar> = int (length (Sascii s1))" "\<bar>slen s2\<bar> = int (length (Sascii s2))"
      using l [OF w(1)] l [OF w(2)] by (simp_all add: r)
    ultimately show ?thesis
      using strncmp_runecmp [OF _ refl, of "Sascii s1" "Sascii s2"] by (simp only: stringcmp_s_def Let_def n r True if_True simp_thms)
  next
    case False
    show ?thesis
      using cmploop_runecmp [OF refl, of "runes s1" "runes s2"] rn [OF w(1)] rn [OF w(2)] l [OF w(1)] l [OF w(2)]
      by (simp only: stringcmp_s_def Let_def n False if_False)
  qed
qed

lemma stringcmp_lex:
  assumes "isstr \<sigma> p1" "isstr \<sigma> p2" "0 \<notin> set (the (strval \<sigma> p1))"
  shows "\<exists>n. stringcmp p1 p2 \<sigma> = Some n \<and> sgn n = runecmp (the (strval \<sigma> p1)) (the (strval \<sigma> p2))"
proof -
  have g: "\<exists>s. (if p = H then Some snil else strobj \<sigma> p) = Some s \<and> wfstr s \<and> the (strval \<sigma> p) = runes s" if "isstr \<sigma> p" for p
    using that by (auto simp: isstr_def strval_def snil_def wfstr_def runes_def)
  obtain s1 s2 where "(if p1 = H then Some snil else strobj \<sigma> p1) = Some s1" "wfstr s1" "the (strval \<sigma> p1) = runes s1"
    "(if p2 = H then Some snil else strobj \<sigma> p2) = Some s2" "wfstr s2" "the (strval \<sigma> p2) = runes s2"
    using g [OF assms(1)] g [OF assms(2)] by blast
  then show ?thesis using stringcmp_s_lex [of s1 s2] assms(3) by (simp add: stringcmp_def Let_def)
qed

section \<open>Decimal conversion\<close>

lemma uint_digit: "n < 10 \<Longrightarrow> uint (of_nat (48 + n) :: byte) = 48 + int n"
  by (simp add: unsigned_of_nat take_bit_eq_mod flip: of_nat_add) 

lemma isdigit_digit: "n < 10 \<Longrightarrow> isdigit (of_nat (48 + n))"
  using uint_digit [of n] by (simp add: isdigit_def word_le_def del: of_nat_add)

lemma digits_digit: "(\<forall>c\<in>set (digits n). isdigit c) \<and> digits n \<noteq> []"
proof (induction n rule: digits.induct)
  case (1 n)
  show ?case
  proof (cases "n < 10")
    case True
    then show ?thesis using isdigit_digit [of n] by (simp add: digits.simps del: of_nat_add)
  next
    case False
    then show ?thesis using 1 isdigit_digit [of "n mod 10"] by (subst (1 2) digits.simps) (simp del: of_nat_add)
  qed
qed

lemma digits_value: "fold (\<lambda>c k. 10 * k + (uint c - 48)) (digits n) 0 = int n"
proof (induction n rule: digits.induct)
  case (1 n)
  have "10 * int (n div 10) + int (n mod 10) = int n" by (simp add: zdiv_int zmod_int)
  then show ?case
    using 1 uint_digit [of n] uint_digit [of "n mod 10"] by (subst digits.simps) (auto simp del: of_nat_add)
qed

lemma strtol10_decimal:
  assumes "- 2147483648 \<le> i" "i \<le> 2147483647"
  shows "strtol10 (decimal i) = i"
proof -
  have d: "takeWhile isdigit (digits n) = digits n" for n using digits_digit [of n] by (simp add: takeWhile_eq_all_conv)
  have h: "\<not> isspace (hd (digits n)) \<and> hd (digits n) \<noteq> 45 \<and> hd (digits n) \<noteq> 43" for n
  proof -
    have "isdigit (hd (digits n))" using digits_digit [of n] by simp
    then show ?thesis by (auto simp: isdigit_def isspace_def word_le_alt)
  qed
  have dw: "dropWhile isspace (digits n) = digits n" for n using h [of n] by (cases "digits n") auto
  show ?thesis
  proof (cases "i < 0")
    case True
    have "strtol10 (decimal i) = - int (nat (- i))"
      using True assms by (simp add: strtol10_def decimal_def Let_def d digits_value isspace_def word_le_alt)
    then show ?thesis using True by simp
  next
    case False
    have "strtol10 (decimal i) = int (nat i)"
      using False assms h [of "nat i"] digits_digit [of "nat i"] by (simp add: strtol10_def decimal_def Let_def d dw digits_value)
    then show ?thesis using False by simp
  qed
qed

lemma digits_length: "n < 10 ^ k \<Longrightarrow> 0 < k \<Longrightarrow> length (digits n) \<le> k"
proof (induction k arbitrary: n)
  case (Suc k)
  show ?case
  proof (cases "n < 10")
    case False
    then have "0 < k" using Suc.prems by (cases k) auto
    moreover have "n div 10 < 10 ^ k" using Suc.prems(1) by (simp add: div_less_iff_less_mult mult.commute)
    ultimately show ?thesis using Suc.IH [of "n div 10"] False by (subst digits.simps) simp
  qed (simp add: digits.simps)
qed simp

lemma decimal_length:
  assumes "- (2 ^ 63) \<le> i" "i < 2 ^ 63"
  shows "length (decimal i) \<le> 20"
  using assms digits_length [of "nat (- i)" 19] digits_length [of "nat i" 20] by (auto simp: decimal_def nat_less_iff)

lemma decimal_chars: "(\<forall>c\<in>set (decimal i). c < 0x80 \<and> c \<noteq> 0) \<and> decimal i \<noteq> []"
proof -
  have "isdigit c \<Longrightarrow> c < 0x80 \<and> c \<noteq> 0" for c by (auto simp: isdigit_def word_less_alt word_le_alt)
  then show ?thesis using digits_digit by (auto simp: decimal_def word_less_alt)
qed

lemma putdecimal_makes:
  assumes "heap_ok \<sigma>" "- (2 ^ 63) \<le> i" "i < 2 ^ 63"
  shows "makes (putdecimal i \<sigma>) \<sigma> (map ucast (decimal i))"
  unfolding putdecimal_def
proof (rule makes_ascii_cap [OF assms(1)])
  fix k :: int assume "16 \<le> k" "32 dvd k + 44"
  then have "20 \<le> k" by presburger
  then show "int (length (decimal i)) \<le> k" using decimal_length [OF assms(2,3)] by linarith
qed (use decimal_chars in auto)

section \<open>Storing a character\<close>

definition put_at :: "Rune list \<Rightarrow> nat \<Rightarrow> Rune \<Rightarrow> Rune list" where
  "put_at us i c = (if i < length us then us[i := c] else us @ [c])"

lemma insrune_makes:
  assumes ok: "heap_ok \<sigma>" and s: "strobj \<sigma> ss = Some s" "wfstr s" "\<bar>slen s\<bar> < 2 ^ 26" "ss \<noteq> H" "slen s \<le> 0" "slen s = 0 \<longrightarrow> 2 \<le> smax s"
  shows "if unat v \<le> length (runes s) then makes (insrune ss s v r \<sigma>) \<sigma> (put_at (runes s) (unat v) (ucast r))
    else insrune ss s v r \<sigma> = Err exBounds \<sigma>"
proof -
  define l where "l = - slen s"
  have us: "take (nat l) (Srune s) = runes s" using s(2,5) by (auto simp: runes_def wfstr_def l_def)
  have l: "l = int (length (runes s))" using s(2,5) by (auto simp: l_def runes_def wfstr_def)
  have v: "uint v = int (unat v)" by simp
  have c: "uint v < l \<longleftrightarrow> unat v < length (runes s)" "uint v = l \<longleftrightarrow> unat v = length (runes s)" unfolding l v by (simp_all only: of_nat_less_iff of_nat_eq_iff)
  note e = insrune_def [of ss s v r \<sigma>, unfolded Let_def, folded l_def]
  let ?app = "runes s @ [ucast r]"
  consider "unat v < length (runes s)" | "unat v = length (runes s)" "uint v < smax s" | "unat v = length (runes s)" "\<not> uint v < smax s"
    | "unat v > length (runes s)" by linarith
  then show ?thesis
  proof cases
    case 1
    then have n: "slen s < 0" using s(5) l l_def by (cases "slen s = 0") auto
    have "makes (Ret ss (setstr ss (\<lambda>s. s\<lparr>Srune := (Srune s)[unat v := ucast r]\<rparr>) \<sigma>)) \<sigma> (put_at (runes s) (unat v) (ucast r))"
      by (rule makes_inplace [OF ok s(1)]) (use s n 1 in \<open>simp_all add: wfstr_def runes_def put_at_def\<close>)
    then show ?thesis using 1 c e by simp
  next
    case 2
    have uv: "uint v = l" using 2 c(2) by simp
    have "length (runes s) = nat l" "0 \<le> l" using l by simp_all
    note L = this
    have M: "l < smax s" "l = 0 \<longrightarrow> 2 \<le> smax s" using 2(2) uv s(6) by (simp_all add: l_def)
    have wf: "wfstr (s\<lparr>smax := (if l = 0 then smax s div 2 else smax s), slen := - (l + 1), Sascii := [], Srune := runes s @ [ucast r]\<rparr>)"
      using L M zdiv_mono1 [of 2 "smax s" 2] by (simp add: wfstr_def)
    have rn: "runes (s\<lparr>smax := (if l = 0 then smax s div 2 else smax s), slen := - (l + 1), Sascii := [], Srune := runes s @ [ucast r]\<rparr>) = ?app"
      using L by (simp add: runes_def)
    have "makes (Ret ss (setstr ss (\<lambda>s. s\<lparr>smax := (if l = 0 then smax s div 2 else smax s), slen := - (uint v + 1),
          Sascii := [], Srune := take (nat l) (Srune s) @ [ucast r]\<rparr>) \<sigma>)) \<sigma> ?app"
      by (rule makes_inplace [OF ok s(1) s(4)]) (simp_all only: uv us wf rn)
    then show ?thesis using 2 c e by (simp add: put_at_def)
  next
    case 3
    have "makes (bindM (newstring ((uint v + 1 + uint v div 4) * 2) \<sigma>) (\<lambda>ns \<sigma>1. Ret ns (setrunes ns ?app \<sigma>1))) \<sigma> ?app"
      by (rule makes_runes [OF ok]) (use s(3) 3 l c(2) in \<open>simp_all add: l_def\<close>)
    then show ?thesis using 3 c e us by (simp add: put_at_def)
  next
    case 4
    then show ?thesis using c e by simp
  qed
qed

lemma insascii_makes:
  assumes ok: "heap_ok \<sigma>" and s: "strobj \<sigma> ss = Some s" "wfstr s" "\<bar>slen s\<bar> < 2 ^ 26" "ss \<noteq> H" "0 \<le> slen s"
    and r: "unat r < 0x80"
  shows "if unat v \<le> length (runes s) then makes (insascii ss s v r \<sigma>) \<sigma> (put_at (runes s) (unat v) (ucast r))
    else insascii ss s v r \<sigma> = Err exBounds \<sigma>"
proof -
  define l where "l = slen s"
  have us: "runes s = map ucast (Sascii s)" "take (nat l) (Sascii s) = Sascii s" using s(2,5) by (auto simp: runes_def wfstr_def l_def)
  have l: "l = int (length (runes s))" using s(2,5) by (auto simp: l_def runes_def wfstr_def)
  have v: "uint v = int (unat v)" by simp
  have c: "uint v < l \<longleftrightarrow> unat v < length (runes s)" "uint v = l \<longleftrightarrow> unat v = length (runes s)" unfolding l v by (simp_all only: of_nat_less_iff of_nat_eq_iff)
  have b: "(ucast r :: byte) < 0x80" "ucast (ucast r :: byte) = (ucast r :: Rune)"
  proof -
    have "unat (ucast r :: byte) = unat r" "unat (ucast r :: Rune) = unat r"
      using r by (subst unsigned_ucast_eq, simp add: take_bit_eq_mod)+
    moreover have "unat (ucast (ucast r :: byte) :: Rune) = unat (ucast r :: byte)"
      using calculation r by (subst unsigned_ucast_eq) (simp add: take_bit_eq_mod)
    ultimately show "(ucast r :: byte) < 0x80" "ucast (ucast r :: byte) = (ucast r :: Rune)" using r by (simp_all add: word_less_alt word_eq_unat)
  qed
  note e = insascii_def [of ss s v r \<sigma>, unfolded Let_def, folded l_def]
  let ?app = "Sascii s @ [ucast r]"
  have asc: "\<forall>c\<in>set ?app. c < 0x80" using s(2,5) b by (auto simp: wfstr_def)
  have app: "map ucast ?app = put_at (runes s) (unat v) (ucast r)" if "unat v = length (runes s)" using that us b by (simp add: put_at_def)
  consider "unat v < length (runes s)" | "unat v = length (runes s)" "uint v < smax s" | "unat v = length (runes s)" "\<not> uint v < smax s"
    | "unat v > length (runes s)" by linarith
  then show ?thesis
  proof cases
    case 1
    have "makes (Ret ss (setstr ss (\<lambda>s. s\<lparr>Sascii := (Sascii s)[unat v := ucast r]\<rparr>) \<sigma>)) \<sigma> (put_at (runes s) (unat v) (ucast r))"
      by (rule makes_inplace [OF ok s(1)])
        (use s 1 us b in \<open>auto simp: wfstr_def runes_def put_at_def map_update dest: set_update_subset_insert [THEN subsetD]\<close>)
    then show ?thesis using 1 c e by simp
  next
    case 2
    have "makes (Ret ss (setstr ss (\<lambda>s. s\<lparr>slen := uint v + 1, Sascii := take (nat l) (Sascii s) @ [ucast r]\<rparr>) \<sigma>)) \<sigma> (map ucast ?app)"
      by (rule makes_inplace [OF ok s(1)]) (use s 2 us l asc c l_def in \<open>simp_all add: wfstr_def runes_def\<close>)
    then show ?thesis using 2 c e app by simp
  next
    case 3
    have "makes (bindM (newstring (uint v + 1 + uint v div 4) \<sigma>) (\<lambda>ns \<sigma>1. Ret ns (setascii ns ?app \<sigma>1))) \<sigma> (map ucast ?app)"
      by (rule makes_ascii [OF ok]) (use s 3 us l asc c l_def in \<open>simp_all\<close>)
    then show ?thesis using 3 c e us app by simp
  next
    case 4
    then show ?thesis using c e by simp
  qed
qed

section \<open>Properties\<close>

definition str_ascii :: "byte list \<Rightarrow> hobj" where
  "str_ascii bs = \<lparr>color = 0, href = 1, ht = Some Tstring,
     hs = SString \<lparr>slen = int (length bs), smax = 20, stmp = None, Sascii = bs, Srune = []\<rparr>\<rparr>"

definition str_runes :: "Rune list \<Rightarrow> hobj" where
  "str_runes us = \<lparr>color = 0, href = 1, ht = Some Tstring,
     hs = SString \<lparr>slen = - int (length us), smax = 10, stmp = None, Sascii = [], Srune = us\<rparr>\<rparr>"

definition vm_strs :: vm where
  \<comment> \<open>two strings: ten letters, and two Greek letters\<close>
  "vm_strs = (vm_heap (\<lambda>_. 0))\<lparr>hp := (\<lambda>_. None)(0x10034 \<mapsto> str_ascii (replicate 10 97), 0x10074 \<mapsto> str_runes [0x3b1, 0x3b2])\<rparr>"

lemma vm_strs_ok: "heap_ok vm_strs"
proof -
  have "hblk ` dom (hp vm_strs) = {0x10020, 0x10060}" by (auto simp: vm_strs_def hblk_def image_iff)
  then show ?thesis using pool_two_inv by (simp add: vm_strs_def vm_heap_def)
qed

lemma vm_strs_obj:
  "strobj vm_strs 0x10034 = Some \<lparr>slen = 10, smax = 20, stmp = None, Sascii = replicate 10 97, Srune = []\<rparr>"
  "strobj vm_strs 0x10074 = Some \<lparr>slen = -2, smax = 10, stmp = None, Sascii = [], Srune = [0x3b1, 0x3b2]\<rparr>"
  "heapref 0x10034 vm_strs = Some 1"
  by (simp_all add: strobj_def heapref_def vm_strs_def str_ascii_def str_runes_def H_def)

lemma vm_strs_vals:
  "isstr vm_strs 0x10034" "isstr vm_strs 0x10074" "isstr vm_strs H"
  "strval vm_strs 0x10034 = Some (replicate 10 97)" "strval vm_strs 0x10074 = Some [0x3b1, 0x3b2]"
  by (simp_all add: isstr_def strval_def strobj_def vm_strs_def str_ascii_def str_runes_def wfstr_def runes_def H_def word_less_alt)




text \<open>
  C29. Slices. \<^verbatim>\<open>slicer\<close> raises the bounds exception exactly when the two ends are out of order
  or past the end of the string, without touching the state, and otherwise returns the characters between them.
\<close>

theorem slicer_slice:
  assumes "heap_ok \<sigma>" "isstr \<sigma> ds"
  shows "if start \<le> v \<and> unat v \<le> length (the (strval \<sigma> ds))
    then makes (slicer start v ds \<sigma>) \<sigma> (take (unat v - unat start) (drop (unat start) (the (strval \<sigma> ds))))
    else slicer start v ds \<sigma> = Err exBounds \<sigma>"
  using assms by (rule slicer_makes)

theorem slicer_slice_witness:
  "makes (slicer 1 2 0x10074 vm_strs) vm_strs [0x3b2] \<and> slicer 1 3 0x10074 vm_strs = Err exBounds vm_strs"
  using slicer_slice [OF vm_strs_ok vm_strs_vals(2), of 1 2] slicer_slice [OF vm_strs_ok vm_strs_vals(2), of 1 3]
  by (simp add: vm_strs_vals)

text \<open>
  Storing a character. \<^verbatim>\<open>insc\<close> on a string it may write to replaces the character at an
  index inside the string, appends at its end and raises the bounds exception beyond, for both representations.
\<close>

theorem insc_stores:
  assumes "heap_ok \<sigma>" "strobj \<sigma> ss = Some s" "wfstr s" "\<bar>slen s\<bar> < 2 ^ 26" "ss \<noteq> H" "2 \<le> smax s"
    "if rn then slen s \<le> 0 else 0 \<le> slen s \<and> unat r < 0x80"
  shows "let op = (if rn then insrune else insascii) in
    if unat v \<le> length (runes s)
    then makes (op ss s v r \<sigma>) \<sigma> (put_at (runes s) (unat v) (ucast r))
    else op ss s v r \<sigma> = Err exBounds \<sigma>"
  using insrune_makes [of \<sigma> ss s v r] insascii_makes [of \<sigma> ss s r v] assms by (cases rn) (simp_all add: Let_def)

theorem insc_stores_witness:
  "makes (insrune 0x10074 \<lparr>slen = -2, smax = 10, stmp = None, Sascii = [], Srune = [0x3b1, 0x3b2]\<rparr> 2 0x3b3 vm_strs) vm_strs [0x3b1, 0x3b2, 0x3b3]"
  using insc_stores [OF vm_strs_ok vm_strs_obj(2), where rn = True and r = "0x3b3" and v = 2]
  by (simp add: wfstr_def runes_def H_def put_at_def Let_def)

text \<open>
  C32. Conversion to UTF and back. \<^verbatim>\<open>string2c\<close> gives the UTF encoding of the value, and
  \<^verbatim>\<open>c2string\<close> of those bytes makes a string with the same value.
\<close>

theorem c2string_string2c:
  assumes "heap_ok \<sigma>" "isstr \<sigma> p"
  shows "\<exists>bs. string2c p \<sigma> = Some bs \<and> makes (c2string bs \<sigma>) \<sigma> (the (strval \<sigma> p))"
proof -
  have "length (the (strval \<sigma> p)) < 2 ^ 26" using assms(2) by (auto simp: isstr_def strval_def wfstr_def runes_def split: if_splits)
  then show ?thesis using string2c_utf [OF assms(2)] c2string_makes [OF assms(1)] by blast
qed

theorem c2string_string2c_witness:
  "\<exists>bs. string2c 0x10074 vm_strs = Some bs \<and> makes (c2string bs vm_strs) vm_strs [0x3b1, 0x3b2]"
  using c2string_string2c [OF vm_strs_ok vm_strs_vals(2)] by (simp add: vm_strs_vals)



text \<open>
  Numbers in a string. Any 64-bit number fits the block that \<^verbatim>\<open>newstring(16)\<close> gets for its
  decimal form (twenty characters), so \<^verbatim>\<open>cvtwc\<close> and \<^verbatim>\<open>cvtlc\<close> make well-formed strings.
\<close>

theorem cvtlc_fits:
  assumes "heap_ok \<sigma>"
  shows "makes (putdecimal (sint (x :: LONG)) \<sigma>) \<sigma> (map ucast (decimal (sint x)))"
  using putdecimal_makes [OF assms, of "sint x"] sint_greater_eq [of x] sint_less [of x] by simp

theorem cvtlc_fits_witness:
  "makes (putdecimal (sint (0x8000000000000000 :: LONG)) vm_strs) vm_strs (map ucast (decimal (sint (0x8000000000000000 :: LONG))))"
  by (rule cvtlc_fits [OF vm_strs_ok])

text \<open>
  Decimal conversion is invertible: \<^verbatim>\<open>cvtcw\<close> of the string \<^verbatim>\<open>cvtwc\<close> makes for a word
  stores that word.
\<close>

theorem cvtcw_cvtwc:
  assumes "heap_ok \<sigma>"
  shows "(\<exists>\<sigma>'. putdecimal (sint (w :: WORD)) \<sigma> = Err exHeap \<sigma>') \<or>
    (\<exists>p \<sigma>'. putdecimal (sint w) \<sigma> = Ret p \<sigma>' \<and>
      (let \<sigma>1 = \<sigma>'\<lparr>mem := wrW (mem \<sigma>') a p, rs := a\<rparr> in cvtcw \<sigma>1 = Ret () (\<sigma>1\<lparr>mem := wrW (mem \<sigma>1) (rd \<sigma>1) w\<rparr>)))"
proof -
  have w: "- 2147483648 \<le> sint w" "sint w \<le> 2147483647" using sint_greater_eq [of w] sint_less [of w] by simp_all
  have "makes (putdecimal (sint w) \<sigma>) \<sigma> (map ucast (decimal (sint w)))"
    by (rule putdecimal_makes [OF assms]) (use w in simp_all)
  then consider \<sigma>' where "putdecimal (sint w) \<sigma> = Err exHeap \<sigma>'"
    | p \<sigma>' where "putdecimal (sint w) \<sigma> = Ret p \<sigma>'" "strval \<sigma>' p = Some (map ucast (decimal (sint w)))" "p \<noteq> H \<longrightarrow> pred_option wfstr (strobj \<sigma>' p)"
    unfolding makes_def by blast
  then show ?thesis
  proof cases
    case (2 p \<sigma>')
    note d = decimal_chars [of "sint w"]
    have nH: "p \<noteq> H" using 2(2) d by (auto simp: strval_def)
    let ?s = "\<sigma>'\<lparr>mem := wrW (mem \<sigma>') a p, rs := a\<rparr>"
    have "strobj ?s = strobj \<sigma>'" by (simp add: strobj_def fun_eq_iff)
    then have v: "strval ?s p = Some (map ucast (decimal (sint w)))" using 2(2) nH by (simp add: strval_def)
    obtain s where s: "strobj \<sigma>' p = Some s" "wfstr s" "runes s = map ucast (decimal (sint w))" using 2(2,3) nH by (auto simp: strval_def)
    have "\<bar>slen s\<bar> = int (length (runes s))" using s(2) by (auto simp: wfstr_def runes_def)
    then have "\<bar>slen s\<bar> \<le> 20" using decimal_length [of "sint w"] w by (simp add: s(3))
    then have "isstr ?s p" using s by (simp add: isstr_def strobj_def)
    then have "string2c p ?s = Some (decimal (sint w))" using string2c_utf v utf_ascii d by (simp add: comp_def)
    note s2 = this
    have tw: "takeWhile (\<lambda>c. c \<noteq> 0) (decimal (sint w)) = decimal (sint w)" using d by (auto simp: takeWhile_eq_all_conv)
    have "cvtcw ?s = Ret () (?s\<lparr>mem := wrW (mem ?s) (rd ?s) w\<rparr>)"
      using nH s2 by (simp add: cvtcw_def tw strtol10_decimal [OF w])
    then show ?thesis using 2(1) by (auto simp: Let_def)
  qed blast
qed

theorem cvtcw_cvtwc_witness:
  "(\<exists>\<sigma>'. putdecimal (sint (-42 :: WORD)) vm_strs = Err exHeap \<sigma>') \<or>
    (\<exists>p \<sigma>'. putdecimal (sint (-42 :: WORD)) vm_strs = Ret p \<sigma>' \<and>
      (let \<sigma>1 = \<sigma>'\<lparr>mem := wrW (mem \<sigma>') 0x20 p, rs := 0x20\<rparr> in cvtcw \<sigma>1 = Ret () (\<sigma>1\<lparr>mem := wrW (mem \<sigma>1) (rd \<sigma>1) (-42)\<rparr>)))"
  by (rule cvtcw_cvtwc [OF vm_strs_ok])

end
