(* ===== verification/Xec.thy ===== *)
theory Xec
  imports Str "HOL-Library.Signed_Division"
begin

text \<open>
  The instructions of the virtual machine, \<^verbatim>\<open>interp/xec.c\<close>, with the addressing modes of
  \<^verbatim>\<open>interp/decgen.c\<close>. The operands are the words, bytes and longs at the addresses in the registers
  \<^verbatim>\<open>R.s\<close>, \<^verbatim>\<open>R.m\<close> and \<^verbatim>\<open>R.d\<close>; an instruction in the text segment is twelve bytes of the flat memory.
  Shift counts are masked as the 386 does; a quotient that has no representation raises the
  host's arithmetic fault, which \<^verbatim>\<open>disfault\<close> turns into an exception of the prog.
\<close>

unbundle bit_operations_syntax

type_synonym op = "vm \<Rightarrow> unit outcome"

section \<open>Operands\<close>

definition Bs :: "vm \<Rightarrow> byte" where "Bs \<sigma> = rdB (mem \<sigma>) (rs \<sigma>)"
definition Bm :: "vm \<Rightarrow> byte" where "Bm \<sigma> = rdB (mem \<sigma>) (rm \<sigma>)"
definition Ws :: "vm \<Rightarrow> WORD" where "Ws \<sigma> = rdW (mem \<sigma>) (rs \<sigma>)"
definition Wm :: "vm \<Rightarrow> WORD" where "Wm \<sigma> = rdW (mem \<sigma>) (rm \<sigma>)"
definition Wd :: "vm \<Rightarrow> WORD" where "Wd \<sigma> = rdW (mem \<sigma>) (rd \<sigma>)"
definition Vs :: "vm \<Rightarrow> LONG" where "Vs \<sigma> = rdV (mem \<sigma>) (rs \<sigma>)"
definition Vm :: "vm \<Rightarrow> LONG" where "Vm \<sigma> = rdV (mem \<sigma>) (rm \<sigma>)"

definition putB :: "byte \<Rightarrow> op" where "putB v \<sigma> = Ret () (\<sigma>\<lparr>mem := wrB (mem \<sigma>) (rd \<sigma>) v\<rparr>)"
definition putW :: "WORD \<Rightarrow> op" where "putW v \<sigma> = Ret () (\<sigma>\<lparr>mem := wrW (mem \<sigma>) (rd \<sigma>) v\<rparr>)"
definition putV :: "LONG \<Rightarrow> op" where "putV v \<sigma> = Ret () (\<sigma>\<lparr>mem := wrV (mem \<sigma>) (rd \<sigma>) v\<rparr>)"
definition putSH :: "16 word \<Rightarrow> op" where "putSH v \<sigma> = Ret () (\<sigma>\<lparr>mem := wrSH (mem \<sigma>) (rd \<sigma>) v\<rparr>)"

definition JMP :: op where "JMP \<sigma> = Ret () (\<sigma>\<lparr>rPC := Wd \<sigma>\<rparr>)"

definition JMP_if :: "bool \<Rightarrow> op" where "JMP_if c \<sigma> = (if c then JMP \<sigma> else Ret () \<sigma>)"

section \<open>Moves, conversions and arithmetic\<close>

definition sizeof_Inst :: WORD where "sizeof_Inst = 12"

definition modlink :: "vm \<Rightarrow> ptr \<Rightarrow> (ptr \<times> mid \<times> bool \<times> (int \<times> tid option) list) option" where
  "modlink \<sigma> p = (case hp \<sigma> p of Some h \<Rightarrow> (case hs h of SModlink MP m c l \<Rightarrow> Some (MP, m, c, l) | _ \<Rightarrow> None) | None \<Rightarrow> None)"

definition curmod :: "vm \<Rightarrow> (Module \<times> bool) option" where
  \<comment> \<open>the module of \<^verbatim>\<open>R.M\<close> and whether it is compiled\<close>
  "curmod \<sigma> = map_option (\<lambda>(MP, m, c, l). (mods \<sigma> m, c)) (modlink \<sigma> (rM \<sigma>))"

definition modtype :: "vm \<Rightarrow> WORD \<Rightarrow> tid option" where
  \<comment> \<open>\<^verbatim>\<open>R.M->type[i]\<close>\<close>
  "modtype \<sigma> i = (case curmod \<sigma> of None \<Rightarrow> None
     | Some (m, c) \<Rightarrow> if unat i < length (mtype m) then mtype m ! unat i else None)"

definition runt :: op where "runt \<sigma> = Ret () \<sigma>"
definition jmp :: op where "jmp \<sigma> = JMP \<sigma>"
definition movpc :: op where
  "movpc \<sigma> = (case curmod \<sigma> of None \<Rightarrow> Crash | Some (m, c) \<Rightarrow> putW (mprog m + sizeof_Inst * Ws \<sigma>) \<sigma>)"
definition movm :: op where
  "movm \<sigma> = Ret () (\<sigma>\<lparr>mem := memmove (mem \<sigma>) (rd \<sigma>) (rs \<sigma>) (unat (Wm \<sigma>))\<rparr>)"
definition lea :: op where "lea \<sigma> = putW (rs \<sigma>) \<sigma>"
definition movb :: op where "movb \<sigma> = putB (Bs \<sigma>) \<sigma>"
definition movw :: op where "movw \<sigma> = putW (Ws \<sigma>) \<sigma>"
definition movl :: op where "movl \<sigma> = putV (Vs \<sigma>) \<sigma>"
definition cvtbw :: op where "cvtbw \<sigma> = putW (ucast (Bs \<sigma>)) \<sigma>"
definition cvtwb :: op where "cvtwb \<sigma> = putB (ucast (Ws \<sigma>)) \<sigma>"
definition cvtws :: op where "cvtws \<sigma> = putSH (ucast (Ws \<sigma>)) \<sigma>"
definition cvtsw :: op where "cvtsw \<sigma> = putW (scast (rdSH (mem \<sigma>) (rs \<sigma>))) \<sigma>"
definition cvtwl :: op where "cvtwl \<sigma> = putV (scast (Ws \<sigma>)) \<sigma>"
definition cvtlw :: op where "cvtlw \<sigma> = putW (ucast (Vs \<sigma>)) \<sigma>"

definition addb :: op where "addb \<sigma> = putB (Bm \<sigma> + Bs \<sigma>) \<sigma>"
definition addw :: op where "addw \<sigma> = putW (Wm \<sigma> + Ws \<sigma>) \<sigma>"
definition addl :: op where "addl \<sigma> = putV (Vm \<sigma> + Vs \<sigma>) \<sigma>"
definition subb :: op where "subb \<sigma> = putB (Bm \<sigma> - Bs \<sigma>) \<sigma>"
definition subw :: op where "subw \<sigma> = putW (Wm \<sigma> - Ws \<sigma>) \<sigma>"
definition subl :: op where "subl \<sigma> = putV (Vm \<sigma> - Vs \<sigma>) \<sigma>"
definition mulb :: op where "mulb \<sigma> = putB (Bm \<sigma> * Bs \<sigma>) \<sigma>"
definition mulw :: op where "mulw \<sigma> = putW (Wm \<sigma> * Ws \<sigma>) \<sigma>"
definition mull :: op where "mull \<sigma> = putV (Vm \<sigma> * Vs \<sigma>) \<sigma>"

definition trapFPE :: "'a outcome \<Rightarrow> bool \<Rightarrow> vm \<Rightarrow> 'a outcome" where
  "trapFPE r ok \<sigma> = (if ok then r else Err (exOther ''Floating exception'') \<sigma>)"

definition divides :: "int \<Rightarrow> int \<Rightarrow> nat \<Rightarrow> bool" where
  \<comment> \<open>the quotient of signed \<open>w\<close>-bit numbers exists\<close>
  "divides m s w \<longleftrightarrow> s \<noteq> 0 \<and> \<not> (s = -1 \<and> m = - (2 ^ (w - 1)))"

definition divb :: op where "divb \<sigma> = trapFPE (putB (Bm \<sigma> div Bs \<sigma>) \<sigma>) (Bs \<sigma> \<noteq> 0) \<sigma>"
definition divw :: op where
  "divw \<sigma> = trapFPE (putW (of_int (sint (Wm \<sigma>) sdiv sint (Ws \<sigma>))) \<sigma>) (divides (sint (Wm \<sigma>)) (sint (Ws \<sigma>)) 32) \<sigma>"
definition divl :: op where
  "divl \<sigma> = trapFPE (putV (of_int (sint (Vm \<sigma>) sdiv sint (Vs \<sigma>))) \<sigma>) (divides (sint (Vm \<sigma>)) (sint (Vs \<sigma>)) 64) \<sigma>"
definition modb :: op where "modb \<sigma> = trapFPE (putB (Bm \<sigma> mod Bs \<sigma>) \<sigma>) (Bs \<sigma> \<noteq> 0) \<sigma>"
definition modw :: op where
  "modw \<sigma> = trapFPE (putW (of_int (sint (Wm \<sigma>) smod sint (Ws \<sigma>))) \<sigma>) (divides (sint (Wm \<sigma>)) (sint (Ws \<sigma>)) 32) \<sigma>"
definition modl :: op where
  "modl \<sigma> = trapFPE (putV (of_int (sint (Vm \<sigma>) smod sint (Vs \<sigma>))) \<sigma>) (divides (sint (Vm \<sigma>)) (sint (Vs \<sigma>)) 64) \<sigma>"

definition andb :: op where "andb \<sigma> = putB (Bm \<sigma> AND Bs \<sigma>) \<sigma>"
definition andw :: op where "andw \<sigma> = putW (Wm \<sigma> AND Ws \<sigma>) \<sigma>"
definition andl :: op where "andl \<sigma> = putV (Vm \<sigma> AND Vs \<sigma>) \<sigma>"
definition xorb :: op where "xorb \<sigma> = putB (Bm \<sigma> XOR Bs \<sigma>) \<sigma>"
definition xorw :: op where "xorw \<sigma> = putW (Wm \<sigma> XOR Ws \<sigma>) \<sigma>"
definition xorl :: op where "xorl \<sigma> = putV (Vm \<sigma> XOR Vs \<sigma>) \<sigma>"
definition orb :: op where "orb \<sigma> = putB (Bm \<sigma> OR Bs \<sigma>) \<sigma>"
definition orw :: op where "orw \<sigma> = putW (Wm \<sigma> OR Ws \<sigma>) \<sigma>"
definition orl :: op where "orl \<sigma> = putV (Vm \<sigma> OR Vs \<sigma>) \<sigma>"

definition shcount :: "WORD \<Rightarrow> WORD \<Rightarrow> nat" where "shcount k s = unat (s AND k)"

definition shlb :: op where "shlb \<sigma> = putB (ucast (push_bit (shcount 31 (Ws \<sigma>)) (ucast (Bm \<sigma>) :: WORD))) \<sigma>"
definition shlw :: op where "shlw \<sigma> = putW (push_bit (shcount 31 (Ws \<sigma>)) (Wm \<sigma>)) \<sigma>"
definition shll :: op where "shll \<sigma> = putV (push_bit (shcount 63 (Ws \<sigma>)) (Vm \<sigma>)) \<sigma>"
definition shrb :: op where "shrb \<sigma> = putB (drop_bit (shcount 31 (Ws \<sigma>)) (Bm \<sigma>)) \<sigma>"
definition shrw :: op where "shrw \<sigma> = putW (signed_drop_bit (shcount 31 (Ws \<sigma>)) (Wm \<sigma>)) \<sigma>"
definition shrl :: op where "shrl \<sigma> = putV (signed_drop_bit (shcount 63 (Ws \<sigma>)) (Vm \<sigma>)) \<sigma>"
definition lsrw :: op where "lsrw \<sigma> = putW (drop_bit (shcount 31 (Ws \<sigma>)) (Wm \<sigma>)) \<sigma>"
definition lsrl :: op where "lsrl \<sigma> = putV (drop_bit (shcount 63 (Ws \<sigma>)) (Vm \<sigma>)) \<sigma>"

section \<open>Branches\<close>

definition beqb :: op where "beqb \<sigma> = JMP_if (Bs \<sigma> = Bm \<sigma>) \<sigma>"
definition bneb :: op where "bneb \<sigma> = JMP_if (Bs \<sigma> \<noteq> Bm \<sigma>) \<sigma>"
definition bltb :: op where "bltb \<sigma> = JMP_if (Bs \<sigma> < Bm \<sigma>) \<sigma>"
definition bleb :: op where "bleb \<sigma> = JMP_if (Bs \<sigma> \<le> Bm \<sigma>) \<sigma>"
definition bgtb :: op where "bgtb \<sigma> = JMP_if (Bs \<sigma> > Bm \<sigma>) \<sigma>"
definition bgeb :: op where "bgeb \<sigma> = JMP_if (Bs \<sigma> \<ge> Bm \<sigma>) \<sigma>"
definition beqw :: op where "beqw \<sigma> = JMP_if (Ws \<sigma> = Wm \<sigma>) \<sigma>"
definition bnew :: op where "bnew \<sigma> = JMP_if (Ws \<sigma> \<noteq> Wm \<sigma>) \<sigma>"
definition bltw :: op where "bltw \<sigma> = JMP_if (Ws \<sigma> <s Wm \<sigma>) \<sigma>"
definition blew :: op where "blew \<sigma> = JMP_if (Ws \<sigma> \<le>s Wm \<sigma>) \<sigma>"
definition bgtw :: op where "bgtw \<sigma> = JMP_if (Wm \<sigma> <s Ws \<sigma>) \<sigma>"
definition bgew :: op where "bgew \<sigma> = JMP_if (Wm \<sigma> \<le>s Ws \<sigma>) \<sigma>"
definition beql :: op where "beql \<sigma> = JMP_if (Vs \<sigma> = Vm \<sigma>) \<sigma>"
definition bnel :: op where "bnel \<sigma> = JMP_if (Vs \<sigma> \<noteq> Vm \<sigma>) \<sigma>"
definition bltl :: op where "bltl \<sigma> = JMP_if (Vs \<sigma> <s Vm \<sigma>) \<sigma>"
definition blel :: op where "blel \<sigma> = JMP_if (Vs \<sigma> \<le>s Vm \<sigma>) \<sigma>"
definition bgtl :: op where "bgtl \<sigma> = JMP_if (Vm \<sigma> <s Vs \<sigma>) \<sigma>"
definition bgel :: op where "bgel \<sigma> = JMP_if (Vm \<sigma> \<le>s Vs \<sigma>) \<sigma>"

definition cmpJ :: "(int \<Rightarrow> bool) \<Rightarrow> op" where
  "cmpJ c \<sigma> = (case stringcmp (Ws \<sigma>) (Wm \<sigma>) \<sigma> of None \<Rightarrow> Crash | Some n \<Rightarrow> JMP_if (c n) \<sigma>)"

definition beqc :: op where "beqc = cmpJ (\<lambda>n. n = 0)"
definition bnec :: op where "bnec = cmpJ (\<lambda>n. n \<noteq> 0)"
definition bltc :: op where "bltc = cmpJ (\<lambda>n. n < 0)"
definition blec :: op where "blec = cmpJ (\<lambda>n. n \<le> 0)"
definition bgtc :: op where "bgtc = cmpJ (\<lambda>n. n > 0)"
definition bgec :: op where "bgec = cmpJ (\<lambda>n. n \<ge> 0)"
definition iexit :: op where "iexit \<sigma> = Err exExit \<sigma>"
definition badop :: op where "badop \<sigma> = Err exOp \<sigma>"


section \<open>Arrays\<close>

definition getarray :: "vm \<Rightarrow> ptr \<Rightarrow> (int \<times> tid \<times> ptr \<times> WORD) option" where
  "getarray \<sigma> a = (case hp \<sigma> a of Some h \<Rightarrow> (case hs h of SArray len t root d \<Rightarrow> Some (len, t, root, d) | _ \<Rightarrow> None) | None \<Rightarrow> None)"

definition ind :: "(tid \<Rightarrow> int) \<Rightarrow> op" where
  \<comment> \<open>the common text of the five index instructions; \<open>sz\<close> is the element size\<close>
  "ind sz \<sigma> =
     (let a = Ws \<sigma>; i = Wd \<sigma> in
      if a = H then Err exBounds \<sigma>
      else case getarray \<sigma> a of None \<Rightarrow> Crash | Some (len, t, root, d) \<Rightarrow>
        if uint i \<ge> uint (of_int len :: WORD) then Err exBounds \<sigma>
        else Ret () (\<sigma>\<lparr>mem := wrW (mem \<sigma>) (rm \<sigma>) (d + i * of_int (sz t))\<rparr>))"

definition indx :: op where "indx \<sigma> = ind (\<lambda>t. tsize (types \<sigma> t)) \<sigma>"
definition indw :: op where "indw = ind (\<lambda>_. 4)"
definition indf :: op where "indf = ind (\<lambda>_. 8)"
definition indl :: op where "indl = ind (\<lambda>_. 8)"
definition indb :: op where "indb = ind (\<lambda>_. 1)"

definition lena :: op where
  "lena \<sigma> = (if Ws \<sigma> = H then putW 0 \<sigma>
     else case getarray \<sigma> (Ws \<sigma>) of None \<Rightarrow> Crash | Some (len, t, root, d) \<Rightarrow> putW (of_int len) \<sigma>)"

section \<open>Pointers\<close>

definition storep :: "ptr \<Rightarrow> op" where
  \<comment> \<open>\<^verbatim>\<open>wp = R.d; t = *wp; *wp = v; destroy(t)\<close>\<close>
  "storep v \<sigma> = liftO (destroy (Wd \<sigma>) (\<sigma>\<lparr>mem := wrW (mem \<sigma>) (rd \<sigma>) v\<rparr>))"

definition movptr :: "ptr \<Rightarrow> op" where
  \<comment> \<open>\<^verbatim>\<open>movp\<close> with the source pointer \<open>sv\<close>\<close>
  "movptr sv \<sigma> = bindM (if sv \<noteq> H then liftO (incref sv \<sigma>) else Ret () \<sigma>) (\<lambda>_ \<sigma>1. storep sv \<sigma>1)"

definition movp :: op where "movp \<sigma> = movptr (Ws \<sigma>) \<sigma>"

definition movmem :: "tid \<Rightarrow> WORD \<Rightarrow> op" where
  \<comment> \<open>\<^verbatim>\<open>incmem(s, t); if(t->np) freeptrs(R.d, t); memmove(R.d, s, t->size)\<close>\<close>
  "movmem t s \<sigma> =
     (let ty = types \<sigma> t in
      bindM (liftO (incmem s ty \<sigma>)) (\<lambda>_ \<sigma>1.
      bindM (if np ty \<noteq> 0 then liftO (freeptrs destroy (rd \<sigma>) ty \<sigma>1) else Ret () \<sigma>1) (\<lambda>_ \<sigma>2.
      Ret () (\<sigma>2\<lparr>mem := memmove (mem \<sigma>2) (rd \<sigma>) s (nat (tsize ty))\<rparr>))))"

definition movmp :: op where
  "movmp \<sigma> = (case modtype \<sigma> (Wm \<sigma>) of None \<Rightarrow> Crash | Some t \<Rightarrow> movmem t (rs \<sigma>) \<sigma>)"

definition movtmp :: "tid \<Rightarrow> op" where
  \<comment> \<open>\<^verbatim>\<open>R.m\<close> is the \<^verbatim>\<open>mid\<close> of a channel, which holds the type\<close>
  "movtmp t \<sigma> = movmem t (rs \<sigma>) \<sigma>"

definition tcmp :: op where
  "tcmp \<sigma> =
     (let s = Ws \<sigma>; d = Wd \<sigma> in
      if s = H then Ret () \<sigma>
      else if d = H then Err exTcheck \<sigma>
      else case (hp \<sigma> s, hp \<sigma> d) of
        (Some hs', Some hd') \<Rightarrow> if ht hs' \<noteq> ht hd' then Err exTcheck \<sigma> else Ret () \<sigma>
      | _ \<Rightarrow> Crash)"

section \<open>Allocation\<close>

definition new :: op where
  "new \<sigma> = (case modtype \<sigma> (Ws \<sigma>) of None \<Rightarrow> Crash | Some t \<Rightarrow> bindM (heap t \<sigma>) (\<lambda>v \<sigma>1. storep v \<sigma>1))"

definition newz :: op where
  "newz \<sigma> = (case modtype \<sigma> (Ws \<sigma>) of None \<Rightarrow> Crash | Some t \<Rightarrow> bindM (heapz t \<sigma>) (\<lambda>v \<sigma>1. storep v \<sigma>1))"

definition mnewz :: op where
  "mnewz \<sigma> =
     (if Ws \<sigma> = H then Err exModule \<sigma>
      else case modlink \<sigma> (Ws \<sigma>) of None \<Rightarrow> Crash | Some (MP, m, c, l) \<Rightarrow>
        (case (if unat (Wm \<sigma>) < length (mtype (mods \<sigma> m)) then mtype (mods \<sigma> m) ! unat (Wm \<sigma>) else None) of
           None \<Rightarrow> Crash | Some t \<Rightarrow> bindM (heapz t \<sigma>) (\<lambda>v \<sigma>1. storep v \<sigma>1)))"

definition acheck :: "WORD \<Rightarrow> WORD \<Rightarrow> vm \<Rightarrow> unit outcome" where
  "acheck tsz sz \<sigma> =
     (if sint sz < 0 then Err exNegsize \<sigma>
      else if sint (of_int (sizeof_Array + sizeof_Heap) + tsz * sz) < sint sz then Err exHeap \<sigma>
      else Ret () \<sigma>)"

definition newarray :: "bool \<Rightarrow> op" where
  \<comment> \<open>the common text of \<^verbatim>\<open>newa\<close> and \<^verbatim>\<open>newaz\<close>, which clears the elements; \<open>of_int\<close> is the wrap of \<^verbatim>\<open>int\<close>\<close>
  "newarray z \<sigma> =
     (case modtype \<sigma> (Wm \<sigma>) of None \<Rightarrow> Crash | Some t \<Rightarrow>
       let sz = Ws \<sigma>; tsz = of_int (tsize (types \<sigma> t)) in
       bindM (acheck tsz sz \<sigma>) (\<lambda>_ \<sigma>0.
       bindM (nheap (sint (of_int sizeof_Array + tsz * sz)) \<sigma>0) (\<lambda>a \<sigma>1.
         let d = a + of_int sizeof_Array;
             \<sigma>2 = settype Tarray (SArray (sint sz) t H d) a \<sigma>1;
             \<sigma>3 = (if z then \<sigma>2\<lparr>mem := memset0 (mem \<sigma>2) d (unat (tsz * sz))\<rparr> else \<sigma>2) in
         bindM (liftO (initarray t a \<sigma>3)) (\<lambda>_ \<sigma>4. storep a \<sigma>4))))"

definition newa :: op where "newa = newarray False"
definition newaz :: op where "newaz = newarray True"

definition cnewc :: "mover \<Rightarrow> vm \<Rightarrow> ptr outcome" where
  "cnewc mv \<sigma> = bindM (heap Tchannel \<sigma>) (\<lambda>c \<sigma>1.
     Ret c (updchan c (\<lambda>ch. ch\<lparr>send := [], sendalt := None, recv := [], recvalt := None, mover := mv\<rparr>) \<sigma>1))"

definition newc :: "mover \<Rightarrow> vm \<Rightarrow> ptr outcome" where
  "newc mv \<sigma> = bindM (cnewc mv \<sigma>) (\<lambda>c \<sigma>1. bindM (storep c \<sigma>1) (\<lambda>_ \<sigma>2. Ret c \<sigma>2))"

definition newc_op :: "mover \<Rightarrow> op" where "newc_op mv \<sigma> = bindM (newc mv \<sigma>) (\<lambda>_ \<sigma>1. Ret () \<sigma>1)"

definition newcl :: op where "newcl = newc_op mv_movl"
definition newcb :: op where "newcb = newc_op mv_movb"
definition newcw :: op where "newcw = newc_op mv_movw"
definition newcf :: op where "newcf = newc_op mv_movf"
definition newcp :: op where "newcp = newc_op mv_movp"

definition newcm :: op where
  "newcm \<sigma> = bindM (newc mv_movm \<sigma>) (\<lambda>c \<sigma>1. Ret () (updchan c (\<lambda>ch. ch\<lparr>midw := Ws \<sigma>1\<rparr>) \<sigma>1))"

definition newcmp :: op where
  "newcmp \<sigma> = bindM (newc mv_movtmp \<sigma>) (\<lambda>c \<sigma>1.
     case modtype \<sigma>1 (Ws \<sigma>1) of None \<Rightarrow> Crash
     | Some t \<Rightarrow> Ret () (typeref 1 t (updchan c (\<lambda>ch. ch\<lparr>midt := t\<rparr>) \<sigma>1)))"

section \<open>Lists\<close>

definition sizeof_List :: int where "sizeof_List = 24"

definition cons :: "int \<Rightarrow> ptr \<Rightarrow> vm \<Rightarrow> ptr outcome" where
  \<comment> \<open>\<open>lv\<close> is \<^verbatim>\<open>*lp\<close>; the caller stores the new cell there\<close>
  "cons sz lv \<sigma> = bindM (nheap (sizeof_List + sz) \<sigma>) (\<lambda>l \<sigma>1.
     let \<sigma>2 = settype Tlist (SList H None) l \<sigma>1;
         \<sigma>3 = (if lv \<noteq> H then Setmark lv \<sigma>2 else \<sigma>2) in
     Ret l (updobj l (\<lambda>h. h\<lparr>hs := SList lv None\<rparr>) \<sigma>3))"

definition consd :: "int \<Rightarrow> vm \<Rightarrow> ptr outcome" where
  \<comment> \<open>\<^verbatim>\<open>cons(size, R.d)\<close>\<close>
  "consd sz \<sigma> = bindM (cons sz (Wd \<sigma>) \<sigma>) (\<lambda>l \<sigma>1. Ret l (\<sigma>1\<lparr>mem := wrW (mem \<sigma>1) (rd \<sigma>1) l\<rparr>))"

definition setcell :: "tid \<Rightarrow> ptr \<Rightarrow> vm \<Rightarrow> vm" where
  \<comment> \<open>\<^verbatim>\<open>l->t = t; t->ref++\<close>\<close>
  "setcell t l \<sigma> = typeref 1 t (updobj l (\<lambda>h. h\<lparr>hs := (case hs h of SList nx e \<Rightarrow> SList nx (Some t) | x \<Rightarrow> x)\<rparr>) \<sigma>)"

definition consb :: op where
  "consb \<sigma> = bindM (consd 4 \<sigma>) (\<lambda>l \<sigma>1. Ret () (\<sigma>1\<lparr>mem := wrB (mem \<sigma>1) (ldata l) (Bs \<sigma>1)\<rparr>))"
definition consw :: op where
  "consw \<sigma> = bindM (consd 4 \<sigma>) (\<lambda>l \<sigma>1. Ret () (\<sigma>1\<lparr>mem := wrW (mem \<sigma>1) (ldata l) (Ws \<sigma>1)\<rparr>))"
definition consl :: op where
  "consl \<sigma> = bindM (consd 8 \<sigma>) (\<lambda>l \<sigma>1. Ret () (\<sigma>1\<lparr>mem := wrV (mem \<sigma>1) (ldata l) (Vs \<sigma>1)\<rparr>))"
definition consp :: op where
  "consp \<sigma> = bindM (consd 4 \<sigma>) (\<lambda>l \<sigma>1.
     let sv = Ws \<sigma>1 in
     bindM (if sv \<noteq> H then liftO (incref sv \<sigma>1) else Ret () \<sigma>1) (\<lambda>_ \<sigma>2.
       let \<sigma>3 = setcell Tptr l \<sigma>2 in Ret () (\<sigma>3\<lparr>mem := wrW (mem \<sigma>3) (ldata l) sv\<rparr>)))"
definition consf :: op where
  \<comment> \<open>a \<^verbatim>\<open>REAL\<close> is moved as its eight bytes\<close>
  "consf \<sigma> = bindM (consd 8 \<sigma>) (\<lambda>l \<sigma>1. Ret () (\<sigma>1\<lparr>mem := wrV (mem \<sigma>1) (ldata l) (Vs \<sigma>1)\<rparr>))"
definition consm :: op where
  "consm \<sigma> = (let v = Wm \<sigma> in bindM (consd (sint v) \<sigma>) (\<lambda>l \<sigma>1.
     Ret () (\<sigma>1\<lparr>mem := memmove (mem \<sigma>1) (ldata l) (rs \<sigma>1) (unat v)\<rparr>)))"
definition consmp :: op where
  "consmp \<sigma> = (case modtype \<sigma> (Wm \<sigma>) of None \<Rightarrow> Crash | Some t \<Rightarrow>
     let ty = types \<sigma> t in
     bindM (consd (tsize ty) \<sigma>) (\<lambda>l \<sigma>1.
     bindM (liftO (incmem (rs \<sigma>1) ty \<sigma>1)) (\<lambda>_ \<sigma>2.
       Ret () (setcell t l (\<sigma>2\<lparr>mem := memmove (mem \<sigma>2) (ldata l) (rs \<sigma>2) (nat (tsize ty))\<rparr>)))))"

definition islistcell :: "vm \<Rightarrow> ptr \<Rightarrow> bool" where
  "islistcell \<sigma> l = (gettail \<sigma> l \<noteq> None)"

definition headb :: op where
  "headb \<sigma> = (let l = Ws \<sigma> in if islistcell \<sigma> l then putB (rdB (mem \<sigma>) (ldata l)) \<sigma> else Crash)"
definition headw :: op where
  "headw \<sigma> = (let l = Ws \<sigma> in if islistcell \<sigma> l then putW (rdW (mem \<sigma>) (ldata l)) \<sigma> else Crash)"
definition headl :: op where
  "headl \<sigma> = (let l = Ws \<sigma> in if islistcell \<sigma> l then putV (rdV (mem \<sigma>) (ldata l)) \<sigma> else Crash)"
definition headf :: op where
  "headf \<sigma> = (let l = Ws \<sigma> in if islistcell \<sigma> l then putV (rdV (mem \<sigma>) (ldata l)) \<sigma> else Crash)"
definition headp :: op where
  "headp \<sigma> = (let l = Ws \<sigma> in if islistcell \<sigma> l then movp (\<sigma>\<lparr>rs := ldata l\<rparr>) else Crash)"
definition headm :: op where
  "headm \<sigma> = (let l = Ws \<sigma> in
     if islistcell \<sigma> l then Ret () (\<sigma>\<lparr>mem := memmove (mem \<sigma>) (rd \<sigma>) (ldata l) (unat (Wm \<sigma>))\<rparr>) else Crash)"
definition headmp :: op where
  "headmp \<sigma> = (let l = Ws \<sigma> in if islistcell \<sigma> l then movmp (\<sigma>\<lparr>rs := ldata l\<rparr>) else Crash)"
definition tail :: op where
  "tail \<sigma> = (let l = Ws \<sigma> in case gettail \<sigma> l of None \<Rightarrow> Crash | Some nx \<Rightarrow> movptr nx (\<sigma>\<lparr>rs := l\<rparr>))"

text \<open>The walk down a list; every cell is another block, so the number of addresses is fuel enough.\<close>

fun lenl_loop :: "nat \<Rightarrow> vm \<Rightarrow> ptr \<Rightarrow> WORD \<Rightarrow> WORD option" where
  "lenl_loop 0 \<sigma> a l = None"
| "lenl_loop (Suc n) \<sigma> a l =
     (if a = H then Some l else case gettail \<sigma> a of None \<Rightarrow> None | Some nx \<Rightarrow> lenl_loop n \<sigma> nx (l + 1))"

definition lenl :: op where
  "lenl \<sigma> = (case lenl_loop nblocks \<sigma> (Ws \<sigma>) 0 of None \<Rightarrow> Crash | Some l \<Rightarrow> putW l \<sigma>)"

section \<open>Slices of arrays\<close>

definition slicea :: op where
  "slicea \<sigma> =
     (let v = Wm \<sigma>; start = Ws \<sigma>; n = v - start; ds = Wd \<sigma> in
      if ds = H then (if n = 0 then Ret () \<sigma> else Err exNilref \<sigma>)
      else case getarray \<sigma> ds of None \<Rightarrow> Crash | Some (len, t, root, d) \<Rightarrow>
        if sint n < 0 \<or> start > of_int len \<or> v > of_int len then Err exBounds \<sigma>
        else
          bindM (heap Tarray \<sigma>) (\<lambda>ss \<sigma>1.
            let data = d + start * of_int (tsize (types \<sigma> t)) in
            if root \<noteq> H then
              (case hp \<sigma>1 root of None \<Rightarrow> Crash | Some _ \<Rightarrow>
               let \<sigma>2 = updobj root (\<lambda>h. h\<lparr>href := href h + 1\<rparr>)
                          (typeref 1 t (updobj ss (\<lambda>h. h\<lparr>hs := SArray (sint n) t root data\<rparr>) \<sigma>1)) in
               bindM (storep ss \<sigma>2) (\<lambda>_ \<sigma>3. Ret () (Setmark root \<sigma>3)))
            else
              (let \<sigma>2 = typeref 1 t (updobj ss (\<lambda>h. h\<lparr>hs := SArray (sint n) t ds data\<rparr>) \<sigma>1) in
               Ret () (Setmark ds (\<sigma>2\<lparr>mem := wrW (mem \<sigma>2) (rd \<sigma>2) ss\<rparr>)))))"

definition slice_elem :: "Type \<Rightarrow> WORD \<Rightarrow> WORD \<Rightarrow> nat \<Rightarrow> vm \<Rightarrow> vm option" where
  \<comment> \<open>\<^verbatim>\<open>incmem(sp, t); freeptrs(dp, t)\<close> for element \<open>i\<close>\<close>
  "slice_elem ty sp dp i \<sigma> =
     (let o' = of_nat i * of_int (tsize ty) in
      Option.bind (incmem (sp + o') ty \<sigma>) (\<lambda>\<sigma>1. freeptrs destroy (dp + o') ty \<sigma>1))"

definition slicela :: op where
  "slicela \<sigma> =
     (let ss = Ws \<sigma>; dl = Wm \<sigma>; ds = Wd \<sigma> in
      if ss = H then Ret () \<sigma>
      else if ds = H then Err exNilref \<sigma>
      else case (getarray \<sigma> ss, getarray \<sigma> ds) of
        (Some (sl, st, sr, sd), Some (len, t, root, dd)) \<Rightarrow>
          if sint (dl + of_int sl) > len then Err exBounds \<sigma>
          else
            (let ty = types \<sigma> t; dp = dd + dl * of_int (tsize ty); n = nat (sl * tsize ty);
                 is = (if dp > sd then rev [0 ..< nat sl] else [0 ..< nat sl]) in
             bindM (if np ty = 0 then Ret () \<sigma> else liftO (foldO (slice_elem ty sd dp) is \<sigma>))
               (\<lambda>_ \<sigma>1. Ret () (\<sigma>1\<lparr>mem := memmove (mem \<sigma>1) dp sd n\<rparr>)))
      | _ \<Rightarrow> Crash)"

section \<open>Jump tables\<close>

definition setPC :: "WORD \<Rightarrow> op" where
  \<comment> \<open>compiled code has addresses in its tables, other code indices of instructions\<close>
  "setPC d \<sigma> = (case curmod \<sigma> of None \<Rightarrow> Crash
     | Some (m, c) \<Rightarrow> Ret () (\<sigma>\<lparr>rPC := (if c then d else mprog m + sizeof_Inst * d)\<rparr>))"

function icase_loop :: "mem \<Rightarrow> int \<Rightarrow> WORD \<Rightarrow> int \<Rightarrow> WORD \<Rightarrow> WORD" where
  "icase_loop m v t n d =
     (if n > 0 then
        (let n2 = n div 2; l = t + 12 * of_int n2 in
         if v < sint (rdW m l) then icase_loop m v t n2 d
         else if v \<ge> sint (rdW m (l + 4)) then icase_loop m v (l + 12) (n - (n2 + 1)) d
         else rdW m (l + 8))
      else d)"
  by pat_completeness auto
termination by (relation "measure (\<lambda>(m, v, t, n, d). nat n)") auto

declare icase_loop.simps [simp del]

definition icase :: op where
  "icase \<sigma> =
     (let t = rd \<sigma> + 4; n = rdW (mem \<sigma>) (t - 4) in
      setPC (icase_loop (mem \<sigma>) (sint (Ws \<sigma>)) t (sint n) (rdW (mem \<sigma>) (t + 4 * (n * 3)))) \<sigma>)"

text \<open>\<^verbatim>\<open>casec\<close> tries the entries in turn; the word after the last is the default.\<close>

fun casec_loop :: "vm \<Rightarrow> ptr \<Rightarrow> WORD \<Rightarrow> nat \<Rightarrow> WORD option" where
  "casec_loop \<sigma> sv t 0 = Some (rdW (mem \<sigma>) t)"
| "casec_loop \<sigma> sv t (Suc n) =
     (let sl = rdW (mem \<sigma>) t; sh = rdW (mem \<sigma>) (t + 4) in
      if sh = H then
        (case stringcmp sl sv \<sigma> of None \<Rightarrow> None
         | Some c \<Rightarrow> if c = 0 then Some (rdW (mem \<sigma>) (t + 8)) else casec_loop \<sigma> sv (t + 12) n)
      else
        (case stringcmp sl sv \<sigma> of None \<Rightarrow> None
         | Some c \<Rightarrow>
           if c \<le> 0 then
             (case stringcmp sh sv \<sigma> of None \<Rightarrow> None
              | Some c' \<Rightarrow> if c' \<ge> 0 then Some (rdW (mem \<sigma>) (t + 8)) else casec_loop \<sigma> sv (t + 12) n)
           else casec_loop \<sigma> sv (t + 12) n))"

definition casec :: op where
  "casec \<sigma> = (case casec_loop \<sigma> (Ws \<sigma>) (rd \<sigma> + 4) (nat (sint (Wd \<sigma>))) of None \<Rightarrow> Crash | Some d \<Rightarrow> setPC d \<sigma>)"

definition igoto :: op where
  "igoto \<sigma> = setPC (rdW (mem \<sigma>) (rd \<sigma> + Ws \<sigma> * 4)) \<sigma>"

section \<open>Jump tables\<close>

definition entry :: "mem \<Rightarrow> WORD \<Rightarrow> nat \<Rightarrow> int \<times> int \<times> WORD" where
  "entry m t i = (let l = t + 12 * of_nat i in (sint (rdW m l), sint (rdW m (l + 4)), rdW m (l + 8)))"

definition table :: "mem \<Rightarrow> WORD \<Rightarrow> nat \<Rightarrow> (int \<times> int \<times> WORD) list" where
  "table m t n = map (entry m t) [0 ..< n]"

definition covers :: "int \<Rightarrow> int \<times> int \<times> WORD \<Rightarrow> bool" where
  "covers v e = (fst e \<le> v \<and> v < fst (snd e))"

definition lookup_range :: "int \<Rightarrow> WORD \<Rightarrow> (int \<times> int \<times> WORD) list \<Rightarrow> WORD" where
  "lookup_range v d es = (case find (covers v) es of None \<Rightarrow> d | Some e \<Rightarrow> snd (snd e))"

definition sorted_ranges :: "(int \<times> int \<times> WORD) list \<Rightarrow> bool" where
  "sorted_ranges es \<longleftrightarrow> (\<forall>e\<in>set es. fst e < fst (snd e)) \<and> sorted_wrt (\<lambda>e f. fst (snd e) \<le> fst f) es"

lemma find_append: "find P (xs @ ys) = (case find P xs of None \<Rightarrow> find P ys | Some x \<Rightarrow> Some x)"
  by (induction xs) auto

lemma find_skip: "(\<And>x. x \<in> set xs \<Longrightarrow> \<not> P x) \<Longrightarrow> find P xs = None"
  by (simp add: find_None_iff)

lemma table_split:
  assumes "k < n"
  shows "table m t n = table m t k @ entry m t k # table m (t + 12 * of_nat (Suc k)) (n - Suc k)"
proof -
  have "[0 ..< n] = [0 ..< k] @ k # [Suc k ..< n]" using assms by (metis less_imp_le_nat plus_1_eq_Suc upt_add_eq_append upt_conv_Cons le_add_diff_inverse zero_le)
  moreover have "map (entry m t) [Suc k ..< n] = map (entry m (t + 12 * of_nat (Suc k))) [0 ..< n - Suc k]"
    by (rule nth_equalityI) (auto simp: entry_def algebra_simps)
  ultimately show ?thesis by (simp add: table_def)
qed

lemma icase_loop_lookup:
  assumes "sorted_ranges (table m t (nat n))" "0 \<le> n"
  shows "icase_loop m v t n d = lookup_range v d (table m t (nat n))"
  using assms
proof (induction m v t n d rule: icase_loop.induct)
  case (1 m v t n d)
  show ?case
  proof (cases "n > 0")
    case False
    then show ?thesis using 1 by (simp add: icase_loop.simps table_def lookup_range_def)
  next
    case True
    define k where "k = nat (n div 2)"
    define e where "e = entry m t k"
    have k: "k < nat n" "of_int (n div 2) = (of_nat k :: WORD)" "nat (n div 2) = k"
      using True by (auto simp: k_def)
    let ?lo = "table m t k" and ?hi = "table m (t + 12 * of_nat (Suc k)) (nat n - Suc k)"
    have T: "table m t (nat n) = ?lo @ e # ?hi" using table_split [OF k(1)] by (simp add: e_def)
    have so: "sorted_ranges ?lo" "sorted_ranges ?hi" "fst e < fst (snd e)"
      "\<And>x. x \<in> set ?lo \<Longrightarrow> fst (snd x) \<le> fst e" "\<And>x. x \<in> set ?hi \<Longrightarrow> fst (snd e) \<le> fst x"
      using "1.prems"(1) unfolding T by (auto simp: sorted_ranges_def sorted_wrt_append)
    have E: "fst e = sint (rdW m (t + 12 * of_int (n div 2)))" "fst (snd e) = sint (rdW m (t + 12 * of_int (n div 2) + 4))"
      "snd (snd e) = rdW m (t + 12 * of_int (n div 2) + 8)"
      unfolding k(2) by (simp_all add: e_def entry_def Let_def)
    have nx: "t + 12 * of_int (n div 2) + 12 = t + 12 * of_nat (Suc k)" "nat (n - (n div 2 + 1)) = nat n - Suc k" "0 \<le> n - (n div 2 + 1)"
      using True k by (auto simp: algebra_simps)
    note IH = "1.IH"
    note step = icase_loop.simps [of m v t n d]
    consider "v < fst e" | "v \<ge> fst (snd e)" | "covers v e" unfolding covers_def by linarith
    then show ?thesis
    proof cases
      case 1
      have "icase_loop m v t n d = icase_loop m v t (n div 2) d" using step True 1 E by (simp add: Let_def)
      also have "\<dots> = lookup_range v d ?lo"
        using IH(1) [OF True refl refl] 1 E so(1) k(3) True by simp
      also have "\<dots> = lookup_range v d (table m t (nat n))"
      proof -
        have "find (covers v) (e # ?hi) = None" using 1 so(3,5) by (intro find_skip) (force simp: covers_def)
        then show ?thesis unfolding T lookup_range_def find_append by (simp split: option.split)
      qed
      finally show ?thesis .
    next
      case 2
      have "icase_loop m v t n d = icase_loop m v (t + 12 * of_nat (Suc k)) (n - (n div 2 + 1)) d"
        using step True 2 so(3) E nx by (simp add: Let_def)
      also have "\<dots> = lookup_range v d ?hi"
        using IH(2) [OF True refl refl] 2 E so nx by simp
      also have "\<dots> = lookup_range v d (table m t (nat n))"
      proof -
        have "find (covers v) (?lo @ [e]) = None" using 2 so(3,4) by (intro find_skip) (force simp: covers_def)
        then show ?thesis unfolding T lookup_range_def find_append by (simp split: option.splits if_splits)
      qed
      finally show ?thesis .
    next
      case 3
      have "icase_loop m v t n d = snd (snd e)" using step True 3 E by (simp add: Let_def covers_def)
      moreover have "find (covers v) ?lo = None" using 3 so(4) by (intro find_skip) (force simp: covers_def)
      ultimately show ?thesis using 3 unfolding T lookup_range_def find_append by simp
    qed
  qed
qed

section \<open>Pointer moves keep the counts exact\<close>

definition offheap :: "vm \<Rightarrow> WORD \<Rightarrow> bool" where
  \<comment> \<open>the word at \<open>a\<close> is not part of a heap block: a slot of a frame\<close>
  "offheap \<sigma> a \<longleftrightarrow> (\<forall>w v h. hp \<sigma> v = Some h \<longrightarrow> kids_of (wrW (mem \<sigma>) a w) (types \<sigma>) v h = kids_of (mem \<sigma>) (types \<sigma>) v h)"

lemma counted_store:
  assumes c: "counted B {} R M \<sigma>" and a: "offheap \<sigma> a"
  shows "counted B {} R M (\<sigma>\<lparr>mem := wrW (mem \<sigma>) a w\<rparr>)"
proof -
  let ?s = "\<sigma>\<lparr>mem := wrW (mem \<sigma>) a w\<rparr>"
  have k: "kids ?s = kids \<sigma>" using a by (auto simp: fun_eq_iff kids_def offheap_def split: option.splits)
  have m: "modkids ?s = modkids \<sigma>" "live {} ?s = live {} \<sigma>" by (simp_all add: fun_eq_iff modkids_def live_def)
  show ?thesis
    by (rule counted_swap [OF c]) (use c in \<open>simp_all add: refsto_def modrefs_def k m refcount_def counted_def\<close>)
qed

lemma incref_offheap:
  assumes "incref v \<sigma> = Some \<sigma>'" "offheap \<sigma> a"
  shows "offheap \<sigma>' a"
proof -
  have s: "\<sigma>' = Setmark v (updobj v (\<lambda>h. h\<lparr>href := href h + 1\<rparr>) \<sigma>)" using assms(1) by (auto simp: incref_def split: option.splits)
  have "\<exists>h. hp \<sigma> u = Some h \<and> ht h' = ht h \<and> hs h' = hs h" if "hp \<sigma>' u = Some h'" for u h'
    using that unfolding s by (auto simp: hp_Setmark split: if_splits)
  moreover have "kids_of m ty u h' = kids_of m ty u h" if "ht h' = ht h" "hs h' = hs h" for m ty u h h'
    by (rule kids_of_cong) (use that in simp_all)
  ultimately show ?thesis using assms(2) unfolding offheap_def
    by (metis (no_types, lifting) s Setmark_sel updobj_sel)
qed

lemma storep_counted:
  assumes c: "counted B {} (add_mset (Wd \<sigma>) R) M \<sigma>" and "offheap \<sigma> (rd \<sigma>)" "B \<subseteq># R"
  shows "\<exists>\<sigma>'. storep v \<sigma> = Ret () \<sigma>' \<and> counted B {} R M \<sigma>' \<and> mem \<sigma>' = wrW (mem \<sigma>) (rd \<sigma>) v"
proof -
  obtain \<sigma>' where "destroy (Wd \<sigma>) (\<sigma>\<lparr>mem := wrW (mem \<sigma>) (rd \<sigma>) v\<rparr>) = Some \<sigma>'" "counted B {} R M \<sigma>'"
    "kept {} {} (\<sigma>\<lparr>mem := wrW (mem \<sigma>) (rd \<sigma>) v\<rparr>) \<sigma>'"
    using dis_heap.release [OF counted_store [OF c assms(2), where w = v] assms(3) order_refl] by blast
  moreover from this(3) have "mem \<sigma>' = wrW (mem \<sigma>) (rd \<sigma>) v" by (simp add: kept_def)
  ultimately show ?thesis by (simp add: storep_def)
qed

lemma movptr_counted:
  assumes c: "counted B {} (add_mset (Wd \<sigma>) R) M \<sigma>" and a: "offheap \<sigma> (rd \<sigma>)" "B \<subseteq># R"
    and s: "sv \<noteq> H \<Longrightarrow> \<exists>h. hp \<sigma> sv = Some h \<and> unat (href h) + 1 < 2 ^ 32"
  shows "\<exists>\<sigma>'. movptr sv \<sigma> = Ret () \<sigma>' \<and> counted B {} (add_mset sv R) M \<sigma>' \<and> mem \<sigma>' = wrW (mem \<sigma>) (rd \<sigma>) sv"
proof -
  have B: "B \<subseteq># add_mset sv R" using a(2) by (rule subset_mset.order_trans) simp
  show ?thesis
proof (cases "sv = H")
  case True
  have "counted B {} (add_mset H (add_mset (Wd \<sigma>) R)) M \<sigma>"
  proof (rule counted_swap [OF c])
    show "pool_inv (heapmem \<sigma>) (hblk ` dom (hp \<sigma>))" using c by (simp add: counted_def)
  qed (simp_all add: refsto_def)
  then have "counted B {} (add_mset (Wd \<sigma>) (add_mset H R)) M \<sigma>" by (simp add: add_mset_commute)
  from storep_counted [OF this a(1), of H] B True show ?thesis by (simp add: movptr_def)
next
  case False
  obtain h where h: "hp \<sigma> sv = Some h" "unat (href h) + 1 < 2 ^ 32" using s False by blast
  obtain \<sigma>1 where 1: "incref sv \<sigma> = Some \<sigma>1" "counted B {} (add_mset sv (add_mset (Wd \<sigma>) R)) M \<sigma>1" "mem \<sigma>1 = mem \<sigma>"
    using incref_counted [OF c h(1) _ h(2)] by auto
  have rd: "rd \<sigma>1 = rd \<sigma>" using 1(1) h(1) by (auto simp: incref_def Setmark_def updobj_def split: option.splits if_splits)
  have w: "Wd \<sigma>1 = Wd \<sigma>" by (simp add: Wd_def 1(3) rd)
  have "counted B {} (add_mset (Wd \<sigma>1) (add_mset sv R)) M \<sigma>1" using 1(2) by (simp add: w add_mset_commute)
  from storep_counted [OF this, of sv] incref_offheap [OF 1(1) a(1)] B False 1 rd show ?thesis by (simp add: movptr_def)
qed
qed

section \<open>Lists and arrays\<close>

inductive listpath :: "vm \<Rightarrow> ptr \<Rightarrow> ptr list \<Rightarrow> bool" for \<sigma> where
  nil: "listpath \<sigma> H []"
| cell: "gettail \<sigma> a = Some nx \<Longrightarrow> a \<noteq> H \<Longrightarrow> listpath \<sigma> nx ps \<Longrightarrow> listpath \<sigma> a (a # ps)"

inductive_cases listpath_ConsE: "listpath \<sigma> a (p # ps)"

lemma listpath_fun: "listpath \<sigma> a ps \<Longrightarrow> listpath \<sigma> a qs \<Longrightarrow> ps = qs"
proof (induction arbitrary: qs rule: listpath.induct)
  case nil
  then show ?case by (auto elim: listpath.cases)
next
  case (cell a nx ps)
  from cell.prems show ?case
  proof (cases rule: listpath.cases)
    case (cell nx' ps')
    then have "listpath \<sigma> nx ps'" using \<open>gettail \<sigma> a = Some nx\<close> by simp
    then show ?thesis using cell(1) \<open>\<And>qs. listpath \<sigma> nx qs \<Longrightarrow> ps = qs\<close> by simp
  qed (use cell.hyps in simp)
qed

lemma listpath_suffix: "listpath \<sigma> a ps \<Longrightarrow> b \<in> set ps \<Longrightarrow> \<exists>us vs. ps = us @ b # vs \<and> listpath \<sigma> b (b # vs)"
proof (induction rule: listpath.induct)
  case (cell a nx ps)
  show ?case
  proof (cases "b = a")
    case True
    then show ?thesis using listpath.cell [OF cell.hyps(1,2,3)] by (metis append_Nil)
  next
    case False
    then obtain us vs where "ps = us @ b # vs" "listpath \<sigma> b (b # vs)" using cell by auto
    then show ?thesis by (metis append_Cons)
  qed
qed simp

lemma listpath_distinct: "listpath \<sigma> a ps \<Longrightarrow> distinct ps"
proof (induction rule: listpath.induct)
  case (cell a nx ps)
  have "a \<notin> set ps"
  proof
    assume "a \<in> set ps"
    then obtain us vs where "ps = us @ a # vs" "listpath \<sigma> a (a # vs)" using listpath_suffix [OF cell.hyps(3)] by blast
    moreover have "listpath \<sigma> a (a # ps)" using cell.hyps by (rule listpath.cell)
    ultimately show False using listpath_fun [of \<sigma> a "a # ps" "a # vs"] by simp
  qed
  then show ?case using cell.IH by simp
qed simp

lemma lenl_loop_path: "listpath \<sigma> a ps \<Longrightarrow> length ps < n \<Longrightarrow> lenl_loop n \<sigma> a l = Some (l + of_nat (length ps))"
proof (induction arbitrary: n l rule: listpath.induct)
  case nil
  then show ?case by (cases n) simp_all
next
  case (cell a nx ps)
  then show ?case by (cases n) (simp_all add: algebra_simps)
qed

lemma listpath_length: "listpath \<sigma> a ps \<Longrightarrow> length ps < nblocks"
proof -
  assume "listpath \<sigma> a ps"
  then have "length ps = card (set ps)" using listpath_distinct by (simp add: distinct_card)
  also have "\<dots> \<le> card (UNIV :: WORD set)" by (rule card_mono) simp_all
  also have "\<dots> = 4294967296" by (simp add: card_word)
  finally show ?thesis by (simp add: nblocks_def)
qed

lemma ind_in:
  assumes "getarray \<sigma> a = Some (len, t, root, d)" "Ws \<sigma> = a" "a \<noteq> H" "0 \<le> len" "0 \<le> sz t" "uint d + len * sz t < 2 ^ 32" "len < 2 ^ 31"
    and i: "uint (Wd \<sigma>) < len"
  shows "\<exists>ad. ind sz \<sigma> = Ret () (\<sigma>\<lparr>mem := wrW (mem \<sigma>) (rm \<sigma>) ad\<rparr>) \<and>
    uint ad = uint d + uint (Wd \<sigma>) * sz t \<and> uint ad + sz t \<le> uint d + len * sz t"
proof -
  let ?i = "Wd \<sigma>" let ?z = "sz t" let ?ad = "d + ?i * of_int ?z"
  have l: "uint (of_int len :: WORD) = len" using assms(4,7) by (simp add: uint_word_of_int_eq take_bit_eq_mod)
  have m: "(uint ?i + 1) * ?z \<le> len * ?z" using i assms(5) by (intro mult_right_mono) auto
  then have iz: "uint ?i * ?z + ?z \<le> len * ?z" by (simp add: algebra_simps)
  have nn: "0 \<le> uint ?i * ?z" using assms(5) by simp
  have "?ad = of_int (uint d + uint ?i * ?z)" by simp
  then have "uint ?ad = (uint d + uint ?i * ?z) mod 2 ^ 32" by (simp only: uint_word_of_int) simp
  also have "\<dots> = uint d + uint ?i * ?z" using iz nn assms(5,6) by (intro mod_pos_pos_trivial) auto
  finally have u: "uint ?ad = uint d + uint ?i * ?z" .
  have "ind sz \<sigma> = Ret () (\<sigma>\<lparr>mem := wrW (mem \<sigma>) (rm \<sigma>) ?ad\<rparr>)"
    using assms(1,2,3) i l by (simp add: ind_def Let_def)
  then show ?thesis using u iz by auto
qed

section \<open>Division\<close>

lemma sdiv_range:
  fixes m s :: int
  assumes "divides m s w" "- (2 ^ (w - 1)) \<le> m" "m < 2 ^ (w - 1)"
  shows "- (2 ^ (w - 1)) \<le> m sdiv s" "m sdiv s < 2 ^ (w - 1)"
proof -
  let ?n = "2 ^ (w - 1) :: int"
  have r: "- \<bar>m\<bar> \<le> m sdiv s" "m sdiv s \<le> \<bar>m\<bar>" using sdiv_int_range [of m s] by auto
  have m: "\<bar>m\<bar> \<le> ?n" using assms(2,3) by linarith
  show "- ?n \<le> m sdiv s" using r m by linarith
  show "m sdiv s < ?n"
  proof (rule ccontr)
    assume "\<not> m sdiv s < ?n"
    then have e: "m sdiv s = ?n" "\<bar>m\<bar> = ?n" using r m by linarith+
    then have mn: "m = - ?n" using assms(3) by linarith
    have "m sdiv s = sgn m * sgn s * (?n div \<bar>s\<bar>)" unfolding e(2) [symmetric] by (simp add: signed_divide_int_def)
    moreover have "sgn m = -1" unfolding mn by simp
    ultimately have q: "?n = - sgn s * (?n div \<bar>s\<bar>)" using e(1) by simp
    have "?n div \<bar>s\<bar> \<ge> 0" by (simp add: div_int_pos_iff)
    note ge = this
    have pos: "0 < ?n" by simp
    have "s < 0"
    proof (rule ccontr)
      assume "\<not> s < 0"
      then have "sgn s = 1" using assms(1) by (simp add: divides_def)
      then have "?n = - (?n div \<bar>s\<bar>)" using q by simp
      then show False using ge pos by linarith
    qed
    then have "?n = ?n div \<bar>s\<bar>" using q by simp
    then have "\<bar>s\<bar> = 1" using \<open>s < 0\<close> int_div_less_self [of ?n "\<bar>s\<bar>"] by (cases "1 < \<bar>s\<bar>") auto
    then show False using \<open>s < 0\<close> mn assms(1) by (auto simp: divides_def)
  qed
qed

lemma smod_range:
  fixes m s :: int
  assumes "s \<noteq> 0"
  shows "\<bar>m smod s\<bar> < \<bar>s\<bar>" "m = s * (m sdiv s) + m smod s" "m smod s \<noteq> 0 \<Longrightarrow> sgn (m smod s) = sgn m"
proof -
  show "m = s * (m sdiv s) + m smod s" by (simp add: mult_sdiv_smod_eq)
  have d: "m smod s = sgn m * (\<bar>m\<bar> mod \<bar>s\<bar>)" by (simp add: signed_modulo_int_def)
  have "\<bar>m\<bar> mod \<bar>s\<bar> < \<bar>s\<bar>" "0 \<le> \<bar>m\<bar> mod \<bar>s\<bar>" using assms by simp_all
  moreover define r where "r = \<bar>m\<bar> mod \<bar>s\<bar>"
  ultimately have "0 \<le> r" "r < \<bar>s\<bar>" by simp_all
  then show "\<bar>m smod s\<bar> < \<bar>s\<bar>" "m smod s \<noteq> 0 \<Longrightarrow> sgn (m smod s) = sgn m"
    unfolding d r_def [symmetric] by (auto simp: sgn_if)
qed

lemma sint_of_int32: "- (2 ^ 31) \<le> x \<Longrightarrow> x < 2 ^ 31 \<Longrightarrow> sint (of_int x :: WORD) = x"
  by (simp add: sint_sbintrunc' signed_take_bit_int_eq_self)

section \<open>Properties\<close>

text \<open>
  C28. The jump table of \<^verbatim>\<open>icase\<close>: on a table of disjoint ascending ranges the binary search jumps
  where a search through the entries in order would, to the default when no range has the value.
\<close>

theorem icase_search:
  assumes "curmod \<sigma> = Some (mo, c)" "0 \<le> sint (Wd \<sigma>)" "sorted_ranges (table (mem \<sigma>) (rd \<sigma> + 4) (nat (sint (Wd \<sigma>))))"
  shows "icase \<sigma> = Ret () (\<sigma>\<lparr>rPC :=
    (let d = lookup_range (sint (Ws \<sigma>)) (rdW (mem \<sigma>) (rd \<sigma> + 4 + 4 * (Wd \<sigma> * 3))) (table (mem \<sigma>) (rd \<sigma> + 4) (nat (sint (Wd \<sigma>)))) in
     if c then d else mprog mo + sizeof_Inst * d)\<rparr>)"
proof -
  have n: "rdW (mem \<sigma>) (rd \<sigma> + 4 - 4) = Wd \<sigma>" by (simp add: Wd_def)
  show ?thesis unfolding icase_def Let_def n using assms by (simp add: setPC_def icase_loop_lookup)
qed

definition vm_case :: vm where
  \<comment> \<open>the value 6 against the one range from 5 to 8, which goes to instruction 3\<close>
  "vm_case = (vm_heap ((\<lambda>_. 0)(0x80 := 6, 0x100 := 1, 0x104 := 5, 0x108 := 8, 0x10c := 3, 0x110 := 9)))
     \<lparr>hp := (\<lambda>_. None)(0x10034 \<mapsto> \<lparr>color = 0, href = 1, ht = Some Tmodlink, hs = SModlink H 0 False []\<rparr>),
      rs := 0x80, rd := 0x100, rM := 0x10034\<rparr>"

theorem icase_search_witness: "icase vm_case = Ret () (vm_case\<lparr>rPC := 36\<rparr>)"
proof -
  have m: "mem vm_case = (\<lambda>_. 0)(0x80 := 6, 0x100 := 1, 0x104 := 5, 0x108 := 8, 0x10c := 3, 0x110 := 9)"
    "rs vm_case = 0x80" "rd vm_case = 0x100" by (simp_all add: vm_case_def vm_heap_def)
  have r: "Wd vm_case = 1" "Ws vm_case = 6" "rdW (mem vm_case) 0x104 = 5" "rdW (mem vm_case) 0x108 = 8" "rdW (mem vm_case) 0x10c = 3"
    by (simp_all add: Wd_def Ws_def rdW_def m)
  have c: "curmod vm_case = Some (mods vm_case 0, False)" "mprog (mods vm_case 0) = 0"
    by (simp_all add: curmod_def modlink_def vm_case_def vm_heap_def vm0_def)
  have "[0 ..< Suc 0] = [0]" by simp
  then have t: "table (mem vm_case) (rd vm_case + 4) (nat (sint (Wd vm_case))) = [(5, 8, 3)]"
    by (simp add: table_def entry_def r m(3) Let_def)
  show ?thesis
    using icase_search [OF c(1), unfolded t] by (simp add: r c(2) sorted_ranges_def lookup_range_def covers_def sizeof_Inst_def Let_def)
qed

text \<open>
  C11. \<^verbatim>\<open>movp\<close> keeps the reference counts exact: the slot gives up its old reference and holds a
  counted reference to the new block, and the old block is freed when that was its last.
\<close>

theorem movp_exact:
  assumes "counted B {} (add_mset (Wd \<sigma>) R) M \<sigma>" "offheap \<sigma> (rd \<sigma>)" "B \<subseteq># R"
    and "Ws \<sigma> \<noteq> H \<longrightarrow> (\<exists>h. hp \<sigma> (Ws \<sigma>) = Some h \<and> unat (href h) + 1 < 2 ^ 32)"
  shows "\<exists>\<sigma>'. movp \<sigma> = Ret () \<sigma>' \<and> counted B {} (add_mset (Ws \<sigma>) R) M \<sigma>' \<and> mem \<sigma>' = wrW (mem \<sigma>) (rd \<sigma>) (Ws \<sigma>)"
  unfolding movp_def by (rule movptr_counted [OF assms(1,2,3)]) (use assms(4) in blast)

definition vm_mov :: vm where
  "vm_mov = (vm_heap (wrW (wrW (\<lambda>_. 0) 0x200 0x10074) 0x204 0x10034))\<lparr>rd := 0x200, rs := 0x204\<rparr>"

theorem movp_exact_witness:
  "\<exists>\<sigma>'. movp vm_mov = Ret () \<sigma>' \<and> counted {#} {} (add_mset 0x10034 {#0x10034#}) {#} \<sigma>'"
proof -
  let ?v = "vm_heap (wrW (wrW (\<lambda>_. 0) 0x200 0x10074) 0x204 0x10034)"
  have w: "Wd vm_mov = 0x10074" "Ws vm_mov = 0x10034"
    by (simp_all add: Wd_def Ws_def vm_mov_def vm_heap_def rdW_wrW_other disjoint_def)
  have h: "hp vm_mov = hp ?v" "mem vm_mov = mem ?v" "heapmem vm_mov = heapmem ?v" "types vm_mov = types ?v" "mods vm_mov = mods ?v"
    "modules vm_mov = modules ?v" by (simp_all add: vm_mov_def)
  have "counted {#} {} (add_mset 0x10034 {#0x10074#}) {#} vm_mov"
    using vm_heap_counted [of "wrW (wrW (\<lambda>_. 0) 0x200 0x10074) 0x204 0x10034"]
    unfolding counted_def refsto_def modrefs_def refcount_def live_def kids_def modkids_def tailok_def h .
  then have c: "counted {#} {} (add_mset (Wd vm_mov) {#0x10034#}) {#} vm_mov" by (simp add: w add_mset_commute)
  have o: "offheap vm_mov (rd vm_mov)"
    unfolding offheap_def h by (auto simp: vm_heap_def kids_of_def cell0_def cellptrs_def)
  have "\<exists>h. hp vm_mov 0x10034 = Some h \<and> unat (href h) + 1 < 2 ^ 32" unfolding h by (simp add: vm_heap_def cell0_def)
  then show ?thesis using movp_exact [OF c o] by (auto simp: w)
qed


definition vm_arr :: vm where
  \<comment> \<open>two byte arrays of one element; the index in \<^verbatim>\<open>R.m\<close> is \<open>-1\<close>\<close>
  "vm_arr = (vm_heap (wrW (wrW (wrW ((\<lambda>_. 0)(0x10044 := 7)) 0x100 0x10034) 0x104 0x10074) 0x108 (-1)))
     \<lparr>hp := (\<lambda>_. None)(0x10034 \<mapsto> \<lparr>color = 0, href = 1, ht = Some Tarray, hs = SArray 1 Tbyte H 0x10044\<rparr>,
                    0x10074 \<mapsto> \<lparr>color = 0, href = 1, ht = Some Tarray, hs = SArray 1 Tbyte H 0x10084\<rparr>),
      rs := 0x100, rd := 0x104, rm := 0x108\<rparr>"

lemma vm_arr_sel:
  "Ws vm_arr = 0x10034" "Wd vm_arr = 0x10074" "Wm vm_arr = -1" "mem vm_arr 0x10044 = 7" "mem vm_arr 0x10083 = 0"
  "getarray vm_arr 0x10034 = Some (1, Tbyte, H, 0x10044)" "getarray vm_arr 0x10074 = Some (1, Tbyte, H, 0x10084)"
  "types vm_arr = builtin_types"
proof -
  have m: "mem vm_arr = wrW (wrW (wrW ((\<lambda>_. 0)(0x10044 := 7)) 0x100 0x10034) 0x104 0x10074) 0x108 (-1)"
    "rs vm_arr = 0x100" "rd vm_arr = 0x104" "rm vm_arr = 0x108" by (simp_all add: vm_arr_def vm_heap_def)
  show "Ws vm_arr = 0x10034" "Wd vm_arr = 0x10074" "Wm vm_arr = -1"
    by (simp_all add: Ws_def Wd_def Wm_def m rdW_wrW_other disjoint_def)
  show "mem vm_arr 0x10044 = 7" "mem vm_arr 0x10083 = 0" unfolding m by (simp_all add: wrW_def)
qed (simp_all add: vm_arr_def vm_heap_def vm0_def getarray_def)


text \<open>
  \<^verbatim>\<open>slicela\<close> does not check that the offset is not negative: with offset \<open>-1\<close> a one byte
  array is stored just below the data of another, without an exception.
\<close>

theorem slicela_underrun:
  "\<exists>\<sigma>'. slicela vm_arr = Ret () \<sigma>' \<and> sint (Wm vm_arr) = -1 \<and> getarray vm_arr (Wd vm_arr) = Some (1, Tbyte, H, 0x10084) \<and>
     mem vm_arr (0x10084 - 1) = 0 \<and> mem \<sigma>' (0x10084 - 1) = 7"
  by (simp add: slicela_def vm_arr_sel Let_def H_def builtin_types_def Tbyte_def Tarray_def Tstring_def Tlist_def Tmodlink_def
      Tchannel_def Tptr_def memmove_def)

text \<open>
  The overflow test of \<^verbatim>\<open>acheck\<close> is not enough: an array of 65536 elements of 65540 bytes
  passes although its size is over \<open>2 ^ 32\<close>, and 262160 bytes are allocated for it.
\<close>

theorem acheck_wraps:
  "acheck 65540 65536 \<sigma> = Ret () \<sigma> \<and> (65540 :: int) * 65536 > 2 ^ 32 \<and>
   sint (of_int sizeof_Array + 65540 * 65536 :: WORD) = 262160"
  by (simp add: acheck_def sizeof_Array_def sizeof_Heap_def)

text \<open>
  C38. \<^verbatim>\<open>lenl\<close> ends on every list that ends, with the number of its cells.
\<close>

theorem lenl_length:
  assumes "listpath \<sigma> (Ws \<sigma>) ps"
  shows "lenl \<sigma> = putW (of_nat (length ps)) \<sigma>"
  using lenl_loop_path [OF assms listpath_length [OF assms], of 0] by (simp add: lenl_def)

theorem lenl_length_witness: "lenl (vm_mov\<lparr>rs := 0x204\<rparr>) = putW 2 (vm_mov\<lparr>rs := 0x204\<rparr>)"
proof -
  let ?s = "vm_mov\<lparr>rs := 0x204\<rparr>"
  have w: "Ws ?s = 0x10034" by (simp add: Ws_def vm_mov_def vm_heap_def)
  have g: "gettail ?s 0x10034 = Some 0x10074" "gettail ?s 0x10074 = Some H"
    by (simp_all add: gettail_def vm_mov_def vm_heap_def cell0_def)
  have "listpath ?s 0x10074 [0x10074]" by (rule listpath.cell [OF g(2) _ listpath.nil]) (simp add: H_def)
  then have "listpath ?s 0x10034 [0x10034, 0x10074]" by (rule listpath.cell [OF g(1), rotated]) (simp add: H_def)
  then show ?thesis using lenl_length [of ?s "[0x10034, 0x10074]"] w by simp
qed

text \<open>
  Division. When the quotient exists, \<^verbatim>\<open>divw\<close> and \<^verbatim>\<open>modw\<close> store a quotient and a remainder with
  dividend = divisor * quotient + remainder, the remainder smaller than the divisor and signed as the dividend;
  otherwise both raise the host's arithmetic fault and store nothing.
\<close>

theorem divw_modw:
  "if divides (sint (Wm \<sigma>)) (sint (Ws \<sigma>)) 32 then
     \<exists>q r. divw \<sigma> = putW q \<sigma> \<and> modw \<sigma> = putW r \<sigma> \<and> sint (Wm \<sigma>) = sint (Ws \<sigma>) * sint q + sint r \<and>
       \<bar>sint r\<bar> < \<bar>sint (Ws \<sigma>)\<bar> \<and> (sint r = 0 \<or> sgn (sint r) = sgn (sint (Wm \<sigma>)))
   else divw \<sigma> = Err (exOther ''Floating exception'') \<sigma> \<and> modw \<sigma> = Err (exOther ''Floating exception'') \<sigma>"
proof (cases "divides (sint (Wm \<sigma>)) (sint (Ws \<sigma>)) 32")
  case False
  then show ?thesis by (simp add: divw_def modw_def trapFPE_def)
next
  case True
  let ?m = "sint (Wm \<sigma>)" and ?s = "sint (Ws \<sigma>)"
  have b: "- (2 ^ 31) \<le> ?m" "?m < 2 ^ 31" "- (2 ^ 31) \<le> ?s" "?s < 2 ^ 31"
    using sint_greater_eq [of "Wm \<sigma>"] sint_less [of "Wm \<sigma>"] sint_greater_eq [of "Ws \<sigma>"] sint_less [of "Ws \<sigma>"] by simp_all
  have s: "?s \<noteq> 0" using True by (simp add: divides_def)
  note r = smod_range [OF s, of ?m]
  have q: "sint (of_int (?m sdiv ?s) :: WORD) = ?m sdiv ?s"
    using sdiv_range [OF True] b by (intro sint_of_int32) simp_all
  have r': "sint (of_int (?m smod ?s) :: WORD) = ?m smod ?s"
    using r(1) b by (intro sint_of_int32) linarith+
  show ?thesis using True r q r' unfolding divw_def modw_def trapFPE_def
    by (simp only: if_True) (rule exI [of _ "of_int (?m sdiv ?s)"], rule exI [of _ "of_int (?m smod ?s)"], auto)
qed

end
