(* ===== verification/Chan.thy ===== *)
theory Chan
  imports Xec
begin

text \<open>
  Communication, \<^verbatim>\<open>isend\<close>, \<^verbatim>\<open>irecv\<close>, \<^verbatim>\<open>csendq\<close> of \<^verbatim>\<open>interp/xec.c\<close> and the second pass of \<^verbatim>\<open>alt\<close>,
  \<^verbatim>\<open>altcomm\<close> and \<^verbatim>\<open>xecalt\<close> of \<^verbatim>\<open>interp/alt.c\<close>. The queue of progs a channel threads through
  \<^verbatim>\<open>Prog.comm\<close> is a list. An address of a local variable that holds the channel (\<^verbatim>\<open>R.d = &c\<close>) is
  replaced by the channel itself as an argument.
\<close>

section \<open>Send and receive\<close>

definition callmover :: "Channel \<Rightarrow> op" where
  \<comment> \<open>\<^verbatim>\<open>R.m = &c->mid; c->mover()\<close>\<close>
  "callmover ch \<sigma> =
     (case mover ch of
        mv_movl \<Rightarrow> movl \<sigma>
      | mv_movb \<Rightarrow> movb \<sigma>
      | mv_movw \<Rightarrow> movw \<sigma>
      | mv_movf \<Rightarrow> movl \<sigma>
      | mv_movp \<Rightarrow> movp \<sigma>
      | mv_movm \<Rightarrow> Ret () (\<sigma>\<lparr>mem := memmove (mem \<sigma>) (rd \<sigma>) (rs \<sigma>) (unat (midw ch))\<rparr>)
      | mv_movtmp \<Rightarrow> movtmp (midt ch) \<sigma>)"

definition waitcomm :: "ProgState \<Rightarrow> ptr \<Rightarrow> WORD \<Rightarrow> (prg \<Rightarrow> Channel \<Rightarrow> Channel) \<Rightarrow> op" where
  \<comment> \<open>the running prog leaves the run queue and joins the queue of the channel\<close>
  "waitcomm st c pt q \<sigma> =
     (case delrun st \<sigma> of None \<Rightarrow> Crash | Some (p, \<sigma>1) \<Rightarrow>
       Ret () (updchan c (q p) ((updprog p (\<lambda>r. r\<lparr>pptr := pt, pchan := c\<rparr>) \<sigma>1)\<lparr>rIC := 1, rt := 1\<rparr>)))"

definition meet :: "prg \<Rightarrow> ptr \<Rightarrow> (WORD \<Rightarrow> vm \<Rightarrow> vm) \<Rightarrow> op" where
  \<comment> \<open>\<^verbatim>\<open>R.m = &c->mid; R.x = p->ptr; p->ptr = nil; c->mover(); addrun(p); R.t = 0\<close>, where \<open>st\<close> sets \<^verbatim>\<open>R.x\<close>\<close>
  "meet p c st \<sigma> =
     (case progs \<sigma> p of None \<Rightarrow> Crash | Some pr \<Rightarrow>
       case getchan \<sigma> c of None \<Rightarrow> Crash | Some ch \<Rightarrow>
         bindM (callmover ch (updprog p (\<lambda>r. r\<lparr>pptr := 0\<rparr>) (st (pptr pr) \<sigma>))) (\<lambda>_ \<sigma>1.
         bindM (liftO (addrun p \<sigma>1)) (\<lambda>_ \<sigma>2. Ret () (\<sigma>2\<lparr>rt := 0\<rparr>))))"

definition takealt :: "prg \<Rightarrow> ptr \<Rightarrow> int \<Rightarrow> op" where
  \<comment> \<open>\<^verbatim>\<open>altdone(p->R.s, p, c, sr)\<close>\<close>
  "takealt p c sr \<sigma> = (case progs \<sigma> p of None \<Rightarrow> Crash | Some pr \<Rightarrow> liftO (altdone (pR_s pr) p c sr \<sigma>))"

definition isend_on :: "ptr \<Rightarrow> op" where
  "isend_on c \<sigma> =
     (if c = H then Err exNilref \<sigma>
      else case getchan \<sigma> c of None \<Rightarrow> Crash | Some ch \<Rightarrow>
        (case (recv ch, recvalt ch) of
           ([], None) \<Rightarrow> waitcomm Psend c (rs \<sigma>) (\<lambda>p ch. ch\<lparr>send := send ch @ [p]\<rparr>) \<sigma>
         | (_, Some p) \<Rightarrow>
             bindM (takealt p c 1 (updchan c (\<lambda>ch. ch\<lparr>recvalt := None\<rparr>) \<sigma>)) (\<lambda>_ \<sigma>1.
               meet p c (\<lambda>a s. s\<lparr>rd := a\<rparr>) \<sigma>1)
         | (p # ps, None) \<Rightarrow> meet p c (\<lambda>a s. s\<lparr>rd := a\<rparr>) (updchan c (\<lambda>ch. ch\<lparr>recv := ps\<rparr>) \<sigma>)))"

definition isend :: op where "isend \<sigma> = isend_on (Wd \<sigma>) \<sigma>"

definition irecv_queue :: "ptr \<Rightarrow> Channel \<Rightarrow> op" where
  \<comment> \<open>the asynchronous queue of the channel is not empty\<close>
  "irecv_queue c ch \<sigma> =
     (let sq = sendq ch in
      case gettail \<sigma> sq of None \<Rightarrow> Crash | Some sqt \<Rightarrow>
        let \<sigma>1 = updchan c (\<lambda>ch. ch\<lparr>sendq := sqt\<rparr>) \<sigma>;
            \<sigma>2 = (if sqt \<noteq> H then updobj sq (\<lambda>h. h\<lparr>hs := (case hs h of SList nx t \<Rightarrow> SList H t | x \<Rightarrow> x)\<rparr>) (Setmark sqt \<sigma>1) else \<sigma>1) in
        bindM (callmover ch (\<sigma>2\<lparr>rs := ldata sq\<rparr>)) (\<lambda>_ \<sigma>3. liftO (destroy sq (\<sigma>3\<lparr>rt := 0\<rparr>))))"

definition irecv_on :: "ptr \<Rightarrow> op" where
  "irecv_on c \<sigma> =
     (if c = H then Err exNilref \<sigma>
      else case getchan \<sigma> c of None \<Rightarrow> Crash | Some ch \<Rightarrow>
        (case (send ch, sendalt ch) of
           ([], None) \<Rightarrow>
             if sendq ch \<noteq> H then irecv_queue c ch \<sigma>
             else waitcomm Precv c (rd \<sigma>) (\<lambda>p ch. ch\<lparr>recv := recv ch @ [p]\<rparr>) \<sigma>
         | (_, Some p) \<Rightarrow>
             bindM (takealt p c 0 (updchan c (\<lambda>ch. ch\<lparr>sendalt := None\<rparr>) \<sigma>)) (\<lambda>_ \<sigma>1.
               meet p c (\<lambda>a s. s\<lparr>rs := a\<rparr>) \<sigma>1)
         | (p # ps, None) \<Rightarrow> meet p c (\<lambda>a s. s\<lparr>rs := a\<rparr>) (updchan c (\<lambda>ch. ch\<lparr>send := ps\<rparr>) \<sigma>)))"

definition irecv :: op where "irecv \<sigma> = irecv_on (Ws \<sigma>) \<sigma>"

text \<open>
  The walk of \<^verbatim>\<open>csendq\<close> to the end of the queue or to its limit: the number of cells passed and
  the last of them. A negative \<open>lim\<close> is no limit; every cell is another block, so the number of addresses is fuel enough.
\<close>

fun sendq_end :: "nat \<Rightarrow> int \<Rightarrow> vm \<Rightarrow> ptr option \<Rightarrow> ptr \<Rightarrow> int \<Rightarrow> (int \<times> ptr option) option" where
  "sendq_end 0 lim \<sigma> lp l n = None"
| "sendq_end (Suc k) lim \<sigma> lp l n =
     (if n = lim \<or> l = H then Some (n, lp)
      else case gettail \<sigma> l of None \<Rightarrow> None | Some nx \<Rightarrow> sendq_end k lim \<sigma> (Some l) nx (n + 1))"

definition linkcell :: "ptr \<Rightarrow> ptr option \<Rightarrow> ptr \<Rightarrow> vm \<Rightarrow> vm" where
  \<comment> \<open>\<^verbatim>\<open>*lp = l\<close>\<close>
  "linkcell c lp l \<sigma> =
     (case lp of None \<Rightarrow> updchan c (\<lambda>ch. ch\<lparr>sendq := l\<rparr>) \<sigma>
      | Some k \<Rightarrow> updobj k (\<lambda>h. h\<lparr>hs := (case hs h of SList nx t \<Rightarrow> SList l t | x \<Rightarrow> x)\<rparr>) \<sigma>)"

definition dropip :: "WORD \<Rightarrow> Type \<Rightarrow> op" where
  "dropip ip ty \<sigma> = (if np ty \<noteq> 0 then liftO (freeptrs destroy ip ty \<sigma>) else Ret () \<sigma>)"

definition csendq :: "ptr \<Rightarrow> WORD \<Rightarrow> tid \<Rightarrow> int \<Rightarrow> vm \<Rightarrow> int outcome" where
  "csendq c ip t lim \<sigma> =
     (if c = H then Err exNilref \<sigma>
      else case getchan \<sigma> c of None \<Rightarrow> Crash | Some ch \<Rightarrow>
        let ty = types \<sigma> t in
        if recv ch = [] \<and> recvalt ch = None then
          (case sendq_end nblocks lim \<sigma> None (sendq ch) 0 of None \<Rightarrow> Crash
           | Some (n, lp) \<Rightarrow>
             if n = lim then bindM (dropip ip ty \<sigma>) (\<lambda>_ \<sigma>1. Ret 0 \<sigma>1)
             else bindM (cons (tsize ty) H \<sigma>) (\<lambda>l \<sigma>1.
               let \<sigma>2 = linkcell c lp l \<sigma>1 in
               Ret 1 (setcell t l (\<sigma>2\<lparr>mem := memmove (mem \<sigma>2) (ldata l) ip (nat (tsize ty))\<rparr>))))
        else
          bindM (isend_on c (\<sigma>\<lparr>rs := ip\<rparr>)) (\<lambda>_ \<sigma>1.
            let \<sigma>2 = \<sigma>1\<lparr>rs := rs \<sigma>, rd := rd \<sigma>, rm := rm \<sigma>, rt := rt \<sigma>, rIC := rIC \<sigma>, rPC := rPC \<sigma>,
                        rFP := rFP \<sigma>, rMP := rMP \<sigma>, rM := rM \<sigma>,
                        rSP := rSP \<sigma>, rTS := rTS \<sigma>, rEX := rEX \<sigma>\<rparr> in
            bindM (dropip ip ty \<sigma>2) (\<lambda>_ \<sigma>3. Ret 1 \<sigma>3)))"

section \<open>Pass 2 of alt\<close>

definition recvrdy :: "Channel \<Rightarrow> bool" where
  "recvrdy ch = (recvalt ch \<noteq> None \<or> recv ch \<noteq> [])"

fun altcomm_arr :: "WORD \<Rightarrow> WORD \<Rightarrow> nat \<Rightarrow> nat list \<Rightarrow> nat \<Rightarrow> vm \<Rightarrow> unit outcome + nat" where
  \<comment> \<open>the channels of an array; \<open>Inr\<close> is what is left of \<^verbatim>\<open>which\<close>\<close>
  "altcomm_arr d pt n [] which \<sigma> = Inr which"
| "altcomm_arr d pt n (an # ans) which \<sigma> =
     (let c = arr_chan (mem \<sigma>) d an in
      if c = H then altcomm_arr d pt n ans which \<sigma>
      else case getchan \<sigma> c of None \<Rightarrow> Inl Crash | Some ch \<Rightarrow>
        if sendrdy ch then
          (case which of
             0 \<Rightarrow> Inl (let m1 = wrW (mem \<sigma>) (rd \<sigma>) (of_nat n); m2 = wrW m1 pt (of_nat an) in
                  irecv_on c (\<sigma>\<lparr>mem := m2, rd := pt + 4\<rparr>))
           | Suc w \<Rightarrow> altcomm_arr d pt n ans w \<sigma>)
        else altcomm_arr d pt n ans which \<sigma>)"

fun altcomm_send :: "WORD \<Rightarrow> nat list \<Rightarrow> nat \<Rightarrow> vm \<Rightarrow> unit outcome + nat" where
  "altcomm_send a [] which \<sigma> = Inr which"
| "altcomm_send a (n # ns) which \<sigma> =
     (let c = ac_c (mem \<sigma>) a n in
      case getchan \<sigma> c of None \<Rightarrow> Inl Crash | Some ch \<Rightarrow>
        if recvrdy ch then
          (case which of
             0 \<Rightarrow> Inl (let m1 = wrW (mem \<sigma>) (rd \<sigma>) (of_nat n) in
                  isend_on c (\<sigma>\<lparr>mem := m1, rs := ac_ptr m1 a n\<rparr>))
           | Suc w \<Rightarrow> altcomm_send a ns w \<sigma>)
        else altcomm_send a ns which \<sigma>)"

fun altcomm_recv :: "WORD \<Rightarrow> nat list \<Rightarrow> nat \<Rightarrow> vm \<Rightarrow> unit outcome + nat" where
  "altcomm_recv a [] which \<sigma> = Inr which"
| "altcomm_recv a (n # ns) which \<sigma> =
     (let c = ac_c (mem \<sigma>) a n in
      if isarray \<sigma> c then
        (case getarray \<sigma> c of None \<Rightarrow> Inl Crash
         | Some (len, t, root, d) \<Rightarrow>
           (case altcomm_arr d (ac_ptr (mem \<sigma>) a n) n [0 ..< nat len] which \<sigma> of
              Inl r \<Rightarrow> Inl r | Inr w \<Rightarrow> altcomm_recv a ns w \<sigma>))
      else case getchan \<sigma> c of None \<Rightarrow> Inl Crash | Some ch \<Rightarrow>
        if sendrdy ch then
          (case which of
             0 \<Rightarrow> Inl (let m1 = wrW (mem \<sigma>) (rd \<sigma>) (of_nat n) in
                  irecv_on c (\<sigma>\<lparr>mem := m1, rd := ac_ptr m1 a n\<rparr>))
           | Suc w \<Rightarrow> altcomm_recv a ns w \<sigma>)
        else altcomm_recv a ns which \<sigma>)"

definition altcomm :: "WORD \<Rightarrow> nat \<Rightarrow> op" where
  "altcomm a which \<sigma> =
     (case altcomm_send a (sendix (mem \<sigma>) a) which \<sigma> of
        Inl r \<Rightarrow> r
      | Inr w \<Rightarrow> (case altcomm_recv a (recvix (mem \<sigma>) a) w \<sigma> of Inl r \<Rightarrow> r | Inr _ \<Rightarrow> Ret () \<sigma>))"

definition nextrand :: "WORD \<Rightarrow> WORD" where
  "nextrand x = (let y = x + x in if sint y < 0 then y XOR 0x88888EEF else y)"

definition xecalt :: "bool \<Rightarrow> WORD \<Rightarrow> vm \<Rightarrow> WORD outcome" where
  \<comment> \<open>\<open>xrand\<close> is the static variable, its new value the result\<close>
  "xecalt block xrand \<sigma> =
     (case currun \<sigma> of None \<Rightarrow> Crash | Some p \<Rightarrow>
       let a = rs \<sigma> in
       bindM (altrdy a p \<sigma>) (\<lambda>nrdy \<sigma>1.
         if nrdy = 0 then
           if block then
             (case delrun Palt \<sigma>1 of None \<Rightarrow> Crash
              | Some (q, \<sigma>2) \<Rightarrow> Ret xrand ((updprog p (\<lambda>r. r\<lparr>pR_s := rs \<sigma>2, pR_d := rd \<sigma>2\<rparr>) \<sigma>2)\<lparr>rIC := 1, rt := 1\<rparr>))
           else
             bindM (liftO (altdone a p 0 (-1) (\<sigma>1\<lparr>mem := wrW (mem \<sigma>1) (rd \<sigma>1) (of_int (nsend (mem \<sigma>1) a + nrecv (mem \<sigma>1) a))\<rparr>)))
               (\<lambda>_ \<sigma>2. Ret xrand \<sigma>2)
         else
           let xr = nextrand xrand in
           bindM (altcomm a (nat (sint xr mod nrdy)) \<sigma>1) (\<lambda>_ \<sigma>2.
           bindM (liftO (altdone a p 0 (-1) \<sigma>2)) (\<lambda>_ \<sigma>3. Ret xr \<sigma>3))))"

definition alt :: "WORD \<Rightarrow> vm \<Rightarrow> WORD outcome" where
  "alt xrand \<sigma> = xecalt True xrand (\<sigma>\<lparr>rt := 0\<rparr>)"

definition nbalt :: "WORD \<Rightarrow> vm \<Rightarrow> WORD outcome" where
  "nbalt xrand \<sigma> = xecalt False xrand \<sigma>"

section \<open>Meeting and waiting\<close>

lemma addrun_keeps: "addrun p \<sigma> = Some \<sigma>' \<Longrightarrow> hp \<sigma>' = hp \<sigma> \<and> mem \<sigma>' = mem \<sigma>"
  by (auto simp: addrun_def callhook_def cwakeme_def dbgaddrun_def Let_def split: option.splits addrunhook.splits)

lemma delrun_keeps: "delrun st \<sigma> = Some (p, \<sigma>') \<Longrightarrow> hp \<sigma>' = hp \<sigma> \<and> mem \<sigma>' = mem \<sigma> \<and> (\<forall>q. q \<noteq> p \<longrightarrow> progs \<sigma>' q = progs \<sigma> q) \<and>
    progs \<sigma>' p = map_option (\<lambda>r. r\<lparr>pstate := st\<rparr>) (progs \<sigma> p)"
  by (auto simp: delrun_def Let_def split: option.splits if_splits)

lemma getchan_updchan: "getchan (updchan c f \<sigma>) d = (if d = c then map_option f (getchan \<sigma> c) else getchan \<sigma> d)"
  by (auto simp: getchan_def updchan_def split: option.splits hstruct.splits)

lemma updchan_sel [simp]: "mem (updchan c f \<sigma>) = mem \<sigma>" "progs (updchan c f \<sigma>) = progs \<sigma>" "runhd (updchan c f \<sigma>) = runhd \<sigma>"
  "runtl (updchan c f \<sigma>) = runtl \<sigma>" "rd (updchan c f \<sigma>) = rd \<sigma>" "rs (updchan c f \<sigma>) = rs \<sigma>"
  by (simp_all add: updchan_def updobj_def)

lemma getchan_hp: "hp \<sigma>' = hp \<sigma> \<Longrightarrow> getchan \<sigma>' = getchan \<sigma>"
  by (simp add: getchan_def fun_eq_iff)

lemma updprog_regs [simp]: "rd (updprog p f \<sigma>) = rd \<sigma>" "rs (updprog p f \<sigma>) = rs \<sigma>" "rm (updprog p f \<sigma>) = rm \<sigma>"
  by (simp_all add: updprog_def)

lemma runq_same:
  assumes "runq \<sigma> qs" "runhd \<sigma>' = runhd \<sigma>" "runtl \<sigma>' = runtl \<sigma>" "\<And>q. map_option link (progs \<sigma>' q) = map_option link (progs \<sigma> q)"
  shows "runq \<sigma>' qs"
  using assms lpath_cong [of qs "progs \<sigma>" "progs \<sigma>'"] by (simp add: runq_def)

text \<open>A word handed from \<open>from\<close> to \<open>to\<close>; the waiting prog becomes ready.\<close>

lemma meet_word:
  assumes p: "progs \<sigma> p = Some pr" "paddrun pr = None" and c: "getchan \<sigma> c = Some ch" "mover ch = mv_movw"
    and q: "runq \<sigma> rq" "p \<notin> set rq" and st: "st = (\<lambda>a s. s\<lparr>rd := a\<rparr>) \<or> st = (\<lambda>a s. s\<lparr>rs := a\<rparr>)"
  shows "\<exists>\<sigma>'. meet p c st \<sigma> = Ret () \<sigma>' \<and> runq \<sigma>' (rq @ [p]) \<and> hp \<sigma>' = hp \<sigma> \<and>
    mem \<sigma>' = wrW (mem \<sigma>) (rd (st (pptr pr) \<sigma>)) (rdW (mem \<sigma>) (rs (st (pptr pr) \<sigma>)))"
proof -
  let ?s = "updprog p (\<lambda>r. r\<lparr>pptr := 0\<rparr>) (st (pptr pr) \<sigma>)"
  let ?t = "?s\<lparr>mem := wrW (mem \<sigma>) (rd (st (pptr pr) \<sigma>)) (rdW (mem \<sigma>) (rs (st (pptr pr) \<sigma>)))\<rparr>"
  have k: "progs (st (pptr pr) \<sigma>) = progs \<sigma>" "mem (st (pptr pr) \<sigma>) = mem \<sigma>" "hp (st (pptr pr) \<sigma>) = hp \<sigma>"
    "runhd (st (pptr pr) \<sigma>) = runhd \<sigma>" "runtl (st (pptr pr) \<sigma>) = runtl \<sigma>" using st by auto
  have m: "callmover ch ?s = Ret () ?t" using c(2) by (simp add: callmover_def movw_def putW_def Ws_def k)
  have t: "runq ?t rq" by (rule runq_same [OF q(1)]) (auto simp: k p(1))
  have tp: "progs ?t p = Some (pr\<lparr>pptr := 0\<rparr>)" "paddrun (pr\<lparr>pptr := 0\<rparr>) = None" using p by (simp_all add: k)
  obtain \<sigma>' where s: "addrun p ?t = Some \<sigma>'" "runq \<sigma>' (rq @ [p])" using addrun_runq [OF t q(2) tp] by blast
  have "meet p c st \<sigma> = Ret () (\<sigma>'\<lparr>rt := 0\<rparr>)" using p(1) c(1) m s(1) by (simp add: meet_def)
  moreover have "runq (\<sigma>'\<lparr>rt := 0\<rparr>) (rq @ [p])" by (rule runq_same [OF s(2)]) simp_all
  ultimately show ?thesis using addrun_keeps [OF s(1)] by (simp add: k)
qed

lemma waitcomm_queues:
  assumes c: "getchan \<sigma> c = Some ch" and q: "runq \<sigma> (p # rq)"
  shows "\<exists>\<sigma>'. waitcomm st c pt f \<sigma> = Ret () \<sigma>' \<and> runq \<sigma>' rq \<and> getchan \<sigma>' c = Some (f p ch) \<and> mem \<sigma>' = mem \<sigma> \<and>
    map_option (\<lambda>r. (pstate r, pptr r, pchan r)) (progs \<sigma>' p) = Some (st, pt, c) \<and> rIC \<sigma>' = 1"
proof -
  obtain \<sigma>1 where s: "delrun st \<sigma> = Some (p, \<sigma>1)" "runq \<sigma>1 rq" "map_option pstate (progs \<sigma>1 p) = Some st"
    using delrun_runq [OF q] by blast
  let ?s = "updchan c (f p) ((updprog p (\<lambda>r. r\<lparr>pptr := pt, pchan := c\<rparr>) \<sigma>1)\<lparr>rIC := 1, rt := 1\<rparr>)"
  have k: "hp \<sigma>1 = hp \<sigma>" "mem \<sigma>1 = mem \<sigma>" using delrun_keeps [OF s(1)] by simp_all
  have "runq ?s rq" by (rule runq_same [OF s(2)]) (auto simp: option.map_comp comp_def)
  moreover have "getchan ?s c = Some (f p ch)" using c k(1) by (simp add: getchan_updchan) (simp add: getchan_def)
  ultimately show ?thesis using s k(2) by (auto simp: waitcomm_def updchan_def updobj_def)
qed

section \<open>Properties\<close>

definition idle_chan :: "Channel \<Rightarrow> bool" where
  "idle_chan ch \<longleftrightarrow> recv ch = [] \<and> recvalt ch = None \<and> send ch = [] \<and> sendalt ch = None \<and> sendq ch = H"

lemma serves_first:
  assumes "getchan \<sigma> c = Some ch" "c \<noteq> H" "mover ch = mv_movw" "runq \<sigma> rq" "progs \<sigma> q = Some pr" "paddrun pr = None" "q \<notin> set rq"
  shows "(send ch = q # qs \<and> sendalt ch = None \<longrightarrow>
      (\<exists>\<sigma>'. irecv_on c \<sigma> = Ret () \<sigma>' \<and> runq \<sigma>' (rq @ [q]) \<and> getchan \<sigma>' c = Some (ch\<lparr>send := qs\<rparr>) \<and>
        mem \<sigma>' = wrW (mem \<sigma>) (rd \<sigma>) (rdW (mem \<sigma>) (pptr pr)))) \<and>
    (recv ch = q # qs \<and> recvalt ch = None \<longrightarrow>
      (\<exists>\<sigma>'. isend_on c \<sigma> = Ret () \<sigma>' \<and> runq \<sigma>' (rq @ [q]) \<and> getchan \<sigma>' c = Some (ch\<lparr>recv := qs\<rparr>) \<and>
        mem \<sigma>' = wrW (mem \<sigma>) (pptr pr) (rdW (mem \<sigma>) (rs \<sigma>))))"
proof -
  have *: "\<exists>\<sigma>'. meet q c st (updchan c f \<sigma>) = Ret () \<sigma>' \<and> runq \<sigma>' (rq @ [q]) \<and> getchan \<sigma>' c = Some (f ch) \<and>
      mem \<sigma>' = wrW (mem \<sigma>) (rd (st (pptr pr) \<sigma>)) (rdW (mem \<sigma>) (rs (st (pptr pr) \<sigma>)))"
    if mv: "mover (f ch) = mv_movw" and st: "st = (\<lambda>a s. s\<lparr>rd := a\<rparr>) \<or> st = (\<lambda>a s. s\<lparr>rs := a\<rparr>)" for st f
  proof -
    let ?s = "updchan c f \<sigma>"
    have r: "runq ?s rq" by (rule runq_same [OF assms(4)]) simp_all
    have g: "getchan ?s c = Some (f ch)" using assms(1) by (simp add: getchan_updchan)
    have "rd (st (pptr pr) ?s) = rd (st (pptr pr) \<sigma>)" "rs (st (pptr pr) ?s) = rs (st (pptr pr) \<sigma>)" using st by auto
    note eq = this
    have p: "progs ?s q = Some pr" using assms(5) by simp
    obtain \<sigma>' where s: "meet q c st ?s = Ret () \<sigma>'" "runq \<sigma>' (rq @ [q])" "hp \<sigma>' = hp ?s"
      "mem \<sigma>' = wrW (mem ?s) (rd (st (pptr pr) ?s)) (rdW (mem ?s) (rs (st (pptr pr) ?s)))"
      using meet_word [OF p assms(6) g mv r assms(7) st] by blast
    have "getchan \<sigma>' c = Some (f ch)" using getchan_hp [OF s(3)] g by simp
    then show ?thesis using s(1,2,4) unfolding eq by auto
  qed
  show ?thesis
  proof (intro conjI impI)
    assume "send ch = q # qs \<and> sendalt ch = None"
    then have "irecv_on c \<sigma> = meet q c (\<lambda>a s. s\<lparr>rs := a\<rparr>) (updchan c (\<lambda>ch. ch\<lparr>send := qs\<rparr>) \<sigma>)"
      using assms(1,2) by (simp add: irecv_on_def)
    then show "\<exists>\<sigma>'. irecv_on c \<sigma> = Ret () \<sigma>' \<and> runq \<sigma>' (rq @ [q]) \<and> getchan \<sigma>' c = Some (ch\<lparr>send := qs\<rparr>) \<and>
        mem \<sigma>' = wrW (mem \<sigma>) (rd \<sigma>) (rdW (mem \<sigma>) (pptr pr))"
      using *[of "\<lambda>ch. ch\<lparr>send := qs\<rparr>" "\<lambda>a s. s\<lparr>rs := a\<rparr>"] assms(3) by simp
  next
    assume "recv ch = q # qs \<and> recvalt ch = None"
    then have "isend_on c \<sigma> = meet q c (\<lambda>a s. s\<lparr>rd := a\<rparr>) (updchan c (\<lambda>ch. ch\<lparr>recv := qs\<rparr>) \<sigma>)"
      using assms(1,2) by (simp add: isend_on_def)
    then show "\<exists>\<sigma>'. isend_on c \<sigma> = Ret () \<sigma>' \<and> runq \<sigma>' (rq @ [q]) \<and> getchan \<sigma>' c = Some (ch\<lparr>recv := qs\<rparr>) \<and>
        mem \<sigma>' = wrW (mem \<sigma>) (pptr pr) (rdW (mem \<sigma>) (rs \<sigma>))"
      using *[of "\<lambda>ch. ch\<lparr>recv := qs\<rparr>" "\<lambda>a s. s\<lparr>rd := a\<rparr>"] assms(3) by simp
  qed
qed

text \<open>
  C16. Waiting. A prog that sends on a channel with no receiver leaves the run queue and joins the end
  of the channel's queue of senders, with the address of its data; the same for a receiver when nobody sends.
\<close>

theorem chan_waits:
  assumes "getchan \<sigma> c = Some ch" "c \<noteq> H" "runq \<sigma> (p # rq)"
  shows "(recv ch = [] \<and> recvalt ch = None \<longrightarrow>
      (\<exists>\<sigma>'. isend_on c \<sigma> = Ret () \<sigma>' \<and> runq \<sigma>' rq \<and> getchan \<sigma>' c = Some (ch\<lparr>send := send ch @ [p]\<rparr>) \<and> mem \<sigma>' = mem \<sigma> \<and>
        map_option (\<lambda>r. (pstate r, pptr r, pchan r)) (progs \<sigma>' p) = Some (Psend, rs \<sigma>, c))) \<and>
    (send ch = [] \<and> sendalt ch = None \<and> sendq ch = H \<longrightarrow>
      (\<exists>\<sigma>'. irecv_on c \<sigma> = Ret () \<sigma>' \<and> runq \<sigma>' rq \<and> getchan \<sigma>' c = Some (ch\<lparr>recv := recv ch @ [p]\<rparr>) \<and> mem \<sigma>' = mem \<sigma> \<and>
        map_option (\<lambda>r. (pstate r, pptr r, pchan r)) (progs \<sigma>' p) = Some (Precv, rd \<sigma>, c)))"
  using waitcomm_queues [OF assms(1,3), of Psend "rs \<sigma>" "\<lambda>p ch. ch\<lparr>send := send ch @ [p]\<rparr>"]
    waitcomm_queues [OF assms(1,3), of Precv "rd \<sigma>" "\<lambda>p ch. ch\<lparr>recv := recv ch @ [p]\<rparr>"] assms(1,2)
  by (auto simp: isend_on_def irecv_on_def)

definition chan0 :: Channel where
  "chan0 = \<lparr>sendq = H, send = [], sendalt = None, recv = [], recvalt = None, mover = mv_movw, midw = 0, midt = 0\<rparr>"

definition vm_chan :: "Channel \<Rightarrow> vm" where
  "vm_chan ch = vm0\<lparr>hp := (\<lambda>_. None)(0x1000 \<mapsto> \<lparr>color = 0, href = 1, ht = Some Tchannel, hs = SChan ch\<rparr>),
     mem := wrW (\<lambda>_. 0) 0x100 42, rs := 0x100\<rparr>"

lemma vm_chan_sel:
  "getchan (vm_chan ch) 0x1000 = Some ch" "runq (vm_chan ch) [1, 2, 3]" "progs (vm_chan ch) 4 = Some prog0"
  "paddrun prog0 = None" "rs (vm_chan ch) = 0x100" "rdW (mem (vm_chan ch)) 0x100 = 42" "(0x1000 :: WORD) \<noteq> H"
proof -
  show "runq (vm_chan ch) [1, 2, 3]" by (rule runq_same [OF runq_vm0]) (simp_all add: vm_chan_def)
qed (simp_all add: getchan_def vm_chan_def vm0_def prog0_def H_def)

theorem chan_waits_witness:
  "\<exists>\<sigma>'. isend_on 0x1000 (vm_chan chan0) = Ret () \<sigma>' \<and> runq \<sigma>' [2, 3] \<and> getchan \<sigma>' 0x1000 = Some (chan0\<lparr>send := [1]\<rparr>)"
  using chan_waits [OF vm_chan_sel(1,7,2), of chan0] by (auto simp: chan0_def)



text \<open>
  C14. Rendezvous. On an idle channel of words, a send by the running prog followed by a receive of another
  prog moves the sender's word to the receiver's address, makes the sender ready again behind the others and
  leaves the channel idle.
\<close>

theorem chan_rendezvous:
  assumes "getchan \<sigma> c = Some ch" "c \<noteq> H" "mover ch = mv_movw" "idle_chan ch" "runq \<sigma> (p # rq)"
    "map_option paddrun (progs \<sigma> p) = Some None"
  shows "\<exists>\<sigma>1 \<sigma>2. isend_on c \<sigma> = Ret () \<sigma>1 \<and> irecv_on c (\<sigma>1\<lparr>rd := d\<rparr>) = Ret () \<sigma>2 \<and>
    mem \<sigma>2 = wrW (mem \<sigma>) d (rdW (mem \<sigma>) (rs \<sigma>)) \<and> runq \<sigma>2 (rq @ [p]) \<and> getchan \<sigma>2 c = Some ch"
proof -
  have i: "recv ch = []" "recvalt ch = None" "send ch = []" "sendalt ch = None" using assms(4) by (simp_all add: idle_chan_def)
  obtain \<sigma>0 where s0: "delrun Psend \<sigma> = Some (p, \<sigma>0)" "runq \<sigma>0 rq" using delrun_runq [OF assms(5)] by blast
  let ?s = "updchan c (\<lambda>ch. ch\<lparr>send := send ch @ [p]\<rparr>) ((updprog p (\<lambda>r. r\<lparr>pptr := rs \<sigma>, pchan := c\<rparr>) \<sigma>0)\<lparr>rIC := 1, rt := 1\<rparr>)"
  have k: "hp \<sigma>0 = hp \<sigma>" "mem \<sigma>0 = mem \<sigma>" "progs \<sigma>0 p = map_option (\<lambda>r. r\<lparr>pstate := Psend\<rparr>) (progs \<sigma> p)"
    using delrun_keeps [OF s0(1)] by simp_all
  have 1: "isend_on c \<sigma> = Ret () ?s" using assms(1,2) i s0(1) by (simp add: isend_on_def waitcomm_def)
  have g: "getchan (?s\<lparr>rd := d\<rparr>) c = Some (ch\<lparr>send := [p]\<rparr>)"
    using assms(1) k(1) i by (simp add: getchan_updchan getchan_hp [of "updchan _ _ _\<lparr>rd := d\<rparr>" "updchan _ _ _"]) (simp add: getchan_def)
  obtain r where r: "progs \<sigma> p = Some r" "paddrun r = None" using assms(6) by auto
  define pr where "pr = r\<lparr>pstate := Psend, pptr := rs \<sigma>, pchan := c\<rparr>"
  have pr: "progs (?s\<lparr>rd := d\<rparr>) p = Some pr" "paddrun pr = None" using r k(3) by (simp_all add: pr_def)
  have q: "runq (?s\<lparr>rd := d\<rparr>) rq" by (rule runq_same [OF s0(2)]) (auto simp: option.map_comp comp_def)
  have np: "p \<notin> set rq" using assms(5) by (auto simp: runq_def)
  have m: "mover (ch\<lparr>send := [p]\<rparr>) = mv_movw" using assms(3) by simp
  have "\<exists>\<sigma>2. irecv_on c (?s\<lparr>rd := d\<rparr>) = Ret () \<sigma>2 \<and> runq \<sigma>2 (rq @ [p]) \<and> getchan \<sigma>2 c = Some (ch\<lparr>send := []\<rparr>) \<and>
      mem \<sigma>2 = wrW (mem (?s\<lparr>rd := d\<rparr>)) d (rdW (mem (?s\<lparr>rd := d\<rparr>)) (pptr pr))"
    using serves_first [OF g assms(2) m q pr np, of "[]"] i by simp
  moreover have "ch\<lparr>send := []\<rparr> = ch" using i by simp
  ultimately show ?thesis using 1 k(2) by (auto simp: pr_def)
qed

theorem chan_rendezvous_witness:
  "\<exists>\<sigma>1 \<sigma>2. isend_on 0x1000 (vm_chan chan0) = Ret () \<sigma>1 \<and> irecv_on 0x1000 (\<sigma>1\<lparr>rd := 0x200\<rparr>) = Ret () \<sigma>2 \<and>
     rdW (mem \<sigma>2) 0x200 = 42 \<and> runq \<sigma>2 [2, 3, 1]"
proof -
  have "map_option paddrun (progs (vm_chan chan0) 1) = Some None" by (simp add: vm_chan_def vm0_def prog0_def)
  from chan_rendezvous [OF vm_chan_sel(1,7) _ _ vm_chan_sel(2) this, where d = "0x200"]
  show ?thesis using vm_chan_sel(5,6) by (fastforce simp: chan0_def idle_chan_def)
qed

end
