(* ===== verification/Progs.thy ===== *)
theory Progs
  imports Chan
begin

text \<open>
  The table of all progs, \<^verbatim>\<open>emu/dis.c\<close>: a list from \<^verbatim>\<open>isched.head\<close> to \<^verbatim>\<open>isched.tail\<close> doubly linked
  through \<^verbatim>\<open>prev\<close> and \<^verbatim>\<open>next\<close>, with the operations that look a prog up, make one, remove one and kill one.
  The name of a new prog is the address \<^verbatim>\<open>malloc\<close> gives and the block is cleared. The environment
  (\<^verbatim>\<open>Osenv\<close>: name space, file descriptors, debugger, wait queue) belongs to the host side and is left out,
  except for whether a debugger is attached.
\<close>

section \<open>Looking up\<close>

text \<open>The loops follow \<^verbatim>\<open>next\<close>: \<open>None\<close> when they meet a freed prog or run on a cyclic list.\<close>

partial_function (option) progn_loop :: "(prg \<Rightarrow> Prog option) \<Rightarrow> int \<Rightarrow> prg option \<Rightarrow> prg option option" where
  "progn_loop ps n p =
     (if p = None \<or> n = 0 then Some p
      else Option.bind (ps (the p)) (\<lambda>pr. progn_loop ps (n - 1) (pnext pr)))"

definition progn :: "int \<Rightarrow> vm \<Rightarrow> prg option option" where
  "progn n \<sigma> = progn_loop (progs \<sigma>) n (phead \<sigma>)"

partial_function (option) progpid_loop :: "(prg \<Rightarrow> Prog option) \<Rightarrow> int \<Rightarrow> prg option \<Rightarrow> prg option option" where
  "progpid_loop ps n p =
     (if p = None then Some None
      else Option.bind (ps (the p)) (\<lambda>pr. if pid pr = n then Some p else progpid_loop ps n (pnext pr)))"

definition progpid :: "int \<Rightarrow> vm \<Rightarrow> prg option option" where
  "progpid n \<sigma> = progpid_loop (progs \<sigma>) n (phead \<sigma>)"

partial_function (option) nprog_loop :: "(prg \<Rightarrow> Prog option) \<Rightarrow> int \<Rightarrow> prg option \<Rightarrow> int option" where
  "nprog_loop ps n p =
     (if p = None then Some n
      else Option.bind (ps (the p)) (\<lambda>pr. nprog_loop ps (n + 1) (pnext pr)))"

definition nprog :: "vm \<Rightarrow> int option" where
  "nprog \<sigma> = nprog_loop (progs \<sigma>) 0 (phead \<sigma>)"

section \<open>Making and removing\<close>

definition progz :: Prog where
  \<comment> \<open>a block that \<^verbatim>\<open>malloc\<close> has cleared\<close>
  "progz = \<lparr>pR_s = 0, pR_d = 0, pR_M = 0, pR_MP = 0, pR_FP = 0, pR_EX = 0, pR_PC = 0, pR_SP = 0, pR_TS = 0, pquanta = 0, link = None, pchan = 0, pptr = 0, pstate = Palt, pkill = None,
     pid = 0, pgrp = 0, pprev = None, pnext = None, paddrun = None\<rparr>"

definition linkprog :: "prg \<Rightarrow> vm \<Rightarrow> vm" where
  \<comment> \<open>append to the list of all progs\<close>
  "linkprog n \<sigma> =
     (case ptail \<sigma> of
        Some t \<Rightarrow> updprog t (\<lambda>q. q\<lparr>pnext := Some n\<rparr>) (updprog n (\<lambda>q. q\<lparr>pprev := Some t\<rparr>) \<sigma>)
      | None \<Rightarrow> updprog n (\<lambda>q. q\<lparr>pprev := None\<rparr>) (\<sigma>\<lparr>phead := Some n\<rparr>))\<lparr>ptail := Some n\<rparr>"

definition newprog :: "prg \<Rightarrow> prg option \<Rightarrow> ptr \<Rightarrow> vm \<Rightarrow> vm option" where
  "newprog n p m \<sigma> =
     Option.bind (addrun n (\<sigma>\<lparr>progs := (progs \<sigma>)(n \<mapsto> progz)\<rparr>)) (\<lambda>\<sigma>1.
     let k = pidnum \<sigma>1 + 1;
         \<sigma>2 = linkprog n (updprog n (\<lambda>q. q\<lparr>pid := k, pgrp := k\<rparr>) (\<sigma>1\<lparr>pidnum := k\<rparr>));
         \<sigma>3 = updprog n (\<lambda>q. q\<lparr>pquanta := 2048\<rparr>) \<sigma>2 in
     Option.bind (incref m \<sigma>3) (\<lambda>\<sigma>4.
     Option.bind (modlink \<sigma>4 m) (\<lambda>(MP, md, c, l).
     let \<sigma>5 = updprog n (\<lambda>q. q\<lparr>pR_M := m, pR_MP := MP\<rparr>) \<sigma>4;
         \<sigma>6 = (if MP \<noteq> H then Setmark MP \<sigma>5 else \<sigma>5) in
     (case p of None \<Rightarrow> Some \<sigma>6
      | Some p \<Rightarrow> map_option (\<lambda>pp. updprog n (\<lambda>q. q\<lparr>pgrp := pgrp pp\<rparr>) \<sigma>6) (progs \<sigma>6 p)))))"

definition unlinkprog :: "prg \<Rightarrow> Prog \<Rightarrow> vm \<Rightarrow> vm" where
  "unlinkprog p pr \<sigma> =
     (let \<sigma>1 = (case pprev pr of Some v \<Rightarrow> updprog v (\<lambda>q. q\<lparr>pnext := pnext pr\<rparr>) \<sigma> | None \<Rightarrow> \<sigma>\<lparr>phead := pnext pr\<rparr>) in
      case pnext pr of Some v \<Rightarrow> updprog v (\<lambda>q. q\<lparr>pprev := pprev pr\<rparr>) \<sigma>1 | None \<Rightarrow> \<sigma>1\<lparr>ptail := pprev pr\<rparr>)"

definition delprog :: "prg \<Rightarrow> vm \<Rightarrow> vm option" where
  "delprog p \<sigma> =
     (case progs \<sigma> p of None \<Rightarrow> None | Some pr \<Rightarrow>
       let \<sigma>1 = unlinkprog p pr \<sigma>;
           \<sigma>2 = (if Some p = runhd \<sigma>1 then \<sigma>1\<lparr>runhd := link pr, runtl := (if link pr = None then None else runtl \<sigma>1)\<rparr> else \<sigma>1) in
       Some (\<sigma>2\<lparr>progs := (progs \<sigma>2)(p := None)\<rparr>))"

section \<open>Stacks\<close>

text \<open>
  A stack is a chain of extents; an extent starts with the four words of \<^verbatim>\<open>Stkext\<close>, then the frames. A frame
  starts with \<^verbatim>\<open>lr\<close>, \<^verbatim>\<open>fp\<close>, \<^verbatim>\<open>mr\<close>, \<^verbatim>\<open>t\<close>. A type pointer in memory is the number of the descriptor plus one.
\<close>

definition typeat :: "mem \<Rightarrow> WORD \<Rightarrow> tid option" where
  "typeat m a = (let w = rdW m a in if w = 0 then None else Some (unat w - 1))"

definition fr_fp :: "mem \<Rightarrow> WORD \<Rightarrow> WORD" where "fr_fp m f = rdW m (f + 4)"
definition fr_mr :: "mem \<Rightarrow> WORD \<Rightarrow> ptr" where "fr_mr m f = rdW m (f + 8)"
definition fr_t :: "mem \<Rightarrow> WORD \<Rightarrow> tid option" where "fr_t m f = typeat m (f + 12)"
definition sx_TR :: "mem \<Rightarrow> WORD \<Rightarrow> tid option" where "sx_TR m ex = typeat m ex"
definition sx_EX :: "mem \<Rightarrow> WORD \<Rightarrow> WORD" where "sx_EX m ex = rdW m (ex + 12)"

text \<open>The frames of one extent, down to the one at its start; \<open>p\<close> is the prog whose registers these are.\<close>

partial_function (option) popframes :: "prg \<Rightarrow> WORD \<Rightarrow> vm \<Rightarrow> vm option" where
  "popframes p ex \<sigma> =
     Option.bind (progs \<sigma> p) (\<lambda>pr.
     let f = pR_FP pr; m = fr_mr (mem \<sigma>) f;
         \<sigma>1 = updprog p (\<lambda>q. q\<lparr>pR_FP := fr_fp (mem \<sigma>) f\<rparr>) \<sigma> in
     Option.bind (case fr_t (mem \<sigma>) f of None \<Rightarrow> sx_TR (mem \<sigma>) ex | Some t \<Rightarrow> Some t) (\<lambda>t.
     Option.bind (if np (types \<sigma>1 t) \<noteq> 0 then freeptrs destroy f (types \<sigma>1 t) \<sigma>1 else Some \<sigma>1) (\<lambda>\<sigma>2.
     Option.bind (if m \<noteq> 0 then map_option (updprog p (\<lambda>q. q\<lparr>pR_M := m\<rparr>)) (destroy (pR_M pr) \<sigma>2) else Some \<sigma>2) (\<lambda>\<sigma>3.
     if f \<noteq> ex + 16 then popframes p ex \<sigma>3 else Some \<sigma>3))))"

partial_function (option) popextents :: "prg \<Rightarrow> WORD \<Rightarrow> vm \<Rightarrow> vm option" where
  "popextents p ex \<sigma> =
     (if ex = 0 then Some \<sigma>
      else Option.bind (popframes p ex \<sigma>) (\<lambda>\<sigma>1. popextents p (sx_EX (mem \<sigma>1) ex) \<sigma>1))"

definition destroystack :: "prg \<Rightarrow> vm \<Rightarrow> vm option" where
  "destroystack p \<sigma> =
     Option.bind (progs \<sigma> p) (\<lambda>pr.
     Option.bind (popextents p (pR_EX pr) (updprog p (\<lambda>q. q\<lparr>pR_EX := 0\<rparr>) \<sigma>)) (\<lambda>\<sigma>1.
     Option.bind (progs \<sigma>1 p) (\<lambda>pr1. destroy (pR_M pr1) \<sigma>1)))"

section \<open>Killing\<close>

definition runhook :: "prg \<Rightarrow> Prog \<Rightarrow> vm \<Rightarrow> vm" where
  \<comment> \<open>\<^verbatim>\<open>p->kill = ""; p->addrun(p); p->addrun = nil\<close>\<close>
  "runhook p pr \<sigma> =
     (let \<sigma>1 = updprog p (\<lambda>q. q\<lparr>pkill := Some []\<rparr>) \<sigma> in
      updprog p (\<lambda>q. q\<lparr>paddrun := None\<rparr>) (case paddrun pr of None \<Rightarrow> \<sigma>1 | Some h \<Rightarrow> callhook h p \<sigma>1))"

definition leavequeue :: "prg \<Rightarrow> Prog \<Rightarrow> vm \<Rightarrow> vm option" where
  \<comment> \<open>the cases of the \<^verbatim>\<open>switch\<close> that go on\<close>
  "leavequeue p pr \<sigma> =
     (case pstate pr of
        Palt \<Rightarrow> altdone (pR_s pr) p 0 (-1) \<sigma>
      | Psend \<Rightarrow> map_option (\<lambda>_. updchan (pchan pr) (\<lambda>ch. ch\<lparr>send := remove1 p (send ch)\<rparr>) \<sigma>) (getchan \<sigma> (pchan pr))
      | Precv \<Rightarrow> map_option (\<lambda>_. updchan (pchan pr) (\<lambda>ch. ch\<lparr>recv := remove1 p (recv ch)\<rparr>) \<sigma>) (getchan \<sigma> (pchan pr))
      | Pready \<Rightarrow> delrunq p \<sigma>
      | _ \<Rightarrow> Some \<sigma>)"

definition killprog :: "bool \<Rightarrow> prg \<Rightarrow> vm \<Rightarrow> (int \<times> vm) option" where
  \<comment> \<open>\<open>dbg\<close>: a debugger is attached\<close>
  "killprog dbg p \<sigma> =
     (case progs \<sigma> p of None \<Rightarrow> None | Some pr \<Rightarrow>
       let exiting = updprog p (\<lambda>q. q\<lparr>pkill := Some [], pstate := Pexiting\<rparr>) \<sigma> in
       if Some p = runhd \<sigma> then Some (0, exiting)
       else if pstate pr = Prelease then Some (0, swiprog p exiting)
       else if pstate pr = Pexiting then Some (0, \<sigma>)
       else Option.bind (leavequeue p pr \<sigma>) (\<lambda>\<sigma>1.
         if paddrun pr \<noteq> None then Some (0, runhook p pr \<sigma>1)
         else if dbg then Some (0, updprog p (\<lambda>q. q\<lparr>pstate := Pbroken\<rparr>) \<sigma>1)
         else Option.bind (destroystack p (gclock (updprog p (\<lambda>q. q\<lparr>pstate := Pexiting\<rparr>) \<sigma>1))) (\<lambda>\<sigma>2.
              map_option (\<lambda>\<sigma>3. (1, gcunlock \<sigma>3)) (delprog p \<sigma>2))))"

section \<open>The list of all progs\<close>

fun dseg :: "(prg \<Rightarrow> Prog option) \<Rightarrow> prg option \<Rightarrow> prg option \<Rightarrow> prg list \<Rightarrow> prg option \<Rightarrow> prg option \<Rightarrow> bool" where
  "dseg ps pv h [] pv' h' \<longleftrightarrow> pv = pv' \<and> h = h'"
| "dseg ps pv h (q # qs) pv' h' \<longleftrightarrow>
     h = Some q \<and> (\<exists>pr. ps q = Some pr \<and> pprev pr = pv \<and> dseg ps (Some q) (pnext pr) qs pv' h')"

definition allprogs :: "vm \<Rightarrow> prg list \<Rightarrow> bool" where
  "allprogs \<sigma> qs \<longleftrightarrow> dseg (progs \<sigma>) None (phead \<sigma>) qs (ptail \<sigma>) None \<and> distinct qs"

lemma dseg_append: "dseg ps pv h (xs @ ys) pv' h' \<longleftrightarrow> (\<exists>m n. dseg ps pv h xs m n \<and> dseg ps m n ys pv' h')"
  by (induction xs arbitrary: pv h) auto

lemma dseg_cong:
  assumes "\<And>q. q \<in> set qs \<Longrightarrow> map_option (\<lambda>r. (pprev r, pnext r)) (ps q) = map_option (\<lambda>r. (pprev r, pnext r)) (ps' q)"
  shows "dseg ps pv h qs pv' h' = dseg ps' pv h qs pv' h'"
  using assms
proof (induction qs arbitrary: pv h)
  case (Cons q qs)
  from Cons.prems [of q] have "map_option (\<lambda>r. (pprev r, pnext r)) (ps q) = map_option (\<lambda>r. (pprev r, pnext r)) (ps' q)" by simp
  moreover have "\<And>pv h. dseg ps pv h qs pv' h' = dseg ps' pv h qs pv' h'" using Cons by simp
  ultimately show ?case by (cases "ps q"; cases "ps' q") auto
qed simp

lemma dseg_last: "dseg ps pv h qs m n \<Longrightarrow> m = (if qs = [] then pv else Some (last qs))"
  by (induction qs arbitrary: pv h) auto

lemma dseg_first: "dseg ps pv h qs m n \<Longrightarrow> h = (if qs = [] then n else Some (hd qs))"
  by (cases qs) auto

lemma dseg_setnext:
  "dseg ps pv h qs m n \<Longrightarrow> qs \<noteq> [] \<Longrightarrow> distinct qs \<Longrightarrow>
     dseg (ps(last qs := map_option (\<lambda>r. r\<lparr>pnext := n'\<rparr>) (ps (last qs)))) pv h qs m n'"
proof (induction qs arbitrary: pv h)
  case (Cons q qs)
  show ?case
  proof (cases "qs = []")
    case True
    then show ?thesis using Cons.prems by auto
  next
    case False
    then have "last qs \<noteq> q" using Cons.prems(3) by (metis distinct.simps(2) last_in_set)
    then show ?thesis using Cons False by auto
  qed
qed simp

lemma dseg_setprev:
  assumes "dseg ps pv h qs m n" "qs \<noteq> []" "distinct qs"
  shows "dseg (ps(hd qs := map_option (\<lambda>r. r\<lparr>pprev := pv'\<rparr>) (ps (hd qs)))) pv' h qs m n"
proof -
  obtain q qs' where q: "qs = q # qs'" using assms(2) by (cases qs) auto
  have "dseg (ps(q := x)) a b qs' m n = dseg ps a b qs' m n" for x a b
    using assms(3) by (intro dseg_cong) (auto simp: q)
  then show ?thesis using assms(1) by (auto simp: q)
qed

lemma allprogs_same:
  assumes "allprogs \<sigma> qs" "phead \<sigma>' = phead \<sigma>" "ptail \<sigma>' = ptail \<sigma>"
    "\<And>q. q \<in> set qs \<Longrightarrow> map_option (\<lambda>r. (pprev r, pnext r)) (progs \<sigma>' q) = map_option (\<lambda>r. (pprev r, pnext r)) (progs \<sigma> q)"
  shows "allprogs \<sigma>' qs"
  using assms dseg_cong [of qs "progs \<sigma>'" "progs \<sigma>"] by (simp add: allprogs_def)

lemma linkprog_allprogs:
  assumes "allprogs \<sigma> qs" "n \<notin> set qs" "progs \<sigma> n = Some pr" "pnext pr = None"
  shows "allprogs (linkprog n \<sigma>) (qs @ [n])"
proof (cases qs rule: rev_cases)
  case Nil
  then have "ptail \<sigma> = None" using assms(1) by (simp add: allprogs_def)
  then show ?thesis using Nil assms by (auto simp: allprogs_def linkprog_def)
next
  case (snoc xs t)
  have d: "dseg (progs \<sigma>) None (phead \<sigma>) qs (ptail \<sigma>) None" "distinct qs" using assms(1) by (simp_all add: allprogs_def)
  have t: "ptail \<sigma> = Some t" using dseg_last [OF d(1)] snoc by simp
  let ?ps = "(progs \<sigma>)(n := Some (pr\<lparr>pprev := Some t\<rparr>))"
  have tn: "t \<noteq> n" "last qs = t" "qs \<noteq> []" using assms(2) snoc by auto
  have "dseg ?ps None (phead \<sigma>) qs (Some t) None"
    using d(1) t assms(2) by (subst dseg_cong [of qs _ "progs \<sigma>"]) auto
  from dseg_setnext [OF this tn(3) d(2), of "Some n"]
  have "dseg (?ps(t := map_option (\<lambda>r. r\<lparr>pnext := Some n\<rparr>) (?ps t))) None (phead \<sigma>) qs (Some t) (Some n)" by (simp add: tn(2))
  moreover have "progs (linkprog n \<sigma>) = ?ps(t := map_option (\<lambda>r. r\<lparr>pnext := Some n\<rparr>) (?ps t))"
    using assms(3) t tn(1) by (auto simp: linkprog_def fun_eq_iff)
  ultimately show ?thesis using t tn(1) d(2) assms(2,4) by (auto simp: allprogs_def dseg_append linkprog_def)
qed

lemma unlinkprog_allprogs:
  assumes "allprogs \<sigma> (xs @ p # ys)" "progs \<sigma> p = Some pr"
  shows "allprogs (unlinkprog p pr \<sigma>) (xs @ ys)"
proof -
  have d: "distinct (xs @ p # ys)" using assms(1) by (simp add: allprogs_def)
  obtain m where m: "dseg (progs \<sigma>) None (phead \<sigma>) xs m (Some p)" "pprev pr = m"
    "dseg (progs \<sigma>) (Some p) (pnext pr) ys (ptail \<sigma>) None"
    using assms by (auto simp: allprogs_def dseg_append)
  let ?ps1 = "case m of Some v \<Rightarrow> (progs \<sigma>)(v := map_option (\<lambda>q. q\<lparr>pnext := pnext pr\<rparr>) (progs \<sigma> v)) | None \<Rightarrow> progs \<sigma>"
  let ?h = "if m = None then pnext pr else phead \<sigma>"
  have mx: "m = (if xs = [] then None else Some (last xs))" using dseg_last [OF m(1)] .
  have 1: "dseg ?ps1 None ?h xs m (pnext pr)"
    using m(1) mx dseg_setnext [OF m(1), of "pnext pr"] d by (cases "xs = []") auto
  have 2: "dseg ?ps1 (Some p) (pnext pr) ys (ptail \<sigma>) None"
  proof -
    have "last xs \<notin> set ys" if "xs \<noteq> []" using d last_in_set [OF that] by auto
    then show ?thesis using m(3) mx by (subst dseg_cong [of ys _ "progs \<sigma>"]) (auto split: option.splits if_splits)
  qed
  have yn: "pnext pr = (if ys = [] then None else Some (hd ys))" using dseg_first [OF m(3)] .
  let ?ps2 = "case pnext pr of Some v \<Rightarrow> ?ps1(v := map_option (\<lambda>q. q\<lparr>pprev := m\<rparr>) (?ps1 v)) | None \<Rightarrow> ?ps1"
  have 3: "dseg ?ps2 None ?h xs m (pnext pr)"
  proof -
    have "hd ys \<notin> set xs" if "ys \<noteq> []" using d that by (cases ys) auto
    then show ?thesis using 1 yn by (subst dseg_cong [of xs _ ?ps1]) (auto split: option.splits if_splits)
  qed
  have 4: "dseg ?ps2 m (pnext pr) ys (if ys = [] then m else ptail \<sigma>) None"
    using 2 yn dseg_setprev [OF 2, of m] d by (cases "ys = []") auto
  have "progs (unlinkprog p pr \<sigma>) = ?ps2" "phead (unlinkprog p pr \<sigma>) = ?h" "ptail (unlinkprog p pr \<sigma>) = (if ys = [] then m else ptail \<sigma>)"
    using yn m(2) by (auto simp: unlinkprog_def Let_def split: option.splits if_splits)
  then show ?thesis using 3 4 d by (auto simp: allprogs_def dseg_append)
qed

lemma delprog_allprogs:
  assumes "allprogs \<sigma> (xs @ p # ys)"
  shows "\<exists>\<sigma>'. delprog p \<sigma> = Some \<sigma>' \<and> allprogs \<sigma>' (xs @ ys) \<and> progs \<sigma>' p = None \<and> hp \<sigma>' = hp \<sigma>"
proof -
  obtain pr where pr: "progs \<sigma> p = Some pr" using assms by (auto simp: allprogs_def dseg_append)
  have d: "p \<notin> set (xs @ ys)" using assms by (auto simp: allprogs_def)
  let ?u = "unlinkprog p pr \<sigma>"
  have "allprogs (f ?u\<lparr>progs := (progs ?u)(p := None)\<rparr>) (xs @ ys)" if "phead (f ?u) = phead ?u" "ptail (f ?u) = ptail ?u" for f
    by (rule allprogs_same [OF unlinkprog_allprogs [OF assms pr]]) (use d that in auto)
  from this [of "\<lambda>s. s"] this [of "\<lambda>s. s\<lparr>runhd := link pr, runtl := None\<rparr>"] this [of "\<lambda>s. s\<lparr>runhd := link pr, runtl := runtl ?u\<rparr>"]
  have "allprogs (the (delprog p \<sigma>)) (xs @ ys)" using pr by (auto simp: delprog_def Let_def)
  moreover have "hp ?u = hp \<sigma>" by (auto simp: unlinkprog_def Let_def split: option.splits)
  ultimately show ?thesis using pr by (auto simp: delprog_def Let_def)
qed

lemma progn_loop_seg: "dseg ps pv h qs m None \<Longrightarrow> progn_loop ps (int n) h = Some (if n < length qs then Some (qs ! n) else None)"
proof (induction qs arbitrary: pv h n)
  case Nil
  then show ?case by (simp add: progn_loop.simps)
next
  case (Cons q qs)
  show ?case
  proof (cases n)
    case 0
    then show ?thesis using Cons.prems by (auto simp: progn_loop.simps)
  next
    case (Suc k)
    then show ?thesis using Cons by (subst progn_loop.simps) auto
  qed
qed

lemma progpid_loop_seg:
  "dseg ps pv h qs m None \<Longrightarrow> progpid_loop ps n h = Some (find (\<lambda>q. map_option pid (ps q) = Some n) qs)"
proof (induction qs arbitrary: pv h)
  case Nil
  then show ?case by (simp add: progpid_loop.simps)
next
  case (Cons q qs)
  then show ?case by (subst progpid_loop.simps) auto
qed

lemma nprog_loop_seg: "dseg ps pv h qs m None \<Longrightarrow> nprog_loop ps k h = Some (k + int (length qs))"
proof (induction qs arbitrary: pv h k)
  case Nil
  then show ?case by (simp add: nprog_loop.simps)
next
  case (Cons q qs)
  then show ?case by (subst nprog_loop.simps) auto
qed

lemma Setmark_progs [simp]:
  "progs (Setmark v \<sigma>) = progs \<sigma>" "phead (Setmark v \<sigma>) = phead \<sigma>" "ptail (Setmark v \<sigma>) = ptail \<sigma>"
  "runhd (Setmark v \<sigma>) = runhd \<sigma>" "runtl (Setmark v \<sigma>) = runtl \<sigma>"
  by (auto simp: Setmark_def updobj_def split: option.splits)

lemma incref_progs: "incref v \<sigma> = Some \<sigma>' \<Longrightarrow> progs \<sigma>' = progs \<sigma> \<and> phead \<sigma>' = phead \<sigma> \<and> ptail \<sigma>' = ptail \<sigma> \<and> runhd \<sigma>' = runhd \<sigma> \<and> runtl \<sigma>' = runtl \<sigma> \<and>
    modlink \<sigma>' u = modlink \<sigma> u"
  by (auto simp: incref_def Setmark_def updobj_def modlink_def split: option.splits if_splits)

lemma addrun_table:
  assumes "addrun n \<sigma> = Some \<sigma>'" "progs \<sigma> n = Some pr" "paddrun pr = None"
  shows "phead \<sigma>' = phead \<sigma>" "ptail \<sigma>' = ptail \<sigma>" "hp \<sigma>' = hp \<sigma>"
    "map_option (\<lambda>r. (pprev r, pnext r)) (progs \<sigma>' q) = map_option (\<lambda>r. (pprev r, pnext r)) (progs \<sigma> q)"
    "progs \<sigma>' q = None \<longleftrightarrow> progs \<sigma> q = None"
  using assms by (auto simp: addrun_def Let_def option.map_comp comp_def split: option.splits if_splits)

lemma linkprog_keeps:
  "runhd (linkprog n \<sigma>) = runhd \<sigma>" "runtl (linkprog n \<sigma>) = runtl \<sigma>" "hp (linkprog n \<sigma>) = hp \<sigma>"
  "map_option link (progs (linkprog n \<sigma>) q) = map_option link (progs \<sigma> q)"
  by (auto simp: linkprog_def option.map_comp comp_def split: option.splits)

lemma newprog_allprogs:
  assumes a: "allprogs \<sigma> qs" "runq \<sigma> rq" and n: "progs \<sigma> n = None" and m: "modlink \<sigma> m \<noteq> None" and p: "\<forall>q\<in>set_option p. progs \<sigma> q \<noteq> None"
  shows "\<exists>\<sigma>'. newprog n p m \<sigma> = Some \<sigma>' \<and> allprogs \<sigma>' (qs @ [n]) \<and> runq \<sigma>' (rq @ [n])"
proof -
  let ?s = "\<sigma>\<lparr>progs := (progs \<sigma>)(n \<mapsto> progz)\<rparr>"
  have nq: "n \<notin> set qs" if "dseg (progs \<sigma>) pv h qs t e" for pv h t e
    using that n by (induction qs arbitrary: pv h) auto
  then have nq: "n \<notin> set qs" using a(1) unfolding allprogs_def by blast
  have "n \<notin> set rq" if "lpath (progs \<sigma>) h rq" for h using that n by (induction rq arbitrary: h) auto
  then have nr: "n \<notin> set rq" using a(2) unfolding runq_def by blast
  have "runq ?s rq" using a(2) nr by (simp add: runq_def)
  then obtain \<sigma>1 where s1: "addrun n ?s = Some \<sigma>1" "runq \<sigma>1 (rq @ [n])" "progs \<sigma>1 n = Some (progz\<lparr>pstate := Pready, link := None\<rparr>)"
    using addrun_runq [of ?s rq n progz] nr by (auto simp: progz_def)
  have zn: "progs ?s n = Some progz" "paddrun progz = None" by (simp_all add: progz_def)
  note t1 = addrun_table [OF s1(1) zn]
  define k where "k = pidnum \<sigma>1 + 1"
  let ?u = "updprog n (\<lambda>q. q\<lparr>pid := k, pgrp := k\<rparr>) (\<sigma>1\<lparr>pidnum := k\<rparr>)"
  have "allprogs ?u qs"
  proof (rule allprogs_same [OF a(1)])
    show "map_option (\<lambda>r. (pprev r, pnext r)) (progs ?u q) = map_option (\<lambda>r. (pprev r, pnext r)) (progs \<sigma> q)" if "q \<in> set qs" for q
      using t1(4) [of q] that nq by auto
  qed (use t1 in simp_all)
  then have 2: "allprogs (linkprog n ?u) (qs @ [n])"
    by (rule linkprog_allprogs [OF _ nq, where pr = "progz\<lparr>pstate := Pready, link := None, pid := k, pgrp := k\<rparr>"]) (simp_all add: s1(3) progz_def)
  let ?v = "updprog n (\<lambda>q. q\<lparr>pquanta := 2048\<rparr>) (linkprog n ?u)"
  have hv: "hp ?v = hp \<sigma>" using t1(3) by (simp add: linkprog_keeps)
  obtain ml where ml: "modlink \<sigma> m = Some ml" using m by blast
  then obtain MP md c l where mlv: "ml = (MP, md, c, l)" by (cases ml) auto
  have "hp \<sigma> m \<noteq> None" using ml by (auto simp: modlink_def split: option.splits)
  then obtain \<sigma>4 where s4: "incref m ?v = Some \<sigma>4" using hv by (auto simp: incref_def)
  note i = incref_progs [OF s4]
  have m4: "modlink \<sigma>4 m = Some (MP, md, c, l)" using i [of m] hv ml mlv by (simp add: modlink_def)
  have av: "allprogs ?v (qs @ [n])" by (rule allprogs_same [OF 2]) (auto simp: option.map_comp comp_def)
  have rv: "runq ?v (rq @ [n])"
    by (rule runq_same [OF s1(2)]) (auto simp: linkprog_keeps option.map_comp comp_def)
  let ?w = "updprog n (\<lambda>q. q\<lparr>pR_M := m, pR_MP := MP\<rparr>) \<sigma>4"
  let ?x = "if MP \<noteq> H then Setmark MP ?w else ?w"
  have keep: "allprogs (updprog n f ?x) (qs @ [n]) \<and> runq (updprog n f ?x) (rq @ [n])"
    if "\<And>r. pprev (f r) = pprev r \<and> pnext (f r) = pnext r \<and> link (f r) = link r" for f
    using i that by (intro conjI allprogs_same [OF av] runq_same [OF rv]) (auto simp: option.map_comp comp_def)
  have id: "updprog n (\<lambda>r. r) ?x = ?x" by (simp add: updprog_def option.map_ident)
  have px: "progs ?x q \<noteq> None" if "progs \<sigma> q \<noteq> None" for q
    using that i t1(5) [of q] by (auto simp: linkprog_def split: option.splits if_splits)
  show ?thesis
  proof (cases p)
    case None
    then have "newprog n p m \<sigma> = Some ?x" using s1(1) s4 m4 by (simp add: newprog_def Let_def k_def)
    then show ?thesis using keep [of "\<lambda>r. r"] id by simp
  next
    case (Some q)
    then obtain pp where pp: "progs ?x q = Some pp" using px p by auto
    then have "newprog n p m \<sigma> = Some (updprog n (\<lambda>q. q\<lparr>pgrp := pgrp pp\<rparr>) ?x)"
      using Some s1(1) s4 m4 by (simp add: newprog_def Let_def k_def)
    then show ?thesis using keep [of "\<lambda>q. q\<lparr>pgrp := pgrp pp\<rparr>"] by simp
  qed
qed

section \<open>Properties\<close>

definition mlobj :: hobj where
  "mlobj = \<lparr>color = 0, href = 1, ht = Some Tmodlink, hs = SModlink H 0 False []\<rparr>"

definition vm_progs :: vm where
  \<comment> \<open>three progs, of which two are ready and one waits to send\<close>
  "vm_progs = vm0\<lparr>hp := (\<lambda>_. None)(0x1000 \<mapsto> \<lparr>color = 0, href = 1, ht = Some Tchannel, hs = SChan (chan0\<lparr>send := [3]\<rparr>)\<rparr>, 0x2000 \<mapsto> mlobj),
     progs := (\<lambda>_. None)(1 \<mapsto> prog0\<lparr>link := Some 2, pnext := Some 2\<rparr>, 2 \<mapsto> prog0\<lparr>pid := 2, pprev := Some 1, pnext := Some 3\<rparr>,
       3 \<mapsto> prog0\<lparr>pid := 3, pprev := Some 2, pstate := Psend, pchan := 0x1000\<rparr>),
     phead := Some 1, ptail := Some 3, runhd := Some 1, runtl := Some 2\<rparr>"

lemma vm_progs_ok: "allprogs vm_progs [1, 2, 3]" "runq vm_progs [1, 2]" "modlink vm_progs 0x2000 = Some (H, 0, False, [])"
  by (simp_all add: allprogs_def runq_def modlink_def vm_progs_def prog0_def mlobj_def)

text \<open>
  C19. The table of progs. The doubly linked list of all progs implements a list: \<^verbatim>\<open>newprog\<close> appends the new
  prog (and puts it at the end of the run queue), \<^verbatim>\<open>delprog\<close> removes the prog and frees it, \<^verbatim>\<open>progn\<close>, \<^verbatim>\<open>progpid\<close>
  and \<^verbatim>\<open>nprog\<close> are indexing, search by pid and length; no operation follows a dangling link.
\<close>

theorem proctable_refines:
  assumes "allprogs \<sigma> qs"
  shows "(runq \<sigma> rq \<and> progs \<sigma> n = None \<and> modlink \<sigma> m \<noteq> None \<longrightarrow>
      (\<exists>\<sigma>'. newprog n None m \<sigma> = Some \<sigma>' \<and> allprogs \<sigma>' (qs @ [n]) \<and> runq \<sigma>' (rq @ [n]))) \<and>
    (p \<in> set qs \<longrightarrow> (\<exists>\<sigma>'. delprog p \<sigma> = Some \<sigma>' \<and> allprogs \<sigma>' (remove1 p qs) \<and> progs \<sigma>' p = None)) \<and>
    progn (int i) \<sigma> = Some (if i < length qs then Some (qs ! i) else None) \<and>
    progpid k \<sigma> = Some (find (\<lambda>q. map_option pid (progs \<sigma> q) = Some k) qs) \<and>
    nprog \<sigma> = Some (int (length qs))"
proof (intro conjI impI)
  assume "runq \<sigma> rq \<and> progs \<sigma> n = None \<and> modlink \<sigma> m \<noteq> None"
  then show "\<exists>\<sigma>'. newprog n None m \<sigma> = Some \<sigma>' \<and> allprogs \<sigma>' (qs @ [n]) \<and> runq \<sigma>' (rq @ [n])"
    using newprog_allprogs [OF assms, of rq n m None] by simp
next
  assume "p \<in> set qs"
  then obtain xs ys where qs: "qs = xs @ p # ys" by (auto dest: split_list)
  moreover have "p \<notin> set xs" using assms qs by (auto simp: allprogs_def)
  ultimately show "\<exists>\<sigma>'. delprog p \<sigma> = Some \<sigma>' \<and> allprogs \<sigma>' (remove1 p qs) \<and> progs \<sigma>' p = None"
    using delprog_allprogs [of \<sigma> xs p ys] assms by (auto simp: remove1_append)
qed (use assms in \<open>auto simp: allprogs_def progn_def progpid_def nprog_def progn_loop_seg progpid_loop_seg nprog_loop_seg\<close>)

theorem proctable_refines_witness:
  "(\<exists>\<sigma>'. newprog 7 None 0x2000 vm_progs = Some \<sigma>' \<and> allprogs \<sigma>' [1, 2, 3, 7]) \<and>
   (\<exists>\<sigma>'. delprog 2 vm_progs = Some \<sigma>' \<and> allprogs \<sigma>' [1, 3]) \<and> progn 2 vm_progs = Some (Some 3)"
proof -
  have "progs vm_progs 7 = None" by (simp add: vm_progs_def)
  then show ?thesis
    using proctable_refines [OF vm_progs_ok(1), of "[1, 2]" 7 "0x2000" 2 2] vm_progs_ok(2,3) by auto
qed



end
