(* ===== verification/Stack.thy ===== *)
theory Stack
  imports Progs
begin

text \<open>
  Frames and calls: \<^verbatim>\<open>interp/stack.c\<close> and the instructions \<^verbatim>\<open>frame\<close>, \<^verbatim>\<open>mframe\<close>, \<^verbatim>\<open>call\<close>, \<^verbatim>\<open>mcall\<close>, \<^verbatim>\<open>ret\<close>, \<^verbatim>\<open>spawn\<close>,
  \<^verbatim>\<open>mspawn\<close> of \<^verbatim>\<open>interp/xec.c\<close>. A frame starts with the words \<^verbatim>\<open>lr\<close>, \<^verbatim>\<open>fp\<close>, \<^verbatim>\<open>mr\<close>, \<^verbatim>\<open>t\<close>. When it does not fit the extent it
  is put at the start of a new one, whose four words in front of it (\<^verbatim>\<open>Stkext\<close>) keep the type of the frame and the
  registers \<^verbatim>\<open>SP\<close>, \<^verbatim>\<open>TS\<close>, \<^verbatim>\<open>EX\<close> to go back to; \<^verbatim>\<open>t\<close> of that frame is nil. The argument \<open>ns\<close> is the address that
  \<^verbatim>\<open>mallocz\<close> gives for an extent, 0 if there is no memory; \<open>n\<close> is the address of a new \<^verbatim>\<open>Prog\<close>.
\<close>

section \<open>Extents\<close>

definition tyword :: "tid \<Rightarrow> WORD" where
  \<comment> \<open>a type pointer as a word of memory\<close>
  "tyword t = of_nat (Suc t)"

definition SEXTYPE :: "WORD \<Rightarrow> WORD" where "SEXTYPE f = f - 16"

definition sx_SP :: "mem \<Rightarrow> WORD \<Rightarrow> WORD" where "sx_SP m ex = rdW m (ex + 4)"
definition sx_TS :: "mem \<Rightarrow> WORD \<Rightarrow> WORD" where "sx_TS m ex = rdW m (ex + 8)"
definition fr_lr :: "mem \<Rightarrow> WORD \<Rightarrow> WORD" where "fr_lr m f = rdW m f"

definition frametype :: "mem \<Rightarrow> WORD \<Rightarrow> tid option" where
  \<comment> \<open>\<^verbatim>\<open>t = f->t; if(t == nil) t = SEXTYPE(f)->reg.TR\<close>\<close>
  "frametype m f = (case fr_t m f of Some t \<Rightarrow> Some t | None \<Rightarrow> sx_TR m (SEXTYPE f))"

definition putext :: "WORD \<Rightarrow> tid \<Rightarrow> WORD \<Rightarrow> WORD \<Rightarrow> WORD \<Rightarrow> mem \<Rightarrow> mem" where
  \<comment> \<open>\<^verbatim>\<open>ns->reg.TR = t; ns->reg.SP = sp; ns->reg.TS = ts; ns->reg.EX = ex\<close>\<close>
  "putext ns t sp ts ex m = wrW (wrW (wrW (wrW m ns (tyword t)) (ns + 4) sp) (ns + 8) ts) (ns + 12) ex"

definition initframe :: "Type \<Rightarrow> WORD \<Rightarrow> mem \<Rightarrow> mem" where
  \<comment> \<open>\<^verbatim>\<open>if(t->np) initmem(t, f)\<close>\<close>
  "initframe ty f m = (if np ty \<noteq> 0 then initmem ty f m else m)"

definition extend :: "WORD \<Rightarrow> tid \<Rightarrow> op" where
  \<comment> \<open>the type is passed in \<^verbatim>\<open>R.s\<close>\<close>
  "extend ns t \<sigma> =
     (case curmod \<sigma> of None \<Rightarrow> Crash | Some (md, c) \<Rightarrow>
       let ty = types \<sigma> t; l = (if mss md < tsize ty + 16 then 2 * tsize ty + 16 else mss md) in
       if ns = 0 then Err exNomem \<sigma>
       else
         let f = ns + 16;
             m1 = putext ns t (rSP \<sigma>) (rTS \<sigma>) (rEX \<sigma>) (mem \<sigma>);
             m2 = wrW (wrW m1 (f + 12) 0) (f + 8) 0 in
         Ret () (\<sigma>\<lparr>mem := initframe ty f m2, rs := f, rEX := ns, rTS := ns + of_int l, rSP := f + of_int (tsize ty)\<rparr>))"

definition unextend :: "WORD \<Rightarrow> op" where
  "unextend f \<sigma> =
     (let sx = SEXTYPE f; m = mem \<sigma>; \<sigma>1 = \<sigma>\<lparr>rSP := sx_SP m sx, rTS := sx_TS m sx, rEX := sx_EX m sx\<rparr> in
      case sx_TR m sx of None \<Rightarrow> Crash
      | Some t \<Rightarrow> if np (types \<sigma> t) \<noteq> 0 then liftO (freeptrs destroy f (types \<sigma> t) \<sigma>1) else Ret () \<sigma>1)"

definition newstack :: "WORD \<Rightarrow> prg \<Rightarrow> op" where
  "newstack ns p \<sigma> =
     (let f = Ws \<sigma> in
      case frametype (mem \<sigma>) f of None \<Rightarrow> Crash | Some t \<Rightarrow>
        let ty = types \<sigma> t; \<sigma>1 = \<sigma>\<lparr>mem := wrW (wrW (wrW (mem \<sigma>) f 0) (f + 8) 0) (f + 4) 0\<rparr> in
        case progs \<sigma>1 p of None \<Rightarrow> Crash | Some pr \<Rightarrow>
        case modlink \<sigma>1 (pR_M pr) of None \<Rightarrow> Crash | Some (MP, md, c, lk) \<Rightarrow>
          let ss = mss (mods \<sigma>1 md); l = (if ss < tsize ty + 16 then tsize ty + 16 else ss) in
          if ns = 0 then Err exNomem \<sigma>1
          else
            let m1 = putext ns t 0 0 0 (mem \<sigma>1); fp = ns + 16;
                \<sigma>2 = updprog p (\<lambda>q. q\<lparr>pR_EX := ns, pR_TS := ns + of_int l, pR_SP := fp + of_int (tsize ty), pR_FP := fp\<rparr>) \<sigma>1 in
            Ret () (\<sigma>2\<lparr>mem := wrW (memmove m1 fp f (nat (tsize ty))) (fp + 12) 0\<rparr>))"

definition unframe :: op where
  "unframe \<sigma> =
     (case frametype (mem \<sigma>) (rFP \<sigma>) of None \<Rightarrow> Crash | Some t \<Rightarrow>
       let \<sigma>1 = \<sigma>\<lparr>rSP := rFP \<sigma> + of_int (tsize (types \<sigma> t))\<rparr>; f = Ws \<sigma> in
       case fr_t (mem \<sigma>) f of
         None \<Rightarrow> Ret () (\<sigma>1\<lparr>rTS := sx_TS (mem \<sigma>) (SEXTYPE f), rEX := sx_EX (mem \<sigma>) (SEXTYPE f)\<rparr>)
       | Some _ \<Rightarrow> Ret () \<sigma>1)"

section \<open>Frames and calls\<close>

definition newframe :: "WORD \<Rightarrow> tid \<Rightarrow> op" where
  \<comment> \<open>what \<^verbatim>\<open>frame\<close> and \<^verbatim>\<open>mframe\<close> do with the type\<close>
  "newframe ns t \<sigma> =
     (let ty = types \<sigma> t; nsp = rSP \<sigma> + of_int (tsize ty) in
      if nsp \<ge> rTS \<sigma> then bindM (extend ns t \<sigma>) (\<lambda>_ \<sigma>1. putW (rs \<sigma>1) \<sigma>1)
      else
        let f = rSP \<sigma> in
        putW f (\<sigma>\<lparr>rSP := nsp, mem := initframe ty f (wrW (wrW (mem \<sigma>) (f + 12) (tyword t)) (f + 8) 0)\<rparr>))"

definition frame :: "WORD \<Rightarrow> op" where
  "frame ns \<sigma> = (case modtype \<sigma> (Ws \<sigma>) of None \<Rightarrow> Crash | Some t \<Rightarrow> newframe ns t \<sigma>)"

definition linkat :: "(int \<times> tid option) list \<Rightarrow> WORD \<Rightarrow> (int \<times> tid option) option" where
  \<comment> \<open>\<^verbatim>\<open>ml->links[i]\<close>: the entry and the type of its frame\<close>
  "linkat lk i = (if unat i < length lk then Some (lk ! unat i) else None)"

definition mframe :: "WORD \<Rightarrow> op" where
  "mframe ns \<sigma> =
     (let ml = Ws \<sigma> in
      if ml = H then Err exModule \<sigma>
      else case modlink \<sigma> ml of None \<Rightarrow> Crash | Some (MP, md, c, lk) \<Rightarrow>
        (case linkat lk (Wm \<sigma>) of Some (u, Some t) \<Rightarrow> newframe ns t \<sigma> | _ \<Rightarrow> Crash))"

definition call :: op where
  "call \<sigma> = (let f = Ws \<sigma> in JMP (\<sigma>\<lparr>mem := wrW (wrW (mem \<sigma>) f (rPC \<sigma>)) (f + 4) (rFP \<sigma>), rFP := f\<rparr>))"

definition popframe :: "WORD \<Rightarrow> op" where
  \<comment> \<open>\<^verbatim>\<open>if(f->t == nil) unextend(f); else if (f->t->np) freeptrs(f, f->t)\<close>\<close>
  "popframe f \<sigma> =
     (case fr_t (mem \<sigma>) f of
        None \<Rightarrow> unextend f \<sigma>
      | Some t \<Rightarrow> if np (types \<sigma> t) \<noteq> 0 then liftO (freeptrs destroy f (types \<sigma> t) \<sigma>) else Ret () \<sigma>)"

definition ret :: op where
  "ret \<sigma> =
     (let f = rFP \<sigma> in
      if fr_fp (mem \<sigma>) f = 0 then Err exExit \<sigma>
      else
        let m = fr_mr (mem \<sigma>) f in
        bindM (popframe f (\<sigma>\<lparr>rFP := fr_fp (mem \<sigma>) f, rSP := f, rPC := fr_lr (mem \<sigma>) f\<rparr>)) (\<lambda>_ \<sigma>1.
        if m = 0 then Ret () \<sigma>1
        else (case (modlink \<sigma>1 (rM \<sigma>1), modlink \<sigma>1 m) of
            (Some (_, _, c, _), Some (_, _, c', _)) \<Rightarrow>
              bindM (liftO (destroy (rM \<sigma>1) (if c \<noteq> c' then \<sigma>1\<lparr>rIC := 1, rt := 1\<rparr> else \<sigma>1))) (\<lambda>_ \<sigma>2.
                case modlink \<sigma>2 m of None \<Rightarrow> Crash | Some (MP, _, _, _) \<Rightarrow> Ret () (\<sigma>2\<lparr>rM := m, rMP := MP\<rparr>))
          | _ \<Rightarrow> Crash)))"

definition mcall :: "(int \<Rightarrow> WORD \<Rightarrow> op) \<Rightarrow> op" where
  \<comment> \<open>\<open>fn u f\<close> is the built-in function \<^verbatim>\<open>u.runt\<close> on the frame\<close>
  "mcall fn \<sigma> =
     (let ml = Wd \<sigma> in
      if ml = H then Err exModule \<sigma>
      else
        let f = Ws \<sigma>;
            \<sigma>1 = \<sigma>\<lparr>mem := wrW (wrW (wrW (mem \<sigma>) f (rPC \<sigma>)) (f + 4) (rFP \<sigma>)) (f + 8) (rM \<sigma>), rFP := f, rM := ml\<rparr>;
            \<sigma>2 = updobj ml (\<lambda>h. h\<lparr>href := href h + 1\<rparr>) \<sigma>1 in
        case modlink \<sigma>2 ml of None \<Rightarrow> Crash | Some (MP, md, c, lk) \<Rightarrow>
        case linkat lk (Wm \<sigma>2) of None \<Rightarrow> Crash | Some (u, t) \<Rightarrow>
        if mprog (mods \<sigma>2 md) = 0 then
          bindM (fn u f \<sigma>2) (\<lambda>_ \<sigma>3.
          let \<sigma>4 = updobj ml (\<lambda>h. h\<lparr>href := href h - 1\<rparr>) \<sigma>3 in
          bindM (popframe f (\<sigma>4\<lparr>rM := fr_mr (mem \<sigma>4) f, rSP := rFP \<sigma>4, rFP := fr_fp (mem \<sigma>4) f\<rparr>)) (\<lambda>_ \<sigma>5.
          case Option.bind (currun \<sigma>5) (progs \<sigma>5) of None \<Rightarrow> Crash
          | Some p \<Rightarrow> (case pkill p of Some e \<Rightarrow> Err (exOther e) \<sigma>5 | None \<Rightarrow> Ret () (\<sigma>5\<lparr>rt := 0\<rparr>))))
        else
          (case modlink \<sigma>2 (fr_mr (mem \<sigma>2) f) of None \<Rightarrow> Crash
           | Some (_, _, c', _) \<Rightarrow>
               let \<sigma>3 = \<sigma>2\<lparr>rMP := MP, rPC := of_int u, rt := 1\<rparr> in
               Ret () (if c' \<noteq> c then \<sigma>3\<lparr>rIC := 1\<rparr> else \<sigma>3)))"

section \<open>Spawning\<close>

definition spawnon :: "prg \<Rightarrow> WORD \<Rightarrow> ptr \<Rightarrow> WORD \<Rightarrow> op" where
  \<comment> \<open>\<^verbatim>\<open>p = newprog(currun(), ml); p->R.PC = pc; newstack(p); unframe()\<close>\<close>
  "spawnon n ns ml pc \<sigma> =
     bindM (liftO (newprog n (currun \<sigma>) ml \<sigma>)) (\<lambda>_ \<sigma>1.
     bindM (newstack ns n (updprog n (\<lambda>q. q\<lparr>pR_PC := pc\<rparr>) \<sigma>1)) (\<lambda>_ \<sigma>2. unframe \<sigma>2))"

definition spawn :: "prg \<Rightarrow> WORD \<Rightarrow> op" where
  "spawn n ns \<sigma> = spawnon n ns (rM \<sigma>) (Wd \<sigma>) \<sigma>"

definition mspawn :: "prg \<Rightarrow> WORD \<Rightarrow> op" where
  "mspawn n ns \<sigma> =
     (let ml = Wd \<sigma> in
      if ml = H then Err exModule \<sigma>
      else case modlink \<sigma> ml of None \<Rightarrow> Crash | Some (MP, md, c, lk) \<Rightarrow>
        if mprog (mods \<sigma> md) = 0 then Err exSpawn \<sigma>
        else case linkat lk (Wm \<sigma>) of None \<Rightarrow> Crash | Some (u, t) \<Rightarrow> spawnon n ns ml (of_int u) \<sigma>)"

section \<open>The linkage of a frame\<close>

lemma unat_neg: "d \<noteq> 0 \<Longrightarrow> unat (- d :: WORD) = 2 ^ 32 - unat d"
proof -
  assume d: "d \<noteq> 0"
  have "unat (d + - d) = (unat d + unat (- d)) mod 2 ^ 32" by (simp only: unat_word_ariths) simp
  then have "(unat d + unat (- d)) mod 2 ^ 32 = 0" by simp
  then obtain q where q: "unat d + unat (- d) = 2 ^ 32 * q" by blast
  have "0 < unat d" "unat d < 2 ^ 32" "unat (- d) < 2 ^ 32" using d unat_word_lt [of d] unat_word_lt [of "- d"] by (simp_all add: unat_gt_0)
  then have "q = 1" using q by simp
  with q show ?thesis by simp
qed

lemma disjoint_off:
  assumes "k \<le> unat d" "0 < k" "n + unat d \<le> 2 ^ 32"
  shows "disjoint (b + d) n b k"
proof -
  have "d \<noteq> 0" using assms(1,2) by auto
  then show ?thesis using assms unat_neg [of d] by (simp add: disjoint_def)
qed

definition frame_ty :: "Type \<Rightarrow> bool" where
  \<comment> \<open>a descriptor of frames: its pointers come after the four words of the header and inside the frame\<close>
  "frame_ty ty \<longleftrightarrow> 16 \<le> tsize ty \<and> tsize ty < 2 ^ 31 \<and> (\<forall>a\<in>set (slots_down 0 ty). 16 \<le> unat a \<and> int (unat a) + 4 \<le> tsize ty)"

lemma map_slots_shift: "map_slots js (w + d) cs = map ((+) d) (map_slots js w cs)"
  by (induction cs arbitrary: w) (simp_all add: byte_slots_def add_ac, metis add.assoc add.commute)

lemma frame_slot:
  assumes "frame_ty ty" "a \<in> set (slots_down f ty)" "unat e \<le> 28"
  shows "disjoint a 4 (f - 16 + e) 4"
proof -
  obtain k where k: "a = f + k" "16 \<le> unat k" "int (unat k) + 4 \<le> tsize ty" "tsize ty < 2 ^ 31"
    using assms(1,2) map_slots_shift [of "[7, 6, 5, 4, 3, 2, 1, 0]" 0 f "tmap ty"] by (auto simp: frame_ty_def)
  have "int (unat k) < 2 ^ 31" using k(3,4) by linarith
  then have kb: "unat k < 2 ^ 31" by (metis of_nat_less_numeral_power_cancel_iff)
  have "unat (k + 16) = unat k + 16" using kb by (subst unat_add_lem [THEN iffD1]) simp_all
  moreover from this have "e \<le> k + 16" using k(2) assms(3) by (simp add: word_le_nat_alt)
  then have "unat (k + 16 - e) = unat (k + 16) - unat e" by (rule unat_sub)
  ultimately have "unat (k + 16 - e) = unat k + 16 - unat e" by simp
  then have "disjoint (f - 16 + e + (k + 16 - e)) 4 (f - 16 + e) 4"
    using k(2) kb assms(3) by (intro disjoint_off) simp_all
  then show ?thesis by (simp add: k(1) algebra_simps)
qed

lemma initmem_other: "\<forall>a\<in>set (slots_down f ty). disjoint a 4 b 4 \<Longrightarrow> rdW (initmem ty f m) b = rdW m b"
proof -
  have "\<forall>a\<in>set as. disjoint a 4 b 4 \<Longrightarrow> rdW (fold (\<lambda>a m. wrW m a H) as m) b = rdW m b" for as
    by (induction as arbitrary: m) (simp_all add: rdW_wrW_other)
  then show "\<forall>a\<in>set (slots_down f ty). disjoint a 4 b 4 \<Longrightarrow> ?thesis" by (simp add: initmem_def)
qed

lemma initframe_link:
  assumes "frame_ty ty" "unat e \<le> 28"
  shows "rdW (initframe ty f m) (f - 16 + e) = rdW m (f - 16 + e)"
  using frame_slot [OF assms(1) _ assms(2)] by (simp add: initframe_def initmem_other)

text \<open>The words at fixed offsets from a frame.\<close>

lemma add8: "f - 16 + 24 = f + (8 :: WORD)" "f - 16 + 28 = f + (12 :: WORD)"
  by simp_all

lemma initframe_words:
  assumes "frame_ty ty"
  shows "rdW (initframe ty f m) (f + 8) = rdW m (f + 8)" "rdW (initframe ty f m) (f + 12) = rdW m (f + 12)"
  using initframe_link [OF assms, of 24 f m, unfolded add8] initframe_link [OF assms, of 28 f m, unfolded add8] by simp_all

lemma initframe_ext:
  assumes "frame_ty ty"
  shows "rdW (initframe ty (x + 16) m) x = rdW m x" "rdW (initframe ty (x + 16) m) (x + 4) = rdW m (x + 4)"
    "rdW (initframe ty (x + 16) m) (x + 8) = rdW m (x + 8)" "rdW (initframe ty (x + 16) m) (x + 12) = rdW m (x + 12)"
  using initframe_link [OF assms, of 0 "x + 16" m] initframe_link [OF assms, of 4 "x + 16" m] initframe_link [OF assms, of 8 "x + 16" m]
       initframe_link [OF assms, of 12 "x + 16" m] by simp_all

lemma disjoint_consts [simp]:
  "disjoint (f + numeral a) 4 (f + numeral b) 4 \<longleftrightarrow> 4 \<le> unat (numeral b - numeral a :: WORD) \<and> 4 \<le> unat (numeral a - numeral b :: WORD)"
  "disjoint (f + numeral a) 4 f 4 \<longleftrightarrow> 4 \<le> unat (- numeral a :: WORD) \<and> 4 \<le> unat (numeral a :: WORD)"
  "disjoint f 4 (f + numeral b) 4 \<longleftrightarrow> 4 \<le> unat (numeral b :: WORD) \<and> 4 \<le> unat (- numeral b :: WORD)"
  "disjoint (numeral a + f) 4 (numeral b + f) 4 \<longleftrightarrow> 4 \<le> unat (numeral b - numeral a :: WORD) \<and> 4 \<le> unat (numeral a - numeral b :: WORD)"
  "disjoint (numeral a + f) 4 (f + numeral b) 4 \<longleftrightarrow> 4 \<le> unat (numeral b - numeral a :: WORD) \<and> 4 \<le> unat (numeral a - numeral b :: WORD)"
  "disjoint (numeral a + f) 4 f 4 \<longleftrightarrow> 4 \<le> unat (- numeral a :: WORD) \<and> 4 \<le> unat (numeral a :: WORD)"
  by (simp_all add: disjoint_def)

lemma typeat_tyword: "rdW m a = tyword t \<Longrightarrow> t < 2 ^ 32 - 1 \<Longrightarrow> typeat m a = Some t"
proof -
  assume a: "rdW m a = tyword t" "t < 2 ^ 32 - 1"
  then have u: "unat (tyword t) = Suc t" unfolding tyword_def by (simp only: unsigned_of_nat) (simp add: take_bit_nat_eq_self)
  then have "tyword t \<noteq> 0" by auto
  then show "typeat m a = Some t" using a(1) u by (simp add: typeat_def)
qed

text \<open>
  What leaving the frame at \<open>f\<close> makes of \<^verbatim>\<open>SP\<close>, \<^verbatim>\<open>TS\<close>, \<^verbatim>\<open>EX\<close>, and the words on which that depends: the type, and for a
  frame that starts an extent the four words in front of it.
\<close>

definition pops_to :: "mem \<Rightarrow> WORD \<Rightarrow> WORD \<Rightarrow> WORD \<Rightarrow> WORD \<times> WORD \<times> WORD" where
  "pops_to m f ts ex =
     (case fr_t m f of Some _ \<Rightarrow> (f, ts, ex) | None \<Rightarrow> (sx_SP m (SEXTYPE f), sx_TS m (SEXTYPE f), sx_EX m (SEXTYPE f)))"

definition linkaddrs :: "mem \<Rightarrow> WORD \<Rightarrow> WORD list" where
  "linkaddrs m f = [f + 8, f + 12] @ (if fr_t m f = None then [f - 16, f - 12, f - 8, f - 4] else [])"

definition linkage :: "mem \<Rightarrow> WORD \<Rightarrow> WORD list" where
  "linkage m f = map (rdW m) (linkaddrs m f)"

definition off_link :: "mem \<Rightarrow> WORD \<Rightarrow> WORD \<Rightarrow> bool" where
  \<comment> \<open>the word at \<open>a\<close> is none of them\<close>
  "off_link m f a \<longleftrightarrow> (\<forall>b\<in>set (linkaddrs m f). disjoint a 4 b 4)"

lemmas link_words = fr_t_def fr_mr_def sx_TR_def sx_SP_def sx_TS_def sx_EX_def SEXTYPE_def typeat_def

lemma linkage_eqD:
  assumes "linkage m' f = linkage m f"
  shows "fr_mr m' f = fr_mr m f" "fr_t m' f = fr_t m f" "frametype m' f = frametype m f" "pops_to m' f ts ex = pops_to m f ts ex"
proof -
  have w: "rdW m' (f + 8) = rdW m (f + 8)" "rdW m' (f + 12) = rdW m (f + 12)" using assms by (simp_all add: linkage_def linkaddrs_def)
  then show t: "fr_mr m' f = fr_mr m f" "fr_t m' f = fr_t m f" by (simp_all add: link_words)
  have "fr_t m f = None \<Longrightarrow> rdW m' (f - 16) = rdW m (f - 16) \<and> rdW m' (f - 12) = rdW m (f - 12) \<and> rdW m' (f - 8) = rdW m (f - 8) \<and> rdW m' (f - 4) = rdW m (f - 4)"
    using assms t by (simp add: linkage_def linkaddrs_def)
  then show "frametype m' f = frametype m f" "pops_to m' f ts ex = pops_to m f ts ex"
    using t by (cases "fr_t m f"; simp add: frametype_def pops_to_def sx_TR_def sx_SP_def sx_TS_def sx_EX_def SEXTYPE_def typeat_def)+
qed

lemma linkage_same:
  assumes "\<forall>b\<in>set (linkaddrs m f). rdW m' b = rdW m b"
  shows "linkage m' f = linkage m f"
proof -
  have "fr_t m' f = fr_t m f" using assms by (simp add: linkaddrs_def fr_t_def typeat_def)
  then show ?thesis using assms by (auto simp: linkage_def linkaddrs_def)
qed

lemma linkage_wrW: "off_link m f a \<Longrightarrow> linkage (wrW m a v) f = linkage m f"
  by (rule linkage_same) (simp add: off_link_def rdW_wrW_other)

lemma off_link_header: "off_link m f f" "off_link m f (f + 4)"
  by (auto simp: off_link_def linkaddrs_def disjoint_def)

lemma linkage_wrW': "off_link (wrW m a v) f a \<Longrightarrow> linkage (wrW m a v) f = linkage m f"
proof -
  assume o: "off_link (wrW m a v) f a"
  then have "disjoint a 4 (f + 12) 4" by (simp add: off_link_def linkaddrs_def)
  then have "fr_t (wrW m a v) f = fr_t m f" by (simp add: fr_t_def typeat_def rdW_wrW_other)
  then have "off_link m f a" using o by (simp add: off_link_def linkaddrs_def)
  then show ?thesis by (rule linkage_wrW)
qed

text \<open>A new frame: its linkage takes the stack back to where it was.\<close>

lemma plain_link:
  fixes f :: WORD and m :: mem
  assumes "frame_ty ty" "t < 2 ^ 32 - 1"
  defines "m' \<equiv> initframe ty f (wrW (wrW m (f + 12) (tyword t)) (f + 8) 0)"
  shows "frametype m' f = Some t" "fr_mr m' f = 0" "pops_to m' f ts ex = (f, ts, ex)"
proof -
  have w: "rdW m' (f + 12) = tyword t" "rdW m' (f + 8) = 0"
    unfolding m'_def initframe_words [OF assms(1)] by (simp_all add: rdW_wrW_other)
  then have "fr_t m' f = Some t" using typeat_tyword [OF w(1) assms(2)] by (simp add: fr_t_def)
  then show "frametype m' f = Some t" "fr_mr m' f = 0" "pops_to m' f ts ex = (f, ts, ex)"
    using w by (simp_all add: frametype_def fr_mr_def pops_to_def)
qed

lemma putext_words:
  "rdW (putext ns t sp ts ex m) ns = tyword t" "rdW (putext ns t sp ts ex m) (ns + 4) = sp"
  "rdW (putext ns t sp ts ex m) (ns + 8) = ts" "rdW (putext ns t sp ts ex m) (ns + 12) = ex"
  by (simp_all add: putext_def rdW_wrW_other)

lemma extent_link:
  fixes ns sp ts ex :: WORD and m :: mem
  assumes "frame_ty ty" "t < 2 ^ 32 - 1"
  defines "m' \<equiv> initframe ty (ns + 16) (wrW (wrW (putext ns t sp ts ex m) (ns + 16 + 12) 0) (ns + 16 + 8) 0)"
  shows "frametype m' (ns + 16) = Some t" "fr_mr m' (ns + 16) = 0" "pops_to m' (ns + 16) ts' ex' = (sp, ts, ex)"
proof -
  have w: "rdW m' (ns + 16 + 12) = 0" "rdW m' (ns + 16 + 8) = 0"
    unfolding m'_def initframe_words [OF assms(1)] by (simp_all add: rdW_wrW_other)
  have e: "rdW m' ns = tyword t" "rdW m' (ns + 4) = sp" "rdW m' (ns + 8) = ts" "rdW m' (ns + 12) = ex"
    unfolding m'_def initframe_ext [OF assms(1)] by (simp_all add: rdW_wrW_other putext_words)
  have t: "fr_t m' (ns + 16) = None" using w(1) by (simp add: fr_t_def typeat_def)
  then show "frametype m' (ns + 16) = Some t"
    using typeat_tyword [OF e(1) assms(2)] by (simp add: frametype_def sx_TR_def SEXTYPE_def)
  show "fr_mr m' (ns + 16) = 0" using w(2) by (simp add: fr_mr_def)
  show "pops_to m' (ns + 16) ts' ex' = (sp, ts, ex)" using t e by (simp add: pops_to_def sx_SP_def sx_TS_def sx_EX_def SEXTYPE_def)
qed

lemma newframe_link:
  assumes fr: "newframe ns t \<sigma> = Ret () \<sigma>1" and f: "f = rdW (mem \<sigma>1) (rd \<sigma>)"
    and ty: "frame_ty (types \<sigma> t)" "t < 2 ^ 32 - 1" and off: "off_link (mem \<sigma>1) f (rd \<sigma>)"
  shows "frametype (mem \<sigma>1) f = Some t \<and> fr_mr (mem \<sigma>1) f = 0 \<and>
    pops_to (mem \<sigma>1) f (rTS \<sigma>1) (rEX \<sigma>1) = (rSP \<sigma>, rTS \<sigma>, rEX \<sigma>)"
proof (cases "rSP \<sigma> + of_int (tsize (types \<sigma> t)) \<ge> rTS \<sigma>")
  case True
  obtain md c where md: "curmod \<sigma> = Some (md, c)" "ns \<noteq> 0"
    using fr True by (auto simp: newframe_def extend_def Let_def split: option.splits if_splits)
  let ?m = "initframe (types \<sigma> t) (ns + 16) (wrW (wrW (putext ns t (rSP \<sigma>) (rTS \<sigma>) (rEX \<sigma>) (mem \<sigma>)) (ns + 16 + 12) 0) (ns + 16 + 8) 0)"
  have m: "mem \<sigma>1 = wrW ?m (rd \<sigma>) (ns + 16)"
    using fr True md by (auto simp: newframe_def extend_def Let_def putW_def)
  then have f': "f = ns + 16" using f by simp
  have l: "linkage (mem \<sigma>1) f = linkage ?m f" using off unfolding m by (rule linkage_wrW')
  show ?thesis unfolding linkage_eqD [OF l] using extent_link [OF ty] by (simp add: f')
next
  case False
  let ?m = "initframe (types \<sigma> t) (rSP \<sigma>) (wrW (wrW (mem \<sigma>) (rSP \<sigma> + 12) (tyword t)) (rSP \<sigma> + 8) 0)"
  have m: "mem \<sigma>1 = wrW ?m (rd \<sigma>) (rSP \<sigma>)" and r: "rTS \<sigma>1 = rTS \<sigma>" "rEX \<sigma>1 = rEX \<sigma>"
    using fr False by (auto simp: newframe_def Let_def putW_def)
  have f': "f = rSP \<sigma>" using f m by simp
  have l: "linkage (mem \<sigma>1) f = linkage ?m f" using off unfolding m by (rule linkage_wrW')
  show ?thesis unfolding linkage_eqD [OF l] r using plain_link [OF ty] by (simp add: f')
qed

section \<open>Leaving a frame\<close>

lemma counted_regs [simp]:
  "counted B F R M (\<sigma>\<lparr>rSP := a\<rparr>) = counted B F R M \<sigma>" "counted B F R M (\<sigma>\<lparr>rTS := a\<rparr>) = counted B F R M \<sigma>"
  "counted B F R M (\<sigma>\<lparr>rEX := a\<rparr>) = counted B F R M \<sigma>" "counted B F R M (\<sigma>\<lparr>rFP := a\<rparr>) = counted B F R M \<sigma>"
  "counted B F R M (\<sigma>\<lparr>rPC := a\<rparr>) = counted B F R M \<sigma>" "counted B F R M (\<sigma>\<lparr>rM := a\<rparr>) = counted B F R M \<sigma>"
  "counted B F R M (\<sigma>\<lparr>rMP := a\<rparr>) = counted B F R M \<sigma>" "counted B F R M (\<sigma>\<lparr>rIC := k\<rparr>) = counted B F R M \<sigma>"
  "counted B F R M (\<sigma>\<lparr>rt := a\<rparr>) = counted B F R M \<sigma>" "counted B F R M (\<sigma>\<lparr>rs := a\<rparr>) = counted B F R M \<sigma>"
  by (rule iffI; erule counted_hp_same; simp)+

definition popped :: "WORD \<Rightarrow> vm \<Rightarrow> vm" where
  \<comment> \<open>the registers after the frame at \<open>f\<close> is left\<close>
  "popped f \<sigma> = (case pops_to (mem \<sigma>) f (rTS \<sigma>) (rEX \<sigma>) of (sp, ts, ex) \<Rightarrow> \<sigma>\<lparr>rSP := sp, rTS := ts, rEX := ex\<rparr>)"

lemma popped_sel [simp]:
  "mem (popped f \<sigma>) = mem \<sigma>" "hp (popped f \<sigma>) = hp \<sigma>" "types (popped f \<sigma>) = types \<sigma>" "rFP (popped f \<sigma>) = rFP \<sigma>" "rPC (popped f \<sigma>) = rPC \<sigma>"
  "rM (popped f \<sigma>) = rM \<sigma>" "rMP (popped f \<sigma>) = rMP \<sigma>" "counted B F R M (popped f \<sigma>) = counted B F R M \<sigma>"
  "(rSP (popped f \<sigma>), rTS (popped f \<sigma>), rEX (popped f \<sigma>)) = pops_to (mem \<sigma>) f (rTS \<sigma>) (rEX \<sigma>)"
  by (simp_all add: popped_def split: prod.splits)

lemma freeframe_counted:
  assumes "counted B {} (ptrs_at (mem \<sigma>) f ty + R) M \<sigma>" "B \<subseteq># R"
  shows "\<exists>\<sigma>'. (if np ty \<noteq> 0 then liftO (freeptrs destroy f ty \<sigma>) else Ret () \<sigma>) = Ret () \<sigma>' \<and>
    counted B {} R M \<sigma>' \<and> kept {} {} \<sigma> \<sigma>'"
proof (cases "np ty = 0")
  case True
  then show ?thesis using assms by (simp add: ptrs_at_def)
next
  case False
  then show ?thesis using dis_heap.freeptrs_ok [OF assms order_refl] by auto
qed

lemma popframe_counted:
  assumes c: "counted B {} (ptrs_at (mem \<sigma>) f (types \<sigma> t) + R) M \<sigma>" "B \<subseteq># R"
    and f: "frametype (mem \<sigma>) f = Some t" "rSP \<sigma> = f"
  shows "\<exists>\<sigma>'. popframe f \<sigma> = Ret () \<sigma>' \<and> counted B {} R M \<sigma>' \<and> kept {} {} (popped f \<sigma>) \<sigma>'"
proof -
  have p: "popframe f \<sigma> = (if np (types \<sigma> t) \<noteq> 0 then liftO (freeptrs destroy f (types \<sigma> t) (popped f \<sigma>)) else Ret () (popped f \<sigma>))"
  proof (cases "fr_t (mem \<sigma>) f")
    case None
    then have "sx_TR (mem \<sigma>) (SEXTYPE f) = Some t" using f(1) by (simp add: frametype_def)
    then show ?thesis using None by (simp add: popframe_def unextend_def popped_def pops_to_def Let_def)
  next
    case (Some t')
    moreover have "popped f \<sigma> = \<sigma>" using Some f(2) by (simp add: popped_def pops_to_def)
    ultimately show ?thesis using f(1) by (simp add: popframe_def frametype_def)
  qed
  have "counted B {} (ptrs_at (mem (popped f \<sigma>)) f (types \<sigma> t) + R) M (popped f \<sigma>)" using c(1) by simp
  from freeframe_counted [OF this c(2)] show ?thesis unfolding p .
qed

definition returned :: "vm \<Rightarrow> vm" where
  \<comment> \<open>the registers after a return inside the module\<close>
  "returned \<tau> = (let f = rFP \<tau>; m = mem \<tau> in popped f (\<tau>\<lparr>rFP := fr_fp m f, rSP := f, rPC := fr_lr m f\<rparr>))"

lemma ret_pops:
  assumes c: "counted B {} (ptrs_at (mem \<tau>) (rFP \<tau>) (types \<tau> t) + R) M \<tau>" "B \<subseteq># R"
    and f: "frametype (mem \<tau>) (rFP \<tau>) = Some t" "fr_fp (mem \<tau>) (rFP \<tau>) \<noteq> 0"
  obtains \<tau>' where "popframe (rFP \<tau>) (\<tau>\<lparr>rFP := fr_fp (mem \<tau>) (rFP \<tau>), rSP := rFP \<tau>, rPC := fr_lr (mem \<tau>) (rFP \<tau>)\<rparr>) = Ret () \<tau>'"
    "counted B {} R M \<tau>'" "kept {} {} (returned \<tau>) \<tau>'"
proof -
  let ?s = "\<tau>\<lparr>rFP := fr_fp (mem \<tau>) (rFP \<tau>), rSP := rFP \<tau>, rPC := fr_lr (mem \<tau>) (rFP \<tau>)\<rparr>"
  have c': "counted B {} (ptrs_at (mem ?s) (rFP \<tau>) (types ?s t) + R) M ?s" using c(1) by simp
  have "frametype (mem ?s) (rFP \<tau>) = Some t" "rSP ?s = rFP \<tau>" using f by simp_all
  from popframe_counted [OF c' c(2) this] show ?thesis using that by (auto simp: returned_def Let_def)
qed

lemma ret_plain:
  assumes c: "counted B {} (ptrs_at (mem \<tau>) (rFP \<tau>) (types \<tau> t) + R) M \<tau>" "B \<subseteq># R"
    and f: "frametype (mem \<tau>) (rFP \<tau>) = Some t" "fr_fp (mem \<tau>) (rFP \<tau>) \<noteq> 0" "fr_mr (mem \<tau>) (rFP \<tau>) = 0"
  shows "\<exists>\<tau>'. ret \<tau> = Ret () \<tau>' \<and> counted B {} R M \<tau>' \<and> kept {} {} (returned \<tau>) \<tau>'"
  by (rule ret_pops [OF c f(1,2)]) (use f in \<open>simp add: ret_def Let_def\<close>)

lemma modlink_kept:
  assumes "kept {} {} \<sigma> \<sigma>'" "counted B {} R M \<sigma>'" "m \<in># R" "m \<noteq> H"
  shows "modlink \<sigma>' m = modlink \<sigma> m"
proof -
  obtain h' where h': "hp \<sigma>' m = Some h'" by (rule counted_held [OF assms(2-4)])
  obtain h where h: "hp \<sigma> m = Some h" "h' = h\<lparr>href := href h'\<rparr>" using kept_objD [OF assms(1) h'] by auto
  have "hs h' = hs h" using href_only [OF h(2)] by simp
  then show ?thesis by (simp add: modlink_def h' h(1))
qed

lemma returned_sel [simp]:
  "mem (returned \<tau>) = mem \<tau>" "hp (returned \<tau>) = hp \<tau>" "types (returned \<tau>) = types \<tau>" "rFP (returned \<tau>) = fr_fp (mem \<tau>) (rFP \<tau>)"
  "rPC (returned \<tau>) = fr_lr (mem \<tau>) (rFP \<tau>)" "rM (returned \<tau>) = rM \<tau>" "rMP (returned \<tau>) = rMP \<tau>"
  "(rSP (returned \<tau>), rTS (returned \<tau>), rEX (returned \<tau>)) = pops_to (mem \<tau>) (rFP \<tau>) (rTS \<tau>) (rEX \<tau>)"
  by (simp_all add: returned_def Let_def del: prod.inject)

lemma kept_regs: "kept F V \<sigma> \<sigma>' \<Longrightarrow> regs \<sigma>' = regs \<sigma>"
  by (simp add: kept_def)

lemma ret_module:
  assumes c: "counted B {} (ptrs_at (mem \<tau>) (rFP \<tau>) (types \<tau> t) + add_mset (rM \<tau>) R) M \<tau>" "B \<subseteq># R"
    and f: "frametype (mem \<tau>) (rFP \<tau>) = Some t" "fr_fp (mem \<tau>) (rFP \<tau>) \<noteq> 0" "fr_mr (mem \<tau>) (rFP \<tau>) = m" "m \<noteq> 0"
    and m: "m \<in># R" "m \<noteq> H" "modlink \<tau> m = Some (MP, md, c', lk)" and ml: "rM \<tau> \<noteq> H" "modlink \<tau> (rM \<tau>) = Some (MP0, md0, c0, lk0)"
  shows "\<exists>\<tau>'. ret \<tau> = Ret () \<tau>' \<and> counted B {} R M \<tau>' \<and> mem \<tau>' = mem \<tau> \<and> rFP \<tau>' = fr_fp (mem \<tau>) (rFP \<tau>) \<and> rPC \<tau>' = fr_lr (mem \<tau>) (rFP \<tau>) \<and>
    rM \<tau>' = m \<and> rMP \<tau>' = MP \<and> (rSP \<tau>', rTS \<tau>', rEX \<tau>') = pops_to (mem \<tau>) (rFP \<tau>) (rTS \<tau>) (rEX \<tau>) \<and> (c0 \<noteq> c' \<longrightarrow> rIC \<tau>' = 1 \<and> rt \<tau>' = 1)"
proof -
  have B: "B \<subseteq># add_mset (rM \<tau>) R" using c(2) by (rule subset_mset.order_trans) simp
  obtain s1 where s1: "popframe (rFP \<tau>) (\<tau>\<lparr>rFP := fr_fp (mem \<tau>) (rFP \<tau>), rSP := rFP \<tau>, rPC := fr_lr (mem \<tau>) (rFP \<tau>)\<rparr>) = Ret () s1"
    "counted B {} (add_mset (rM \<tau>) R) M s1" "kept {} {} (returned \<tau>) s1"
    by (rule ret_pops [OF c(1) B f(1,2)])
  note r1 = regs_eqD [OF kept_regs [OF s1(3)]]
  have "modlink s1 (rM \<tau>) = modlink (returned \<tau>) (rM \<tau>)" by (rule modlink_kept [OF s1(3,2)]) (use ml in simp_all)
  moreover have "modlink s1 m = modlink (returned \<tau>) m" by (rule modlink_kept [OF s1(3,2)]) (use m in simp_all)
  ultimately have l1: "modlink s1 (rM s1) = Some (MP0, md0, c0, lk0)" "modlink s1 m = Some (MP, md, c', lk)"
    using ml m r1 by (simp_all add: modlink_def)
  define s2 where "s2 = (if c0 \<noteq> c' then s1\<lparr>rIC := 1, rt := 1\<rparr> else s1)"
  have c2: "counted B {} (add_mset (rM s1) R) M s2" using s1(2) r1 by (simp add: s2_def)
  obtain s3 where s3: "destroy (rM s1) s2 = Some s3" "counted B {} R M s3" "kept {} {} s2 s3"
    using dis_heap.release [OF c2 c(2) order_refl] by blast
  note r3 = regs_eqD [OF kept_regs [OF s3(3)]]
  have "modlink s3 m = modlink s2 m" by (rule modlink_kept [OF s3(3,2) m(1,2)])
  then have l3: "modlink s3 m = Some (MP, md, c', lk)" using l1(2) by (simp add: s2_def modlink_def)
  have "ret \<tau> = Ret () (s3\<lparr>rM := m, rMP := MP\<rparr>)"
    using f s1(1) l1 s3(1) l3 by (simp add: ret_def Let_def s2_def)
  moreover have "mem s3 = mem \<tau>" using kept_sel(1) [OF s3(3)] kept_sel(1) [OF s1(3)] by (simp add: s2_def)
  moreover have "(rSP s3, rTS s3, rEX s3) = pops_to (mem \<tau>) (rFP \<tau>) (rTS \<tau>) (rEX \<tau>)"
    using r3 r1 returned_sel(8) [of \<tau>] by (simp add: s2_def)
  ultimately show ?thesis using s3(2) r3 r1 by (intro exI [of _ "s3\<lparr>rM := m, rMP := MP\<rparr>"]) (simp add: s2_def)
qed

section \<open>Calls return\<close>

definition at_frame :: "WORD \<Rightarrow> vm \<Rightarrow> vm \<Rightarrow> bool" where
  \<comment> \<open>from \<open>\<sigma>\<close> to \<open>\<tau>\<close> the linkage of the frame is left alone and every extent that was opened is closed\<close>
  "at_frame f \<sigma> \<tau> \<longleftrightarrow> linkage (mem \<tau>) f = linkage (mem \<sigma>) f \<and> rTS \<tau> = rTS \<sigma> \<and> rEX \<tau> = rEX \<sigma>"

lemma at_frameD:
  assumes "at_frame f \<sigma> \<tau>"
  shows "fr_mr (mem \<tau>) f = fr_mr (mem \<sigma>) f" "frametype (mem \<tau>) f = frametype (mem \<sigma>) f"
    "pops_to (mem \<tau>) f (rTS \<tau>) (rEX \<tau>) = pops_to (mem \<sigma>) f (rTS \<sigma>) (rEX \<sigma>)"
  using assms linkage_eqD [of "mem \<tau>" f "mem \<sigma>"] by (auto simp: at_frame_def)

lemma call_effect:
  assumes "call \<sigma> = Ret () \<sigma>'"
  shows "at_frame (Ws \<sigma>) \<sigma> \<sigma>'" "fr_lr (mem \<sigma>') (Ws \<sigma>) = rPC \<sigma>" "fr_fp (mem \<sigma>') (Ws \<sigma>) = rFP \<sigma>" "rFP \<sigma>' = Ws \<sigma>"
proof -
  let ?f = "Ws \<sigma>"
  have s: "mem \<sigma>' = wrW (wrW (mem \<sigma>) ?f (rPC \<sigma>)) (?f + 4) (rFP \<sigma>)" "rTS \<sigma>' = rTS \<sigma>" "rEX \<sigma>' = rEX \<sigma>" "rFP \<sigma>' = ?f"
    using assms by (auto simp: call_def JMP_def Let_def)
  then show "fr_lr (mem \<sigma>') ?f = rPC \<sigma>" "fr_fp (mem \<sigma>') ?f = rFP \<sigma>" "rFP \<sigma>' = ?f"
    by (simp_all add: fr_lr_def fr_fp_def rdW_wrW_other)
  show "at_frame ?f \<sigma> \<sigma>'" using s by (simp add: at_frame_def linkage_wrW off_link_header)
qed

text \<open>
  C7. A call returns. The frame made by \<^verbatim>\<open>frame\<close> and entered by \<^verbatim>\<open>call\<close>, in the same extent or in a new one, is left by
  \<^verbatim>\<open>ret\<close> whatever was run in between, as long as that left the linkage of the frame alone and closed the extents it
  opened: the frame pointer, the stack registers are those before \<^verbatim>\<open>frame\<close>, execution goes on after the
  call, and the references of the frame are given up with all counts exact.
\<close>

theorem call_returns:
  assumes "frame ns \<sigma> = Ret () \<sigma>1" and "f = rdW (mem \<sigma>1) (rd \<sigma>)"
    and "modtype \<sigma> (Ws \<sigma>) = Some t" "frame_ty (types \<sigma> t)" "t < 2 ^ 32 - 1" "off_link (mem \<sigma>1) f (rd \<sigma>)"
    and "at_frame f \<sigma>1 \<sigma>2" "Ws \<sigma>2 = f" "rFP \<sigma>2 = rFP \<sigma>" "rFP \<sigma> \<noteq> 0" and "call \<sigma>2 = Ret () \<sigma>3"
    and "at_frame f \<sigma>3 \<tau>" "rFP \<tau> = f" "fr_lr (mem \<tau>) f = fr_lr (mem \<sigma>3) f" "fr_fp (mem \<tau>) f = fr_fp (mem \<sigma>3) f"
    and "counted B {} (ptrs_at (mem \<tau>) f (types \<tau> t) + R) M \<tau>" "B \<subseteq># R"
  shows "\<exists>\<tau>'. ret \<tau> = Ret () \<tau>' \<and> counted B {} R M \<tau>' \<and> mem \<tau>' = mem \<tau> \<and> rFP \<tau>' = rFP \<sigma> \<and> rPC \<tau>' = rPC \<sigma>2 \<and> rM \<tau>' = rM \<tau> \<and>
    rSP \<tau>' = rSP \<sigma> \<and> rTS \<tau>' = rTS \<sigma> \<and> rEX \<tau>' = rEX \<sigma>"
proof -
  have nf: "newframe ns t \<sigma> = Ret () \<sigma>1" using assms(1,3) by (simp add: frame_def)
  note l1 = newframe_link [OF nf assms(2,4-6)]
  note ce = call_effect [OF assms(11), unfolded assms(8)]
  have l: "frametype (mem \<tau>) f = Some t" "fr_mr (mem \<tau>) f = 0" "pops_to (mem \<tau>) f (rTS \<tau>) (rEX \<tau>) = (rSP \<sigma>, rTS \<sigma>, rEX \<sigma>)"
    unfolding at_frameD [OF assms(12)] at_frameD [OF ce(1)] at_frameD [OF assms(7)] using l1 by simp_all
  have r: "fr_fp (mem \<tau>) f = rFP \<sigma>" "fr_lr (mem \<tau>) f = rPC \<sigma>2" using assms(9,14,15) ce by simp_all
  obtain \<tau>' where t': "ret \<tau> = Ret () \<tau>'" "counted B {} R M \<tau>'" "kept {} {} (returned \<tau>) \<tau>'"
    using ret_plain [of B \<tau> t R M] assms(10,13,16,17) l r by auto
  note rr = regs_eqD [OF kept_regs [OF t'(3)]]
  have "(rSP (returned \<tau>), rTS (returned \<tau>), rEX (returned \<tau>)) = (rSP \<sigma>, rTS \<sigma>, rEX \<sigma>)"
    using l(3) assms(13) by (simp only: returned_sel)
  then have "rSP (returned \<tau>) = rSP \<sigma>" "rTS (returned \<tau>) = rTS \<sigma>" "rEX (returned \<tau>) = rEX \<sigma>" by (simp_all only: prod.inject)
  then show ?thesis using t' rr r assms(13) kept_sel(1) [OF t'(3)] by (intro exI [of _ \<tau>']) simp
qed

subsection \<open>Calls of another module\<close>

lemma hold_counted:
  assumes c: "counted B {} R M \<sigma>" and h: "hp \<sigma> v = Some h" "unat (href h) + 1 < 2 ^ 32"
  shows "counted B {} (add_mset v R) M (updobj v (\<lambda>h. h\<lparr>href := href h + 1\<rparr>) \<sigma>)"
proof -
  have n: "unat (href h + 1) = unat (href h) + 1" using h(2) by (simp add: unat_word_ariths)
  have "agree {} \<sigma> (updobj v (\<lambda>h. h\<lparr>href := href h + 1\<rparr>) \<sigma>)"
    using h by (auto simp: agree_def option.rel_refl lists_stay_updobj insert_absorb domIff)
  then show ?thesis
    by (rule counted_step [OF c]) (use h n in \<open>auto simp: refcount_def\<close>)
qed

definition offarea :: "vm \<Rightarrow> WORD \<Rightarrow> nat \<Rightarrow> bool" where
  \<comment> \<open>no heap block has a pointer among the \<open>n\<close> bytes at \<open>f\<close>\<close>
  "offarea \<sigma> f n \<longleftrightarrow> (\<forall>m m' v h. (\<forall>a. n \<le> unat (a - f) \<longrightarrow> m' a = m a) \<and> hp \<sigma> v = Some h \<longrightarrow>
     kids_of m' (types \<sigma>) v h = kids_of m (types \<sigma>) v h)"

lemma counted_mem:
  assumes c: "counted B {} R M \<sigma>" and k: "\<And>v h. hp \<sigma> v = Some h \<Longrightarrow> kids_of m (types \<sigma>) v h = kids_of (mem \<sigma>) (types \<sigma>) v h"
  shows "counted B {} R M (\<sigma>\<lparr>mem := m\<rparr>)"
proof -
  let ?s = "\<sigma>\<lparr>mem := m\<rparr>"
  have k: "kids ?s = kids \<sigma>" using k by (auto simp: fun_eq_iff kids_def split: option.splits)
  have m: "modkids ?s = modkids \<sigma>" "live {} ?s = live {} \<sigma>" by (simp_all add: fun_eq_iff modkids_def live_def)
  show ?thesis
    by (rule counted_swap [OF c]) (use c in \<open>simp_all add: refsto_def modrefs_def k m refcount_def counted_def\<close>)
qed

lemma wrW_outside: "4 \<le> unat (x - a) \<Longrightarrow> wrW m a v x = m x"
proof -
  assume x: "4 \<le> unat (x - a)"
  have "x \<noteq> a + k" if "unat k < 4" for k using x that by auto
  from this [of 0] this [of 1] this [of 2] this [of 3] show ?thesis by (simp add: wrW_def)
qed

lemma unat_shift:
  assumes "k + n \<le> unat (x - f :: WORD)"
  shows "n \<le> unat (x - (f + of_nat k))"
proof -
  have k: "of_nat k \<le> x - f" using assms order_trans [OF take_bit_nat_less_eq_self, of k "unat (x - f)" 32] by (simp add: word_le_nat_alt unsigned_of_nat)
  have "unat (of_nat k :: WORD) \<le> k" by (simp add: unsigned_of_nat take_bit_nat_less_eq_self)
  moreover have "unat (x - f - of_nat k) = unat (x - f) - unat (of_nat k :: WORD)" using k by (rule unat_sub)
  ultimately have "n \<le> unat (x - f - of_nat k)" using assms by linarith
  then show ?thesis by (simp add: algebra_simps)
qed

lemma link_store_counted:
  assumes c: "counted B {} R M \<sigma>" and "offarea \<sigma> f 12"
  shows "counted B {} R M (\<sigma>\<lparr>mem := wrW (wrW (wrW (mem \<sigma>) f u) (f + 4) v) (f + 8) w\<rparr>)"
proof (rule counted_mem [OF c])
  fix x h assume "hp \<sigma> x = Some h"
  moreover have "wrW (wrW (wrW (mem \<sigma>) f u) (f + 4) v) (f + 8) w a = mem \<sigma> a" if "12 \<le> unat (a - f)" for a
  proof -
    have "4 \<le> unat (a - f)" "4 \<le> unat (a - (f + 4))" "4 \<le> unat (a - (f + 8))"
      using that unat_shift [of 4 4 a f] unat_shift [of 8 4 a f] by simp_all
    then show ?thesis by (simp add: wrW_outside)
  qed
  ultimately show "kids_of (wrW (wrW (wrW (mem \<sigma>) f u) (f + 4) v) (f + 8) w) (types \<sigma>) x h = kids_of (mem \<sigma>) (types \<sigma>) x h"
    using assms(2) unfolding offarea_def by blast
qed

lemma updobj_regs [simp]:
  "rFP (updobj v g \<sigma>) = rFP \<sigma>" "rM (updobj v g \<sigma>) = rM \<sigma>" "rTS (updobj v g \<sigma>) = rTS \<sigma>" "rEX (updobj v g \<sigma>) = rEX \<sigma>"
  "rm (updobj v g \<sigma>) = rm \<sigma>"
  by (simp_all add: updobj_def)

lemma disjoint_sub:
  assumes "disjoint f n b 4" "unat i + 4 \<le> n"
  shows "disjoint (f + i) 4 b 4"
proof -
  define x where "x = b - f"
  have x: "n \<le> unat x" "4 \<le> unat (- x)" using assms(1) by (simp_all add: disjoint_def x_def)
  have i: "i \<le> x" using x(1) assms(2) by (simp add: word_le_nat_alt)
  then have u: "unat (x - i) = unat x - unat i" by (rule unat_sub)
  then have ge: "4 \<le> unat (x - i)" using x(1) assms(2) by simp
  then have nz: "x - i \<noteq> 0" "x \<noteq> 0" using x assms(2) by auto
  have "unat (- (x - i)) = 2 ^ 32 - (unat x - unat i)" using unat_neg [OF nz(1)] u by simp
  moreover have "unat (- x) = 2 ^ 32 - unat x" using unat_neg [OF nz(2)] .
  ultimately have "4 \<le> unat (- (x - i))" using x(2) by linarith
  then show ?thesis using ge by (simp add: disjoint_def x_def algebra_simps)
qed

lemma modlink_regs [simp]:
  "modlink (\<sigma>\<lparr>mem := m\<rparr>) = modlink \<sigma>" "modlink (\<sigma>\<lparr>rFP := a\<rparr>) = modlink \<sigma>" "modlink (\<sigma>\<lparr>rM := b\<rparr>) = modlink \<sigma>"
  by (simp_all add: fun_eq_iff modlink_def)

lemma modlink_updobj: "(\<And>h. hs (g h) = hs h) \<Longrightarrow> modlink (updobj v g \<sigma>) = modlink \<sigma>"
  by (auto simp: fun_eq_iff modlink_def split: option.splits)

lemma mcall_effect:
  assumes c: "counted B {} R M \<sigma>" and m: "rM \<sigma> \<in># R" "rM \<sigma> \<noteq> H" "modlink \<sigma> (rM \<sigma>) = Some (MP0, md0, c0, lk0)"
    and ml: "ml = Wd \<sigma>" "ml \<noteq> H" "hp \<sigma> ml = Some h" "unat (href h) + 1 < 2 ^ 32" "modlink \<sigma> ml = Some (MP, md, c1, lk)" "mprog (mods \<sigma> md) \<noteq> 0"
    and f: "f = Ws \<sigma>" "offarea \<sigma> f 12" "disjoint f 12 (rm \<sigma>) 4" and l: "linkat lk (Wm \<sigma>) = Some (u, t)"
  shows "\<exists>\<sigma>'. mcall fn \<sigma> = Ret () \<sigma>' \<and> counted B {} (add_mset ml R) M \<sigma>' \<and> rPC \<sigma>' = of_int u \<and> rFP \<sigma>' = f \<and> rM \<sigma>' = ml \<and> rMP \<sigma>' = MP \<and>
    rTS \<sigma>' = rTS \<sigma> \<and> rEX \<sigma>' = rEX \<sigma> \<and> mem \<sigma>' = wrW (wrW (wrW (mem \<sigma>) f (rPC \<sigma>)) (f + 4) (rFP \<sigma>)) (f + 8) (rM \<sigma>)"
proof -
  define m1 where "m1 = wrW (wrW (wrW (mem \<sigma>) f (rPC \<sigma>)) (f + 4) (rFP \<sigma>)) (f + 8) (rM \<sigma>)"
  define s1 where "s1 = \<sigma>\<lparr>mem := m1, rFP := f, rM := ml\<rparr>"
  define s2 where "s2 = updobj ml (\<lambda>h. h\<lparr>href := href h + 1\<rparr>) s1"
  have "counted B {} R M s1" using link_store_counted [OF c f(2)] by (simp add: s1_def m1_def)
  then have c2: "counted B {} (add_mset ml R) M s2" unfolding s2_def by (rule hold_counted) (use ml in \<open>simp_all add: s1_def\<close>)
  have l2: "modlink s2 = modlink \<sigma>" unfolding s2_def by (subst modlink_updobj) (simp_all add: s1_def)
  have mr: "fr_mr (mem s2) f = rM \<sigma>" by (simp add: s2_def s1_def m1_def fr_mr_def)
  have "disjoint f 4 (rm \<sigma>) 4" "disjoint (f + 4) 4 (rm \<sigma>) 4" "disjoint (f + 8) 4 (rm \<sigma>) 4"
    using disjoint_sub [OF f(3), of 0] disjoint_sub [OF f(3), of 4] disjoint_sub [OF f(3), of 8] by simp_all
  then have w: "Wm s2 = Wm \<sigma>" by (simp add: Wm_def s2_def s1_def m1_def rdW_wrW_other)
  have "mcall fn \<sigma> = Ret () (if c0 \<noteq> c1 then s2\<lparr>rMP := MP, rPC := of_int u, rt := 1, rIC := 1\<rparr> else s2\<lparr>rMP := MP, rPC := of_int u, rt := 1\<rparr>)"
    unfolding mcall_def Let_def ml(1) [symmetric] f(1) [symmetric] m1_def [symmetric] s1_def [symmetric] s2_def [symmetric] l2 w mr
    using ml m l by (simp add: s2_def s1_def)
  then show ?thesis using c2 by (intro exI conjI) (assumption, simp_all add: s2_def s1_def m1_def split: if_splits)
qed

lemma mr_link:
  "frametype (wrW m (f + 8) v) f = frametype m f" "pops_to (wrW m (f + 8) v) f ts ex = pops_to m f ts ex" "fr_mr (wrW m (f + 8) v) f = v"
proof -
  let ?m = "wrW m (f + 8) v"
  have d: "disjoint (f + 8) 4 (f - 16) 4" "disjoint (f + 8) 4 (f - 16 + 4) 4" "disjoint (f + 8) 4 (f - 16 + 8) 4" "disjoint (f + 8) 4 (f - 16 + 12) 4"
    by (simp_all add: disjoint_def)
  then have "fr_t ?m f = fr_t m f" "sx_TR ?m (SEXTYPE f) = sx_TR m (SEXTYPE f)" "sx_SP ?m (SEXTYPE f) = sx_SP m (SEXTYPE f)"
    "sx_TS ?m (SEXTYPE f) = sx_TS m (SEXTYPE f)" "sx_EX ?m (SEXTYPE f) = sx_EX m (SEXTYPE f)"
    by (simp_all add: link_words rdW_wrW_other)
  then show "frametype ?m f = frametype m f" "pops_to ?m f ts ex = pops_to m f ts ex" "fr_mr ?m f = v"
    by (simp_all only: frametype_def pops_to_def) (simp add: fr_mr_def)
qed

text \<open>
  C21. A call of another module returns. \<^verbatim>\<open>mcall\<close> enters the module with its code, its data and one more reference on its
  link; the \<^verbatim>\<open>ret\<close> that leaves the frame goes back to the calling module with its data, gives the reference up, and
  takes the stack back to where it was before \<^verbatim>\<open>mframe\<close>, with all counts exact.
\<close>

theorem mcall_returns:
  assumes "mframe ns \<sigma> = Ret () \<sigma>1" and "f = rdW (mem \<sigma>1) (rd \<sigma>)"
    and "modlink \<sigma> (Ws \<sigma>) = Some (MP', md', c', lk')" "linkat lk' (Wm \<sigma>) = Some (u', Some t)"
    and "frame_ty (types \<sigma> t)" "t < 2 ^ 32 - 1" "off_link (mem \<sigma>1) f (rd \<sigma>)"
    and "at_frame f \<sigma>1 \<sigma>2" "Ws \<sigma>2 = f" "rFP \<sigma>2 = rFP \<sigma>" "rFP \<sigma> \<noteq> 0"
    and "counted B {} R M \<sigma>2" "rM \<sigma>2 \<in># R" "rM \<sigma>2 \<notin> {0, H}" "modlink \<sigma>2 (rM \<sigma>2) = Some (MP0, md0, c0, lk0)"
    and "Wd \<sigma>2 \<noteq> H" "hp \<sigma>2 (Wd \<sigma>2) = Some h" "unat (href h) + 1 < 2 ^ 32" "modlink \<sigma>2 (Wd \<sigma>2) = Some (MP, md, c1, lk)"
    and "mprog (mods \<sigma>2 md) \<noteq> 0" "linkat lk (Wm \<sigma>2) = Some (u, ft)" "offarea \<sigma>2 f 12" "disjoint f 12 (rm \<sigma>2) 4"
  shows "\<exists>\<sigma>3. mcall fn \<sigma>2 = Ret () \<sigma>3 \<and> counted B {} (add_mset (Wd \<sigma>2) R) M \<sigma>3 \<and> rPC \<sigma>3 = of_int u \<and> rM \<sigma>3 = Wd \<sigma>2 \<and> rMP \<sigma>3 = MP \<and> rFP \<sigma>3 = f \<and>
    (\<forall>\<tau> S. at_frame f \<sigma>3 \<tau> \<and> rFP \<tau> = f \<and> fr_lr (mem \<tau>) f = fr_lr (mem \<sigma>3) f \<and> fr_fp (mem \<tau>) f = fr_fp (mem \<sigma>3) f \<and> rM \<tau> = Wd \<sigma>2 \<and>
       modlink \<tau> (Wd \<sigma>2) = modlink \<sigma>2 (Wd \<sigma>2) \<and> modlink \<tau> (rM \<sigma>2) = modlink \<sigma>2 (rM \<sigma>2) \<and>
       counted B {} (ptrs_at (mem \<tau>) f (types \<tau> t) + add_mset (Wd \<sigma>2) S) M \<tau> \<and> rM \<sigma>2 \<in># S \<and> B \<subseteq># S \<longrightarrow>
     (\<exists>\<tau>'. ret \<tau> = Ret () \<tau>' \<and> counted B {} S M \<tau>' \<and> rM \<tau>' = rM \<sigma>2 \<and> rMP \<tau>' = MP0 \<and> rPC \<tau>' = rPC \<sigma>2 \<and> rFP \<tau>' = rFP \<sigma> \<and>
       rSP \<tau>' = rSP \<sigma> \<and> rTS \<tau>' = rTS \<sigma> \<and> rEX \<tau>' = rEX \<sigma>))"
proof -
  have nf: "newframe ns t \<sigma> = Ret () \<sigma>1" using assms(1,3,4) by (simp add: mframe_def Let_def split: if_splits)
  note l1 = newframe_link [OF nf assms(2,5-7)]
  obtain \<sigma>3 where s3: "mcall fn \<sigma>2 = Ret () \<sigma>3" "counted B {} (add_mset (Wd \<sigma>2) R) M \<sigma>3" "rPC \<sigma>3 = of_int u" "rFP \<sigma>3 = f"
    "rM \<sigma>3 = Wd \<sigma>2" "rMP \<sigma>3 = MP" "rTS \<sigma>3 = rTS \<sigma>2" "rEX \<sigma>3 = rEX \<sigma>2"
    and m3: "mem \<sigma>3 = wrW (wrW (wrW (mem \<sigma>2) f (rPC \<sigma>2)) (f + 4) (rFP \<sigma>2)) (f + 8) (rM \<sigma>2)"
    using mcall_effect [OF assms(12,13) _ assms(15) refl assms(16-20) assms(9) [symmetric] assms(22,23,21), of fn] assms(14) by auto
  have "linkage (wrW (wrW (mem \<sigma>2) f (rPC \<sigma>2)) (f + 4) (rFP \<sigma>2)) f = linkage (mem \<sigma>2) f" by (simp add: linkage_wrW off_link_header)
  note l2 = linkage_eqD [OF this]
  have l3: "frametype (mem \<sigma>3) f = Some t" "pops_to (mem \<sigma>3) f (rTS \<sigma>3) (rEX \<sigma>3) = (rSP \<sigma>, rTS \<sigma>, rEX \<sigma>)" "fr_mr (mem \<sigma>3) f = rM \<sigma>2"
    unfolding m3 mr_link l2 s3(7,8) at_frameD [OF assms(8)] using l1 by simp_all
  have r3: "fr_lr (mem \<sigma>3) f = rPC \<sigma>2" "fr_fp (mem \<sigma>3) f = rFP \<sigma>" unfolding m3
    by (simp_all add: fr_lr_def fr_fp_def rdW_wrW_other assms(10))
  have returns: "\<exists>\<tau>'. ret \<tau> = Ret () \<tau>' \<and> counted B {} S M \<tau>' \<and> rM \<tau>' = rM \<sigma>2 \<and> rMP \<tau>' = MP0 \<and> rPC \<tau>' = rPC \<sigma>2 \<and> rFP \<tau>' = rFP \<sigma> \<and>
       rSP \<tau>' = rSP \<sigma> \<and> rTS \<tau>' = rTS \<sigma> \<and> rEX \<tau>' = rEX \<sigma>"
    if t: "at_frame f \<sigma>3 \<tau>" "rFP \<tau> = f" "fr_lr (mem \<tau>) f = fr_lr (mem \<sigma>3) f" "fr_fp (mem \<tau>) f = fr_fp (mem \<sigma>3) f" "rM \<tau> = Wd \<sigma>2"
      "modlink \<tau> (Wd \<sigma>2) = modlink \<sigma>2 (Wd \<sigma>2)" "modlink \<tau> (rM \<sigma>2) = modlink \<sigma>2 (rM \<sigma>2)"
      "counted B {} (ptrs_at (mem \<tau>) f (types \<tau> t) + add_mset (Wd \<sigma>2) S) M \<tau>" "rM \<sigma>2 \<in># S" "B \<subseteq># S" for \<tau> S
  proof -
    note lt = at_frameD [OF t(1), unfolded l3]
    have "\<exists>\<tau>'. ret \<tau> = Ret () \<tau>' \<and> counted B {} S M \<tau>' \<and> mem \<tau>' = mem \<tau> \<and> rFP \<tau>' = fr_fp (mem \<tau>) (rFP \<tau>) \<and> rPC \<tau>' = fr_lr (mem \<tau>) (rFP \<tau>) \<and>
      rM \<tau>' = rM \<sigma>2 \<and> rMP \<tau>' = MP0 \<and> (rSP \<tau>', rTS \<tau>', rEX \<tau>') = pops_to (mem \<tau>) (rFP \<tau>) (rTS \<tau>) (rEX \<tau>) \<and> (c1 \<noteq> c0 \<longrightarrow> rIC \<tau>' = 1 \<and> rt \<tau>' = 1)"
      by (rule ret_module [where t = t]) (use t lt r3 assms(11,14-16,19) in simp_all)
    then show ?thesis using t(2-4) r3 lt(3) by auto
  qed
  show ?thesis by (rule exI [of _ \<sigma>3]) (use s3 returns in simp)
qed

section \<open>Spawning hands the frame over\<close>

lemma Setmark_counted:
  assumes "counted B {} R M \<sigma>"
  shows "counted B {} R M (Setmark v \<sigma>)"
proof (rule counted_same [OF assms])
  show "agree {} \<sigma> (Setmark v \<sigma>)" unfolding agree_def lists_stay_def
    by (auto simp: hp_Setmark option.rel_map option.pred_map comp_def islist_upd dom_def intro!: option.rel_refl elim!: option.pred_mono_strong split: if_splits)
  show "refcount {} (Setmark v \<sigma>) u = refcount {} \<sigma> u" for u
    by (auto simp: refcount_def hp_Setmark split: option.splits)
qed simp_all

lemma modlink_Setmark [simp]: "modlink (Setmark v \<sigma>) = modlink \<sigma>"
  by (auto simp: fun_eq_iff modlink_def hp_Setmark split: option.splits)

lemma regs_Setmark [simp]: "regs (Setmark v \<sigma>) = regs \<sigma>"
  by (auto simp: Setmark_def regs_def updobj_def split: option.splits)

lemma modlink_updprog [simp]: "modlink (updprog p g \<sigma>) = modlink \<sigma>"
  by (simp add: fun_eq_iff modlink_def)

definition same_heap :: "vm \<Rightarrow> vm \<Rightarrow> bool" where
  "same_heap \<sigma> \<sigma>' \<longleftrightarrow> mem \<sigma>' = mem \<sigma> \<and> hp \<sigma>' = hp \<sigma> \<and> heapmem \<sigma>' = heapmem \<sigma> \<and> types \<sigma>' = types \<sigma> \<and> mods \<sigma>' = mods \<sigma> \<and>
     modules \<sigma>' = modules \<sigma> \<and> regs \<sigma>' = regs \<sigma>"

lemma same_heap_counted: "same_heap \<sigma> \<sigma>' \<Longrightarrow> counted B {} R M \<sigma> \<Longrightarrow> counted B {} R M \<sigma>'"
  unfolding same_heap_def by (elim counted_hp_same) simp_all

lemma addrun_same_heap: "addrun p \<sigma> = Some \<sigma>' \<Longrightarrow> same_heap \<sigma> \<sigma>'"
  by (auto simp: same_heap_def addrun_def callhook_def cwakeme_def dbgaddrun_def Let_def regs_def updprog_def split: option.splits addrunhook.splits)

lemma linkprog_same_heap: "same_heap \<sigma> (linkprog n \<sigma>)"
  by (auto simp: same_heap_def linkprog_def regs_def updprog_def split: option.splits)

lemma addrun_FP: "addrun p \<sigma> = Some \<sigma>' \<Longrightarrow> map_option pR_FP (progs \<sigma>' q) = map_option pR_FP (progs \<sigma> q)"
  by (auto simp: addrun_def callhook_def cwakeme_def dbgaddrun_def Let_def option.map_comp comp_def split: option.splits addrunhook.splits if_splits)

lemma incref_shape:
  "incref v \<sigma> = Some \<sigma>' \<Longrightarrow> hp \<sigma>' u = Some h' \<Longrightarrow> \<exists>h. hp \<sigma> u = Some h \<and> ht h' = ht h \<and> hs h' = hs h"
  by (auto simp: incref_def hp_Setmark split: option.splits if_splits)

lemma newprog_effect:
  assumes np: "newprog n p m \<sigma> = Some \<sigma>'" and c: "counted B {} R M \<sigma>" and h: "hp \<sigma> m = Some h" "unat (href h) + 1 < 2 ^ 32"
  shows "counted B {} (add_mset m R) M \<sigma>' \<and> mem \<sigma>' = mem \<sigma> \<and> regs \<sigma>' = regs \<sigma> \<and> types \<sigma>' = types \<sigma> \<and> mods \<sigma>' = mods \<sigma> \<and>
    modlink \<sigma>' = modlink \<sigma> \<and> (\<exists>pr. progs \<sigma>' n = Some pr \<and> pR_M pr = m \<and> pR_FP pr = 0) \<and>
    (\<forall>u h'. hp \<sigma>' u = Some h' \<longrightarrow> (\<exists>h. hp \<sigma> u = Some h \<and> ht h' = ht h \<and> hs h' = hs h))"
proof -
  let ?s = "\<sigma>\<lparr>progs := (progs \<sigma>)(n \<mapsto> progz)\<rparr>"
  obtain s1 where s1: "addrun n ?s = Some s1" using np by (auto simp: newprog_def bind_eq_Some_conv)
  define k where "k = pidnum s1 + 1"
  define s3 where "s3 = updprog n (\<lambda>q. q\<lparr>pquanta := 2048\<rparr>) (linkprog n (updprog n (\<lambda>q. q\<lparr>pid := k, pgrp := k\<rparr>) (s1\<lparr>pidnum := k\<rparr>)))"
  have sh: "same_heap \<sigma> s3" using addrun_same_heap [OF s1] linkprog_same_heap [of "updprog n (\<lambda>q. q\<lparr>pid := k, pgrp := k\<rparr>) (s1\<lparr>pidnum := k\<rparr>)" n]
    unfolding s3_def same_heap_def by (simp add: regs_def updprog_def)
  have "map_option pR_FP (progs s1 n) = Some 0" using addrun_FP [OF s1, of n] by (simp add: progz_def)
  then have "map_option pR_FP (progs s3 n) = Some 0"
    by (auto simp: s3_def linkprog_def split: option.splits)
  then obtain r3 where e3: "progs s3 n = Some r3" "pR_FP r3 = 0" by auto
  obtain s4 where s4: "incref m s3 = Some s4" "counted B {} (add_mset m R) M s4" "mem s4 = mem s3" "types s4 = types s3"
    using incref_counted [OF same_heap_counted [OF sh c], of m h] h sh by (auto simp: same_heap_def)
  have m4: "modlink s4 = modlink \<sigma>" "progs s4 = progs s3" "mods s4 = mods \<sigma>" "regs s4 = regs \<sigma>"
    using incref_progs [OF s4(1)] s4(1) sh by (auto simp: fun_eq_iff modlink_def same_heap_def incref_def split: option.splits)
  obtain MP md c' l where ml: "modlink s4 m = Some (MP, md, c', l)"
    using np s1 s4(1) by (auto simp: newprog_def Let_def k_def [symmetric] s3_def [symmetric] bind_eq_Some_conv)
  define s5 where "s5 = updprog n (\<lambda>q. q\<lparr>pR_M := m, pR_MP := MP\<rparr>) s4"
  define s6 where "s6 = (if MP \<noteq> H then Setmark MP s5 else s5)"
  have c5: "counted B {} (add_mset m R) M s5" using s4(2) by (rule counted_hp_same) (simp_all add: s5_def)
  have f6: "mem s6 = mem \<sigma>" "regs s6 = regs \<sigma>" "types s6 = types \<sigma>" "mods s6 = mods \<sigma>" "modlink s6 = modlink \<sigma>"
    using s4 m4 sh by (simp_all add: s6_def s5_def same_heap_def)
  have c6: "counted B {} (add_mset m R) M s6" using c5 Setmark_counted by (simp add: s6_def)
  obtain r where r: "progs s6 n = Some r" "pR_M r = m" "pR_FP r = 0" using e3 m4 by (cases "MP = H") (auto simp: s6_def s5_def)
  have o6: "\<exists>h. hp \<sigma> u = Some h \<and> ht h' = ht h \<and> hs h' = hs h" if h6: "hp s6 u = Some h'" for u h'
  proof -
    obtain h4 where "hp s4 u = Some h4" "ht h' = ht h4" "hs h' = hs h4" using h6 by (cases "MP = H") (auto simp: s6_def s5_def hp_Setmark split: if_splits)
    moreover from incref_shape [OF s4(1) this(1)] sh obtain h where "hp \<sigma> u = Some h" "ht h4 = ht h" "hs h4 = hs h" by (auto simp: same_heap_def)
    ultimately show ?thesis by auto
  qed
  have "newprog n p m \<sigma> = (case p of None \<Rightarrow> Some s6 | Some p \<Rightarrow> map_option (\<lambda>pp. updprog n (\<lambda>q. q\<lparr>pgrp := pgrp pp\<rparr>) s6) (progs s6 p))"
    unfolding s6_def s5_def by (simp add: newprog_def Let_def k_def [symmetric] s3_def [symmetric] s1 s4(1) ml)
  then have "(case p of None \<Rightarrow> Some s6 | Some p \<Rightarrow> map_option (\<lambda>pp. updprog n (\<lambda>q. q\<lparr>pgrp := pgrp pp\<rparr>) s6) (progs s6 p)) = Some \<sigma>'"
    using np by simp
  then have "\<sigma>' = s6 \<or> (\<exists>pg. \<sigma>' = updprog n (\<lambda>q. q\<lparr>pgrp := pg\<rparr>) s6)"
    by (auto split: option.splits)
  then show ?thesis
  proof
    assume "\<exists>pg. \<sigma>' = updprog n (\<lambda>q. q\<lparr>pgrp := pg\<rparr>) s6"
    then obtain pg where s': "\<sigma>' = updprog n (\<lambda>q. q\<lparr>pgrp := pg\<rparr>) s6" ..
    have "counted B {} (add_mset m R) M \<sigma>'" using c6 by (rule counted_hp_same) (simp_all add: s')
    then show ?thesis using f6 r o6 by (simp add: s')
  qed (use c6 f6 r o6 in simp)
qed

text \<open>What \<^verbatim>\<open>newstack\<close> writes: the first three words of the frame and the new extent.\<close>

definition stackmem :: "WORD \<Rightarrow> tid \<Rightarrow> WORD \<Rightarrow> nat \<Rightarrow> mem \<Rightarrow> mem" where
  "stackmem ns t f k m = wrW (memmove (putext ns t 0 0 0 (wrW (wrW (wrW m f 0) (f + 8) 0) (f + 4) 0)) (ns + 16) f k) (ns + 16 + 12) 0"

lemma rdW_bytes: "(\<And>i. unat i < 4 \<Longrightarrow> m' (b' + i) = m (b + i)) \<Longrightarrow> rdW m' b' = rdW m b"
proof -
  assume i: "\<And>i. unat i < 4 \<Longrightarrow> m' (b' + i) = m (b + i)"
  from i [of 0] i [of 1] i [of 2] i [of 3] show ?thesis by (simp add: rdW_def)
qed

lemma hdr_outside:
  assumes "12 \<le> unat (x - f)"
  shows "wrW (wrW (wrW m f u) (f + 8) w) (f + 4) v x = m x"
  using assms unat_shift [of 4 4 x f] unat_shift [of 8 4 x f] by (simp add: wrW_outside)

lemma putext_outside: "16 \<le> unat (x - ns) \<Longrightarrow> putext ns t sp ts ex m x = m x"
  using unat_shift [of 4 4 x ns] unat_shift [of 8 4 x ns] unat_shift [of 12 4 x ns] by (simp add: putext_def wrW_outside)

lemma stackmem_outside:
  assumes "12 \<le> unat (x - f)" "16 + k \<le> unat (x - ns)" "16 \<le> k"
  shows "stackmem ns t f k m x = m x"
proof -
  have "k \<le> unat (x - (ns + 16))" "16 \<le> unat (x - (ns + 16))" using unat_shift [of 16 k x ns] unat_shift [of 16 16 x ns] assms by simp_all
  then have "4 \<le> unat (x - (ns + 16 + 12))" using unat_shift [of 12 4 x "ns + 16"] by simp
  with \<open>k \<le> unat (x - (ns + 16))\<close> show ?thesis
    using assms by (simp add: stackmem_def wrW_outside memmove_outside putext_outside hdr_outside)
qed

lemma disjoint_bytes:
  assumes "disjoint a n b k" "unat i < k"
  shows "n \<le> unat (b + i - a)"
proof -
  define x where "x = b - a"
  have x: "n \<le> unat x" "k \<le> unat (- x)" using assms(1) by (simp_all add: disjoint_def x_def)
  have "unat (x + i) = unat x + unat i \<or> x = 0"
  proof (cases "x = 0")
    case False
    then have "unat x + unat i < 2 ^ 32" using unat_neg [of x] x(2) assms(2) by linarith
    then show ?thesis by (subst unat_add_lem [THEN iffD1]) simp_all
  qed simp
  moreover have "x = 0 \<Longrightarrow> n = 0" using x(1) by simp
  ultimately have "n \<le> unat (x + i)" using x(1) by auto
  then show ?thesis by (simp add: x_def algebra_simps)
qed

lemma stackmem_rdW:
  assumes "disjoint f 12 b 4" "disjoint ns (16 + k) b 4" "16 \<le> k"
  shows "rdW (stackmem ns t f k m) b = rdW m b"
  by (rule rdW_bytes) (use assms disjoint_bytes in \<open>simp add: stackmem_outside\<close>)

lemma stackmem_frame:
  assumes f: "disjoint ns (16 + k) f k" and i: "unat i < 12 \<or> 16 \<le> unat i" "unat i < k"
  shows "stackmem ns t f k m (ns + 16 + i) = wrW (wrW (wrW m f 0) (f + 8) 0) (f + 4) 0 (f + i)"
proof -
  let ?m = "wrW (wrW (wrW m f 0) (f + 8) 0) (f + 4) 0"
  have "4 \<le> unat (ns + 16 + i - (ns + 16 + 12))"
  proof (cases "16 \<le> unat i")
    case True
    then show ?thesis using unat_shift [of 12 4 "ns + 16 + i" "ns + 16"] by simp
  next
    case False
    then have "unat i < unat (12 :: WORD)" using i(1) by simp
    then have u: "unat (12 - i) = 12 - unat i" by (subst unat_sub) (simp_all add: word_le_nat_alt)
    then have "12 - i \<noteq> 0" using \<open>unat i < unat 12\<close> by auto
    from unat_neg [OF this] u have "4 \<le> unat (- (12 - i))" by simp
    then show ?thesis by (simp add: algebra_simps)
  qed
  then have "stackmem ns t f k m (ns + 16 + i) = putext ns t 0 0 0 ?m (f + i)"
    using i(2) by (simp add: stackmem_def wrW_outside memmove_inside)
  also have "16 \<le> unat (f + i - ns)" using disjoint_bytes [OF f i(2)] by simp
  then have "putext ns t 0 0 0 ?m (f + i) = ?m (f + i)" by (rule putext_outside)
  finally show ?thesis .
qed

lemma stackmem_body:
  assumes "disjoint ns (16 + k) f k" "16 \<le> unat i" "unat i < k"
  shows "stackmem ns t f k m (ns + 16 + i) = m (f + i)"
proof -
  have "wrW (wrW (wrW m f 0) (f + 8) 0) (f + 4) 0 (f + i) = m (f + i)" by (rule hdr_outside) (use assms(2) in simp)
  then show ?thesis using stackmem_frame [OF assms(1) _ assms(3)] assms(2) by simp
qed

lemma stackmem_head:
  assumes f: "disjoint ns (16 + k) f k" and k: "16 \<le> k" and j: "unat j \<le> 8"
  shows "rdW (stackmem ns t f k m) (ns + 16 + j) = rdW (wrW (wrW (wrW m f 0) (f + 8) 0) (f + 4) 0) (f + j)"
proof (rule rdW_bytes)
  fix i :: WORD assume i: "unat i < 4"
  have "unat j + unat i < 2 ^ 32" using i j by simp
  then have "unat (j + i) = unat j + unat i" by (subst unat_add_lem [THEN iffD1]) simp_all
  then have "unat (j + i) < 12" "unat (j + i) < k" using i j k by linarith+
  then show "stackmem ns t f k m (ns + 16 + j + i) = wrW (wrW (wrW m f 0) (f + 8) 0) (f + 4) 0 (f + j + i)"
    using stackmem_frame [OF f, of "j + i"] by (simp add: add.assoc)
qed

lemma stackmem_ext:
  assumes f: "disjoint ns (16 + k) f k" and k: "16 \<le> k" "k < 2 ^ 31"
  shows "rdW (stackmem ns t f k m) ns = tyword t" "fr_lr (stackmem ns t f k m) (ns + 16) = 0" "fr_fp (stackmem ns t f k m) (ns + 16) = 0"
    "fr_mr (stackmem ns t f k m) (ns + 16) = 0" "fr_t (stackmem ns t f k m) (ns + 16) = None"
proof -
  let ?h = "wrW (wrW (wrW m f 0) (f + 8) 0) (f + 4) 0"
  have hd: "rdW (stackmem ns t f k m) (ns + 16 + 0) = rdW ?h (f + 0)" "rdW (stackmem ns t f k m) (ns + 16 + 4) = rdW ?h (f + 4)"
    "rdW (stackmem ns t f k m) (ns + 16 + 8) = rdW ?h (f + 8)"
    by (rule stackmem_head [OF f k(1)]; simp)+
  show "fr_lr (stackmem ns t f k m) (ns + 16) = 0" using hd(1) by (simp add: fr_lr_def rdW_wrW_other)
  show "fr_fp (stackmem ns t f k m) (ns + 16) = 0" unfolding fr_fp_def hd(2) by simp
  show "fr_mr (stackmem ns t f k m) (ns + 16) = 0" unfolding fr_mr_def hd(3) by (simp add: rdW_wrW_other)
  show "fr_t (stackmem ns t f k m) (ns + 16) = None" by (simp add: fr_t_def typeat_def stackmem_def)
  let ?p = "putext ns t 0 0 0 (wrW (wrW (wrW m f 0) (f + 8) 0) (f + 4) 0)"
  have "rdW (memmove ?p (ns + 16) f k) ns = rdW ?p ns"
  proof (rule rdW_bytes)
    fix i :: WORD assume i: "unat i < 4"
    then have u: "unat (16 - i) = 16 - unat i" by (subst unat_sub) (simp_all add: word_le_nat_alt)
    then have "16 - i \<noteq> 0" using i by auto
    from unat_neg [OF this] u have "unat (- (16 - i)) = 2 ^ 32 - (16 - unat i)" by simp
    then have "k \<le> unat (ns + i - (ns + 16))" using k(2) by (simp add: algebra_simps)
    then show "memmove ?p (ns + 16) f k (ns + i) = ?p (ns + i)" by (rule memmove_outside)
  qed
  then show "rdW (stackmem ns t f k m) ns = tyword t" by (simp add: stackmem_def rdW_wrW_other putext_words)
qed

lemma slot_bytes:
  assumes "16 \<le> unat a" "int (unat a) + 4 \<le> k" "k < 2 ^ 31" "unat i < 4"
  shows "16 \<le> unat (a + i :: WORD)" "unat (a + i) < nat k"
proof -
  have "int (unat a) < 2 ^ 31" using assms(2,3) by linarith
  then have "unat a < 2 ^ 31" by (metis of_nat_less_numeral_power_cancel_iff)
  then have "unat a + unat i < 2 ^ LENGTH(32)" using assms(4) by simp
  then have u: "unat (a + i) = unat a + unat i" by (rule unat_add_lem [THEN iffD1])
  show "16 \<le> unat (a + i)" using assms(1) unfolding u by linarith
  have "int (unat a + unat i) < k" using assms(2,4) by linarith
  then show "unat (a + i) < nat k" unfolding u by linarith
qed

lemma slots_shift: "slots_down x ty = map ((+) x) (slots_down 0 ty)"
  using map_slots_shift [of _ 0 x "tmap ty"] by simp

lemma ptrs_at_moved:
  assumes ty: "frame_ty ty" and b: "\<And>i. 16 \<le> unat i \<Longrightarrow> unat i < nat (tsize ty) \<Longrightarrow> m' (g + i) = m (f + i)"
  shows "ptrs_at m' g ty = ptrs_at m f ty"
proof -
  have "rdW m' (g + a) = rdW m (f + a)" if a: "a \<in> set (slots_down 0 ty)" for a
  proof (rule rdW_bytes)
    fix i :: WORD assume i: "unat i < 4"
    have "16 \<le> unat a" "int (unat a) + 4 \<le> tsize ty" "tsize ty < 2 ^ 31" using ty a unfolding frame_ty_def by blast+
    from b [OF slot_bytes [OF this i]] show "m' (g + a + i) = m (f + a + i)" by (simp only: add.assoc)
  qed
  then have "map (\<lambda>a. rdW m' (g + a)) (slots_down 0 ty) = map (\<lambda>a. rdW m (f + a)) (slots_down 0 ty)" by (intro map_cong refl)
  then show ?thesis unfolding ptrs_at_def slots_shift [of g] slots_shift [of f] map_map comp_def by (rule arg_cong)
qed

lemma updprog_mem: "(updprog n g (\<sigma>\<lparr>mem := m\<rparr>))\<lparr>mem := m'\<rparr> = (updprog n g \<sigma>)\<lparr>mem := m'\<rparr>"
  by (simp add: updprog_def)

lemma newstack_effect:
  assumes f: "f = Ws \<sigma>" "frametype (mem \<sigma>) f = Some t" and pr: "progs \<sigma> n = Some pr" "modlink \<sigma> (pR_M pr) \<noteq> None" and ns: "ns \<noteq> 0"
  shows "\<exists>l. newstack ns n \<sigma> = Ret () ((updprog n (\<lambda>q. q\<lparr>pR_EX := ns, pR_TS := l, pR_SP := ns + 16 + of_int (tsize (types \<sigma> t)), pR_FP := ns + 16\<rparr>) \<sigma>)
    \<lparr>mem := stackmem ns t f (nat (tsize (types \<sigma> t))) (mem \<sigma>)\<rparr>)"
proof -
  obtain MP md c lk where "modlink \<sigma> (pR_M pr) = Some (MP, md, c, lk)" using pr(2) by (metis option.exhaust prod_cases4)
  then show ?thesis using f(2) pr(1) ns unfolding f(1)
    by (intro exI) (simp add: newstack_def Let_def stackmem_def updprog_mem)
qed

lemma unframe_effect:
  assumes "frametype (mem \<sigma>) (rFP \<sigma>) = Some tc" "pops_to (mem \<sigma>) (Ws \<sigma>) (rTS \<sigma>) (rEX \<sigma>) = (rFP \<sigma> + of_int (tsize (types \<sigma> tc)), ts, ex)"
  shows "unframe \<sigma> = Ret () (\<sigma>\<lparr>rSP := rFP \<sigma> + of_int (tsize (types \<sigma> tc)), rTS := ts, rEX := ex\<rparr>)"
  using assms by (auto simp: unframe_def Let_def pops_to_def split: option.splits)

lemma stack_store_counted:
  assumes c: "counted B {} R M \<sigma>" and o: "offarea \<sigma> f 12" "offarea \<sigma> ns (16 + k)" and k: "16 \<le> k"
  shows "counted B {} R M (\<sigma>\<lparr>mem := stackmem ns t f k (mem \<sigma>)\<rparr>)"
proof (rule counted_mem [OF c])
  fix v h assume h: "hp \<sigma> v = Some h"
  let ?m = "wrW (wrW (wrW (mem \<sigma>) f 0) (f + 8) 0) (f + 4) 0"
  have "kids_of ?m (types \<sigma>) v h = kids_of (mem \<sigma>) (types \<sigma>) v h"
    using o(1) h hdr_outside [of _ f "mem \<sigma>"] unfolding offarea_def by blast
  moreover have "stackmem ns t f k (mem \<sigma>) a = ?m a" if a: "16 + k \<le> unat (a - ns)" for a
  proof -
    have "k \<le> unat (a - (ns + 16))" "16 \<le> unat (a - (ns + 16))" using unat_shift [of 16 k a ns] unat_shift [of 16 16 a ns] a k by simp_all
    then have "4 \<le> unat (a - (ns + 16 + 12))" using unat_shift [of 12 4 a "ns + 16"] by simp
    with \<open>k \<le> unat (a - (ns + 16))\<close> show ?thesis
      using a by (simp add: stackmem_def wrW_outside memmove_outside putext_outside)
  qed
  then have "kids_of (stackmem ns t f k (mem \<sigma>)) (types \<sigma>) v h = kids_of ?m (types \<sigma>) v h"
    using o(2) h unfolding offarea_def by blast
  ultimately show "kids_of (stackmem ns t f k (mem \<sigma>)) (types \<sigma>) v h = kids_of (mem \<sigma>) (types \<sigma>) v h" by simp
qed

lemma offarea_shape:
  assumes "offarea \<sigma> a n" "types \<sigma>' = types \<sigma>"
    "\<forall>u h'. hp \<sigma>' u = Some h' \<longrightarrow> (\<exists>h. hp \<sigma> u = Some h \<and> ht h' = ht h \<and> hs h' = hs h)"
  shows "offarea \<sigma>' a n"
proof -
  have k: "kids_of m ty u h' = kids_of m ty u h" if "ht h' = ht h" "hs h' = hs h" for m ty u h h'
    by (rule kids_of_cong) (use that in simp_all)
  show ?thesis unfolding offarea_def assms(2)
  proof (intro allI impI)
    fix m m' :: mem and v h' assume a: "(\<forall>x. n \<le> unat (x - a) \<longrightarrow> m' x = m x) \<and> hp \<sigma>' v = Some h'"
    then obtain h where h: "hp \<sigma> v = Some h" "ht h' = ht h" "hs h' = hs h" using assms(3) by blast
    then have "kids_of m' (types \<sigma>) v h = kids_of m (types \<sigma>) v h" using assms(1) a unfolding offarea_def by blast
    then show "kids_of m' (types \<sigma>) v h' = kids_of m (types \<sigma>) v h'" using k [OF h(2,3)] by simp
  qed
qed

lemma mem_regs [simp]: "Ws (updprog p g \<sigma>) = Ws \<sigma>"
  by (simp add: Ws_def)

lemma currun_exists: "runq \<sigma> rq \<Longrightarrow> \<forall>q\<in>set_option (currun \<sigma>). progs \<sigma> q \<noteq> None"
  by (cases rq) (auto simp: runq_def currun_def)

text \<open>
  When there is no memory for the extent the exception comes too late: the new prog is already in the run queue and in
  the table, and it has no frame.
\<close>

lemma spawn_nomem:
  assumes "allprogs \<sigma> qs" "runq \<sigma> rq" "progs \<sigma> n = None"
    and "counted B {} R M \<sigma>" "hp \<sigma> (rM \<sigma>) = Some h" "unat (href h) + 1 < 2 ^ 32" "modlink \<sigma> (rM \<sigma>) \<noteq> None"
    and f: "frametype (mem \<sigma>) (Ws \<sigma>) = Some t"
  shows "\<exists>\<sigma>' pr. spawn n 0 \<sigma> = Err exNomem \<sigma>' \<and> allprogs \<sigma>' (qs @ [n]) \<and> runq \<sigma>' (rq @ [n]) \<and> progs \<sigma>' n = Some pr \<and> pR_FP pr = 0"
proof -
  obtain s1 where s1: "newprog n (currun \<sigma>) (rM \<sigma>) \<sigma> = Some s1" "allprogs s1 (qs @ [n])" "runq s1 (rq @ [n])"
    using newprog_allprogs [OF assms(1-3,7) currun_exists [OF assms(2)]] by blast
  obtain r1 where e: "mem s1 = mem \<sigma>" "regs s1 = regs \<sigma>" "modlink s1 = modlink \<sigma>" "progs s1 n = Some r1" "pR_M r1 = rM \<sigma>" "pR_FP r1 = 0"
    using newprog_effect [OF s1(1) assms(4-6)] by blast
  obtain MP md c lk where ml: "modlink \<sigma> (rM \<sigma>) = Some (MP, md, c, lk)" using assms(7) by (metis option.exhaust prod_cases4)
  define s2 where "s2 = updprog n (\<lambda>q. q\<lparr>pR_PC := Wd \<sigma>\<rparr>) s1"
  define s3 where "s3 = s2\<lparr>mem := wrW (wrW (wrW (mem s2) (Ws s2) 0) (Ws s2 + 8) 0) (Ws s2 + 4) 0\<rparr>"
  have "Ws s2 = Ws \<sigma>" using e regs_eqD(1) [OF e(2)] by (simp add: s2_def Ws_def)
  then have "newstack 0 n s2 = Err exNomem s3"
    using f e ml unfolding s3_def by (simp add: newstack_def Let_def s2_def)
  then have "spawn n 0 \<sigma> = Err exNomem s3" using s1(1) by (simp add: spawn_def spawnon_def s2_def)
  moreover have "allprogs s3 (qs @ [n])" by (rule allprogs_same [OF s1(2)]) (auto simp: s3_def s2_def option.map_comp comp_def)
  moreover have "runq s3 (rq @ [n])" by (rule runq_same [OF s1(3)]) (auto simp: s3_def s2_def option.map_comp comp_def)
  moreover have "progs s3 n = Some (r1\<lparr>pR_PC := Wd \<sigma>\<rparr>)" using e(4) by (simp add: s3_def s2_def)
  ultimately show ?thesis using e(6) by (intro exI conjI) (assumption | simp)+
qed

lemma pops_same:
  assumes "\<forall>b\<in>set (tl (linkaddrs m f)). rdW m' b = rdW m b"
  shows "pops_to m' f ts ex = pops_to m f ts ex"
proof -
  have t: "fr_t m' f = fr_t m f" using assms by (simp add: linkaddrs_def fr_t_def typeat_def)
  have "sx_SP m' (SEXTYPE f) = sx_SP m (SEXTYPE f)" "sx_TS m' (SEXTYPE f) = sx_TS m (SEXTYPE f)" "sx_EX m' (SEXTYPE f) = sx_EX m (SEXTYPE f)"
    if "fr_t m f = None" using assms that by (simp_all add: linkaddrs_def sx_SP_def sx_TS_def sx_EX_def SEXTYPE_def)
  with t show ?thesis by (cases "fr_t m f") (simp_all add: pops_to_def)
qed

lemma disjoint_own: "b \<in> set (tl (linkaddrs m f)) \<Longrightarrow> disjoint f 12 b 4"
  by (auto simp: linkaddrs_def disjoint_def split: if_splits)

text \<open>
  C22. Spawning. The new prog goes to the end of the run queue and of the table, starts at the given address in the same
  module, and owns an extent with a copy of the frame; the pointers of the frame are handed over, so that apart from
  the new prog's reference on the module no count changes. The spawning prog is back on the stack it had before it made the
  frame.
\<close>

theorem spawn_moves_frame:
  assumes "allprogs \<sigma> qs" "runq \<sigma> rq" "progs \<sigma> n = None"
    and "counted B {} R M \<sigma>" "hp \<sigma> (rM \<sigma>) = Some h" "unat (href h) + 1 < 2 ^ 32" "modlink \<sigma> (rM \<sigma>) \<noteq> None"
    and f: "f = Ws \<sigma>" "frametype (mem \<sigma>) f = Some t" "frame_ty (types \<sigma> t)" "t < 2 ^ 32 - 1" and k: "k = nat (tsize (types \<sigma> t))"
    and "frametype (mem \<sigma>) (rFP \<sigma>) = Some tc" "pops_to (mem \<sigma>) f (rTS \<sigma>) (rEX \<sigma>) = (rFP \<sigma> + of_int (tsize (types \<sigma> tc)), ts, ex)"
    and ns: "ns \<noteq> 0" "disjoint ns (16 + k) f k" "offarea \<sigma> f 12" "offarea \<sigma> ns (16 + k)"
    and "\<forall>b\<in>set (rs \<sigma> # linkaddrs (mem \<sigma>) (rFP \<sigma>)). disjoint f 12 b 4 \<and> disjoint ns (16 + k) b 4"
    and "\<forall>b\<in>set (linkaddrs (mem \<sigma>) f). disjoint ns (16 + k) b 4"
  shows "\<exists>\<sigma>' pr. spawn n ns \<sigma> = Ret () \<sigma>' \<and> counted B {} (add_mset (rM \<sigma>) R) M \<sigma>' \<and> allprogs \<sigma>' (qs @ [n]) \<and> runq \<sigma>' (rq @ [n]) \<and>
    progs \<sigma>' n = Some pr \<and> pR_PC pr = Wd \<sigma> \<and> pR_FP pr = ns + 16 \<and> pR_EX pr = ns \<and> pR_M pr = rM \<sigma> \<and>
    frametype (mem \<sigma>') (ns + 16) = Some t \<and> fr_fp (mem \<sigma>') (ns + 16) = 0 \<and> fr_mr (mem \<sigma>') (ns + 16) = 0 \<and>
    ptrs_at (mem \<sigma>') (ns + 16) (types \<sigma> t) = ptrs_at (mem \<sigma>) f (types \<sigma> t) \<and>
    (\<forall>i. 16 \<le> unat i \<and> unat i < k \<longrightarrow> mem \<sigma>' (ns + 16 + i) = mem \<sigma> (f + i)) \<and>
    rFP \<sigma>' = rFP \<sigma> \<and> rSP \<sigma>' = rFP \<sigma> + of_int (tsize (types \<sigma> tc)) \<and> rTS \<sigma>' = ts \<and> rEX \<sigma>' = ex"
proof -
  have "16 \<le> tsize (types \<sigma> t)" "tsize (types \<sigma> t) < 2147483648" using f(3) by (simp_all add: frame_ty_def)
  then have kk: "16 \<le> k" "k < 2147483648" unfolding k by linarith+
  obtain s1 where s1: "newprog n (currun \<sigma>) (rM \<sigma>) \<sigma> = Some s1" "allprogs s1 (qs @ [n])" "runq s1 (rq @ [n])"
    using newprog_allprogs [OF assms(1-3,7) currun_exists [OF assms(2)]] by blast
  obtain r1 where e: "counted B {} (add_mset (rM \<sigma>) R) M s1" "mem s1 = mem \<sigma>" "regs s1 = regs \<sigma>" "types s1 = types \<sigma>" "modlink s1 = modlink \<sigma>"
    "progs s1 n = Some r1" "pR_M r1 = rM \<sigma>"
    and sh: "\<forall>u h'. hp s1 u = Some h' \<longrightarrow> (\<exists>h. hp \<sigma> u = Some h \<and> ht h' = ht h \<and> hs h' = hs h)"
    using newprog_effect [OF s1(1) assms(4-6)] by blast
  note rg = regs_eqD [OF e(3)]
  define s2 where "s2 = updprog n (\<lambda>q. q\<lparr>pR_PC := Wd \<sigma>\<rparr>) s1"
  have w2: "Ws s2 = f" "mem s2 = mem \<sigma>" "types s2 = types \<sigma>" using f(1) e rg by (simp_all add: s2_def Ws_def)
  obtain l where l: "newstack ns n s2 = Ret () ((updprog n (\<lambda>q. q\<lparr>pR_EX := ns, pR_TS := l, pR_SP := ns + 16 + of_int (tsize (types \<sigma> t)), pR_FP := ns + 16\<rparr>) s2)
    \<lparr>mem := stackmem ns t f k (mem \<sigma>)\<rparr>)"
    using newstack_effect [of f s2 t n "r1\<lparr>pR_PC := Wd \<sigma>\<rparr>" ns] f(2) w2 e assms(7) ns(1) k by (auto simp: s2_def)
  define s3 where "s3 = (updprog n (\<lambda>q. q\<lparr>pR_EX := ns, pR_TS := l, pR_SP := ns + 16 + of_int (tsize (types \<sigma> t)), pR_FP := ns + 16\<rparr>) s2)
    \<lparr>mem := stackmem ns t f k (mem \<sigma>)\<rparr>"
  let ?m = "stackmem ns t f k (mem \<sigma>)"
  have r3: "regs s3 = regs \<sigma>" "mem s3 = ?m" "types s3 = types \<sigma>" using e by (simp_all add: s3_def s2_def)
  note rg3 = regs_eqD [OF r3(1)]
  have keep: "rdW ?m b = rdW (mem \<sigma>) b" if "disjoint f 12 b 4" "disjoint ns (16 + k) b 4" for b
    using that kk(1) by (rule stackmem_rdW)
  have ws3: "Ws s3 = f" using keep [of "rs \<sigma>"] assms(19) f(1) rg3 r3 by (simp add: Ws_def)
  have "linkage ?m (rFP \<sigma>) = linkage (mem \<sigma>) (rFP \<sigma>)" by (rule linkage_same) (use assms(19) keep in simp)
  then have ft: "frametype (mem s3) (rFP s3) = Some tc" using linkage_eqD(3) assms(13) r3(2) rg3 by metis
  have "pops_to ?m f (rTS \<sigma>) (rEX \<sigma>) = pops_to (mem \<sigma>) f (rTS \<sigma>) (rEX \<sigma>)"
  proof (rule pops_same, intro ballI keep)
    fix b assume "b \<in> set (tl (linkaddrs (mem \<sigma>) f))"
    then show "disjoint f 12 b 4" "disjoint ns (16 + k) b 4" using disjoint_own assms(20) list.set_sel(2) by (auto simp: linkaddrs_def)
  qed
  then have po: "pops_to (mem s3) (Ws s3) (rTS s3) (rEX s3) = (rFP s3 + of_int (tsize (types s3 tc)), ts, ex)"
    using assms(14) ws3 r3 rg3 by simp
  define s4 where "s4 = s3\<lparr>rSP := rFP s3 + of_int (tsize (types s3 tc)), rTS := ts, rEX := ex\<rparr>"
  have sp: "spawn n ns \<sigma> = Ret () s4"
    using s1(1) l unframe_effect [OF ft po] by (simp add: spawn_def spawnon_def s2_def [symmetric] s3_def [symmetric] s4_def)
  have "counted B {} (add_mset (rM \<sigma>) R) M s2" using e(1) by (rule counted_hp_same) (simp_all add: s2_def)
  moreover have "types s2 = types \<sigma>" "\<forall>u h'. hp s2 u = Some h' \<longrightarrow> (\<exists>h. hp \<sigma> u = Some h \<and> ht h' = ht h \<and> hs h' = hs h)"
    using sh e(4) by (simp_all add: s2_def)
  ultimately have "counted B {} (add_mset (rM \<sigma>) R) M (s2\<lparr>mem := stackmem ns t f k (mem s2)\<rparr>)"
    by (intro stack_store_counted offarea_shape [OF ns(3)] offarea_shape [OF ns(4)] kk(1))
  then have c4: "counted B {} (add_mset (rM \<sigma>) R) M s4" by (rule counted_hp_same) (simp_all add: s4_def s3_def w2)
  have a4: "allprogs s4 (qs @ [n])" by (rule allprogs_same [OF s1(2)]) (auto simp: s4_def s3_def s2_def option.map_comp comp_def)
  have q4: "runq s4 (rq @ [n])" by (rule runq_same [OF s1(3)]) (auto simp: s4_def s3_def s2_def option.map_comp comp_def)
  have p4: "progs s4 n = Some (r1\<lparr>pR_PC := Wd \<sigma>, pR_EX := ns, pR_TS := l, pR_SP := ns + 16 + of_int (tsize (types \<sigma> t)), pR_FP := ns + 16\<rparr>)"
    using e(6) by (simp add: s4_def s3_def s2_def)
  have m4: "mem s4 = ?m" by (simp add: s4_def r3)
  have k31: "k < 2 ^ 31" using kk(2) by simp
  note sx = stackmem_ext [OF ns(2) kk(1) k31, of t "mem \<sigma>"]
  have b4: "mem s4 (ns + 16 + i) = mem \<sigma> (f + i)" if "16 \<le> unat i" "unat i < k" for i
    unfolding m4 using ns(2) that by (rule stackmem_body)
  have "ptrs_at (mem s4) (ns + 16) (types \<sigma> t) = ptrs_at (mem \<sigma>) f (types \<sigma> t)"
    using f(3) b4 k by (intro ptrs_at_moved) simp_all
  moreover have "frametype (mem s4) (ns + 16) = Some t"
    using sx typeat_tyword [OF sx(1) f(4)] by (simp add: m4 frametype_def sx_TR_def SEXTYPE_def)
  ultimately show ?thesis using sp c4 a4 q4 p4 b4 sx e(7) rg3 r3 by (intro exI conjI) (assumption | simp add: m4 s4_def)+
qed

lemma counted_addH:
  assumes c: "counted B F R M \<sigma>"
  shows "counted B F (add_mset H R) M \<sigma>"
proof (rule counted_swap [OF c])
  show "pool_inv (heapmem \<sigma>) (hblk ` dom (hp \<sigma>))" using c by (simp add: counted_def)
qed (simp_all add: refsto_def)

section \<open>States for the witnesses\<close>

definition vm_call :: "mem \<Rightarrow> vm" where
  \<comment> \<open>two links of one module, which has a type of frames with one pointer and one entry\<close>
  "vm_call m = vm0\<lparr>mem := m,
     hp := (\<lambda>_. None)(0x10034 \<mapsto> \<lparr>color = 0, href = 1, ht = Some Tmodlink, hs = SModlink H 0 False [(0x1100, Some 7)]\<rparr>,
       0x10074 \<mapsto> \<lparr>color = 0, href = 1, ht = Some Tmodlink, hs = SModlink H 0 False [(0x1100, Some 7)]\<rparr>),
     heapmem := pool_two,
     types := builtin_types(7 := \<lparr>tref = 1, tfree = Ffreeheap, tmark = Mmarkheap, tsize = 32, tmap = [8]\<rparr>),
     mods := (\<lambda>_. \<lparr>mref = 2, morigmp = H, mtype = [Some 7], mpath = [], mss = 256, mprog = 0x1000,
       mcode = [], mrt = 0, mname = [], mentry = 0, mentryt = None, mext = []\<rparr>), modules := [0],
     rFP := 0x2000, rSP := 0x2020, rTS := 0x2100, rEX := 0x1F00, rPC := 0x1234, rM := 0x10034, rs := 0x3000, rm := 0x300C, rd := 0x3004\<rparr>"

lemma vm_call_counted: "counted {#} {} {#0x10034, 0x10074#} {#} (vm_call m)"
proof -
  let ?s = "vm_call m"
  have hp: "hp ?s = (\<lambda>_. None)(0x10034 \<mapsto> \<lparr>color = 0, href = 1, ht = Some Tmodlink, hs = SModlink H 0 False [(0x1100, Some 7)]\<rparr>,
       0x10074 \<mapsto> \<lparr>color = 0, href = 1, ht = Some Tmodlink, hs = SModlink H 0 False [(0x1100, Some 7)]\<rparr>)"
    by (simp add: vm_call_def)
  have l: "live {} ?s = {0x10034, 0x10074}" by (auto simp: live_def hp)
  have k: "kids ?s 0x10034 = {#H#}" "kids ?s 0x10074 = {#H#}" "modkids ?s 0x10034 = {#0#}" "modkids ?s 0x10074 = {#0#}"
    by (simp_all add: kids_def modkids_def kids_of_def hp)
  have m: "modules ?s = [0]" "mods ?s = (\<lambda>_. \<lparr>mref = 2, morigmp = H, mtype = [Some 7], mpath = [], mss = 256, mprog = 0x1000,
       mcode = [], mrt = 0, mname = [], mentry = 0, mentryt = None, mext = []\<rparr>)"
    by (simp_all add: vm_call_def)
  have t: "tfree (types ?s Tmodlink) = Ffreemodlink"
    by (simp add: vm_call_def builtin_types_def Tlist_def Tarray_def Tstring_def Tmodlink_def)
  have d: "hblk ` dom (hp ?s) = {0x10020, 0x10060}" by (auto simp: hp hblk_def image_iff)
  have p: "pool_inv (heapmem ?s) (hblk ` dom (hp ?s))" unfolding d using pool_two_inv by (simp add: vm_call_def)
  have "\<forall>u. u \<noteq> H \<longrightarrow> refsto {} {#0x10034, 0x10074#} ?s u = refcount {} ?s u"
    unfolding refsto_def m l by (auto simp: k refcount_def hp)
  moreover have "\<forall>u h. hp ?s u = Some h \<longrightarrow> u \<notin> {} \<longrightarrow> shaped (types ?s) h \<and> tailok ?s h \<and> (waited h \<longrightarrow> u \<in># {#} \<and> u \<noteq> H)"
    by (auto simp: hp shaped_def tailok_def waited_def t split: if_splits)
  ultimately show ?thesis using p unfolding counted_def modrefs_def m l by (simp add: k)
qed

lemma ty7: "types (vm_call m) 7 = \<lparr>tref = 1, tfree = Ffreeheap, tmark = Mmarkheap, tsize = 32, tmap = [8]\<rparr>"
  "frame_ty (types (vm_call m) 7)"
proof -
  show t: "types (vm_call m) 7 = \<lparr>tref = 1, tfree = Ffreeheap, tmark = Mmarkheap, tsize = 32, tmap = [8]\<rparr>" by (simp add: vm_call_def)
  show "frame_ty (types (vm_call m) 7)" unfolding t by (simp add: frame_ty_def byte_slots_def)
qed

text \<open>A frame in a new extent, called and left.\<close>

definition m_ext :: mem where
  \<comment> \<open>the memory after \<^verbatim>\<open>frame\<close> with the extent at 0x5000\<close>
  "m_ext = wrW (wrW (wrW (wrW (putext 0x5000 7 0x2020 0x2030 0x1F00 (\<lambda>_. 0)) 0x501C 0) 0x5018 0) 0x5020 H) 0x3004 0x5010"

definition vm_ext :: vm where
  "vm_ext = (vm_call m_ext)\<lparr>rs := 0x5010, rEX := 0x5000, rTS := 0x5100, rSP := 0x5030\<rparr>"

lemma rdW_zero: "rdW (\<lambda>_. 0) a = 0"
  by (simp add: rdW_def)

lemma frame_ext: "frame 0x5000 ((vm_call (\<lambda>_. 0))\<lparr>rTS := 0x2030\<rparr>) = Ret () vm_ext"
  by (simp add: frame_def newframe_def extend_def modtype_def curmod_def modlink_def Ws_def rdW_zero vm_call_def Let_def
     initframe_def initmem_def byte_slots_def putW_def vm_ext_def m_ext_def)

definition vm_called :: vm where
  \<comment> \<open>called from the operands at 0x3004 and 0x3008\<close>
  "vm_called = (vm_ext\<lparr>rs := 0x3004, rd := 0x3008\<rparr>)\<lparr>mem := wrW (wrW m_ext 0x5010 0x1234) 0x5014 0x2000, rFP := 0x5010, rPC := 0\<rparr>"

lemma call_ext: "call (vm_ext\<lparr>rs := 0x3004, rd := 0x3008\<rparr>) = Ret () vm_called"
  by (simp add: call_def Let_def Ws_def vm_ext_def vm_call_def m_ext_def JMP_def Wd_def rdW_wrW_other disjoint_def putext_def rdW_zero vm_called_def)

theorem call_returns_witness:
  "\<exists>\<tau>'. ret vm_called = Ret () \<tau>' \<and> rFP \<tau>' = 0x2000 \<and> rSP \<tau>' = 0x2020 \<and> rTS \<tau>' = 0x2030 \<and> rEX \<tau>' = 0x1F00 \<and> rPC \<tau>' = 0x1234 \<and>
     counted {#} {} {#0x10034, 0x10074#} {#} \<tau>'"
proof -
  let ?s = "(vm_call (\<lambda>_. 0))\<lparr>rTS := 0x2030\<rparr>"
  have f: "0x5010 = rdW (mem vm_ext) (rd ?s)" by (simp add: vm_ext_def vm_call_def m_ext_def)
  have t: "modtype ?s (Ws ?s) = Some 7" by (simp add: modtype_def curmod_def modlink_def Ws_def rdW_zero vm_call_def)
  have ty: "frame_ty (types ?s 7)" using ty7(2) [of "\<lambda>_. 0"] by simp
  have off: "off_link (mem vm_ext) 0x5010 (rd ?s)"
    by (auto simp: off_link_def linkaddrs_def disjoint_def vm_ext_def vm_call_def)
  have at: "at_frame 0x5010 vm_ext (vm_ext\<lparr>rs := 0x3004, rd := 0x3008\<rparr>)" "at_frame 0x5010 vm_called vm_called"
    by (simp_all add: at_frame_def)
  have ws: "Ws (vm_ext\<lparr>rs := 0x3004, rd := 0x3008\<rparr>) = 0x5010" by (simp add: Ws_def vm_ext_def vm_call_def m_ext_def)
  have fp: "rFP (vm_ext\<lparr>rs := 0x3004, rd := 0x3008\<rparr>) = rFP ?s" "rFP ?s \<noteq> 0" "rFP vm_called = 0x5010"
    by (simp_all add: vm_ext_def vm_call_def vm_called_def)
  have p: "ptrs_at (mem vm_called) 0x5010 (types vm_called 7) = {#H#}"
    by (simp add: ptrs_at_def byte_slots_def vm_called_def vm_ext_def vm_call_def m_ext_def rdW_wrW_other disjoint_def)
  have "vm_called = (vm_call (mem vm_called))\<lparr>rs := 0x3004, rd := 0x3008, rEX := 0x5000, rTS := 0x5100, rSP := 0x5030, rFP := 0x5010, rPC := 0\<rparr>"
    by (simp add: vm_called_def vm_ext_def vm_call_def)
  moreover have "counted {#} {} {#0x10034, 0x10074#} {#} ((vm_call (mem vm_called))\<lparr>rs := 0x3004, rd := 0x3008, rEX := 0x5000, rTS := 0x5100, rSP := 0x5030, rFP := 0x5010, rPC := 0\<rparr>)"
    by (rule counted_hp_same [OF vm_call_counted [of "mem vm_called"]]) simp_all
  ultimately have c: "counted {#} {} {#0x10034, 0x10074#} {#} vm_called" by simp
  have c: "counted {#} {} (ptrs_at (mem vm_called) 0x5010 (types vm_called 7) + {#0x10034, 0x10074#}) {#} vm_called"
    unfolding p using counted_addH [OF c] by (simp add: add_mset_commute)
  from call_returns [OF frame_ext f t ty _ off at(1) ws fp(1,2) call_ext at(2) fp(3) refl refl c] show ?thesis
    by (auto simp: vm_call_def vm_ext_def)
qed

text \<open>A frame in the same extent, for the other link of the module.\<close>

definition m_plain :: mem where
  \<comment> \<open>the memory after \<^verbatim>\<open>mframe\<close>: the word at 0x3000 is the link, 0x300C the index, 0x3004 the frame\<close>
  "m_plain = wrW (wrW (wrW (wrW (wrW (\<lambda>_. 0) 0x3000 0x10074) 0x202C (tyword 7)) 0x2028 0) 0x2030 H) 0x3004 0x2020"

definition vm_plain :: vm where
  "vm_plain = (vm_call m_plain)\<lparr>rSP := 0x2040\<rparr>"

lemma mframe_plain: "mframe 0 (vm_call (wrW (\<lambda>_. 0) 0x3000 0x10074)) = Ret () vm_plain"
  by (simp add: mframe_def newframe_def modlink_def Ws_def Wm_def rdW_zero rdW_wrW_other disjoint_def vm_call_def Let_def H_def linkat_def
     initframe_def initmem_def byte_slots_def putW_def vm_plain_def m_plain_def)

definition vm_mcalled :: vm where
  "vm_mcalled = updobj 0x10074 (\<lambda>h. h\<lparr>href := href h + 1\<rparr>) (vm_plain\<lparr>rs := 0x3004, rd := 0x3000,
     mem := wrW (wrW (wrW m_plain 0x2020 0x1234) 0x2024 0x2000) 0x2028 0x10034, rFP := 0x2020, rM := 0x10074, rMP := H, rPC := 0x1100, rt := 1\<rparr>)"

lemma mcall_plain: "mcall fn (vm_plain\<lparr>rs := 0x3004, rd := 0x3000\<rparr>) = Ret () vm_mcalled"
  by (simp add: mcall_def Let_def Ws_def Wd_def Wm_def vm_plain_def vm_call_def m_plain_def rdW_wrW_other disjoint_def rdW_zero H_def modlink_def linkat_def
     fr_mr_def vm_mcalled_def updobj_def)

theorem mcall_returns_witness:
  "mcall (\<lambda>_ _ \<sigma>. Ret () \<sigma>) (vm_plain\<lparr>rs := 0x3004, rd := 0x3000\<rparr>) = Ret () vm_mcalled \<and> rM vm_mcalled = 0x10074 \<and>
   (\<exists>\<tau>'. ret vm_mcalled = Ret () \<tau>' \<and> rM \<tau>' = 0x10034 \<and> rFP \<tau>' = 0x2000 \<and> rSP \<tau>' = 0x2020 \<and> rPC \<tau>' = 0x1234 \<and>
     counted {#} {} {#0x10034, 0x10074#} {#} \<tau>')"
proof -
  let ?s = "vm_call (wrW (\<lambda>_. 0) 0x3000 0x10074)" and ?s2 = "vm_plain\<lparr>rs := 0x3004, rd := 0x3000\<rparr>"
  note call = vm_plain_def vm_call_def m_plain_def rdW_wrW_other disjoint_def rdW_zero
  have f: "0x2020 = rdW (mem vm_plain) (rd ?s)" by (simp add: call)
  have l: "modlink ?s (Ws ?s) = Some (H, 0, False, [(0x1100, Some 7)])" "linkat [(0x1100, Some 7)] (Wm ?s) = Some (0x1100, Some 7)"
    by (simp_all add: modlink_def Ws_def Wm_def linkat_def call)
  have ty: "frame_ty (types ?s 7)" by (rule ty7(2))
  have off: "off_link (mem vm_plain) 0x2020 (rd ?s)"
    by (auto simp: off_link_def linkaddrs_def disjoint_def vm_plain_def vm_call_def)
  have at: "at_frame 0x2020 vm_plain ?s2" by (simp add: at_frame_def)
  have w: "Ws ?s2 = 0x2020" "Wd ?s2 = 0x10074" "Wm ?s2 = 0" by (simp_all add: Ws_def Wd_def Wm_def call)
  have fp: "rFP ?s2 = rFP ?s" "rFP ?s \<noteq> 0" by (simp_all add: vm_plain_def vm_call_def)
  have c: "counted {#} {} {#0x10034, 0x10074#} {#} ?s2"
    unfolding vm_plain_def by (rule counted_hp_same [OF vm_call_counted [of m_plain]]) simp_all
  have m: "rM ?s2 = 0x10034" "rM ?s2 \<in># {#0x10034, 0x10074#}" "rM ?s2 \<notin> {0, H}" "modlink ?s2 (rM ?s2) = Some (H, 0, False, [(0x1100, Some 7)])"
    by (simp_all add: vm_plain_def vm_call_def H_def modlink_def)
  have d: "Wd ?s2 \<noteq> H" "hp ?s2 (Wd ?s2) = Some \<lparr>color = 0, href = 1, ht = Some Tmodlink, hs = SModlink H 0 False [(0x1100, Some 7)]\<rparr>"
    "unat (href \<lparr>color = 0, href = 1, ht = Some Tmodlink, hs = SModlink H 0 False [(0x1100, Some 7)]\<rparr>) + 1 < 2 ^ 32"
    "modlink ?s2 (Wd ?s2) = Some (H, 0, False, [(0x1100, Some 7)])" "mprog (mods ?s2 0) \<noteq> 0" "linkat [(0x1100, Some 7)] (Wm ?s2) = Some (0x1100, Some 7)"
    unfolding w by (simp_all add: vm_plain_def vm_call_def H_def modlink_def linkat_def)
  have o: "offarea ?s2 0x2020 12" "disjoint 0x2020 12 (rm ?s2) 4"
    by (auto simp: offarea_def disjoint_def vm_plain_def vm_call_def kids_of_def split: if_splits)
  have t32: "(7 :: nat) < 2 ^ 32 - 1" by simp
  have p: "ptrs_at (mem vm_mcalled) 0x2020 (types vm_mcalled 7) = {#H#}"
    by (simp add: ptrs_at_def byte_slots_def vm_mcalled_def updobj_def call)
  have ml: "modlink vm_mcalled 0x10074 = modlink ?s2 0x10074" "modlink vm_mcalled 0x10034 = modlink ?s2 0x10034" "rM vm_mcalled = 0x10074" "rFP vm_mcalled = 0x2020"
    by (simp_all add: vm_mcalled_def modlink_def updobj_def vm_plain_def vm_call_def)
  obtain s3 where s3: "mcall (\<lambda>_ _ \<sigma>. Ret () \<sigma>) ?s2 = Ret () s3" "counted {#} {} (add_mset 0x10074 {#0x10034, 0x10074#}) {#} s3"
    and r: "\<forall>\<tau> S. at_frame 0x2020 s3 \<tau> \<and> rFP \<tau> = 0x2020 \<and> fr_lr (mem \<tau>) 0x2020 = fr_lr (mem s3) 0x2020 \<and>
       fr_fp (mem \<tau>) 0x2020 = fr_fp (mem s3) 0x2020 \<and> rM \<tau> = 0x10074 \<and> modlink \<tau> 0x10074 = modlink ?s2 0x10074 \<and> modlink \<tau> 0x10034 = modlink ?s2 0x10034 \<and>
       counted {#} {} (ptrs_at (mem \<tau>) 0x2020 (types \<tau> 7) + add_mset 0x10074 S) {#} \<tau> \<and> 0x10034 \<in># S \<and> {#} \<subseteq># S \<longrightarrow>
       (\<exists>\<tau>'. ret \<tau> = Ret () \<tau>' \<and> counted {#} {} S {#} \<tau>' \<and> rM \<tau>' = 0x10034 \<and> rMP \<tau>' = H \<and> rPC \<tau>' = rPC ?s2 \<and> rFP \<tau>' = rFP ?s \<and>
         rSP \<tau>' = rSP ?s \<and> rTS \<tau>' = rTS ?s \<and> rEX \<tau>' = rEX ?s)"
    using mcall_returns [OF mframe_plain f l ty t32 off at w(1) fp c m(2-4) d o, where fn = "\<lambda>_ _ \<sigma>. Ret () \<sigma>", unfolded w(2) m(1)] by blast
  have e: "s3 = vm_mcalled" using s3(1) mcall_plain [of "\<lambda>_ _ \<sigma>. Ret () \<sigma>"] by simp
  have "counted {#} {} (ptrs_at (mem vm_mcalled) 0x2020 (types vm_mcalled 7) + add_mset 0x10074 {#0x10034, 0x10074#}) {#} vm_mcalled"
    unfolding p using counted_addH [OF s3(2)] e by (simp add: add_mset_commute)
  with r [rule_format, of vm_mcalled "{#0x10034, 0x10074#}"] have "\<exists>\<tau>'. ret vm_mcalled = Ret () \<tau>' \<and> counted {#} {} {#0x10034, 0x10074#} {#} \<tau>' \<and> rM \<tau>' = 0x10034 \<and>
      rPC \<tau>' = rPC ?s2 \<and> rFP \<tau>' = rFP ?s \<and> rSP \<tau>' = rSP ?s"
    using e ml by (auto simp: at_frame_def)
  then show ?thesis using s3(1) e ml(3) by (auto simp: vm_plain_def vm_call_def)
qed

text \<open>A prog that is about to spawn the frame at 0x2020.\<close>

definition vm_spawn :: vm where
  "vm_spawn = (vm_call (wrW (wrW (wrW (wrW (\<lambda>_. 0) 0x3000 0x2020) 0x3004 0x1100) 0x200C (tyword 7)) 0x202C (tyword 7)))
     \<lparr>progs := (\<lambda>_. None)(1 \<mapsto> prog0), runhd := Some 1, runtl := Some 1, phead := Some 1, ptail := Some 1\<rparr>"

theorem spawn_moves_frame_witness:
  "\<exists>\<sigma>' pr. spawn 2 0x6000 vm_spawn = Ret () \<sigma>' \<and> runq \<sigma>' [1, 2] \<and> progs \<sigma>' 2 = Some pr \<and> pR_PC pr = 0x1100 \<and> pR_FP pr = 0x6010 \<and>
     rSP \<sigma>' = 0x2020 \<and> counted {#} {} {#0x10034, 0x10034, 0x10074#} {#} \<sigma>'"
proof -
  let ?s = vm_spawn
  note spawn = vm_spawn_def vm_call_def rdW_wrW_other disjoint_def rdW_zero
  have w: "rdW (mem ?s) 0x200C = tyword 7" "rdW (mem ?s) 0x202C = tyword 7" "Ws ?s = 0x2020" "Wd ?s = 0x1100"
    by (simp_all add: spawn Ws_def Wd_def)
  have t32: "(7 :: nat) < 2 ^ 32 - 1" by simp
  have t: "fr_t (mem ?s) 0x2000 = Some 7" "fr_t (mem ?s) 0x2020 = Some 7"
    using typeat_tyword [OF w(1) t32] typeat_tyword [OF w(2) t32] by (simp_all add: fr_t_def)
  have r: "rFP ?s = 0x2000" "rTS ?s = 0x2100" "rEX ?s = 0x1F00" "rs ?s = 0x3000" "rM ?s = 0x10034" "tsize (types ?s 7) = 32" by (simp_all add: spawn)
  have q: "allprogs ?s [1]" "runq ?s [1]" "progs ?s 2 = None" by (simp_all add: allprogs_def runq_def vm_spawn_def prog0_def)
  have c: "counted {#} {} {#0x10034, 0x10074#} {#} ?s" 
    unfolding vm_spawn_def by (rule counted_hp_same [OF vm_call_counted [of "wrW (wrW (wrW (wrW (\<lambda>_. 0) 0x3000 0x2020) 0x3004 0x1100) 0x200C (tyword 7)) 0x202C (tyword 7)"]]) simp_all
  have h: "hp ?s (rM ?s) = Some \<lparr>color = 0, href = 1, ht = Some Tmodlink, hs = SModlink H 0 False [(0x1100, Some 7)]\<rparr>"
    "unat (href \<lparr>color = 0, href = 1, ht = Some Tmodlink, hs = SModlink H 0 False [(0x1100, Some 7)]\<rparr>) + 1 < 2 ^ 32" "modlink ?s (rM ?s) \<noteq> None"
    by (simp_all add: vm_spawn_def vm_call_def modlink_def)
  have f: "0x2020 = Ws ?s" "frametype (mem ?s) 0x2020 = Some 7" "frame_ty (types ?s 7)" "(7 :: nat) < 2 ^ 32 - 1" "32 = nat (tsize (types ?s 7))"
    "frametype (mem ?s) (rFP ?s) = Some 7" "pops_to (mem ?s) 0x2020 (rTS ?s) (rEX ?s) = (rFP ?s + of_int (tsize (types ?s 7)), 0x2100, 0x1F00)"
    using ty7(2) [of "\<lambda>_. 0"] by (simp_all add: w t r frametype_def pops_to_def) (simp add: vm_spawn_def vm_call_def)
  have o: "(0x6000 :: WORD) \<noteq> 0" "disjoint 0x6000 (16 + 32) 0x2020 32" "offarea ?s 0x2020 12" "offarea ?s 0x6000 (16 + 32)"
    by (auto simp: disjoint_def offarea_def vm_spawn_def vm_call_def kids_of_def split: if_splits)
  have "\<forall>b\<in>set (rs ?s # linkaddrs (mem ?s) (rFP ?s)). disjoint 0x2020 12 b 4 \<and> disjoint 0x6000 (16 + 32) b 4"
    "\<forall>b\<in>set (linkaddrs (mem ?s) 0x2020). disjoint 0x6000 (16 + 32) b 4" by (simp_all add: linkaddrs_def r t disjoint_def)
  from spawn_moves_frame [OF q c h f o this] show ?thesis by (auto simp: w r)
qed

end
