(* ===== verification/Gc.thy ===== *)
theory Gc
  imports Stack
begin

text \<open>
  The collector of cyclic garbage, \<^verbatim>\<open>interp/gc.c\<close>. It runs in slices between the time slices of progs. An object is
  allocated with the colour \<^verbatim>\<open>mutator\<close>; a pass over the blocks of the heap turns every object of the colour
  \<^verbatim>\<open>propagator\<close> to \<^verbatim>\<open>mutator\<close> and its children to \<^verbatim>\<open>propagator\<close>, and frees every object of the colour \<^verbatim>\<open>sweeper\<close>.
  When a pass finds nothing to propagate the epoch ends: the three colours change their roles and the roots are shaded.
  The static variables of the file are a record. The flag \<^verbatim>\<open>mflag\<close>, which prints what is swept, is off, and the list
  \<^verbatim>\<open>exsp\<close> of a prog is empty: nothing in the system puts a handler on it.
\<close>

unbundle bit_operations_syntax

section \<open>Variables\<close>

record gcvars =
  marker :: int
  sweeper :: int
  gbase :: "int option"      \<comment> \<open>\<^verbatim>\<open>base\<close>, the chunk of the pass\<close>
  glimit :: int              \<comment> \<open>\<^verbatim>\<open>limit\<close>\<close>
  gptr :: "int option"       \<comment> \<open>\<^verbatim>\<open>ptr\<close>, the next block\<close>
  visit :: int
  ptrtab :: "nat \<Rightarrow> ptr list"  \<comment> \<open>the objects named by their data\<close>
  ptrfree :: nat             \<comment> \<open>the length of the list\<close>

definition Quanta :: int where "Quanta = 50"
definition PTRHASH :: nat where "PTRHASH = 32"

definition HASHPTR :: "ptr \<Rightarrow> nat" where
  "HASHPTR v = unat (drop_bit 6 (v - 12) AND of_nat (PTRHASH - 1))"

section \<open>Registered pointers\<close>

definition ptradd :: "bool \<Rightarrow> ptr \<Rightarrow> gcvars \<Rightarrow> gcvars option" where
  \<comment> \<open>\<open>mal\<close>: \<^verbatim>\<open>malloc\<close> has memory; \<open>None\<close> is \<^verbatim>\<open>error("ptradd malloc")\<close>\<close>
  "ptradd mal v g =
     map_option (\<lambda>g. g\<lparr>ptrtab := (ptrtab g)(HASHPTR v := v # ptrtab g (HASHPTR v))\<rparr>)
       (if ptrfree g > 0 then Some (g\<lparr>ptrfree := ptrfree g - 1\<rparr>) else if mal then Some g else None)"

definition ptrdel :: "ptr \<Rightarrow> gcvars \<Rightarrow> gcvars option" where  \<comment> \<open>\<open>None\<close> is \<^verbatim>\<open>error("ptrdel")\<close>\<close>
  "ptrdel v g =
     (if v \<in> set (ptrtab g (HASHPTR v)) then
        Some (g\<lparr>ptrtab := (ptrtab g)(HASHPTR v := remove1 v (ptrtab g (HASHPTR v))), ptrfree := ptrfree g + 1\<rparr>)
      else None)"

section \<open>Marking\<close>

text \<open>\<open>shade\<close> is \<^verbatim>\<open>h = D2H(v); Setmark(h)\<close>; the header of a freed object is not to be written.\<close>

definition shade :: "ptr \<Rightarrow> vm \<Rightarrow> vm option" where
  "shade v \<sigma> = (if hp \<sigma> v = None then None else Some (Setmark v \<sigma>))"

definition markword :: "ptr \<Rightarrow> vm \<Rightarrow> vm option" where
  "markword x \<sigma> = (if x \<noteq> H then shade x \<sigma> else Some \<sigma>)"

definition ptrmark :: "gcvars \<Rightarrow> vm \<Rightarrow> vm option" where
  "ptrmark g = foldO (\<lambda>i. foldO shade (ptrtab g i)) [0 ..< PTRHASH]"

definition noptrs :: "vm \<Rightarrow> vm option" where "noptrs \<sigma> = Some \<sigma>"

definition markheap :: "tid option \<Rightarrow> WORD \<Rightarrow> vm \<Rightarrow> vm option" where
  "markheap t vw \<sigma> =
     (case t of None \<Rightarrow> Some \<sigma>
      | Some t \<Rightarrow> foldO (\<lambda>q \<sigma>. markword (rdW (mem \<sigma>) q) \<sigma>) (slots_up vw (types \<sigma> t)) \<sigma>)"

definition markarray :: "ptr \<Rightarrow> vm \<Rightarrow> vm option" where
  "markarray v \<sigma> =
     (case hp \<sigma> v of Some h \<Rightarrow>
       (case hs h of SArray len t root d \<Rightarrow>
          Option.bind (markword root \<sigma>) (\<lambda>\<sigma>1.
            if np (types \<sigma> t) = 0 then Some \<sigma>1
            else foldO (\<lambda>i. markheap (Some t) (d + of_nat i * of_int (tsize (types \<sigma> t)))) [0 ..< nat len] \<sigma>1)
        | _ \<Rightarrow> None)
      | None \<Rightarrow> None)"

definition celltype :: "vm \<Rightarrow> ptr \<Rightarrow> tid option option" where  \<comment> \<open>\<^verbatim>\<open>l->t\<close>\<close>
  "celltype \<sigma> l = (case hp \<sigma> l of Some h \<Rightarrow> (case hs h of SList nx t \<Rightarrow> Some t | _ \<Rightarrow> None) | None \<Rightarrow> None)"

definition greyen :: "ptr \<Rightarrow> vm \<Rightarrow> vm option" where  \<comment> \<open>\<^verbatim>\<open>D2H(l)->color = propagator; nprop = 1\<close>\<close>
  "greyen l \<sigma> = (if hp \<sigma> l = None then None
     else Some ((updobj l (\<lambda>h. h\<lparr>color := propagator\<rparr>) \<sigma>)\<lparr>nprop := True\<rparr>))"

primrec marktail :: "nat \<Rightarrow> ptr \<Rightarrow> vm \<Rightarrow> (nat \<times> vm) option" where
  \<comment> \<open>the loop and what follows it; the number is \<^verbatim>\<open>visit\<close>\<close>
  "marktail 0 l \<sigma> =
     Option.bind (gettail \<sigma> l) (\<lambda>nx. if nx \<noteq> H then map_option (Pair 0) (greyen nx \<sigma>) else Some (0, \<sigma>))"
| "marktail (Suc k) l \<sigma> =
     Option.bind (gettail \<sigma> l) (\<lambda>nx.
       if nx = H then Some (Suc k, \<sigma>)
       else Option.bind (shade nx \<sigma>) (\<lambda>\<sigma>1.
            Option.bind (celltype \<sigma>1 nx) (\<lambda>t.
            Option.bind (markheap t (ldata nx) \<sigma>1) (marktail k nx))))"

definition marklist :: "ptr \<Rightarrow> int \<Rightarrow> vm \<Rightarrow> (int \<times> vm) option" where
  "marklist l vis \<sigma> =
     Option.bind (celltype \<sigma> l) (\<lambda>t.
     Option.bind (markheap t (ldata l) \<sigma>) (\<lambda>\<sigma>1.
     map_option (\<lambda>(k, \<sigma>2). (if vis > 0 then int k else vis, \<sigma>2)) (marktail (nat vis) l \<sigma>1)))"

text \<open>
  \<^verbatim>\<open>t->mark(h->t, H2D(void*, h))\<close>. The only pointer of a \<^verbatim>\<open>Channel\<close> and of a \<^verbatim>\<open>Modlink\<close> is the first word of the structure.
\<close>

definition callmark :: "ptr \<Rightarrow> int \<Rightarrow> vm \<Rightarrow> (int \<times> vm) option" where
  "callmark v vis \<sigma> =
     (case hp \<sigma> v of None \<Rightarrow> None | Some h \<Rightarrow>
       (case ht h of None \<Rightarrow> Some (vis, \<sigma>) | Some t \<Rightarrow>
         (case tmark (types \<sigma> t) of
            Mnoptrs \<Rightarrow> map_option (Pair vis) (noptrs \<sigma>)
          | Mmarkheap \<Rightarrow> map_option (Pair vis)
              (case hs h of SChan ch \<Rightarrow> markword (sendq ch) \<sigma> | SModlink MP m c l \<Rightarrow> markword MP \<sigma>
               | _ \<Rightarrow> markheap (Some t) v \<sigma>)
          | Mmarkarray \<Rightarrow> map_option (Pair vis) (markarray v \<sigma>)
          | Mmarklist \<Rightarrow> marklist v vis \<sigma>
          | Mnil \<Rightarrow> None)))"

section \<open>Roots\<close>

definition marklink :: "ptr \<Rightarrow> vm \<Rightarrow> vm option" where
  \<comment> \<open>a \<^verbatim>\<open>Modlink\<close> and its data\<close>
  "marklink ml \<sigma> = Option.bind (shade ml \<sigma>) (\<lambda>\<sigma>1. Option.bind (modlink \<sigma>1 ml) (\<lambda>(MP, _). markword MP \<sigma>1))"

definition frty :: "mem \<Rightarrow> WORD \<Rightarrow> WORD \<Rightarrow> tid option" where
  \<comment> \<open>\<^verbatim>\<open>t = f->t; if(t == nil) t = sx->reg.TR\<close>\<close>
  "frty m sx f = (case fr_t m f of None \<Rightarrow> sx_TR m sx | Some t \<Rightarrow> Some t)"

definition markframe :: "WORD \<Rightarrow> tid \<Rightarrow> vm \<Rightarrow> vm option" where
  \<comment> \<open>\<^verbatim>\<open>t->mark(t, f)\<close> and \<^verbatim>\<open>f->mr\<close>; a frame has the type of a plain structure\<close>
  "markframe f t \<sigma> =
     Option.bind (if tmark (types \<sigma> t) = Mmarkheap then markheap (Some t) f \<sigma> else None) (\<lambda>\<sigma>1.
       if fr_mr (mem \<sigma>1) f \<noteq> 0 then marklink (fr_mr (mem \<sigma>1) f) \<sigma>1 else Some \<sigma>1)"

partial_function (option) markframes :: "WORD \<Rightarrow> WORD \<Rightarrow> WORD \<Rightarrow> vm \<Rightarrow> vm option" where
  "markframes sx fp sp \<sigma> =
     (if fp = sp then Some \<sigma>
      else Option.bind (frty (mem \<sigma>) sx fp) (\<lambda>t.
           Option.bind (markframe fp t \<sigma>) (markframes sx (fp + of_int (tsize (types \<sigma> t))) sp)))"

partial_function (option) markstack :: "WORD \<Rightarrow> WORD \<Rightarrow> vm \<Rightarrow> vm option" where
  "markstack ex sp \<sigma> =
     (if ex = 0 then Some \<sigma>
      else Option.bind (markframes ex (ex + 16) sp \<sigma>) (\<lambda>\<sigma>1. markstack (sx_EX (mem \<sigma>1) ex) (sx_SP (mem \<sigma>1) ex) \<sigma>1))"

partial_function (option) markprogs :: "prg option \<Rightarrow> vm \<Rightarrow> vm option" where
  "markprogs root \<sigma> =
     (if root = None then Some \<sigma>
      else Option.bind (progs \<sigma> (the root)) (\<lambda>pr.
           Option.bind (marklink (pR_M pr) \<sigma>) (\<lambda>\<sigma>1.
           Option.bind (markstack (pR_EX pr) (pR_SP pr) \<sigma>1) (markprogs (pnext pr)))))"

definition markmods :: "vm \<Rightarrow> vm option" where
  "markmods \<sigma> = foldO (\<lambda>m \<sigma>. markword (morigmp (mods \<sigma> m)) \<sigma>) (modules \<sigma>) \<sigma>"

definition rootset :: "prg option \<Rightarrow> gcvars \<Rightarrow> vm \<Rightarrow> (gcvars \<times> vm) option" where
  "rootset root g \<sigma> =
     (let \<sigma>1 = \<sigma>\<lparr>mutator := gccolor \<sigma> mod 3\<rparr>;
          g1 = g\<lparr>marker := (gccolor \<sigma> - 1) mod 3, sweeper := (gccolor \<sigma> - 2) mod 3\<rparr> in
      map_option (Pair g1) (Option.bind (markprogs root \<sigma>1) (\<lambda>\<sigma>2. Option.bind (markmods \<sigma>2) (ptrmark g1))))"

section \<open>A slice\<close>

definition okbhdr :: "Pool \<Rightarrow> int option \<Rightarrow> bool" where
  "okbhdr P b = (case b of None \<Rightarrow> False | Some b \<Rightarrow> magic P b \<in> {MAGIC_A, MAGIC_F, MAGIC_E, MAGIC_I})"

definition sweep :: "ptr \<Rightarrow> vm \<Rightarrow> vm option" where
  "sweep v \<sigma> =
     Option.bind (hp \<sigma> v) (\<lambda>h.
     Option.bind
       (case ht h of None \<Rightarrow> Some \<sigma>
        | Some t \<Rightarrow> map_option (\<lambda>\<sigma>1. freetype (Some t) (gcunlock \<sigma>1)) (callfree (tfree (types \<sigma> t)) destroy v True (gclock \<sigma>)))
       (heapfree v))"

text \<open>What is done with the block \<open>b\<close>: the flag says that it was freed. \<^verbatim>\<open>B2D\<close> gives the header of the object, 12 bytes long.\<close>

definition visitblk :: "int \<Rightarrow> gcvars \<Rightarrow> vm \<Rightarrow> (bool \<times> gcvars \<times> vm) option" where
  "visitblk b g \<sigma> =
     (if magic (heapmem \<sigma>) b = MAGIC_A then
        let v = of_int (B2D b + sizeof_Heap) in
        (case hp \<sigma> v of None \<Rightarrow> None | Some h \<Rightarrow>
          if color h = propagator then
            map_option (\<lambda>(vis, \<sigma>1). (False, g\<lparr>visit := vis\<rparr>, \<sigma>1))
              (callmark v (visit g) (updobj v (\<lambda>h. h\<lparr>color := mutator \<sigma>\<rparr>) \<sigma>))
          else if color h = sweeper g then map_option (\<lambda>\<sigma>1. (True, g, \<sigma>1)) (sweep v \<sigma>)
          else Some (False, g, \<sigma>))
      else Some (False, g, \<sigma>))"

fun nextof :: "'a list \<Rightarrow> 'a \<Rightarrow> 'a option" where  \<comment> \<open>\<^verbatim>\<open>clink\<close>\<close>
  "nextof (x # y # xs) b = (if x = b then Some y else nextof (y # xs) b)"
| "nextof _ b = None"

definition gcnext :: "int \<Rightarrow> Pool \<Rightarrow> gcvars \<Rightarrow> gcvars option" where
  \<comment> \<open>from the block \<open>b\<close> to the next\<close>
  "gcnext b P g =
     (let nb = B2NB P b in
      if nb \<ge> glimit g then
        Option.bind (gbase g) (\<lambda>base.
          (case nextof (chain P) base of
             None \<Rightarrow> Some (g\<lparr>gbase := None, gptr := Some nb\<rparr>)
           | Some c \<Rightarrow> Some (g\<lparr>gbase := Some c, gptr := Some c, glimit := B2LIMIT P c\<rparr>)))
      else Some (g\<lparr>gptr := Some nb\<rparr>))"

text \<open>The loop; the first component of the result says that the slice ended with \<^verbatim>\<open>return\<close>. Every turn takes one off \<^verbatim>\<open>visit\<close>.\<close>

fun gcloop :: "nat \<Rightarrow> int option \<Rightarrow> gcvars \<Rightarrow> vm \<Rightarrow> (bool \<times> gcvars \<times> vm) option" where
  "gcloop 0 prev g \<sigma> = None"
| "gcloop (Suc n) prev g \<sigma> =
     (if visit g \<le> 0 then Some (False, g, \<sigma>)
      else Option.bind (gptr g) (\<lambda>b.
        (case visitblk b g \<sigma> of
           None \<Rightarrow> None
         | Some (True, g1, \<sigma>1) \<Rightarrow>
             let g2 = g1\<lparr>gptr := prev\<rparr> in
             if okbhdr (heapmem \<sigma>1) prev then gcloop n prev (g2\<lparr>visit := visit g2 - 1\<rparr>) \<sigma>1
             else Some (True, g2\<lparr>gbase := None\<rparr>, \<sigma>1)
         | Some (False, g1, \<sigma>1) \<Rightarrow>
             Option.bind (gcnext b (heapmem \<sigma>1) g1) (\<lambda>g2.
               if gbase g2 = None then Some (False, g2, \<sigma>1)
               else gcloop n (Some b) (g2\<lparr>visit := visit g2 - 1\<rparr>) \<sigma>1))))"

definition poolchain :: "Pool \<Rightarrow> int option" where
  "poolchain P = (case chain P of [] \<Rightarrow> None | b # _ \<Rightarrow> Some b)"

definition rungc :: "prg option \<Rightarrow> gcvars \<Rightarrow> vm \<Rightarrow> (gcvars \<times> vm) option" where
  "rungc p g \<sigma> =
     (if gchalt \<sigma> \<noteq> 0 then Some (g, \<sigma>)
      else Option.bind
        (if gbase g = None
         then map_option (\<lambda>b. g\<lparr>gbase := Some b, gptr := Some b, glimit := B2LIMIT (heapmem \<sigma>) b\<rparr>) (poolchain (heapmem \<sigma>))
         else Some g) (\<lambda>g1.
        if \<not> okbhdr (heapmem \<sigma>) (gptr g1) then Some (g1\<lparr>gbase := None\<rparr>, \<sigma>)
        else
          (case gcloop (Suc (nat Quanta)) None (g1\<lparr>visit := Quanta\<rparr>) \<sigma> of
             None \<Rightarrow> None
           | Some (True, g2, \<sigma>1) \<Rightarrow> Some (g2, \<sigma>1)
           | Some (False, g2, \<sigma>1) \<Rightarrow>
               if gbase g2 \<noteq> None then Some (g2, \<sigma>1)
               else if \<not> nprop \<sigma>1 then rootset p g2 (\<sigma>1\<lparr>gccolor := gccolor \<sigma>1 + 1\<rparr>)
               else Some (g2, \<sigma>1\<lparr>nprop := False\<rparr>))))"

end
