(* ===== verification/Gc_Mark.thy ===== *)
theory Gc_Mark
  imports Gc
begin

text \<open>
  Marking. \<open>shades\<close> is what the mark functions do to the machine, \<open>marks\<close> says of a step that it returns, only
  shades, and leaves given objects marked; such steps compose. \<open>callmark_ok\<close>: the mark function of an object marks its
  children. \<open>rootset_ok\<close>: \<^verbatim>\<open>rootset\<close> marks what the progs, their frames, the modules and the table refer to.
\<close>

section \<open>Shading\<close>

definition dark :: "vm \<Rightarrow> ptr \<Rightarrow> bool" where  \<comment> \<open>marked in this epoch\<close>
  "dark \<sigma> u \<longleftrightarrow> (\<exists>h. hp \<sigma> u = Some h \<and> (color h = mutator \<sigma> \<or> color h = propagator))"

definition swept :: "gcvars \<Rightarrow> vm \<Rightarrow> ptr set" where  \<comment> \<open>condemned in the last epoch\<close>
  "swept g \<sigma> = {v. \<exists>h. hp \<sigma> v = Some h \<and> color h = sweeper g}"

definition okp :: "gcvars \<Rightarrow> vm \<Rightarrow> ptr \<Rightarrow> bool" where
  "okp g \<sigma> u \<longleftrightarrow> u = H \<or> (\<exists>h. hp \<sigma> u = Some h \<and> color h \<noteq> sweeper g)"

text \<open>What marking does to the machine: some objects that are not condemned turn to the colour \<^verbatim>\<open>propagator\<close>.\<close>

definition shades :: "gcvars \<Rightarrow> vm \<Rightarrow> vm \<Rightarrow> bool" where
  "shades g \<sigma> \<sigma>' \<longleftrightarrow> \<sigma>' = \<sigma>\<lparr>hp := hp \<sigma>', nprop := nprop \<sigma>'\<rparr> \<and> (nprop \<sigma> \<longrightarrow> nprop \<sigma>') \<and>
     (\<forall>u. rel_option (\<lambda>h h'. h' = h\<lparr>color := color h'\<rparr> \<and>
        (color h' = color h \<or> color h' = propagator \<and> color h \<noteq> sweeper g \<and> nprop \<sigma>')) (hp \<sigma> u) (hp \<sigma>' u))"

lemma shades_refl [simp]: "shades g \<sigma> \<sigma>"
  by (simp add: shades_def option.rel_refl)

lemma shades_sel:
  assumes "shades g \<sigma> \<sigma>'"
  shows "mem \<sigma>' = mem \<sigma>" "heapmem \<sigma>' = heapmem \<sigma>" "types \<sigma>' = types \<sigma>" "mods \<sigma>' = mods \<sigma>" "modules \<sigma>' = modules \<sigma>"
    "mutator \<sigma>' = mutator \<sigma>" "gchalt \<sigma>' = gchalt \<sigma>" "gccolor \<sigma>' = gccolor \<sigma>" "progs \<sigma>' = progs \<sigma>" "phead \<sigma>' = phead \<sigma>"
    "nprop \<sigma> \<Longrightarrow> nprop \<sigma>'" "regs \<sigma>' = regs \<sigma>"
proof -
  have e: "\<sigma>' = \<sigma>\<lparr>hp := hp \<sigma>', nprop := nprop \<sigma>'\<rparr>" using assms unfolding shades_def by blast
  show "mem \<sigma>' = mem \<sigma>" "heapmem \<sigma>' = heapmem \<sigma>" "types \<sigma>' = types \<sigma>" "mods \<sigma>' = mods \<sigma>" "modules \<sigma>' = modules \<sigma>"
    "mutator \<sigma>' = mutator \<sigma>" "gchalt \<sigma>' = gchalt \<sigma>" "gccolor \<sigma>' = gccolor \<sigma>" "progs \<sigma>' = progs \<sigma>" "phead \<sigma>' = phead \<sigma>"
    "regs \<sigma>' = regs \<sigma>"
    by (subst e, simp add: regs_def)+
  show "nprop \<sigma> \<Longrightarrow> nprop \<sigma>'" using assms unfolding shades_def by blast
qed

lemma shades_obj:
  assumes "shades g \<sigma> \<sigma>'"
  obtains "hp \<sigma> u = None" "hp \<sigma>' u = None"
  | h h' where "hp \<sigma> u = Some h" "hp \<sigma>' u = Some h'" "hs h' = hs h" "ht h' = ht h" "href h' = href h"
      "color h' = color h \<or> color h' = propagator \<and> color h \<noteq> sweeper g \<and> nprop \<sigma>'"
proof -
  have "rel_option (\<lambda>h h'. h' = h\<lparr>color := color h'\<rparr> \<and>
        (color h' = color h \<or> color h' = propagator \<and> color h \<noteq> sweeper g \<and> nprop \<sigma>')) (hp \<sigma> u) (hp \<sigma>' u)"
    using assms unfolding shades_def by blast
  then show ?thesis
  proof (cases rule: option.rel_cases)
    case (Some h h')
    then have e: "h' = h\<lparr>color := color h'\<rparr>" by blast
    have "hs h' = hs h" "ht h' = ht h" "href h' = href h" by (subst e, simp)+
    with Some show ?thesis using that(2) by blast
  qed (use that(1) in blast)
qed

lemma shades_trans:
  assumes "shades g \<sigma> \<sigma>1" "shades g \<sigma>1 \<sigma>2"
  shows "shades g \<sigma> \<sigma>2"
proof -
  have e: "\<sigma>1 = \<sigma>\<lparr>hp := hp \<sigma>1, nprop := nprop \<sigma>1\<rparr>" "\<sigma>2 = \<sigma>1\<lparr>hp := hp \<sigma>2, nprop := nprop \<sigma>2\<rparr>"
    using assms unfolding shades_def by blast+
  have "\<sigma>2 = \<sigma>\<lparr>hp := hp \<sigma>2, nprop := nprop \<sigma>2\<rparr>" by (subst e(2), subst e(1)) simp
  moreover have "nprop \<sigma> \<longrightarrow> nprop \<sigma>2" using assms unfolding shades_def by blast
  moreover have "rel_option (\<lambda>h h'. h' = h\<lparr>color := color h'\<rparr> \<and>
        (color h' = color h \<or> color h' = propagator \<and> color h \<noteq> sweeper g \<and> nprop \<sigma>2)) (hp \<sigma> u) (hp \<sigma>2 u)" for u
  proof -
    have r: "rel_option (\<lambda>h h'. h' = h\<lparr>color := color h'\<rparr> \<and>
        (color h' = color h \<or> color h' = propagator \<and> color h \<noteq> sweeper g \<and> nprop \<sigma>1)) (hp \<sigma> u) (hp \<sigma>1 u)"
      "rel_option (\<lambda>h h'. h' = h\<lparr>color := color h'\<rparr> \<and>
        (color h' = color h \<or> color h' = propagator \<and> color h \<noteq> sweeper g \<and> nprop \<sigma>2)) (hp \<sigma>1 u) (hp \<sigma>2 u)"
      "nprop \<sigma>1 \<longrightarrow> nprop \<sigma>2" using assms unfolding shades_def by blast+
    show ?thesis
    proof (cases "hp \<sigma> u")
      case (Some h)
      then obtain h1 h2 where s: "hp \<sigma>1 u = Some h1" "hp \<sigma>2 u = Some h2" using r(1,2) by (auto simp: option_rel_Some1)
      have "h1 = h\<lparr>color := color h1\<rparr>" "h2 = h1\<lparr>color := color h2\<rparr>" using r(1,2) Some s by simp_all
      then have "h2 = h\<lparr>color := color h2\<rparr>" by (metis hobj.surjective hobj.update_convs(1))
      then show ?thesis using r Some s by auto
    qed (use r in \<open>auto simp: option_rel_Some1\<close>)
  qed
  ultimately show ?thesis unfolding shades_def by blast
qed

lemma shades_dark: assumes "shades g \<sigma> \<sigma>'" "dark \<sigma> u" shows "dark \<sigma>' u"
  using assms(1) by (cases rule: shades_obj [of g \<sigma> \<sigma>' u]) (use assms in \<open>auto simp: dark_def shades_sel(6)\<close>)

lemma shades_okp: assumes "shades g \<sigma> \<sigma>'" "sweeper g \<noteq> propagator" shows "okp g \<sigma>' u = okp g \<sigma> u"
  using assms(1) by (cases rule: shades_obj [of g \<sigma> \<sigma>' u]) (use assms(2) in \<open>auto simp: okp_def\<close>)

lemma shades_swept: "shades g \<sigma> \<sigma>' \<Longrightarrow> sweeper g \<noteq> propagator \<Longrightarrow> swept g \<sigma>' = swept g \<sigma>"
proof -
  assume a: "shades g \<sigma> \<sigma>'" "sweeper g \<noteq> propagator"
  have "u \<in> swept g \<sigma>' \<longleftrightarrow> u \<in> swept g \<sigma>" for u
    using a(1) by (cases rule: shades_obj [of g \<sigma> \<sigma>' u]) (use a(2) in \<open>auto simp: swept_def\<close>)
  then show ?thesis by blast
qed

lemma shades_agree:
  assumes "shades g \<sigma> \<sigma>'"
  shows "agree F \<sigma> \<sigma>'"
proof -
  have r: "rel_option (\<lambda>h h'. hs h' = hs h \<and> ht h' = ht h) (hp \<sigma> u) (hp \<sigma>' u)" for u
    using assms by (cases rule: shades_obj [of g \<sigma> \<sigma>' u]) simp_all
  have "u \<in> dom (hp \<sigma>') \<longleftrightarrow> u \<in> dom (hp \<sigma>)" for u
    using assms by (cases rule: shades_obj [of g \<sigma> \<sigma>' u]) auto
  then have "dom (hp \<sigma>') = dom (hp \<sigma>)" by blast
  moreover have "pred_option islist (hp \<sigma> u) \<longrightarrow> pred_option islist (hp \<sigma>' u)" for u
    using assms by (cases rule: shades_obj [of g \<sigma> \<sigma>' u]) (auto simp: islist_def split: hstruct.splits)
  ultimately show ?thesis using r shades_sel [OF assms] by (simp add: agree_def lists_stay_def)
qed

lemma shades_kids: "shades g \<sigma> \<sigma>' \<Longrightarrow> kids \<sigma>' u = kids \<sigma> u" "shades g \<sigma> \<sigma>' \<Longrightarrow> modkids \<sigma>' u = modkids \<sigma> u"
  using agree_kids [of "{}" \<sigma> \<sigma>' u] shades_agree by blast+

lemma shades_counted:
  assumes "counted B F R M \<sigma>" "shades g \<sigma> \<sigma>'"
  shows "counted B F R M \<sigma>'"
proof (rule counted_same [OF assms(1) shades_agree [OF assms(2)]])
  show "refcount F \<sigma>' u = refcount F \<sigma> u" for u
    using assms(2) by (cases rule: shades_obj [of g \<sigma> \<sigma>' u]) (simp_all add: refcount_def)
qed (simp_all add: shades_sel [OF assms(2)])

section \<open>The mark functions shade\<close>

lemma updobj_shades:
  assumes "hp \<sigma> v = Some h" "color h \<noteq> sweeper g"
  shows "shades g \<sigma> ((updobj v (\<lambda>h. h\<lparr>color := propagator\<rparr>) \<sigma>)\<lparr>nprop := True\<rparr>)"
  using assms by (auto simp: shades_def updobj_def option.rel_refl)

lemma shade_ok:
  assumes "okp g \<sigma> v" "v \<noteq> H"
  shows "\<exists>\<sigma>'. shade v \<sigma> = Some \<sigma>' \<and> shades g \<sigma> \<sigma>' \<and> dark \<sigma>' v"
proof -
  obtain h where h: "hp \<sigma> v = Some h" "color h \<noteq> sweeper g" using assms by (auto simp: okp_def)
  have "shades g \<sigma> (Setmark v \<sigma>)" using updobj_shades [OF h] h by (simp add: Setmark_def)
  moreover have "dark (Setmark v \<sigma>) v" using h by (auto simp: Setmark_def dark_def)
  ultimately show ?thesis using h by (simp add: shade_def)
qed

lemma greyen_ok:
  assumes "okp g \<sigma> v" "v \<noteq> H"
  shows "\<exists>\<sigma>'. greyen v \<sigma> = Some \<sigma>' \<and> shades g \<sigma> \<sigma>' \<and> dark \<sigma>' v"
proof -
  obtain h where h: "hp \<sigma> v = Some h" "color h \<noteq> sweeper g" using assms by (auto simp: okp_def)
  then show ?thesis using updobj_shades [OF h] by (auto simp: greyen_def dark_def)
qed

lemma markword_ok:
  assumes "okp g \<sigma> v"
  shows "\<exists>\<sigma>'. markword v \<sigma> = Some \<sigma>' \<and> shades g \<sigma> \<sigma>' \<and> (v \<noteq> H \<longrightarrow> dark \<sigma>' v)"
  using shade_ok [OF assms] by (cases "v = H") (auto simp: markword_def)

text \<open>
  \<open>marks g f us \<sigma>\<close>: the step \<open>f\<close> runs, shades only, and leaves the objects \<open>us\<close> marked. Steps compose.
\<close>

definition marks :: "gcvars \<Rightarrow> (vm \<Rightarrow> vm option) \<Rightarrow> ptr set \<Rightarrow> vm \<Rightarrow> bool" where
  "marks g f us \<sigma> \<longleftrightarrow> (\<exists>\<sigma>'. f \<sigma> = Some \<sigma>' \<and> shades g \<sigma> \<sigma>' \<and> (\<forall>u\<in>us. u \<noteq> H \<longrightarrow> dark \<sigma>' u))"

lemma marks_Some: "us \<subseteq> {H} \<Longrightarrow> marks g Some us \<sigma>"
  by (auto simp: marks_def)

lemma marks_bind:
  assumes "marks g f us \<sigma>" "\<And>\<sigma>'. f \<sigma> = Some \<sigma>' \<Longrightarrow> shades g \<sigma> \<sigma>' \<Longrightarrow> marks g k vs \<sigma>'" "ws \<subseteq> us \<union> vs"
  shows "marks g (\<lambda>\<sigma>. Option.bind (f \<sigma>) k) ws \<sigma>"
proof -
  obtain \<sigma>1 where 1: "f \<sigma> = Some \<sigma>1" "shades g \<sigma> \<sigma>1" "\<forall>u\<in>us. u \<noteq> H \<longrightarrow> dark \<sigma>1 u" using assms(1) by (auto simp: marks_def)
  obtain \<sigma>2 where 2: "k \<sigma>1 = Some \<sigma>2" "shades g \<sigma>1 \<sigma>2" "\<forall>u\<in>vs. u \<noteq> H \<longrightarrow> dark \<sigma>2 u"
    using assms(2) [OF 1(1,2)] by (auto simp: marks_def)
  then show ?thesis using 1 shades_trans [OF 1(2) 2(2)] shades_dark [OF 2(2)] assms(3) unfolding marks_def
    by (intro exI [of _ \<sigma>2]) (auto 4 3)
qed

lemma marks_foldO:
  assumes "\<And>x \<sigma>'. x \<in> set xs \<Longrightarrow> shades g \<sigma> \<sigma>' \<Longrightarrow> marks g (f x) (us x) \<sigma>'"
  shows "marks g (foldO f xs) (\<Union>x\<in>set xs. us x) \<sigma>"
  using assms
proof (induction xs arbitrary: \<sigma>)
  case Nil
  then show ?case by (simp add: marks_def)
next
  case (Cons x xs)
  have "marks g (\<lambda>\<sigma>. Option.bind (f x \<sigma>) (foldO f xs)) (\<Union>x\<in>set (x # xs). us x) \<sigma>"
  proof (rule marks_bind)
    show "marks g (f x) (us x) \<sigma>" using Cons.prems by simp
    show "marks g (foldO f xs) (\<Union>x\<in>set xs. us x) \<sigma>'" if "shades g \<sigma> \<sigma>'" for \<sigma>'
      using Cons.prems shades_trans [OF that] by (intro Cons.IH) simp
  qed simp
  moreover have "foldO f (x # xs) = (\<lambda>\<sigma>. Option.bind (f x \<sigma>) (foldO f xs))" by (auto simp: fun_eq_iff split: option.splits)
  ultimately show ?case by simp
qed

lemma marks_markword: "okp g \<sigma> v \<Longrightarrow> marks g (markword v) {v} \<sigma>"
  using markword_ok by (simp add: marks_def)

lemma marks_cong: "f \<sigma> = f' \<sigma> \<Longrightarrow> us' \<subseteq> us \<Longrightarrow> marks g f us \<sigma> \<Longrightarrow> marks g f' us' \<sigma>"
  unfolding marks_def by (metis subsetD)

lemma marks_words:
  assumes "sweeper g \<noteq> propagator" "\<And>q. q \<in> set qs \<Longrightarrow> okp g \<sigma> (rdW (mem \<sigma>) q)"
  shows "marks g (foldO (\<lambda>q \<sigma>. markword (rdW (mem \<sigma>) q) \<sigma>) qs) (rdW (mem \<sigma>) ` set qs) \<sigma>"
proof (rule marks_cong [OF refl _ marks_foldO])
  fix q \<sigma>' assume q: "q \<in> set qs" "shades g \<sigma> \<sigma>'"
  then have "okp g \<sigma>' (rdW (mem \<sigma>) q)" using assms by (simp add: shades_okp)
  from marks_markword [OF this] show "marks g (\<lambda>\<sigma>. markword (rdW (mem \<sigma>) q) \<sigma>) {rdW (mem \<sigma>) q} \<sigma>'"
    by (rule marks_cong [rotated 2]) (simp_all add: shades_sel(1) [OF q(2)])
qed auto

lemma set_slots_up: "set (map (rdW m) (slots_up v t)) = set_mset (ptrs_at m v t)"
  unfolding ptrs_at_up by simp

lemma marks_markheap:
  assumes "sweeper g \<noteq> propagator" "\<And>u. u \<in># cellptrs' \<Longrightarrow> okp g \<sigma> u"
    "cellptrs' = (case t of None \<Rightarrow> {#} | Some t \<Rightarrow> ptrs_at (mem \<sigma>) v (types \<sigma> t))"
  shows "marks g (markheap t v) (set_mset cellptrs') \<sigma>"
proof (cases t)
  case None
  then show ?thesis using assms(3) by (simp add: marks_def markheap_def)
next
  case (Some ty)
  let ?qs = "slots_up v (types \<sigma> ty)"
  have e: "set_mset cellptrs' = rdW (mem \<sigma>) ` set ?qs" using Some assms(3) set_slots_up [of "mem \<sigma>" v "types \<sigma> ty"] by simp
  have "marks g (foldO (\<lambda>q \<sigma>. markword (rdW (mem \<sigma>) q) \<sigma>) ?qs) (rdW (mem \<sigma>) ` set ?qs) \<sigma>"
    by (rule marks_words [OF assms(1)]) (use assms(2) e in blast)
  then show ?thesis by (rule marks_cong [rotated 2]) (simp_all add: markheap_def Some e)
qed

definition markable :: "(tid \<Rightarrow> Type) \<Rightarrow> hobj \<Rightarrow> bool" where
  \<comment> \<open>the mark function of the descriptor is the one for the structure\<close>
  "markable ty h = (case ht h of None \<Rightarrow> True | Some t \<Rightarrow> tmark (ty t) =
     (case hs h of SArray _ _ _ _ \<Rightarrow> Mmarkarray | SList _ _ \<Rightarrow> Mmarklist | SString _ \<Rightarrow> Mnoptrs | _ \<Rightarrow> Mmarkheap))"

definition elemptrs :: "vm \<Rightarrow> WORD \<Rightarrow> tid \<Rightarrow> nat \<Rightarrow> ptr multiset" where
  "elemptrs \<sigma> d e i = ptrs_at (mem \<sigma>) (d + of_nat i * of_int (tsize (types \<sigma> e))) (types \<sigma> e)"

definition sliced :: "vm \<Rightarrow> hobj \<Rightarrow> bool" where
  \<comment> \<open>the elements of a slice are elements of the array it is a slice of\<close>
  "sliced \<sigma> h = (ht h = None \<or> (case hs h of
     SArray len e root d \<Rightarrow> root \<noteq> H \<longrightarrow> (\<forall>i<nat len. \<forall>u\<in>#elemptrs \<sigma> d e i. u \<noteq> H \<longrightarrow> u \<in># kids \<sigma> root) | _ \<Rightarrow> True))"

lemma counted_kid:
  assumes "counted B F R M \<sigma>" "hp \<sigma> w = Some h" "w \<notin> F" "u \<in># kids \<sigma> w" "u \<noteq> H"
  obtains h' where "hp \<sigma> u = Some h'" "u \<notin> F"
proof -
  have "w \<in> live F \<sigma>" using assms(2,3) by (auto simp: live_def)
  then have "count (kids \<sigma> w) u \<le> (\<Sum>w\<in>live F \<sigma>. count (kids \<sigma> w) u)" by (rule count_sum_le)
  moreover have "0 < count (kids \<sigma> w) u" using assms(4) by simp
  moreover have "refsto F R \<sigma> u = refcount F \<sigma> u" using assms(1,5) unfolding counted_def by blast
  ultimately have "0 < refcount F \<sigma> u" unfolding refsto_def by linarith
  then show ?thesis using that by (auto simp: refcount_def split: option.splits if_splits)
qed

lemma kid_okp:
  assumes "counted B (swept g \<sigma>) R M \<sigma>" "hp \<sigma> w = Some h" "color h \<noteq> sweeper g" "u \<in># kids \<sigma> w"
  shows "okp g \<sigma> u"
proof (cases "u = H")
  case False
  have "w \<notin> swept g \<sigma>" using assms(2,3) by (simp add: swept_def)
  from counted_kid [OF assms(1,2) this assms(4) False] obtain h' where "hp \<sigma> u = Some h'" "u \<notin> swept g \<sigma>" .
  then show ?thesis by (simp add: okp_def swept_def)
qed (simp add: okp_def)

lemma marktail_ok:
  assumes "counted B (swept g \<sigma>) R M \<sigma>" "sweeper g \<noteq> propagator"
    "hp \<sigma> l = Some h" "hs h = SList nx e" "ht h \<noteq> None" "color h \<noteq> sweeper g"
  shows "\<exists>k' \<sigma>'. marktail k l \<sigma> = Some (k', \<sigma>') \<and> k' \<le> k \<and> shades g \<sigma> \<sigma>' \<and> (nx \<noteq> H \<longrightarrow> dark \<sigma>' nx)"
  using assms
proof (induction k arbitrary: l h nx e \<sigma>)
  case 0
  have "nx \<in># kids \<sigma> l" using "0.prems" by (auto simp: kids_def kids_of_def split: option.splits)
  then have "okp g \<sigma> nx" using kid_okp "0.prems" by blast
  then show ?case using greyen_ok [of g \<sigma> nx] "0.prems" by (cases "nx = H") (auto simp: gettail_def)
next
  case (Suc k)
  have nl: "nx \<in># kids \<sigma> l" using Suc.prems by (auto simp: kids_def kids_of_def split: option.splits)
  have gt: "gettail \<sigma> l = Some nx" using Suc.prems by (simp add: gettail_def)
  show ?case
  proof (cases "nx = H")
    case True
    then show ?thesis using gt by simp
  next
    case False
    obtain \<sigma>1 where 1: "shade nx \<sigma> = Some \<sigma>1" "shades g \<sigma> \<sigma>1" "dark \<sigma>1 nx"
      using shade_ok [OF kid_okp [OF Suc.prems(1,3,6) nl] False] by blast
    have c1: "counted B (swept g \<sigma>1) R M \<sigma>1" using shades_counted [OF Suc.prems(1) 1(2)] shades_swept [OF 1(2) Suc.prems(2)] by simp
    obtain h1 where h1: "hp \<sigma> nx = Some h1" "color h1 \<noteq> sweeper g" using kid_okp [OF Suc.prems(1,3,6) nl] False by (auto simp: okp_def)
    have "l \<notin> swept g \<sigma>" using Suc.prems(3,6) by (simp add: swept_def)
    then have "tailok \<sigma> h" using Suc.prems(1,3) unfolding counted_def by blast
    then have "islist h1" using Suc.prems(4,5) h1(1) by (simp add: tailok_def)
    then obtain nx2 e2 where l1: "hs h1 = SList nx2 e2" "ht h1 \<noteq> None" by (auto simp: islist_def split: hstruct.splits)
    obtain h1' where h1': "hp \<sigma>1 nx = Some h1'" "hs h1' = SList nx2 e2" "ht h1' \<noteq> None" "color h1' \<noteq> sweeper g"
      using 1(2) by (cases rule: shades_obj [of g \<sigma> \<sigma>1 nx]) (use h1 l1 Suc.prems(2) in auto)
    have ct: "celltype \<sigma>1 nx = Some e2" using h1' by (simp add: celltype_def)
    have "u \<in># cellptrs (mem \<sigma>1) (types \<sigma>1) nx e2 \<Longrightarrow> okp g \<sigma>1 u" for u
      using kid_okp [OF c1 h1'(1,4), of u] h1' by (auto simp: kids_def kids_of_def split: option.splits)
    then have "marks g (markheap e2 (ldata nx)) (set_mset (cellptrs (mem \<sigma>1) (types \<sigma>1) nx e2)) \<sigma>1"
      by (intro marks_markheap [OF Suc.prems(2)]) (auto simp: cellptrs_def)
    then obtain \<sigma>2 where 2: "markheap e2 (ldata nx) \<sigma>1 = Some \<sigma>2" "shades g \<sigma>1 \<sigma>2" by (auto simp: marks_def)
    have c2: "counted B (swept g \<sigma>2) R M \<sigma>2" using shades_counted [OF c1 2(2)] shades_swept [OF 2(2) Suc.prems(2)] by simp
    obtain h2 where h2: "hp \<sigma>2 nx = Some h2" "hs h2 = SList nx2 e2" "ht h2 \<noteq> None" "color h2 \<noteq> sweeper g"
      using 2(2) by (cases rule: shades_obj [of g \<sigma>1 \<sigma>2 nx]) (use h1' Suc.prems(2) in auto)
    obtain k' \<sigma>3 where 3: "marktail k nx \<sigma>2 = Some (k', \<sigma>3)" "k' \<le> k" "shades g \<sigma>2 \<sigma>3"
      using Suc.IH [OF c2 Suc.prems(2) h2] by blast
    have "dark \<sigma>3 nx" using shades_dark [OF 3(3) shades_dark [OF 2(2) 1(3)]] .
    moreover have "shades g \<sigma> \<sigma>3" using shades_trans [OF 1(2) shades_trans [OF 2(2) 3(3)]] .
    moreover have "marktail (Suc k) l \<sigma> = Some (k', \<sigma>3)" using False by (simp add: gt 1(1) ct 2(1) 3(1))
    ultimately show ?thesis using 3(2) by (meson le_SucI)
  qed
qed

lemma marklist_ok:
  assumes "counted B (swept g \<sigma>) R M \<sigma>" "sweeper g \<noteq> propagator"
    "hp \<sigma> l = Some h" "hs h = SList nx e" "ht h \<noteq> None" "color h \<noteq> sweeper g"
  shows "\<exists>vis' \<sigma>'. marklist l vis \<sigma> = Some (vis', \<sigma>') \<and> vis' \<le> vis \<and> shades g \<sigma> \<sigma>' \<and> (\<forall>u\<in>#kids \<sigma> l. u \<noteq> H \<longrightarrow> dark \<sigma>' u)"
proof -
  have k: "kids \<sigma> l = add_mset nx (cellptrs (mem \<sigma>) (types \<sigma>) l e)"
    using assms by (auto simp: kids_def kids_of_def split: option.splits)
  then have "u \<in># cellptrs (mem \<sigma>) (types \<sigma>) l e \<Longrightarrow> okp g \<sigma> u" for u using kid_okp [OF assms(1,3,6)] by simp
  then have "marks g (markheap e (ldata l)) (set_mset (cellptrs (mem \<sigma>) (types \<sigma>) l e)) \<sigma>"
    by (intro marks_markheap [OF assms(2)]) (auto simp: cellptrs_def)
  then obtain \<sigma>1 where 1: "markheap e (ldata l) \<sigma> = Some \<sigma>1" "shades g \<sigma> \<sigma>1"
    "\<forall>u\<in>#cellptrs (mem \<sigma>) (types \<sigma>) l e. u \<noteq> H \<longrightarrow> dark \<sigma>1 u" by (auto simp: marks_def)
  have c1: "counted B (swept g \<sigma>1) R M \<sigma>1" using shades_counted [OF assms(1) 1(2)] shades_swept [OF 1(2) assms(2)] by simp
  obtain h1 where h1: "hp \<sigma>1 l = Some h1" "hs h1 = SList nx e" "ht h1 \<noteq> None" "color h1 \<noteq> sweeper g"
    using 1(2) by (cases rule: shades_obj [of g \<sigma> \<sigma>1 l]) (use assms in auto)
  obtain k' \<sigma>2 where 2: "marktail (nat vis) l \<sigma>1 = Some (k', \<sigma>2)" "k' \<le> nat vis" "shades g \<sigma>1 \<sigma>2" "nx \<noteq> H \<longrightarrow> dark \<sigma>2 nx"
    using marktail_ok [OF c1 assms(2) h1] by blast
  have "marklist l vis \<sigma> = Some (if vis > 0 then int k' else vis, \<sigma>2)"
    using assms by (simp add: marklist_def celltype_def 1(1) 2(1))
  moreover have "(if vis > 0 then int k' else vis) \<le> vis" using 2(2) by (cases "vis > 0") auto
  moreover have "\<forall>u\<in>#kids \<sigma> l. u \<noteq> H \<longrightarrow> dark \<sigma>2 u" unfolding k using 1(3) 2(4) shades_dark [OF 2(3)] by auto
  ultimately show ?thesis using shades_trans [OF 1(2) 2(3)] by blast
qed

lemma marks_markarray:
  assumes c: "counted B (swept g \<sigma>) R M \<sigma>" and n: "sweeper g \<noteq> propagator"
    and h: "hp \<sigma> v = Some h" "hs h = SArray len e root d" "ht h \<noteq> None" "color h \<noteq> sweeper g" and s: "sliced \<sigma> h"
  shows "marks g (markarray v) (set_mset (kids \<sigma> v)) \<sigma>"
proof -
  let ?E = "\<Union>i\<in>set [0 ..< nat len]. set_mset (elemptrs \<sigma> d e i)"
  have k: "kids \<sigma> v = (if root \<noteq> H then {#root#} else sum_list (map (elemptrs \<sigma> d e) [0 ..< nat len]))"
    using h by (auto simp: kids_def kids_of_def elemptrs_def [abs_def] split: option.splits)
  have okk: "okp g \<sigma> u" if "u \<in># kids \<sigma> v" for u using kid_okp [OF c h(1,4) that] .
  have ro: "okp g \<sigma> root" using okk k by (cases "root = H") (auto simp: okp_def)
  have el: "okp g \<sigma> u" if u: "u \<in> ?E" for u
  proof (cases "root = H \<or> u = H")
    case True
    moreover have "u \<in># sum_list (map (elemptrs \<sigma> d e) [0 ..< nat len])" using u by (auto simp: set_mset_sum_list)
    then have "root = H \<Longrightarrow> okp g \<sigma> u" using okk [of u] k by simp
    ultimately show ?thesis by (auto simp: okp_def)
  next
    case False
    then have "u \<in># kids \<sigma> root" using u s h(2,3) by (auto simp: sliced_def)
    moreover obtain h' where "hp \<sigma> root = Some h'" "color h' \<noteq> sweeper g" using ro False by (auto simp: okp_def)
    ultimately show ?thesis using kid_okp [OF c] by blast
  qed
  have m: "marks g (markword root) {root} \<sigma>" using ro by (rule marks_markword)
  have f: "marks g (foldO (\<lambda>i. markheap (Some e) (d + of_nat i * of_int (tsize (types \<sigma> e)))) [0 ..< nat len]) ?E \<sigma>'"
    if sh: "shades g \<sigma> \<sigma>'" for \<sigma>'
  proof (rule marks_foldO)
    fix i \<sigma>'' assume i: "i \<in> set [0 ..< nat len]" "shades g \<sigma>' \<sigma>''"
    note t = shades_trans [OF sh i(2)]
    show "marks g (markheap (Some e) (d + of_nat i * of_int (tsize (types \<sigma> e)))) (set_mset (elemptrs \<sigma> d e i)) \<sigma>''"
    proof (rule marks_markheap [OF n])
      fix u assume "u \<in># elemptrs \<sigma> d e i"
      then have "okp g \<sigma> u" using i(1) by (intro el) blast
      then show "okp g \<sigma>'' u" by (simp add: shades_okp [OF t n])
    qed (simp add: elemptrs_def shades_sel [OF t])
  qed
  have em: "?E = {}" if "np (types \<sigma> e) = 0" using that by (auto simp: elemptrs_def ptrs_at_def)
  have "marks g (\<lambda>\<sigma>'. Option.bind (markword root \<sigma>') (\<lambda>\<sigma>1. if np (types \<sigma> e) = 0 then Some \<sigma>1
        else foldO (\<lambda>i. markheap (Some e) (d + of_nat i * of_int (tsize (types \<sigma> e)))) [0 ..< nat len] \<sigma>1)) (insert root ?E) \<sigma>"
  proof (rule marks_bind [OF m])
    show "marks g (\<lambda>\<sigma>1. if np (types \<sigma> e) = 0 then Some \<sigma>1
        else foldO (\<lambda>i. markheap (Some e) (d + of_nat i * of_int (tsize (types \<sigma> e)))) [0 ..< nat len] \<sigma>1) ?E \<sigma>'"
      if "shades g \<sigma> \<sigma>'" for \<sigma>'
      using f [OF that] em by (cases "np (types \<sigma> e) = 0") (auto simp: marks_def)
  qed blast
  then show ?thesis
    by (rule marks_cong [rotated 2]) (use k in \<open>auto simp: markarray_def h set_mset_sum_list\<close>)
qed

lemma callmark_ok:
  assumes c: "counted B (swept g \<sigma>) R M \<sigma>" and n: "sweeper g \<noteq> propagator"
    and h: "hp \<sigma> v = Some h" "color h \<noteq> sweeper g" and s: "sliced \<sigma> h" "markable (types \<sigma>) h"
  shows "\<exists>vis' \<sigma>'. callmark v vis \<sigma> = Some (vis', \<sigma>') \<and> vis' \<le> vis \<and> shades g \<sigma> \<sigma>' \<and> (\<forall>u\<in>#kids \<sigma> v. u \<noteq> H \<longrightarrow> dark \<sigma>' u)"
proof (cases "ht h")
  case None
  then show ?thesis using h by (simp add: callmark_def kids_def kids_of_def)
next
  case (Some t)
  have ok: "okp g \<sigma> u" if "u \<in># kids \<sigma> v" for u using kid_okp [OF c h that] .
  have plain: ?thesis if m: "marks g f us \<sigma>" "set_mset (kids \<sigma> v) \<subseteq> us" "callmark v vis \<sigma> = map_option (Pair vis) (f \<sigma>)" for f us
    using m by (auto simp: marks_def)
  show ?thesis
  proof (cases "hs h")
    case SData
    have "marks g (markheap (Some t) v) (set_mset (ptrs_at (mem \<sigma>) v (types \<sigma> t))) \<sigma>"
      using ok by (intro marks_markheap [OF n]) (auto simp: kids_def kids_of_def h Some SData)
    then show ?thesis
      by (rule plain) (use s(2) in \<open>auto simp: kids_def kids_of_def h Some SData callmark_def markable_def\<close>)
  next
    case (SArray len e root d)
    then have "marks g (markarray v) (set_mset (kids \<sigma> v)) \<sigma>" using marks_markarray [OF c n h(1) SArray _ h(2) s(1)] Some by simp
    then show ?thesis by (rule plain) (use s(2) in \<open>auto simp: h Some SArray callmark_def markable_def\<close>)
  next
    case (SList nx e)
    then show ?thesis using marklist_ok [OF c n h(1) SList _ h(2), of vis] Some s(2) by (auto simp: h callmark_def markable_def)
  next
    case (SString st)
    then show ?thesis using s(2) by (auto simp: h Some callmark_def markable_def noptrs_def kids_def kids_of_def)
  next
    case (SChan ch)
    have "marks g (markword (sendq ch)) {sendq ch} \<sigma>" using ok by (intro marks_markword) (simp add: kids_def kids_of_def h Some SChan)
    then show ?thesis by (rule plain) (use s(2) in \<open>auto simp: kids_def kids_of_def h Some SChan callmark_def markable_def\<close>)
  next
    case (SModlink MP m cp lks)
    have "marks g (markword MP) {MP} \<sigma>" using ok by (intro marks_markword) (simp add: kids_def kids_of_def h Some SModlink)
    then show ?thesis by (rule plain) (use s(2) in \<open>auto simp: kids_def kids_of_def h Some SModlink callmark_def markable_def\<close>)
  qed
qed

section \<open>Roots\<close>

text \<open>The frames of an extent from \<open>fp\<close> on, with their types, and those of a stack.\<close>

inductive framelist :: "mem \<Rightarrow> (tid \<Rightarrow> Type) \<Rightarrow> WORD \<Rightarrow> WORD \<Rightarrow> WORD \<Rightarrow> (WORD \<times> tid) list \<Rightarrow> bool"
  for m :: mem and ty :: "tid \<Rightarrow> Type" and sx sp :: WORD where
  framelist_end: "framelist m ty sx sp sp []"
| framelist_frame: "fp \<noteq> sp \<Longrightarrow> frty m sx fp = Some t \<Longrightarrow> framelist m ty sx sp (fp + of_int (tsize (ty t))) fs \<Longrightarrow>
    framelist m ty sx sp fp ((fp, t) # fs)"

inductive stacklist :: "mem \<Rightarrow> (tid \<Rightarrow> Type) \<Rightarrow> WORD \<Rightarrow> WORD \<Rightarrow> (WORD \<times> tid) list \<Rightarrow> bool"
  for m :: mem and ty :: "tid \<Rightarrow> Type" where
  stacklist_end: "stacklist m ty 0 sp []"
| stacklist_extent: "ex \<noteq> 0 \<Longrightarrow> framelist m ty ex sp (ex + 16) fs \<Longrightarrow> stacklist m ty (sx_EX m ex) (sx_SP m ex) gs \<Longrightarrow>
    stacklist m ty ex sp (fs @ gs)"

fun proglist :: "(prg \<Rightarrow> Prog option) \<Rightarrow> prg option \<Rightarrow> prg list \<Rightarrow> bool" where
  "proglist ps h [] \<longleftrightarrow> h = None"
| "proglist ps h (q # qs) \<longleftrightarrow> h = Some q \<and> (\<exists>pr. ps q = Some pr \<and> proglist ps (pnext pr) qs)"

lemma allprogs_proglist: "allprogs \<sigma> qs \<Longrightarrow> proglist (progs \<sigma>) (phead \<sigma>) qs"
proof -
  have "dseg ps pv h qs pv' None \<Longrightarrow> proglist ps h qs" for ps pv h pv' by (induction qs arbitrary: pv h) auto
  then show "allprogs \<sigma> qs \<Longrightarrow> proglist (progs \<sigma>) (phead \<sigma>) qs" by (auto simp: allprogs_def)
qed

text \<open>The pointers the collector starts from; \<open>stk\<close> gives the frames of a prog.\<close>

definition linkptrs :: "vm \<Rightarrow> ptr \<Rightarrow> ptr list" where
  "linkptrs \<sigma> ml = (case modlink \<sigma> ml of None \<Rightarrow> [ml] | Some (MP, _) \<Rightarrow> [ml, MP])"

definition frptrs :: "vm \<Rightarrow> WORD \<times> tid \<Rightarrow> ptr list" where
  "frptrs \<sigma> x = map (rdW (mem \<sigma>)) (slots_up (fst x) (types \<sigma> (snd x))) @
     (if fr_mr (mem \<sigma>) (fst x) \<noteq> 0 then linkptrs \<sigma> (fr_mr (mem \<sigma>) (fst x)) else [])"

definition progptrs :: "vm \<Rightarrow> (WORD \<times> tid) list \<Rightarrow> Prog \<Rightarrow> ptr list" where
  "progptrs \<sigma> fs pr = linkptrs \<sigma> (pR_M pr) @ concat (map (frptrs \<sigma>) fs)"

definition rootptrs :: "gcvars \<Rightarrow> vm \<Rightarrow> (prg \<Rightarrow> (WORD \<times> tid) list) \<Rightarrow> prg list \<Rightarrow> ptr list" where
  "rootptrs g \<sigma> stk ps = concat (map (\<lambda>p. progptrs \<sigma> (stk p) (the (progs \<sigma> p))) ps) @
     map (\<lambda>m. morigmp (mods \<sigma> m)) (modules \<sigma>) @ concat (map (ptrtab g) [0 ..< PTRHASH])"

definition islink :: "vm \<Rightarrow> ptr \<Rightarrow> bool" where
  "islink \<sigma> ml \<longleftrightarrow> ml \<noteq> H \<and> modlink \<sigma> ml \<noteq> None"

definition goodframe :: "vm \<Rightarrow> WORD \<times> tid \<Rightarrow> bool" where
  "goodframe \<sigma> x \<longleftrightarrow> tmark (types \<sigma> (snd x)) = Mmarkheap \<and> (fr_mr (mem \<sigma>) (fst x) \<noteq> 0 \<longrightarrow> islink \<sigma> (fr_mr (mem \<sigma>) (fst x)))"

definition rooted :: "gcvars \<Rightarrow> vm \<Rightarrow> (prg \<Rightarrow> (WORD \<times> tid) list) \<Rightarrow> prg list \<Rightarrow> bool" where
  "rooted g \<sigma> stk ps \<longleftrightarrow> proglist (progs \<sigma>) (phead \<sigma>) ps \<and>
     (\<forall>p\<in>set ps. \<exists>pr. progs \<sigma> p = Some pr \<and> islink \<sigma> (pR_M pr) \<and>
        stacklist (mem \<sigma>) (types \<sigma>) (pR_EX pr) (pR_SP pr) (stk p) \<and> (\<forall>x\<in>set (stk p). goodframe \<sigma> x)) \<and>
     (\<forall>i<PTRHASH. H \<notin> set (ptrtab g i))"

lemma shades_modlink:
  assumes "shades g \<sigma> \<sigma>'" shows "modlink \<sigma>' = modlink \<sigma>"
proof
  fix u show "modlink \<sigma>' u = modlink \<sigma> u"
    using assms by (cases rule: shades_obj [of g \<sigma> \<sigma>' u]) (simp_all add: modlink_def)
qed

lemma roots_cong:
  assumes "mem \<sigma>' = mem \<sigma>" "types \<sigma>' = types \<sigma>" "mods \<sigma>' = mods \<sigma>" "modules \<sigma>' = modules \<sigma>" "progs \<sigma>' = progs \<sigma>"
    "phead \<sigma>' = phead \<sigma>" "modlink \<sigma>' = modlink \<sigma>"
  shows "linkptrs \<sigma>' = linkptrs \<sigma>" "frptrs \<sigma>' = frptrs \<sigma>" "progptrs \<sigma>' = progptrs \<sigma>" "rootptrs g \<sigma>' = rootptrs g \<sigma>"
    "islink \<sigma>' = islink \<sigma>" "goodframe \<sigma>' = goodframe \<sigma>" "rooted g \<sigma>' = rooted g \<sigma>"
proof -
  show l: "linkptrs \<sigma>' = linkptrs \<sigma>" "islink \<sigma>' = islink \<sigma>" by (simp_all add: fun_eq_iff linkptrs_def islink_def assms)
  show f: "frptrs \<sigma>' = frptrs \<sigma>" "goodframe \<sigma>' = goodframe \<sigma>" by (simp_all add: fun_eq_iff frptrs_def goodframe_def assms l)
  show p: "progptrs \<sigma>' = progptrs \<sigma>" by (simp add: fun_eq_iff progptrs_def l f)
  show "rootptrs g \<sigma>' = rootptrs g \<sigma>" "rooted g \<sigma>' = rooted g \<sigma>" by (simp_all add: fun_eq_iff rootptrs_def rooted_def assms p l f)
qed

lemma shades_roots:
  assumes "shades g \<sigma> \<sigma>'"
  shows "linkptrs \<sigma>' = linkptrs \<sigma>" "frptrs \<sigma>' = frptrs \<sigma>" "progptrs \<sigma>' = progptrs \<sigma>" "rootptrs g' \<sigma>' = rootptrs g' \<sigma>"
    "islink \<sigma>' = islink \<sigma>" "goodframe \<sigma>' = goodframe \<sigma>" "rooted g' \<sigma>' = rooted g' \<sigma>"
  using roots_cong [OF shades_sel(1,3,4,5,9,10) [OF assms] shades_modlink [OF assms]] by blast+

lemma marks_marklink:
  assumes n: "sweeper g \<noteq> propagator" and l: "islink \<sigma> ml" and ok: "\<forall>u\<in>set (linkptrs \<sigma> ml). okp g \<sigma> u"
  shows "marks g (marklink ml) (set (linkptrs \<sigma> ml)) \<sigma>"
proof -
  obtain MP x where m: "modlink \<sigma> ml = Some (MP, x)" "ml \<noteq> H" using l by (auto simp: islink_def)
  have p: "set (linkptrs \<sigma> ml) = {ml, MP}" using m by (simp add: linkptrs_def)
  have "marks g (\<lambda>\<sigma>. Option.bind (shade ml \<sigma>) (\<lambda>\<sigma>1. Option.bind (modlink \<sigma>1 ml) (\<lambda>(MP, _). markword MP \<sigma>1))) {ml, MP} \<sigma>"
  proof (rule marks_bind)
    show "marks g (shade ml) {ml} \<sigma>" using shade_ok [of g \<sigma> ml] ok m(2) p by (simp add: marks_def)
    show "marks g (\<lambda>\<sigma>1. Option.bind (modlink \<sigma>1 ml) (\<lambda>(MP, _). markword MP \<sigma>1)) {MP} \<sigma>'" if "shades g \<sigma> \<sigma>'" for \<sigma>'
    proof -
      have "marks g (markword MP) {MP} \<sigma>'" by (rule marks_markword) (use ok p shades_okp [OF that n] in simp)
      then show ?thesis by (rule marks_cong [rotated 2]) (simp_all add: shades_modlink [OF that] m)
    qed
  qed simp
  then show ?thesis by (rule marks_cong [rotated 2]) (simp_all add: marklink_def p)
qed

lemma marks_markframe:
  assumes n: "sweeper g \<noteq> propagator" and f: "goodframe \<sigma> (f, t)" and ok: "\<forall>u\<in>set (frptrs \<sigma> (f, t)). okp g \<sigma> u"
  shows "marks g (markframe f t) (set (frptrs \<sigma> (f, t))) \<sigma>"
proof -
  let ?P = "ptrs_at (mem \<sigma>) f (types \<sigma> t)" and ?mr = "fr_mr (mem \<sigma>) f"
  have P: "set (frptrs \<sigma> (f, t)) = set_mset ?P \<union> (if ?mr \<noteq> 0 then set (linkptrs \<sigma> ?mr) else {})"
    using set_slots_up [of "mem \<sigma>" f "types \<sigma> t"] by (simp add: frptrs_def)
  have "marks g (\<lambda>\<sigma>'. Option.bind (markheap (Some t) f \<sigma>') (\<lambda>\<sigma>1.
       if fr_mr (mem \<sigma>1) f \<noteq> 0 then marklink (fr_mr (mem \<sigma>1) f) \<sigma>1 else Some \<sigma>1)) (set (frptrs \<sigma> (f, t))) \<sigma>"
  proof (rule marks_bind)
    show "marks g (markheap (Some t) f) (set_mset ?P) \<sigma>" by (rule marks_markheap [OF n]) (use ok P in simp_all)
    show "marks g (\<lambda>\<sigma>1. if fr_mr (mem \<sigma>1) f \<noteq> 0 then marklink (fr_mr (mem \<sigma>1) f) \<sigma>1 else Some \<sigma>1)
        (if ?mr \<noteq> 0 then set (linkptrs \<sigma> ?mr) else {}) \<sigma>'" if s: "shades g \<sigma> \<sigma>'" for \<sigma>'
    proof (cases "?mr = 0")
      case True
      then show ?thesis by (simp add: marks_def shades_sel [OF s])
    next
      case False
      have "marks g (marklink ?mr) (set (linkptrs \<sigma>' ?mr)) \<sigma>'"
        by (rule marks_marklink [OF n])
          (use f False ok P in \<open>simp_all add: shades_roots [OF s] shades_okp [OF s n] goodframe_def\<close>)
      then show ?thesis by (rule marks_cong [rotated 2]) (simp_all add: shades_sel [OF s] shades_roots [OF s] False)
    qed
  qed (simp add: P)
  then show ?thesis by (rule marks_cong [rotated 2]) (use f in \<open>simp_all add: markframe_def goodframe_def\<close>)
qed

lemma marks_markframes:
  assumes n: "sweeper g \<noteq> propagator" and fl: "framelist m ty sx sp fp fs"
  shows "mem \<sigma> = m \<Longrightarrow> types \<sigma> = ty \<Longrightarrow> \<forall>x\<in>set fs. goodframe \<sigma> x \<and> (\<forall>u\<in>set (frptrs \<sigma> x). okp g \<sigma> u) \<Longrightarrow>
    marks g (markframes sx fp sp) (\<Union>x\<in>set fs. set (frptrs \<sigma> x)) \<sigma>"
  using fl
proof (induction arbitrary: \<sigma> rule: framelist.induct)
  case framelist_end
  show ?case by (simp add: marks_def markframes.simps)
next
  case (framelist_frame fp t fs)
  have "marks g (\<lambda>\<sigma>'. Option.bind (markframe fp t \<sigma>') (markframes sx (fp + of_int (tsize (ty t))) sp))
     (\<Union>x\<in>set ((fp, t) # fs). set (frptrs \<sigma> x)) \<sigma>"
  proof (rule marks_bind)
    show "marks g (markframe fp t) (set (frptrs \<sigma> (fp, t))) \<sigma>" by (rule marks_markframe [OF n]) (use framelist_frame.prems in simp_all)
    show "marks g (markframes sx (fp + of_int (tsize (ty t))) sp) (\<Union>x\<in>set fs. set (frptrs \<sigma> x)) \<sigma>'" if s: "shades g \<sigma> \<sigma>'" for \<sigma>'
      using framelist_frame.IH [of \<sigma>'] framelist_frame.prems by (simp add: shades_sel [OF s] shades_roots [OF s] shades_okp [OF s n])
  qed simp
  then show ?case by (rule marks_cong [rotated 2]) (use framelist_frame in \<open>simp_all add: markframes.simps [of sx fp sp \<sigma>]\<close>)
qed

lemma marks_markstack:
  assumes n: "sweeper g \<noteq> propagator" and fl: "stacklist m ty ex sp fs"
  shows "mem \<sigma> = m \<Longrightarrow> types \<sigma> = ty \<Longrightarrow> \<forall>x\<in>set fs. goodframe \<sigma> x \<and> (\<forall>u\<in>set (frptrs \<sigma> x). okp g \<sigma> u) \<Longrightarrow>
    marks g (markstack ex sp) (\<Union>x\<in>set fs. set (frptrs \<sigma> x)) \<sigma>"
  using fl
proof (induction arbitrary: \<sigma> rule: stacklist.induct)
  case (stacklist_end sp)
  show ?case by (simp add: marks_def markstack.simps)
next
  case (stacklist_extent ex sp fs gs)
  have "marks g (\<lambda>\<sigma>'. Option.bind (markframes ex (ex + 16) sp \<sigma>') (\<lambda>\<sigma>1. markstack (sx_EX (mem \<sigma>1) ex) (sx_SP (mem \<sigma>1) ex) \<sigma>1))
     (\<Union>x\<in>set (fs @ gs). set (frptrs \<sigma> x)) \<sigma>"
  proof (rule marks_bind)
    show "marks g (markframes ex (ex + 16) sp) (\<Union>x\<in>set fs. set (frptrs \<sigma> x)) \<sigma>"
      by (rule marks_markframes [OF n stacklist_extent.hyps(2)]) (use stacklist_extent.prems in auto)
    show "marks g (\<lambda>\<sigma>1. markstack (sx_EX (mem \<sigma>1) ex) (sx_SP (mem \<sigma>1) ex) \<sigma>1) (\<Union>x\<in>set gs. set (frptrs \<sigma> x)) \<sigma>'"
      if s: "shades g \<sigma> \<sigma>'" for \<sigma>'
    proof -
      have "marks g (markstack (sx_EX m ex) (sx_SP m ex)) (\<Union>x\<in>set gs. set (frptrs \<sigma> x)) \<sigma>'"
        using stacklist_extent.IH [of \<sigma>'] stacklist_extent.prems by (auto simp add: shades_sel [OF s] shades_roots [OF s] shades_okp [OF s n])
      then show ?thesis by (rule marks_cong [rotated 2]) (use stacklist_extent.prems in \<open>simp_all add: shades_sel [OF s]\<close>)
    qed
  qed auto
  then show ?case by (rule marks_cong [rotated 2]) (use stacklist_extent in \<open>simp_all add: markstack.simps [of ex sp \<sigma>]\<close>)
qed

definition proged :: "gcvars \<Rightarrow> vm \<Rightarrow> (prg \<Rightarrow> (WORD \<times> tid) list) \<Rightarrow> prg \<Rightarrow> bool" where
  "proged g \<sigma> stk p \<longleftrightarrow> (\<exists>pr. progs \<sigma> p = Some pr \<and> islink \<sigma> (pR_M pr) \<and>
     stacklist (mem \<sigma>) (types \<sigma>) (pR_EX pr) (pR_SP pr) (stk p) \<and> (\<forall>x\<in>set (stk p). goodframe \<sigma> x) \<and>
     (\<forall>u\<in>set (progptrs \<sigma> (stk p) pr). okp g \<sigma> u))"

lemma shades_proged: "shades g \<sigma> \<sigma>' \<Longrightarrow> sweeper g \<noteq> propagator \<Longrightarrow> proged g \<sigma>' stk p = proged g \<sigma> stk p"
  by (simp add: proged_def shades_sel shades_roots shades_okp)

lemma marks_markprogs:
  assumes n: "sweeper g \<noteq> propagator"
  shows "proglist (progs \<sigma>) r ps \<Longrightarrow> \<forall>p\<in>set ps. proged g \<sigma> stk p \<Longrightarrow>
    marks g (markprogs r) (\<Union>p\<in>set ps. set (progptrs \<sigma> (stk p) (the (progs \<sigma> p)))) \<sigma>"
proof (induction ps arbitrary: r \<sigma>)
  case Nil
  then show ?case by (simp add: marks_def markprogs.simps)
next
  case (Cons p ps)
  obtain pr where pr: "progs \<sigma> p = Some pr" "islink \<sigma> (pR_M pr)" "stacklist (mem \<sigma>) (types \<sigma>) (pR_EX pr) (pR_SP pr) (stk p)"
     "\<forall>x\<in>set (stk p). goodframe \<sigma> x" "\<forall>u\<in>set (progptrs \<sigma> (stk p) pr). okp g \<sigma> u" using Cons.prems(2) by (auto simp: proged_def)
  have r: "r = Some p" "proglist (progs \<sigma>) (pnext pr) ps" using Cons.prems(1) pr(1) by simp_all
  let ?S = "\<Union>x\<in>set (stk p). set (frptrs \<sigma> x)" and ?T = "\<Union>p\<in>set ps. set (progptrs \<sigma> (stk p) (the (progs \<sigma> p)))"
  have P: "set (progptrs \<sigma> (stk p) pr) = set (linkptrs \<sigma> (pR_M pr)) \<union> ?S" by (simp add: progptrs_def)
  have "marks g (\<lambda>\<sigma>'. Option.bind (marklink (pR_M pr) \<sigma>') (\<lambda>\<sigma>1. Option.bind (markstack (pR_EX pr) (pR_SP pr) \<sigma>1) (markprogs (pnext pr))))
     (set (progptrs \<sigma> (stk p) pr) \<union> ?T) \<sigma>"
  proof (rule marks_bind)
    show "marks g (marklink (pR_M pr)) (set (linkptrs \<sigma> (pR_M pr))) \<sigma>" by (rule marks_marklink [OF n pr(2)]) (use pr(5) P in simp)
    show "marks g (\<lambda>\<sigma>1. Option.bind (markstack (pR_EX pr) (pR_SP pr) \<sigma>1) (markprogs (pnext pr))) (?S \<union> ?T) \<sigma>1" if s: "shades g \<sigma> \<sigma>1" for \<sigma>1
    proof (rule marks_bind)
      have "marks g (markstack (pR_EX pr) (pR_SP pr)) (\<Union>x\<in>set (stk p). set (frptrs \<sigma>1 x)) \<sigma>1"
        by (rule marks_markstack [OF n pr(3)]) (use pr(4,5) P in \<open>auto simp add: shades_sel [OF s] shades_roots [OF s] shades_okp [OF s n]\<close>)
      then show "marks g (markstack (pR_EX pr) (pR_SP pr)) ?S \<sigma>1" by (simp add: shades_roots [OF s])
      show "marks g (markprogs (pnext pr)) ?T \<sigma>2" if s2: "shades g \<sigma>1 \<sigma>2" for \<sigma>2
      proof -
        note t = shades_trans [OF s s2]
        show ?thesis using Cons.IH [of \<sigma>2 "pnext pr"] Cons.prems(2) r(2)
          by (simp add: shades_sel [OF t] shades_roots [OF t] shades_proged [OF t n])
      qed
    qed simp
  qed (auto simp: P)
  then show ?case by (rule marks_cong [rotated 2]) (use pr(1) r(1) in \<open>simp_all add: markprogs.simps [of "Some p" \<sigma>]\<close>)
qed

lemma marks_ptrmark:
  assumes n: "sweeper g \<noteq> propagator" and ok: "\<forall>i<PTRHASH. \<forall>u\<in>set (ptrtab g i). u \<noteq> H \<and> okp g \<sigma> u"
  shows "marks g (ptrmark g) (\<Union>i\<in>set [0 ..< PTRHASH]. set (ptrtab g i)) \<sigma>"
  unfolding ptrmark_def
proof (rule marks_foldO)
  fix i \<sigma>' assume i: "i \<in> set [0 ..< PTRHASH]" "shades g \<sigma> \<sigma>'"
  have "marks g (foldO shade (ptrtab g i)) (\<Union>u\<in>set (ptrtab g i). {u}) \<sigma>'"
  proof (rule marks_foldO)
    fix u \<sigma>'' assume u: "u \<in> set (ptrtab g i)" "shades g \<sigma>' \<sigma>''"
    have "okp g \<sigma>'' u \<and> u \<noteq> H" using ok i(1) u(1) shades_okp [OF shades_trans [OF i(2) u(2)] n] by simp
    then show "marks g (shade u) {u} \<sigma>''" using shade_ok by (simp add: marks_def)
  qed
  then show "marks g (foldO shade (ptrtab g i)) (set (ptrtab g i)) \<sigma>'" by simp
qed

lemma marks_markmods:
  assumes n: "sweeper g \<noteq> propagator" and ok: "\<forall>m\<in>set (modules \<sigma>). okp g \<sigma> (morigmp (mods \<sigma> m))"
  shows "marks g markmods ((\<lambda>m. morigmp (mods \<sigma> m)) ` set (modules \<sigma>)) \<sigma>"
proof -
  have "marks g (foldO (\<lambda>m \<sigma>. markword (morigmp (mods \<sigma> m)) \<sigma>) (modules \<sigma>)) (\<Union>m\<in>set (modules \<sigma>). {morigmp (mods \<sigma> m)}) \<sigma>"
  proof (rule marks_foldO)
    fix m \<sigma>' assume m: "m \<in> set (modules \<sigma>)" "shades g \<sigma> \<sigma>'"
    have "marks g (markword (morigmp (mods \<sigma> m))) {morigmp (mods \<sigma> m)} \<sigma>'"
      by (rule marks_markword) (use ok m(1) shades_okp [OF m(2) n] in simp)
    then show "marks g (\<lambda>\<sigma>. markword (morigmp (mods \<sigma> m)) \<sigma>) {morigmp (mods \<sigma> m)} \<sigma>'"
      by (rule marks_cong [rotated 2]) (simp_all add: shades_sel [OF m(2)])
  qed
  then show ?thesis by (rule marks_cong [rotated 2]) (auto simp: markmods_def)
qed

lemma rootset_ok:
  assumes n: "(gccolor \<sigma> - 2) mod 3 \<noteq> propagator" and r: "rooted g \<sigma> stk ps"
    and ok: "\<forall>u\<in>set (rootptrs g \<sigma> stk ps). okp (g\<lparr>marker := (gccolor \<sigma> - 1) mod 3, sweeper := (gccolor \<sigma> - 2) mod 3\<rparr>) \<sigma> u"
    and g': "g' = g\<lparr>marker := (gccolor \<sigma> - 1) mod 3, sweeper := (gccolor \<sigma> - 2) mod 3\<rparr>" and s': "\<sigma>' = \<sigma>\<lparr>mutator := gccolor \<sigma> mod 3\<rparr>"
  shows "\<exists>\<sigma>''. rootset (phead \<sigma>) g \<sigma> = Some (g', \<sigma>'') \<and> shades g' \<sigma>' \<sigma>'' \<and> (\<forall>u\<in>set (rootptrs g \<sigma> stk ps). u \<noteq> H \<longrightarrow> dark \<sigma>'' u)"
proof -
  have ml: "modlink \<sigma>' = modlink \<sigma>" by (simp add: fun_eq_iff modlink_def s')
  have "okp g' \<sigma>' = okp g' \<sigma>" by (simp add: fun_eq_iff okp_def s')
  then have same: "linkptrs \<sigma>' = linkptrs \<sigma>" "frptrs \<sigma>' = frptrs \<sigma>" "islink \<sigma>' = islink \<sigma>" "goodframe \<sigma>' = goodframe \<sigma>"
    "progptrs \<sigma>' = progptrs \<sigma>" "okp g' \<sigma>' = okp g' \<sigma>" using roots_cong [OF _ _ _ _ _ _ ml] by (simp_all add: s')
  have n': "sweeper g' \<noteq> propagator" using n by (simp add: g')
  let ?U = "\<Union>p\<in>set ps. set (progptrs \<sigma> (stk p) (the (progs \<sigma> p)))" and ?V = "(\<lambda>m. morigmp (mods \<sigma> m)) ` set (modules \<sigma>)"
    and ?W = "\<Union>i\<in>set [0 ..< PTRHASH]. set (ptrtab g i)"
  have R: "set (rootptrs g \<sigma> stk ps) = ?U \<union> (?V \<union> ?W)" by (simp add: rootptrs_def)
  have ok': "okp g' \<sigma>' u" if "u \<in> ?U \<union> (?V \<union> ?W)" for u using ok [folded g'] that R unfolding same(6) by blast
  have pg: "\<forall>p\<in>set ps. proged g' \<sigma>' stk p"
  proof
    fix p assume p: "p \<in> set ps"
    then obtain pr where pr: "progs \<sigma> p = Some pr" "islink \<sigma> (pR_M pr)" "stacklist (mem \<sigma>) (types \<sigma>) (pR_EX pr) (pR_SP pr) (stk p)"
      "\<forall>x\<in>set (stk p). goodframe \<sigma> x" using r by (auto simp: rooted_def)
    moreover have "\<forall>u\<in>set (progptrs \<sigma> (stk p) pr). okp g' \<sigma>' u"
    proof
      fix u assume "u \<in> set (progptrs \<sigma> (stk p) pr)"
      then have "u \<in> ?U" using p pr(1) by (intro UN_I [OF p]) simp
      then show "okp g' \<sigma>' u" by (intro ok') blast
    qed
    ultimately show "proged g' \<sigma>' stk p" unfolding proged_def same by (simp add: s')
  qed
  have pl: "proglist (progs \<sigma>') (phead \<sigma>) ps" using r by (simp add: rooted_def s')
  have "marks g' (\<lambda>\<sigma>1. Option.bind (markprogs (phead \<sigma>) \<sigma>1) (\<lambda>\<sigma>2. Option.bind (markmods \<sigma>2) (ptrmark g'))) (?U \<union> (?V \<union> ?W)) \<sigma>'"
  proof (rule marks_bind)
    show "marks g' (markprogs (phead \<sigma>)) ?U \<sigma>'" using marks_markprogs [OF n' pl pg] unfolding same by (simp add: s')
    fix \<sigma>2 assume s2: "shades g' \<sigma>' \<sigma>2"
    show "marks g' (\<lambda>\<sigma>2. Option.bind (markmods \<sigma>2) (ptrmark g')) (?V \<union> ?W) \<sigma>2"
    proof (rule marks_bind)
      have e: "mods \<sigma>2 = mods \<sigma>" "modules \<sigma>2 = modules \<sigma>" using shades_sel [OF s2] by (simp_all add: s')
      show "marks g' markmods ?V \<sigma>2" using marks_markmods [OF n', of \<sigma>2] ok' by (simp add: e shades_okp [OF s2 n'])
      fix \<sigma>3 assume s3: "shades g' \<sigma>2 \<sigma>3"
      have "\<forall>i<PTRHASH. \<forall>u\<in>set (ptrtab g' i). u \<noteq> H \<and> okp g' \<sigma>3 u"
      proof (intro allI impI ballI)
        fix i u assume i: "i < PTRHASH" "u \<in> set (ptrtab g' i)"
        then have "u \<in> ?W" by (auto simp: g')
        then have "okp g' \<sigma>3 u" using ok' shades_okp [OF shades_trans [OF s2 s3] n'] by blast
        moreover have "u \<noteq> H" using r i by (auto simp: rooted_def g')
        ultimately show "u \<noteq> H \<and> okp g' \<sigma>3 u" by simp
      qed
      from marks_ptrmark [OF n' this] show "marks g' (ptrmark g') ?W \<sigma>3" by (simp add: g')
    qed simp
  qed simp
  then obtain \<sigma>'' where "Option.bind (markprogs (phead \<sigma>) \<sigma>') (\<lambda>\<sigma>2. Option.bind (markmods \<sigma>2) (ptrmark g')) = Some \<sigma>''"
    "shades g' \<sigma>' \<sigma>''" "\<forall>u\<in>?U \<union> (?V \<union> ?W). u \<noteq> H \<longrightarrow> dark \<sigma>'' u" by (auto simp: marks_def)
  then show ?thesis by (intro exI [of _ \<sigma>'']) (simp add: rootset_def Let_def R flip: g' s')
qed

end
