(* ===== verification/Gc_Inv.thy ===== *)
theory Gc_Inv
  imports Gc_Mark
begin

text \<open>
  The invariant of the collector, \<open>gcheap\<close> with \<open>lit\<close>, and that it is kept by scanning a marked object, by freeing a
  condemned one and by the change of epoch. Its heart is \<open>tricolour\<close>: the children of a scanned object are marked.
  The reference counts are exact for the objects that are not condemned, with \<open>T\<close> the references of progs, frames and
  the table and \<open>L\<close> those that condemned objects held and nobody drops.
\<close>

section \<open>The invariant of the collector\<close>

definition roles :: "gcvars \<Rightarrow> vm \<Rightarrow> bool" where
  \<comment> \<open>before the first epoch ends \<^verbatim>\<open>sweeper\<close> has the colour of the next one\<close>
  "roles g \<sigma> \<longleftrightarrow> 3 \<le> gccolor \<sigma> \<and> mutator \<sigma> = gccolor \<sigma> mod 3 \<and>
     (sweeper g = (gccolor \<sigma> - 2) mod 3 \<or>
      sweeper g = (gccolor \<sigma> - 1) mod 3 \<and> (\<forall>u h. hp \<sigma> u = Some h \<longrightarrow> color h \<noteq> (gccolor \<sigma> - 2) mod 3)) \<and>
     (\<forall>u h. hp \<sigma> u = Some h \<longrightarrow> color h \<in> {0, 1, 2, propagator})"

definition tricolour :: "ptr set \<Rightarrow> vm \<Rightarrow> bool" where
  \<comment> \<open>the children of an object of the colour \<^verbatim>\<open>mutator\<close> are marked; \<open>X\<close> is still to be scanned\<close>
  "tricolour X \<sigma> \<longleftrightarrow> (\<forall>u h. hp \<sigma> u = Some h \<longrightarrow> color h = mutator \<sigma> \<longrightarrow> u \<notin> X \<longrightarrow> (\<forall>w\<in>#kids \<sigma> u. w \<noteq> H \<longrightarrow> dark \<sigma> w))"

definition stackptrs :: "gcvars \<Rightarrow> vm \<Rightarrow> (prg \<Rightarrow> (WORD \<times> tid) list) \<Rightarrow> prg list \<Rightarrow> ptr list" where
  "stackptrs g \<sigma> stk ps = concat (map (\<lambda>p. progptrs \<sigma> (stk p) (the (progs \<sigma> p))) ps) @ concat (map (ptrtab g) [0 ..< PTRHASH])"

lemma set_rootptrs: "set (rootptrs g \<sigma> stk ps) = set (stackptrs g \<sigma> stk ps) \<union> (\<lambda>m. morigmp (mods \<sigma> m)) ` set (modules \<sigma>)"
  by (auto simp: rootptrs_def stackptrs_def)

definition heldby :: "ptr multiset \<Rightarrow> vm \<Rightarrow> ptr \<Rightarrow> bool" where
  "heldby T \<sigma> u \<longleftrightarrow> u \<in># T \<or> (\<exists>w\<in>#T. islink \<sigma> w \<and> u \<in># kids \<sigma> w)"

definition pinned :: "ptr multiset \<Rightarrow> gcvars \<Rightarrow> vm \<Rightarrow> (prg \<Rightarrow> (WORD \<times> tid) list) \<Rightarrow> prg list \<Rightarrow> bool" where
  \<comment> \<open>\<open>T\<close> are the references of the progs, their frames and the table\<close>
  "pinned T g \<sigma> stk ps \<longleftrightarrow> (\<forall>u\<in>set (stackptrs g \<sigma> stk ps). u \<noteq> H \<longrightarrow> heldby T \<sigma> u) \<and>
     (\<forall>u\<in>#T. u \<noteq> H \<longrightarrow> u \<in> set (stackptrs g \<sigma> stk ps))"

definition collectable :: "gcvars \<Rightarrow> vm \<Rightarrow> bool" where
  "collectable g \<sigma> \<longleftrightarrow> (\<forall>u h. hp \<sigma> u = Some h \<longrightarrow> markable (types \<sigma>) h \<and>
      (if color h = sweeper g then shaped (types \<sigma>) h \<and> \<not> waited h else sliced \<sigma> h)) \<and>
     chain (heapmem \<sigma>) \<noteq> [] \<and> (\<forall>b. magic (heapmem \<sigma>) b \<noteq> MAGIC_I)"

definition gcheap :: "ptr set \<Rightarrow> ptr multiset \<Rightarrow> ptr multiset \<Rightarrow> ptr multiset \<Rightarrow> mid multiset \<Rightarrow>
    (prg \<Rightarrow> (WORD \<times> tid) list) \<Rightarrow> prg list \<Rightarrow> gcvars \<Rightarrow> vm \<Rightarrow> bool" where
  "gcheap X B T L M stk ps g \<sigma> \<longleftrightarrow> counted B (swept g \<sigma>) (T + L) M \<sigma> \<and> B \<subseteq># T \<and> (\<Sum>v\<in>swept g \<sigma>. modkids \<sigma> v) \<subseteq># M \<and>
     roles g \<sigma> \<and> tricolour X \<sigma> \<and> rooted g \<sigma> stk ps \<and> pinned T g \<sigma> stk ps \<and> collectable g \<sigma>"

definition lit :: "gcvars \<Rightarrow> vm \<Rightarrow> (prg \<Rightarrow> (WORD \<times> tid) list) \<Rightarrow> prg list \<Rightarrow> bool" where
  \<comment> \<open>the roots are marked\<close>
  "lit g \<sigma> stk ps \<longleftrightarrow> (\<forall>u\<in>set (rootptrs g \<sigma> stk ps). u \<noteq> H \<longrightarrow> dark \<sigma> u)"

lemma gcheapD:
  assumes "gcheap X B T L M stk ps g \<sigma>"
  shows "counted B (swept g \<sigma>) (T + L) M \<sigma>" "B \<subseteq># T" "(\<Sum>v\<in>swept g \<sigma>. modkids \<sigma> v) \<subseteq># M" "roles g \<sigma>" "tricolour X \<sigma>"
    "rooted g \<sigma> stk ps" "pinned T g \<sigma> stk ps" "collectable g \<sigma>"
  using assms by (simp_all add: gcheap_def)

lemma gcheap_vars:
  assumes "sweeper g' = sweeper g" "ptrtab g' = ptrtab g"
  shows "gcheap X B T L M stk ps g' \<sigma> = gcheap X B T L M stk ps g \<sigma>" "lit g' \<sigma> stk ps = lit g \<sigma> stk ps"
proof -
  have "swept g' \<sigma> = swept g \<sigma>" "roles g' \<sigma> = roles g \<sigma>" "rooted g' \<sigma> stk ps = rooted g \<sigma> stk ps"
    "collectable g' \<sigma> = collectable g \<sigma>" "stackptrs g' \<sigma> stk ps = stackptrs g \<sigma> stk ps" "rootptrs g' \<sigma> stk ps = rootptrs g \<sigma> stk ps"
    by (simp_all add: swept_def roles_def rooted_def collectable_def stackptrs_def rootptrs_def assms)
  then show "gcheap X B T L M stk ps g' \<sigma> = gcheap X B T L M stk ps g \<sigma>" "lit g' \<sigma> stk ps = lit g \<sigma> stk ps"
    by (simp_all add: gcheap_def pinned_def lit_def)
qed

lemma roles_ne:
  assumes "roles g \<sigma>"
  shows "sweeper g \<noteq> mutator \<sigma>" "sweeper g \<noteq> propagator" "mutator \<sigma> \<noteq> propagator"
proof -
  have r: "mutator \<sigma> = gccolor \<sigma> mod 3" "sweeper g = (gccolor \<sigma> - 2) mod 3 \<or> sweeper g = (gccolor \<sigma> - 1) mod 3"
    using assms unfolding roles_def by blast+
  show "sweeper g \<noteq> mutator \<sigma>" "sweeper g \<noteq> propagator" "mutator \<sigma> \<noteq> propagator"
    using r unfolding propagator_def by presburger+
qed

subsection \<open>Marking keeps it\<close>

lemma shades_color:
  assumes "shades g \<sigma> \<sigma>'" "hp \<sigma>' u = Some h'"
  obtains h where "hp \<sigma> u = Some h" "hs h' = hs h" "ht h' = ht h"
    "color h' = color h \<or> color h' = propagator \<and> color h \<noteq> sweeper g \<and> nprop \<sigma>'"
  using assms(1) by (cases rule: shades_obj [of g \<sigma> \<sigma>' u]) (use assms that in auto)

lemma shades_roles:
  assumes s: "shades g \<sigma> \<sigma>'" and r: "roles g \<sigma>"
  shows "roles g \<sigma>'"
proof -
  have c: "color h \<in> {0, 1, 2, propagator}" if "hp \<sigma> u = Some h" for u h using r that unfolding roles_def by blast
  have "color h' \<in> {0, 1, 2, propagator} \<and> (color h' \<noteq> propagator \<longrightarrow> (\<exists>h. hp \<sigma> u = Some h \<and> color h = color h'))"
    if "hp \<sigma>' u = Some h'" for u h'
    using s that by (rule shades_color) (use c [of u] in auto)
  moreover have "(gccolor \<sigma> - 2) mod 3 \<noteq> propagator" unfolding propagator_def by presburger
  ultimately show ?thesis using r unfolding roles_def shades_sel [OF s] by metis
qed

lemma shades_tricolour:
  assumes s: "shades g \<sigma> \<sigma>'" and r: "roles g \<sigma>" and t: "tricolour X \<sigma>"
  shows "tricolour X \<sigma>'"
  unfolding tricolour_def
proof (intro allI impI ballI)
  fix u h' w assume u: "hp \<sigma>' u = Some h'" "color h' = mutator \<sigma>'" "u \<notin> X" "w \<in># kids \<sigma>' u" "w \<noteq> H"
  from s u(1) obtain h where h: "hp \<sigma> u = Some h" "color h' = color h \<or> color h' = propagator" by (rule shades_color) blast
  have "color h = mutator \<sigma>" using h(2) u(2) roles_ne(3) [OF r] by (auto simp: shades_sel [OF s])
  then have "dark \<sigma> w" using t h(1) u(3-5) shades_kids(1) [OF s] unfolding tricolour_def by metis
  then show "dark \<sigma>' w" by (rule shades_dark [OF s])
qed

lemma same_shape_tmark: "same_shape t t' \<Longrightarrow> tmark t' = tmark t"
  by (metis Type.select_convs Type.surjective Type.update_convs(1) same_shape_def)

lemma markable_cong:
  assumes "\<And>t. same_shape (ty t) (ty' t)" "hs h' = hs h" "ht h' = ht h"
  shows "markable ty' h' = markable ty h"
  unfolding markable_def assms(2,3) using same_shape_tmark [OF assms(1)] by (simp split: option.splits)

lemma elemptrs_cong:
  assumes "mem \<sigma>' = mem \<sigma>" "\<And>t. same_shape (types \<sigma> t) (types \<sigma>' t)"
  shows "elemptrs \<sigma>' d e i = elemptrs \<sigma> d e i"
  using ptrs_at_shape [OF assms(2)] same_shape_sel [OF assms(2)] by (simp add: elemptrs_def assms(1))

lemma sliced_cong:
  assumes "mem \<sigma>' = mem \<sigma>" "\<And>t. same_shape (types \<sigma> t) (types \<sigma>' t)" "hs h' = hs h" "ht h' = ht h"
    "\<And>len e root d. ht h \<noteq> None \<Longrightarrow> hs h = SArray len e root d \<Longrightarrow> root \<noteq> H \<Longrightarrow> kids \<sigma>' root = kids \<sigma> root"
  shows "sliced \<sigma>' h' = sliced \<sigma> h"
  using assms(5) by (cases "hs h") (auto simp: sliced_def assms(3,4) elemptrs_cong [OF assms(1,2)])

lemma shades_collectable:
  assumes s: "shades g \<sigma> \<sigma>'" and n: "sweeper g \<noteq> propagator" and c: "collectable g \<sigma>"
  shows "collectable g \<sigma>'"
proof -
  have "markable (types \<sigma>') h' \<and> (if color h' = sweeper g then shaped (types \<sigma>') h' \<and> \<not> waited h' else sliced \<sigma>' h')"
    if u: "hp \<sigma>' u = Some h'" for u h'
  proof -
    from s u obtain h where h: "hp \<sigma> u = Some h" "hs h' = hs h" "ht h' = ht h"
      "color h' = color h \<or> color h' = propagator \<and> color h \<noteq> sweeper g" by (rule shades_color) blast
    have t: "same_shape (types \<sigma> t) (types \<sigma>' t)" for t by (simp add: shades_sel [OF s])
    have "markable (types \<sigma>') h' = markable (types \<sigma>) h" "shaped (types \<sigma>') h' = shaped (types \<sigma>) h" "waited h' = waited h"
      using markable_cong [OF t h(2,3)] shaped_cong [OF t h(2,3)] waited_cong [OF h(2)] .
    moreover have "sliced \<sigma>' h' = sliced \<sigma> h" by (rule sliced_cong [OF shades_sel(1) [OF s] t h(2,3)]) (rule shades_kids(1) [OF s])
    moreover have "(color h' = sweeper g) = (color h = sweeper g)" using h(4) n by auto
    ultimately show ?thesis using c h(1) by (simp add: collectable_def)
  qed
  moreover have "heapmem \<sigma>' = heapmem \<sigma>" using shades_sel [OF s] by simp
  ultimately show ?thesis using c by (simp add: collectable_def)
qed

lemma shades_gcheap:
  assumes s: "shades g \<sigma> \<sigma>'" and i: "gcheap X B T L M stk ps g \<sigma>"
  shows "gcheap X B T L M stk ps g \<sigma>'"
proof -
  note D = gcheapD [OF i]
  note n = roles_ne(2) [OF D(4)]
  have w: "swept g \<sigma>' = swept g \<sigma>" by (rule shades_swept [OF s n])
  have "counted B (swept g \<sigma>') (T + L) M \<sigma>'" unfolding w by (rule shades_counted [OF D(1) s])
  moreover have "(\<Sum>v\<in>swept g \<sigma>'. modkids \<sigma>' v) \<subseteq># M" using D(3) by (simp add: w shades_kids(2) [OF s])
  moreover have sp: "stackptrs g \<sigma>' stk ps = stackptrs g \<sigma> stk ps" by (simp add: stackptrs_def shades_roots [OF s] shades_sel [OF s])
  then have "pinned T g \<sigma>' stk ps" using D(7) by (simp add: pinned_def heldby_def shades_kids(1) [OF s] shades_roots(5) [OF s])
  moreover have "rooted g \<sigma>' stk ps" using D(6) by (simp add: shades_roots [OF s])
  ultimately show ?thesis unfolding gcheap_def
    using D(2) shades_roles [OF s D(4)] shades_tricolour [OF s D(4,5)] shades_collectable [OF s n D(8)] by blast
qed

lemma shades_lit: "shades g \<sigma> \<sigma>' \<Longrightarrow> lit g \<sigma> stk ps \<Longrightarrow> lit g \<sigma>' stk ps"
  using shades_dark by (simp add: lit_def shades_roots)

subsection \<open>Visiting a marked object\<close>

lemma blacken_gcheap:
  assumes i: "gcheap {} B T L M stk ps g \<sigma>" and h: "hp \<sigma> v = Some h" "color h = propagator"
    and s: "\<sigma>' = updobj v (\<lambda>h. h\<lparr>color := mutator \<sigma>\<rparr>) \<sigma>"
  shows "gcheap {v} B T L M stk ps g \<sigma>'" "lit g \<sigma>' stk ps = lit g \<sigma> stk ps"
proof -
  note D = gcheapD [OF i]
  note n = roles_ne [OF D(4)]
  have o: "hp \<sigma>' u = map_option (\<lambda>h. if u = v then h\<lparr>color := mutator \<sigma>\<rparr> else h) (hp \<sigma> u)" for u
    by (cases "u = v"; cases "hp \<sigma> u") (simp_all add: s h)
  have S: "mem \<sigma>' = mem \<sigma>" "types \<sigma>' = types \<sigma>" "mods \<sigma>' = mods \<sigma>" "modules \<sigma>' = modules \<sigma>" "progs \<sigma>' = progs \<sigma>" "phead \<sigma>' = phead \<sigma>"
    "heapmem \<sigma>' = heapmem \<sigma>" "gccolor \<sigma>' = gccolor \<sigma>" "mutator \<sigma>' = mutator \<sigma>" by (simp_all add: s updobj_def split: option.splits)
  have ml: "modlink \<sigma>' = modlink \<sigma>" by (auto simp: fun_eq_iff modlink_def o split: option.splits)
  note R = roots_cong [OF S(1-6) ml]
  have "u \<in> swept g \<sigma>' \<longleftrightarrow> u \<in> swept g \<sigma>" for u using n h by (cases "u = v") (auto simp: swept_def o)
  then have w: "swept g \<sigma>' = swept g \<sigma>" by blast
  have dk: "dark \<sigma>' u = dark \<sigma> u" for u using h by (cases "u = v") (auto simp: dark_def o S)
  have ag: "agree F \<sigma> \<sigma>'" for F
    by (auto simp: agree_def S lists_stay_def o dom_def option.rel_map option.rel_refl option.pred_set islist_upd)
  have k: "kids \<sigma>' u = kids \<sigma> u" "modkids \<sigma>' u = modkids \<sigma> u" for u using agree_kids [OF ag, of u "{}"] by simp_all
  have "refcount F \<sigma>' u = refcount F \<sigma> u" for F u by (simp add: refcount_def o split: option.splits)
  then have "counted B (swept g \<sigma>') (T + L) M \<sigma>'" unfolding w by (intro counted_same [OF D(1) ag]) (simp_all add: S)
  moreover have "(\<Sum>v\<in>swept g \<sigma>'. modkids \<sigma>' v) \<subseteq># M" using D(3) by (simp add: w k)
  moreover have "roles g \<sigma>'"
  proof -
    have "mutator \<sigma> \<in> {0, 1, 2, propagator} \<and> mutator \<sigma> \<noteq> (gccolor \<sigma> - 2) mod 3" using D(4) unfolding roles_def by (simp, presburger)
    moreover have "color h' = mutator \<sigma> \<or> (\<exists>h0. hp \<sigma> u = Some h0 \<and> color h' = color h0)" if "hp \<sigma>' u = Some h'" for u h'
      using that by (cases "u = v") (auto simp: o)
    ultimately show ?thesis using D(4) unfolding roles_def S by metis
  qed
  moreover have "tricolour {v} \<sigma>'"
    unfolding tricolour_def
  proof (intro allI impI ballI)
    fix u h' x assume u: "hp \<sigma>' u = Some h'" "color h' = mutator \<sigma>'" "u \<notin> {v}" "x \<in># kids \<sigma>' u" "x \<noteq> H"
    then have "hp \<sigma> u = Some h'" "color h' = mutator \<sigma>" by (simp_all add: o S split: option.splits)
    then show "dark \<sigma>' x" unfolding dk using D(5) u(4,5) k(1) [of u] unfolding tricolour_def by auto
  qed
  moreover have "pinned T g \<sigma>' stk ps" using D(7) by (simp add: pinned_def heldby_def stackptrs_def k R S)
  moreover have "rooted g \<sigma>' stk ps" using D(6) by (simp add: R)
  moreover have "collectable g \<sigma>'"
  proof -
    have "markable (types \<sigma>') h' \<and> (if color h' = sweeper g then shaped (types \<sigma>') h' \<and> \<not> waited h' else sliced \<sigma>' h')"
      if u: "hp \<sigma>' u = Some h'" for u h'
    proof -
      obtain h0 where h0: "hp \<sigma> u = Some h0" "hs h' = hs h0" "ht h' = ht h0" "(color h' = sweeper g) = (color h0 = sweeper g)"
        using u h n by (cases "u = v") (auto simp: o)
      have t: "same_shape (types \<sigma> t) (types \<sigma>' t)" for t by (simp add: S)
      have "sliced \<sigma>' h' = sliced \<sigma> h0" by (rule sliced_cong [OF S(1) t h0(2,3)]) (rule k(1))
      then show ?thesis using D(8) h0(1,4) markable_cong [OF t h0(2,3)] shaped_cong [OF t h0(2,3)] waited_cong [OF h0(2)]
        by (simp add: collectable_def)
    qed
    then show ?thesis using D(8) unfolding collectable_def S(7) by blast
  qed
  ultimately show "gcheap {v} B T L M stk ps g \<sigma>'" using D(2) unfolding gcheap_def by blast
  show "lit g \<sigma>' stk ps = lit g \<sigma> stk ps" by (simp add: lit_def R dk)
qed

lemma tricolour_scanned:
  assumes "tricolour {v} \<sigma>" "\<forall>u\<in>#kids \<sigma> v. u \<noteq> H \<longrightarrow> dark \<sigma> u"
  shows "tricolour {} \<sigma>"
  using assms unfolding tricolour_def by (metis singletonD)

lemma scan_ok:
  assumes i: "gcheap {} B T L M stk ps g \<sigma>" and h: "hp \<sigma> v = Some h" "color h = propagator"
    and s: "\<sigma>1 = updobj v (\<lambda>h. h\<lparr>color := mutator \<sigma>\<rparr>) \<sigma>"
  shows "\<exists>vis' \<sigma>'. callmark v vis \<sigma>1 = Some (vis', \<sigma>') \<and> vis' \<le> vis \<and> shades g \<sigma>1 \<sigma>' \<and> gcheap {} B T L M stk ps g \<sigma>' \<and>
    (lit g \<sigma> stk ps \<longrightarrow> lit g \<sigma>' stk ps)"
proof -
  have i1: "gcheap {v} B T L M stk ps g \<sigma>1" by (rule blacken_gcheap(1) [OF i h s])
  note D = gcheapD [OF i1]
  have h1: "hp \<sigma>1 v = Some (h\<lparr>color := mutator \<sigma>\<rparr>)" by (simp add: s h)
  have m: "mutator \<sigma>1 = mutator \<sigma>" by (simp add: s updobj_def split: option.splits)
  have n: "color (h\<lparr>color := mutator \<sigma>\<rparr>) \<noteq> sweeper g" using roles_ne(1) [OF D(4)] m by simp
  have "sliced \<sigma>1 (h\<lparr>color := mutator \<sigma>\<rparr>)" "markable (types \<sigma>1) (h\<lparr>color := mutator \<sigma>\<rparr>)"
    using D(8) h1 n unfolding collectable_def by metis+
  from callmark_ok [OF D(1) roles_ne(2) [OF D(4)] h1 n this, of vis] obtain vis' \<sigma>' where
    c: "callmark v vis \<sigma>1 = Some (vis', \<sigma>')" "vis' \<le> vis" "shades g \<sigma>1 \<sigma>'" "\<forall>u\<in>#kids \<sigma>1 v. u \<noteq> H \<longrightarrow> dark \<sigma>' u" by blast
  have i2: "gcheap {v} B T L M stk ps g \<sigma>'" by (rule shades_gcheap [OF c(3) i1])
  have "tricolour {} \<sigma>'" using gcheapD(5) [OF i2] c(4) by (intro tricolour_scanned) (simp_all add: shades_kids [OF c(3)])
  then have "gcheap {} B T L M stk ps g \<sigma>'" using i2 by (simp add: gcheap_def)
  moreover have "lit g \<sigma> stk ps \<longrightarrow> lit g \<sigma>' stk ps" using blacken_gcheap(2) [OF i h s] shades_lit [OF c(3)] by simp
  ultimately show ?thesis using c by blast
qed

subsection \<open>The end of an epoch\<close>

lemma counted_condemn:
  assumes c: "counted B {} (T + L) M \<sigma>"
    and T: "\<forall>u\<in>#T. u \<notin> F" and F: "F \<subseteq> dom (hp \<sigma>)" and H: "H \<notin> F"
    and m: "\<forall>m\<in>set (modules \<sigma>). morigmp (mods \<sigma> m) \<notin> F"
    and k: "\<forall>w h. hp \<sigma> w = Some h \<longrightarrow> w \<notin> F \<longrightarrow> (\<forall>u\<in>#kids \<sigma> w. u \<notin> F)"
    and L': "L' = filter_mset (\<lambda>u. u \<notin> F) (L + (\<Sum>v\<in>F. kids \<sigma> v))" and M': "M' = M + (\<Sum>v\<in>F. modkids \<sigma> v)"
  shows "counted B F (T + L') M' \<sigma>"
proof -
  have fin: "finite F" "finite (dom (hp \<sigma>))" by (rule finite_subset [of _ UNIV], simp_all)+
  have l: "live {} \<sigma> = live F \<sigma> \<union> F" "live F \<sigma> \<inter> F = {}" using F by (auto simp: live_def)
  have sum: "(\<Sum>w\<in>live {} \<sigma>. f w) = (\<Sum>w\<in>live F \<sigma>. f w) + (\<Sum>w\<in>F. f w)" for f :: "ptr \<Rightarrow> nat"
    unfolding l(1) by (rule sum.union_disjoint) (use fin l(2) in simp_all)
  have r: "refsto F (T + L') \<sigma> u = refcount F \<sigma> u" if u: "u \<noteq> H" for u
  proof (cases "u \<in> F")
    case False
    then have "count L' u = count L u + (\<Sum>w\<in>F. count (kids \<sigma> w) u)" by (simp add: L' count_sum)
    then have "refsto F (T + L') \<sigma> u = refsto {} (T + L) \<sigma> u" by (simp add: refsto_def sum)
    also have "\<dots> = refcount {} \<sigma> u" using c u by (simp add: counted_def)
    finally show ?thesis using False by (simp add: refcount_def split: option.splits)
  next
    case True
    have "count T u = 0" "count L' u = 0" using T True by (auto simp: L' not_in_iff [symmetric])
    moreover have "count (kids \<sigma> w) u = 0" if "w \<in> live F \<sigma>" for w
      using k that True by (auto simp: live_def not_in_iff [symmetric])
    moreover have "count (mset (map (\<lambda>m. morigmp (mods \<sigma> m)) (modules \<sigma>))) u = 0" using m True by (auto simp: not_in_iff [symmetric])
    ultimately have "refsto F (T + L') \<sigma> u = 0" by (simp add: refsto_def)
    then show ?thesis using True by (simp add: refcount_def split: option.splits)
  qed
  have mr: "modrefs F M' \<sigma> x = modrefs {} M \<sigma> x" for x by (simp add: modrefs_def sum M' count_sum)
  show ?thesis using c unfolding counted_def mr using r by simp
qed

lemma counted_nil: assumes "counted B F R M \<sigma>" shows "hp \<sigma> H = None"
proof (rule ccontr)
  assume "hp \<sigma> H \<noteq> None"
  then have b: "hblk H \<in> hblk ` dom (hp \<sigma>)" by blast
  have p: "pool_inv (heapmem \<sigma>) (hblk ` dom (hp \<sigma>))" using assms by (simp add: counted_def)
  have "uint H = 4294967295" by (simp add: H_def unsigned_minus_1_eq_mask mask_eq_exp_minus_1)
  then have "hblk H = 4294967275" unfolding hblk_def by linarith
  then show False using pool_inv_range(2,3) [OF p b] by simp
qed

lemma epoch_colour:
  assumes r: "roles g \<sigma>" and h: "hp \<sigma> u = Some h" "color h \<noteq> sweeper g" "color h \<noteq> propagator"
  shows "color h = mutator \<sigma> \<or> color h = (gccolor \<sigma> - 1) mod 3"
proof -
  have "color h = 0 \<or> color h = 1 \<or> color h = 2" using r h(1,3) unfolding roles_def by blast
  moreover have "mutator \<sigma> = gccolor \<sigma> mod 3"
    "sweeper g = (gccolor \<sigma> - 2) mod 3 \<or> sweeper g = (gccolor \<sigma> - 1) mod 3 \<and> color h \<noteq> (gccolor \<sigma> - 2) mod 3"
    using r h(1) unfolding roles_def by blast+
  ultimately show ?thesis using h(2) by presburger
qed

lemma epoch_condemn:
  assumes i: "gcheap {} B T L M stk ps g \<sigma>" and lt: "lit g \<sigma> stk ps"
    and cl: "\<forall>u h. hp \<sigma> u = Some h \<longrightarrow> color h \<noteq> sweeper g \<and> color h \<noteq> propagator"
    and F: "F = {u. \<exists>h. hp \<sigma> u = Some h \<and> color h = (gccolor \<sigma> - 1) mod 3}"
  shows "counted B F (T + filter_mset (\<lambda>u. u \<notin> F) (L + (\<Sum>v\<in>F. kids \<sigma> v))) (M + (\<Sum>v\<in>F. modkids \<sigma> v)) \<sigma>"
    "\<And>u. u \<in> set (rootptrs g \<sigma> stk ps) \<Longrightarrow> u \<notin> F" "\<And>u. u \<in># T \<Longrightarrow> u \<notin> F"
proof -
  note D = gcheapD [OF i]
  have nil: "hp \<sigma> H = None" by (rule counted_nil [OF D(1)])
  have HF: "H \<notin> F" using nil by (simp add: F)
  have ne: "mutator \<sigma> \<noteq> (gccolor \<sigma> - 1) mod 3" using D(4) unfolding roles_def by presburger
  have dk: "u \<notin> F" if "dark \<sigma> u" for u
    using that cl ne by (auto simp: dark_def F)
  show R: "u \<notin> F" if "u \<in> set (rootptrs g \<sigma> stk ps)" for u
    using lt that dk HF unfolding lit_def by metis
  show T: "u \<notin> F" if u: "u \<in># T" for u
  proof (cases "u = H")
    case False
    then have "u \<in> set (stackptrs g \<sigma> stk ps)" using D(7) u by (simp add: pinned_def)
    then show ?thesis by (intro R) (simp add: set_rootptrs)
  qed (simp add: HF)
  have "swept g \<sigma> = {}" using cl by (auto simp: swept_def)
  then have c: "counted B {} (T + L) M \<sigma>" using D(1) by simp
  have k: "\<forall>w h. hp \<sigma> w = Some h \<longrightarrow> w \<notin> F \<longrightarrow> (\<forall>u\<in>#kids \<sigma> w. u \<notin> F)"
  proof (intro allI impI ballI)
    fix w h u assume w: "hp \<sigma> w = Some h" "w \<notin> F" "u \<in># kids \<sigma> w"
    have "color h = mutator \<sigma>" using epoch_colour [OF D(4) w(1)] cl w(1,2) by (auto simp: F)
    then have "u = H \<or> dark \<sigma> u" using D(5) w(1,3) by (auto simp: tricolour_def)
    then show "u \<notin> F" using dk HF by blast
  qed
  show "counted B F (T + filter_mset (\<lambda>u. u \<notin> F) (L + (\<Sum>v\<in>F. kids \<sigma> v))) (M + (\<Sum>v\<in>F. modkids \<sigma> v)) \<sigma>"
    by (rule counted_condemn [OF c _ _ HF _ k refl refl]) (use T R in \<open>auto simp: set_rootptrs F\<close>)
qed

text \<open>The machine as the collector leaves it: no object is new and none has a new structure.\<close>

definition evolves :: "vm \<Rightarrow> vm \<Rightarrow> bool" where
  "evolves \<sigma> \<sigma>' \<longleftrightarrow> mem \<sigma>' = mem \<sigma> \<and> regs \<sigma>' = regs \<sigma> \<and> progs \<sigma>' = progs \<sigma> \<and> phead \<sigma>' = phead \<sigma> \<and> gchalt \<sigma>' = gchalt \<sigma> \<and>
     (\<forall>t. same_shape (types \<sigma> t) (types \<sigma>' t)) \<and>
     (\<forall>u h'. hp \<sigma>' u = Some h' \<longrightarrow> (\<exists>h. hp \<sigma> u = Some h \<and> hs h' = hs h \<and> ht h' = ht h))"

lemma evolves_refl [simp]: "evolves \<sigma> \<sigma>"
  by (simp add: evolves_def)

lemma evolves_gone: "evolves \<sigma> \<sigma>' \<Longrightarrow> hp \<sigma> v = None \<Longrightarrow> hp \<sigma>' v = None"
  unfolding evolves_def by (metis not_None_eq)

lemma evolves_trans: "evolves \<sigma> \<sigma>1 \<Longrightarrow> evolves \<sigma>1 \<sigma>2 \<Longrightarrow> evolves \<sigma> \<sigma>2"
proof -
  assume a: "evolves \<sigma> \<sigma>1" "evolves \<sigma>1 \<sigma>2"
  have "same_shape (types \<sigma> t) (types \<sigma>2 t)" for t using a same_shape_trans unfolding evolves_def by blast
  moreover have "\<exists>h. hp \<sigma> u = Some h \<and> hs h' = hs h \<and> ht h' = ht h" if "hp \<sigma>2 u = Some h'" for u h'
    using a that unfolding evolves_def by fastforce
  ultimately show ?thesis using a unfolding evolves_def by simp
qed

lemma shades_evolves: "shades g \<sigma> \<sigma>' \<Longrightarrow> evolves \<sigma> \<sigma>'"
  unfolding evolves_def by (auto simp: shades_sel elim: shades_color)

lemma evolves_paint [simp]:
  "evolves \<sigma> (\<sigma>\<lparr>gccolor := c\<rparr>)" "evolves \<sigma> (\<sigma>\<lparr>mutator := c\<rparr>)" "evolves \<sigma> (\<sigma>\<lparr>nprop := n\<rparr>)"
  by (simp_all add: evolves_def regs_def)

lemma evolves_updobj [simp]: "evolves \<sigma> (updobj v (\<lambda>h. h\<lparr>color := c\<rparr>) \<sigma>)"
  by (auto simp: evolves_def) (simp add: updobj_def)

lemma epoch_ok:
  assumes i: "gcheap {} B T L M stk ps g \<sigma>" and lt: "lit g \<sigma> stk ps"
    and cl: "\<forall>u h. hp \<sigma> u = Some h \<longrightarrow> color h \<noteq> sweeper g \<and> color h \<noteq> propagator"
  shows "\<exists>g' \<sigma>' L' M'. rootset (phead \<sigma>) g (\<sigma>\<lparr>gccolor := gccolor \<sigma> + 1\<rparr>) = Some (g', \<sigma>') \<and> gcheap {} B T L' M' stk ps g' \<sigma>' \<and>
    lit g' \<sigma>' stk ps \<and> evolves \<sigma> \<sigma>' \<and> gbase g' = gbase g \<and> gccolor \<sigma>' = gccolor \<sigma> + 1"
proof -
  define s where "s = \<sigma>\<lparr>gccolor := gccolor \<sigma> + 1\<rparr>"
  define s1 where "s1 = s\<lparr>mutator := gccolor s mod 3\<rparr>"
  define g' where "g' = g\<lparr>marker := (gccolor s - 1) mod 3, sweeper := (gccolor s - 2) mod 3\<rparr>"
  define F where "F = {u. \<exists>h. hp \<sigma> u = Some h \<and> color h = (gccolor \<sigma> - 1) mod 3}"
  let ?L = "filter_mset (\<lambda>u. u \<notin> F) (L + (\<Sum>v\<in>F. kids \<sigma> v))" and ?M = "M + (\<Sum>v\<in>F. modkids \<sigma> v)"
  note D = gcheapD [OF i]
  note E = epoch_condemn [OF i lt cl F_def]
  have S: "mem s = mem \<sigma>" "types s = types \<sigma>" "mods s = mods \<sigma>" "modules s = modules \<sigma>" "progs s = progs \<sigma>" "phead s = phead \<sigma>" "hp s = hp \<sigma>"
    "gccolor s = gccolor \<sigma> + 1" by (simp_all add: s_def)
  have S1: "mem s1 = mem \<sigma>" "types s1 = types \<sigma>" "mods s1 = mods \<sigma>" "modules s1 = modules \<sigma>" "progs s1 = progs \<sigma>" "phead s1 = phead \<sigma>"
    "hp s1 = hp \<sigma>" "heapmem s1 = heapmem \<sigma>" "mutator s1 = (gccolor \<sigma> + 1) mod 3" "gccolor s1 = gccolor \<sigma> + 1" by (simp_all add: s_def s1_def)
  have G: "sweeper g' = (gccolor \<sigma> - 1) mod 3" "ptrtab g' = ptrtab g" "gbase g' = gbase g" by (simp_all add: g'_def S)
  have ml: "modlink s1 = modlink \<sigma>" "modlink s = modlink \<sigma>" by (simp_all add: fun_eq_iff modlink_def S S1)
  note R = roots_cong [OF S(1-6) ml(2)] and R1 = roots_cong [OF S1(1-6) ml(1)]
  have k: "kids s1 = kids \<sigma>" "modkids s1 = modkids \<sigma>" by (simp_all add: fun_eq_iff kids_def modkids_def S1 split: option.splits)
  have w: "swept g' s1 = F" by (simp add: swept_def F_def S1 G)
  have c: "counted B F (T + ?L) ?M s1"
    by (rule counted_same [OF E(1) agree_refl_hp]) (simp_all add: refcount_def S1)
  have ro: "roles g' s1" using D(4) unfolding roles_def S1 G by simp
  have tr: "tricolour {} s1"
    unfolding tricolour_def S1
  proof (intro allI impI ballI)
    fix u h x assume u: "hp \<sigma> u = Some h" "color h = (gccolor \<sigma> + 1) mod 3"
    have "color h = mutator \<sigma> \<or> color h = (gccolor \<sigma> - 1) mod 3" using epoch_colour [OF D(4)] u(1) cl by blast
    moreover have "mutator \<sigma> = gccolor \<sigma> mod 3" using D(4) unfolding roles_def by blast
    ultimately have False using u(2) by presburger
    then show "dark s1 x" ..
  qed
  have rd: "rooted g' s1 stk ps" "rooted g s stk ps" using D(6) unfolding R R1 by (simp_all add: rooted_def G)
  have sp: "stackptrs g' s1 stk ps = stackptrs g \<sigma> stk ps" by (simp add: stackptrs_def R1 S1 G)
  have pn: "pinned T g' s1 stk ps" using D(7) unfolding pinned_def sp heldby_def k R1 .
  have co: "collectable g' s1"
  proof -
    have "markable (types s1) h \<and> (if color h = sweeper g' then shaped (types s1) h \<and> \<not> waited h else sliced s1 h)"
      if u: "hp s1 u = Some h" for u h
    proof -
      have s: "sliced s1 h = sliced \<sigma> h" by (rule sliced_cong) (simp_all add: k S1)
      have u0: "hp \<sigma> u = Some h" "color h \<noteq> sweeper g" using u cl by (simp_all add: S1)
      have c0: "markable (types \<sigma>) h" "sliced \<sigma> h" using D(8) u0 unfolding collectable_def by auto
      have "swept g \<sigma> = {}" using cl by (auto simp: swept_def)
      then have "shaped (types \<sigma>) h \<and> (waited h \<longrightarrow> u \<in># B)" using D(1) u0 unfolding counted_def by auto
      moreover have "u \<in># B \<Longrightarrow> u \<notin> F" using E(3) D(2) by (meson mset_subset_eqD)
      ultimately show ?thesis using c0 s u0 by (auto simp: F_def S1 G)
    qed
    then show ?thesis using D(8) unfolding collectable_def S1(8) by blast
  qed
  have gh: "gcheap {} B T ?L ?M stk ps g' s1"
    unfolding gcheap_def w k using c D(2) ro tr rd pn co by simp
  have n: "(gccolor s - 2) mod 3 \<noteq> propagator" unfolding propagator_def by presburger
  have okr: "\<forall>u\<in>set (rootptrs g s stk ps). okp g' s u"
  proof
    fix u assume "u \<in> set (rootptrs g s stk ps)"
    then have u: "u \<in> set (rootptrs g \<sigma> stk ps)" by (simp add: R)
    then have "u = H \<or> dark \<sigma> u" using lt unfolding lit_def by blast
    with E(2) [OF u] show "okp g' s u" by (auto simp: okp_def dark_def F_def S G)
  qed
  from rootset_ok [OF n rd(2) okr [unfolded g'_def] g'_def s1_def] obtain \<sigma>' where
    s': "rootset (phead s) g s = Some (g', \<sigma>')" "shades g' s1 \<sigma>'" "\<forall>u\<in>set (rootptrs g s stk ps). u \<noteq> H \<longrightarrow> dark \<sigma>' u" by blast
  have "rootptrs g' \<sigma>' stk ps = rootptrs g \<sigma> stk ps" unfolding shades_roots(4) [OF s'(2)] R1 by (simp add: rootptrs_def G)
  then have "lit g' \<sigma>' stk ps" using s'(3) by (simp add: lit_def R)
  moreover have "gcheap {} B T ?L ?M stk ps g' \<sigma>'" by (rule shades_gcheap [OF s'(2) gh])
  moreover have "evolves \<sigma> s1" unfolding s1_def by (rule evolves_trans [of _ s]) (simp_all add: s_def)
  then have "evolves \<sigma> \<sigma>'" using shades_evolves [OF s'(2)] by (rule evolves_trans)
  moreover have "rootset (phead \<sigma>) g s = Some (g', \<sigma>')" using s'(1) by (simp add: S)
  moreover have "gccolor \<sigma>' = gccolor \<sigma> + 1" using shades_sel(8) [OF s'(2)] S1(10) by simp
  ultimately show ?thesis using G(3) unfolding s_def by blast
qed

subsection \<open>Sweeping\<close>

lemma freechan_swept:
  assumes h: "hp \<sigma> v = Some h" "hs h = SChan ch" "\<not> waited h"
  shows "freechan D v True \<sigma> = Some (if mover ch = mv_movtmp then freetype (Some (midt ch)) \<sigma> else \<sigma>)"
proof -
  have w: "send ch = []" "recv ch = []" "sendalt ch = None" "recvalt ch = None"
    using h(2,3) by (simp_all add: waited_def)
  define s1 where "s1 = (if mover ch = mv_movtmp then freetype (Some (midt ch)) \<sigma> else \<sigma>)"
  have c0: "getchan \<sigma> v = Some ch" using h by (simp add: getchan_def)
  have c1: "getchan s1 v = Some ch" using h by (simp add: getchan_def s1_def)
  have u: "updchan v (\<lambda>ch. ch\<lparr>recv := []\<rparr>) s1 = s1" "updchan v (\<lambda>ch. ch\<lparr>send := []\<rparr>) s1 = s1"
    by (rule updchan_id [OF c1], use w in simp)+
  show ?thesis
    unfolding freechan_def c0 option.case s1_def [symmetric] w Let_def altgone_opt_def bind.simps c1 killcomm_def foldO.simps u
    by simp
qed

context releasing
begin

lemma callfree_swept:
  assumes c: "counted B (insert v F) R (M + modkids \<sigma> v) \<sigma>" and b: "B \<subseteq># R" and g: "g \<le> gchalt \<sigma>"
    and h: "hp \<sigma> v = Some h" "ht h = Some t" and s: "shaped (types \<sigma>) h" "\<not> waited h" and v: "v \<notin> F"
  shows "\<exists>\<sigma>'. callfree (tfree (types \<sigma> t)) D v True \<sigma> = Some \<sigma>' \<and> counted B (insert v F) R M \<sigma>' \<and> kept F {v} \<sigma> \<sigma>' \<and> v \<in> dom (hp \<sigma>')"
proof (cases "\<exists>st. hs h = SString st")
  case True
  then show ?thesis using freestring_counted [OF _ v h(1)] c s(1) by (auto simp: shaped_def h callfree_def modkids_def)
next
  case False
  have "\<exists>\<sigma>'. callfree (tfree (types \<sigma> t)) D v True \<sigma> = Some \<sigma>' \<and> counted B (insert v F) R M \<sigma>' \<and> kept (insert v F) {} \<sigma> \<sigma>'"
  proof (cases "hs h")
    case (SList nx e)
    then show ?thesis using c s(1) by (cases e) (auto simp: shaped_def h callfree_def modkids_def freelist_def freecell_def)
  next
    case (SModlink MP m cp lks)
    then have "counted B (insert v F) R (add_mset m M) \<sigma>" using c by (simp add: modkids_def h)
    from unload_ok [OF this b g] SModlink show ?thesis using s(1) by (auto simp: shaped_def h callfree_def freemodlink_def)
  next
    case (SChan ch)
    then show ?thesis using c s freechan_swept [OF h(1) SChan s(2)] by (auto simp: shaped_def h callfree_def modkids_def)
  qed (use False c s(1) in \<open>auto simp: shaped_def h callfree_def modkids_def freeheap_def freearray_def\<close>)
  then obtain \<sigma>' where 1: "callfree (tfree (types \<sigma> t)) D v True \<sigma> = Some \<sigma>'" "counted B (insert v F) R M \<sigma>'" "kept (insert v F) {} \<sigma> \<sigma>'" by blast
  have "kept F {v} \<sigma> \<sigma>'" using kept_trans [OF 1(3) kept_refl [of F "{}"]] by auto
  moreover have "v \<in> dom (hp \<sigma>')" using kept_sel(4) [OF 1(3), of v] h(1) by auto
  ultimately show ?thesis using 1(1,2) by blast
qed

end

lemma sweep_ok:
  assumes c: "counted B (insert v F) R (M + modkids \<sigma> v) \<sigma>" and b: "B \<subseteq># R"
    and h: "hp \<sigma> v = Some h" and s: "shaped (types \<sigma>) h" "\<not> waited h" and v: "v \<notin> F"
  shows "\<exists>\<sigma>'. sweep v \<sigma> = Some \<sigma>' \<and> hp \<sigma>' v = None \<and> counted B F R M \<sigma>' \<and> kept F {} \<sigma> \<sigma>'"
proof (cases "ht h")
  case None
  then have c': "counted B (insert v F) R M \<sigma>" using c by (simp add: modkids_def h)
  obtain P where P: "heapfree v \<sigma> = Some (\<sigma>\<lparr>hp := (hp \<sigma>)(v := None), heapmem := P\<rparr>)" "pool_inv P (hblk ` (dom (hp \<sigma>) - {v}))"
    "samechunks (heapmem \<sigma>) P" by (rule heapfree_ok [OF c' h])
  then show ?thesis using counted_leave [OF c' v P(2)] kept_heapfree [OF v P(3), of "{}"] None by (simp add: sweep_def h)
next
  case (Some t)
  have "modkids (gclock \<sigma>) v = modkids \<sigma> v" by (simp add: modkids_def h)
  then have "counted B (insert v F) R (M + modkids (gclock \<sigma>) v) (gclock \<sigma>)" using c by simp
  from dis_heap.callfree_swept [OF this b order_refl _ Some _ _ v] obtain \<sigma>2 where
    2: "callfree (tfree (types \<sigma> t)) destroy v True (gclock \<sigma>) = Some \<sigma>2" "counted B (insert v F) R M \<sigma>2" "kept F {v} (gclock \<sigma>) \<sigma>2" "v \<in> dom (hp \<sigma>2)"
    using h s by auto
  from leave_block [OF 2(2-4) v, of t] show ?thesis by (simp add: sweep_def h Some 2(1))
qed

lemma framelist_shape:
  assumes "\<And>t. tsize (ty' t) = tsize (ty t)" "framelist m ty sx sp fp fs"
  shows "framelist m ty' sx sp fp fs"
  using assms(2) by induction (auto intro: framelist.intros simp: assms(1) [symmetric])

lemma stacklist_shape:
  assumes "\<And>t. tsize (ty' t) = tsize (ty t)" "stacklist m ty ex sp fs"
  shows "stacklist m ty' ex sp fs"
  using assms(2) by induction (auto intro: stacklist.intros framelist_shape [OF assms(1)])

lemma counted_module:
  assumes "counted B F R M \<sigma>" "m \<in> set (modules \<sigma>)" "morigmp (mods \<sigma> m) \<noteq> H"
  shows "\<exists>h. hp \<sigma> (morigmp (mods \<sigma> m)) = Some h \<and> morigmp (mods \<sigma> m) \<notin> F"
proof -
  let ?u = "morigmp (mods \<sigma> m)"
  have "?u \<in># mset (map (\<lambda>m. morigmp (mods \<sigma> m)) (modules \<sigma>))" using assms(2) by auto
  then have "0 < refsto F R \<sigma> ?u" unfolding refsto_def by (simp only: count_greater_zero_iff [symmetric])
  then have "0 < refcount F \<sigma> ?u" using assms(1,3) by (simp add: counted_def)
  then show ?thesis by (simp add: refcount_def split: option.splits if_splits)
qed

lemma counted_heldby:
  assumes c: "counted B F (T + L) M \<sigma>" and u: "heldby T \<sigma> u" "u \<noteq> H"
  shows "\<exists>h. hp \<sigma> u = Some h \<and> u \<notin> F"
proof -
  have T: "\<exists>h. hp \<sigma> w = Some h \<and> w \<notin> F" if "w \<in># T" "w \<noteq> H" for w
    by (rule counted_held [OF c]) (use that in auto)
  show ?thesis using u T counted_kid [OF c] unfolding heldby_def islink_def by metis
qed

text \<open>
  When a condemned object is freed the others stay as they are, but for objects a module that is unloaded with it
  held the last reference to.
\<close>

lemma kept_obj:
  assumes "kept F {} \<sigma> \<sigma>'" "hp \<sigma>' u = Some h'"
  obtains h where "hp \<sigma> u = Some h" "hs h' = hs h" "ht h' = ht h" "color h' = color h"
proof -
  obtain h where h: "hp \<sigma> u = Some h" "h' = h\<lparr>href := href h'\<rparr>" using kept_objD [OF assms] by blast
  have "hs h' = hs h" "ht h' = ht h" "color h' = color h" by (subst h(2), simp)+
  with h(1) show ?thesis using that by blast
qed

lemma kept_stays:
  assumes k: "kept F {} \<sigma> \<sigma>'" and h: "hp \<sigma>' u = Some h'"
  shows "kids \<sigma>' u = kids \<sigma> u" "modkids \<sigma>' u = modkids \<sigma> u" "modlink \<sigma>' u = modlink \<sigma> u" "dark \<sigma>' u = dark \<sigma> u"
    "linkptrs \<sigma>' u = linkptrs \<sigma> u" "islink \<sigma>' u = islink \<sigma> u"
proof -
  obtain h0 where o: "hp \<sigma> u = Some h0" "hs h' = hs h0" "ht h' = ht h0" "color h' = color h0" by (rule kept_obj [OF k h])
  have t: "same_shape (types \<sigma> t) (types \<sigma>' t)" for t using k by (simp add: kept_def)
  have m: "mem \<sigma>' = mem \<sigma>" "mutator \<sigma>' = mutator \<sigma>" using k by (simp_all add: kept_def samegc_def)
  show "kids \<sigma>' u = kids \<sigma> u" by (simp add: kids_def h o(1) m kids_of_cong [OF t o(2,3)])
  show "modkids \<sigma>' u = modkids \<sigma> u" by (simp add: modkids_def h o split: option.splits)
  show l: "modlink \<sigma>' u = modlink \<sigma> u" by (simp add: modlink_def h o)
  show "dark \<sigma>' u = dark \<sigma> u" by (simp add: dark_def h o m)
  show "linkptrs \<sigma>' u = linkptrs \<sigma> u" "islink \<sigma>' u = islink \<sigma> u" by (simp_all add: linkptrs_def islink_def l)
qed

lemma kept_evolves: "kept F {} \<sigma> \<sigma>' \<Longrightarrow> evolves \<sigma> \<sigma>'"
proof -
  assume k: "kept F {} \<sigma> \<sigma>'"
  have "\<exists>h. hp \<sigma> u = Some h \<and> hs h' = hs h \<and> ht h' = ht h" if "hp \<sigma>' u = Some h'" for u h'
    by (rule kept_obj [OF k that]) blast
  then show ?thesis using k unfolding evolves_def kept_def samegc_def by blast
qed

lemma kept_swept:
  assumes k: "kept (swept g \<sigma> - {v}) {} \<sigma> \<sigma>'" and v: "hp \<sigma>' v = None"
  shows "swept g \<sigma>' = swept g \<sigma> - {v}"
proof (intro set_eqI iffI)
  fix u assume "u \<in> swept g \<sigma>'"
  then obtain h' where h: "hp \<sigma>' u = Some h'" "color h' = sweeper g" by (auto simp: swept_def)
  obtain h0 where "hp \<sigma> u = Some h0" "color h' = color h0" by (rule kept_obj [OF k h(1)])
  then show "u \<in> swept g \<sigma> - {v}" using h v by (auto simp: swept_def)
next
  fix u assume "u \<in> swept g \<sigma> - {v}"
  moreover from this have "hp \<sigma>' u = hp \<sigma> u" by (rule kept_sel(4) [OF k])
  ultimately show "u \<in> swept g \<sigma>'" by (simp add: swept_def)
qed

lemma kept_progptrs:
  assumes k: "kept F {} \<sigma> \<sigma>'" and pr: "islink \<sigma> (pR_M pr)" "\<forall>x\<in>set fs. goodframe \<sigma> x"
    and ex: "\<forall>u\<in>set (progptrs \<sigma> fs pr). u \<noteq> H \<longrightarrow> hp \<sigma>' u \<noteq> None"
  shows "progptrs \<sigma>' fs pr = progptrs \<sigma> fs pr" "islink \<sigma>' (pR_M pr)" "\<forall>x\<in>set fs. goodframe \<sigma>' x"
proof -
  have m: "mem \<sigma>' = mem \<sigma>" and t: "\<And>t. same_shape (types \<sigma> t) (types \<sigma>' t)" using k by (simp_all add: kept_def)
  have self: "ml \<in> set (linkptrs \<sigma> ml)" for ml by (simp add: linkptrs_def split: option.splits)
  have l: "linkptrs \<sigma>' ml = linkptrs \<sigma> ml \<and> islink \<sigma>' ml" if "islink \<sigma> ml" "ml \<in> set (progptrs \<sigma> fs pr)" for ml
    using ex that kept_stays(5,6) [OF k, of ml] by (auto simp: islink_def)
  have M: "linkptrs \<sigma>' (pR_M pr) = linkptrs \<sigma> (pR_M pr) \<and> islink \<sigma>' (pR_M pr)"
    by (rule l [OF pr(1)]) (use self in \<open>simp add: progptrs_def\<close>)
  have f: "frptrs \<sigma>' x = frptrs \<sigma> x \<and> goodframe \<sigma>' x" if x: "x \<in> set fs" for x
  proof -
    let ?mr = "fr_mr (mem \<sigma>) (fst x)"
    have "linkptrs \<sigma>' ?mr = linkptrs \<sigma> ?mr \<and> islink \<sigma>' ?mr" if "?mr \<noteq> 0"
      by (rule l) (use pr(2) x that self in \<open>auto simp: goodframe_def progptrs_def frptrs_def\<close>)
    then show ?thesis using pr(2) x same_shape_sel [OF t] same_shape_tmark [OF t] by (simp add: frptrs_def goodframe_def m)
  qed
  show "progptrs \<sigma>' fs pr = progptrs \<sigma> fs pr" using M f by (simp add: progptrs_def cong: map_cong)
  show "islink \<sigma>' (pR_M pr)" "\<forall>x\<in>set fs. goodframe \<sigma>' x" using M f by blast+
qed

end
