(* ===== verification/Gc_Pass.thy ===== *)
theory Gc_Pass
  imports Gc_Inv
begin

text \<open>
  A slice of the collector: the walk over the chunks and blocks of the pool, which stays on blocks although freeing joins
  them, the loop of \<^verbatim>\<open>rungc\<close> and its end. The objects behind the walk are \<open>clean\<close>, so that a pass that ends
  with nothing to propagate has freed all that was condemned.
\<close>

lemma kept_roots:
  assumes i: "gcheap {} B T L M stk ps g \<sigma>" and k: "kept F {} \<sigma> \<sigma>'" and c: "counted B F' (T + L') M' \<sigma>'"
  shows "rooted g \<sigma>' stk ps" "stackptrs g \<sigma>' stk ps = stackptrs g \<sigma> stk ps" "pinned T g \<sigma>' stk ps"
    "\<And>u. u \<in> set (stackptrs g \<sigma> stk ps) \<Longrightarrow> u \<noteq> H \<Longrightarrow> hp \<sigma>' u \<noteq> None"
proof -
  note D = gcheapD [OF i]
  have S: "progs \<sigma>' = progs \<sigma>" "mem \<sigma>' = mem \<sigma>" "phead \<sigma>' = phead \<sigma>" "\<And>t. tsize (types \<sigma>' t) = tsize (types \<sigma> t)"
    using k kept_types [OF k] by (simp_all add: kept_def samegc_def)
  have TT: "hp \<sigma>' w \<noteq> None" if "w \<in># T" "w \<noteq> H" for w
    by (rule counted_held [OF c, of w]) (use that in auto)
  have ks: "kids \<sigma>' w = kids \<sigma> w" "modlink \<sigma>' w = modlink \<sigma> w" if "w \<in># T" "w \<noteq> H" for w
    using TT [OF that] kept_stays(1,3) [OF k] by blast+
  have hb: "heldby T \<sigma>' u = heldby T \<sigma> u" for u using ks by (auto simp: heldby_def islink_def)
  have ex: "hp \<sigma>' u \<noteq> None" if "u \<in> set (stackptrs g \<sigma> stk ps)" "u \<noteq> H" for u
    using D(7) that counted_heldby [OF c, of u] unfolding pinned_def hb by blast
  then show "\<And>u. u \<in> set (stackptrs g \<sigma> stk ps) \<Longrightarrow> u \<noteq> H \<Longrightarrow> hp \<sigma>' u \<noteq> None" .
  have pp: "\<exists>pr. progs \<sigma> p = Some pr \<and> progptrs \<sigma>' (stk p) pr = progptrs \<sigma> (stk p) pr \<and> islink \<sigma>' (pR_M pr) \<and>
     (\<forall>x\<in>set (stk p). goodframe \<sigma>' x) \<and> stacklist (mem \<sigma>) (types \<sigma>) (pR_EX pr) (pR_SP pr) (stk p)" if p: "p \<in> set ps" for p
  proof -
    obtain pr where pr: "progs \<sigma> p = Some pr" "islink \<sigma> (pR_M pr)" "stacklist (mem \<sigma>) (types \<sigma>) (pR_EX pr) (pR_SP pr) (stk p)"
      "\<forall>x\<in>set (stk p). goodframe \<sigma> x" using D(6) p unfolding rooted_def by blast
    have "\<forall>u\<in>set (progptrs \<sigma> (stk p) pr). u \<noteq> H \<longrightarrow> hp \<sigma>' u \<noteq> None"
      using p pr(1) by (intro ballI impI ex) (auto simp: stackptrs_def intro!: bexI [of _ p])
    from kept_progptrs [OF k pr(2,4) this] pr show ?thesis by blast
  qed
  show sp: "stackptrs g \<sigma>' stk ps = stackptrs g \<sigma> stk ps"
  proof -
    have "map (\<lambda>p. progptrs \<sigma>' (stk p) (the (progs \<sigma> p))) ps = map (\<lambda>p. progptrs \<sigma> (stk p) (the (progs \<sigma> p))) ps"
      using pp by (intro map_cong [OF refl]) fastforce
    then show ?thesis unfolding stackptrs_def S by (simp only:)
  qed
  show "pinned T g \<sigma>' stk ps" using D(7) unfolding pinned_def sp hb .
  show "rooted g \<sigma>' stk ps"
    using D(6) pp stacklist_shape [of "types \<sigma>'" "types \<sigma>", OF S(4)] unfolding rooted_def S by blast
qed

lemma kept_lit:
  assumes i: "gcheap {} B T L M stk ps g \<sigma>" and lt: "lit g \<sigma> stk ps" and k: "kept F {} \<sigma> \<sigma>'" and c: "counted B F' (T + L') M' \<sigma>'"
  shows "lit g \<sigma>' stk ps"
  unfolding lit_def
proof (intro ballI impI)
  fix u assume u: "u \<in> set (rootptrs g \<sigma>' stk ps)" "u \<noteq> H"
  have m: "\<And>m. morigmp (mods \<sigma>' m) = morigmp (mods \<sigma> m)" "set (modules \<sigma>') \<subseteq> set (modules \<sigma>)" using k by (simp_all add: kept_def samegc_def)
  have "hp \<sigma>' u \<noteq> None \<and> u \<in> set (rootptrs g \<sigma> stk ps)"
  proof (cases "u \<in> set (stackptrs g \<sigma> stk ps)")
    case True
    then show ?thesis using kept_roots(4) [OF i k c _ u(2)] by (simp add: set_rootptrs)
  next
    case False
    then obtain x where x: "x \<in> set (modules \<sigma>')" "u = morigmp (mods \<sigma>' x)"
      using u(1) kept_roots(2) [OF i k c] by (auto simp: set_rootptrs)
    then have "hp \<sigma>' u \<noteq> None" using counted_module [OF c] u(2) by auto
    moreover have "u \<in> set (rootptrs g \<sigma> stk ps)" using x m by (auto simp: set_rootptrs)
    ultimately show ?thesis ..
  qed
  moreover have "dark \<sigma> u" if "u \<in> set (rootptrs g \<sigma> stk ps)" using lt that u(2) unfolding lit_def by blast
  ultimately show "dark \<sigma>' u" using kept_stays(4) [OF k] by blast
qed

lemma kept_gcheap:
  assumes i: "gcheap {} B T L M stk ps g \<sigma>" and k: "kept (swept g \<sigma> - {v}) {} \<sigma> \<sigma>'" and v: "hp \<sigma>' v = None"
    and c: "counted B (swept g \<sigma> - {v}) (T + L') M' \<sigma>'" and m: "(\<Sum>u\<in>swept g \<sigma> - {v}. modkids \<sigma> u) \<subseteq># M'"
  shows "gcheap {} B T L' M' stk ps g \<sigma>'"
proof -
  note D = gcheapD [OF i]
  have w: "swept g \<sigma>' = swept g \<sigma> - {v}" by (rule kept_swept [OF k v])
  have t: "same_shape (types \<sigma> t) (types \<sigma>' t)" for t using k by (simp add: kept_def)
  have S: "mem \<sigma>' = mem \<sigma>" "mutator \<sigma>' = mutator \<sigma>" "gccolor \<sigma>' = gccolor \<sigma>" "chain (heapmem \<sigma>') = chain (heapmem \<sigma>)"
    "\<And>b. magic (heapmem \<sigma>') b = MAGIC_I \<Longrightarrow> magic (heapmem \<sigma>) b = MAGIC_I" using k by (simp_all add: kept_def samegc_def)
  have "(\<Sum>u\<in>swept g \<sigma>'. modkids \<sigma>' u) = (\<Sum>u\<in>swept g \<sigma>'. modkids \<sigma> u)"
  proof (rule sum.cong [OF refl])
    fix u assume "u \<in> swept g \<sigma>'"
    then show "modkids \<sigma>' u = modkids \<sigma> u" using kept_stays(2) [OF k] by (auto simp: swept_def)
  qed
  then have "(\<Sum>u\<in>swept g \<sigma>'. modkids \<sigma>' u) \<subseteq># M'" using m w by simp
  moreover have "roles g \<sigma>'"
  proof -
    have "\<exists>h. hp \<sigma> u = Some h \<and> color h' = color h" if "hp \<sigma>' u = Some h'" for u h' by (rule kept_obj [OF k that]) blast
    then show ?thesis using D(4) unfolding roles_def S by metis
  qed
  moreover have kid: "x = H \<or> (\<exists>h. hp \<sigma>' x = Some h)" if u: "hp \<sigma>' u = Some h'" "color h' \<noteq> sweeper g" "x \<in># kids \<sigma> u" for u h' x
  proof (cases "x = H")
    case False
    have "u \<notin> swept g \<sigma>'" "x \<in># kids \<sigma>' u" using u kept_stays(1) [OF k u(1)] by (simp_all add: swept_def)
    then show ?thesis using counted_kid [OF c [folded w] u(1) _ _ False] by blast
  qed simp
  moreover have "tricolour {} \<sigma>'"
    unfolding tricolour_def
  proof (intro allI impI ballI)
    fix u h' x assume u: "hp \<sigma>' u = Some h'" "color h' = mutator \<sigma>'" "x \<in># kids \<sigma>' u" "x \<noteq> H"
    obtain h where h: "hp \<sigma> u = Some h" "color h' = color h" by (rule kept_obj [OF k u(1)])
    have ku: "x \<in># kids \<sigma> u" using u(3) kept_stays(1) [OF k u(1)] by simp
    have "dark \<sigma> x" using D(5) h u(2,4) ku unfolding tricolour_def S by auto
    moreover have "color h' \<noteq> sweeper g" using u(2) roles_ne(1) [OF D(4)] S by simp
    then obtain hx where "hp \<sigma>' x = Some hx" using kid [OF u(1) _ ku] u(4) by blast
    ultimately show "dark \<sigma>' x" using kept_stays(4) [OF k] by blast
  qed
  moreover have "collectable g \<sigma>'"
  proof -
    have "markable (types \<sigma>') h' \<and> (if color h' = sweeper g then shaped (types \<sigma>') h' \<and> \<not> waited h' else sliced \<sigma>' h')"
      if u: "hp \<sigma>' u = Some h'" for u h'
    proof -
      obtain h where h: "hp \<sigma> u = Some h" "hs h' = hs h" "ht h' = ht h" "color h' = color h" by (rule kept_obj [OF k u])
      have "sliced \<sigma>' h' = sliced \<sigma> h" if "color h' \<noteq> sweeper g"
      proof (rule sliced_cong [OF S(1) t h(2,3)])
        fix len e root d assume a: "ht h \<noteq> None" "hs h = SArray len e root d" "root \<noteq> H"
        then have "root \<in># kids \<sigma> u" by (auto simp: kids_def kids_of_def h(1))
        then show "kids \<sigma>' root = kids \<sigma> root" using kid [OF u that] a(3) kept_stays(1) [OF k] by blast
      qed
      then show ?thesis using D(8) h(1,4) markable_cong [OF t h(2,3)] shaped_cong [OF t h(2,3)] waited_cong [OF h(2)]
        by (simp add: collectable_def)
    qed
    then show ?thesis using D(8) S(4,5) unfolding collectable_def by metis
  qed
  ultimately show ?thesis using D(2) kept_roots(1,3) [OF i k c] c unfolding gcheap_def w by blast
qed

lemma sweep_gcheap:
  assumes i: "gcheap {} B T L M stk ps g \<sigma>" and lt: "lit g \<sigma> stk ps" and h: "hp \<sigma> v = Some h" "color h = sweeper g"
  shows "\<exists>\<sigma>' M'. sweep v \<sigma> = Some \<sigma>' \<and> gcheap {} B T L M' stk ps g \<sigma>' \<and> lit g \<sigma>' stk ps \<and> kept {} {} \<sigma> \<sigma>' \<and> hp \<sigma>' v = None"
proof -
  note D = gcheapD [OF i]
  let ?F = "swept g \<sigma> - {v}" and ?M = "M - modkids \<sigma> v"
  have v: "v \<in> swept g \<sigma>" using h by (simp add: swept_def)
  have F: "insert v ?F = swept g \<sigma>" using v by blast
  have "finite (swept g \<sigma>)" by (rule finite_subset [of _ UNIV]) simp_all
  then have sm: "(\<Sum>u\<in>swept g \<sigma>. modkids \<sigma> u) = modkids \<sigma> v + (\<Sum>u\<in>?F. modkids \<sigma> u)" using v by (rule sum.remove)
  obtain Z where Z: "M = modkids \<sigma> v + (\<Sum>u\<in>?F. modkids \<sigma> u) + Z" using D(3) unfolding sm by (auto simp: subset_mset.le_iff_add)
  have c: "counted B (insert v ?F) (T + L) (?M + modkids \<sigma> v) \<sigma>" unfolding F using D(1) by (simp add: Z ac_simps)
  have m: "(\<Sum>u\<in>?F. modkids \<sigma> u) \<subseteq># ?M" by (simp add: Z)
  have b: "B \<subseteq># T + L" using D(2) by (rule subset_mset.order_trans) simp
  have s: "shaped (types \<sigma>) h" "\<not> waited h" using D(8) h unfolding collectable_def by auto
  obtain \<sigma>' where s': "sweep v \<sigma> = Some \<sigma>'" "hp \<sigma>' v = None" "counted B ?F (T + L) ?M \<sigma>'" "kept ?F {} \<sigma> \<sigma>'"
    using sweep_ok [OF c b h(1) s] by blast
  have "kept {} {} \<sigma> \<sigma>'" using kept_trans [OF s'(4) kept_refl [of "{}" "{}"]] by simp
  with s' kept_gcheap [OF i s'(4,2,3) m] kept_lit [OF i lt s'(4,3)] show ?thesis by blast
qed

subsection \<open>The pass over the blocks\<close>

definition clean :: "gcvars \<Rightarrow> vm \<Rightarrow> ptr \<Rightarrow> bool" where
  \<comment> \<open>nothing is left to do with the object in this pass\<close>
  "clean g \<sigma> v \<longleftrightarrow> (\<forall>h. hp \<sigma> v = Some h \<longrightarrow> color h \<noteq> sweeper g \<and> (color h = propagator \<longrightarrow> nprop \<sigma>))"

definition behind :: "Pool \<Rightarrow> int \<Rightarrow> int \<Rightarrow> ptr \<Rightarrow> bool" where
  \<comment> \<open>the pass is in the chunk \<open>c\<close> at \<open>b\<close> and past \<open>v\<close>\<close>
  "behind P c b v \<longleftrightarrow> (\<exists>d\<in>set (takeWhile (\<lambda>d. d \<noteq> c) (chain P)). d \<le> hblk v \<and> hblk v < B2LIMIT P d) \<or> c \<le> hblk v \<and> hblk v < b"

definition at_block :: "gcvars \<Rightarrow> vm \<Rightarrow> int \<Rightarrow> int \<Rightarrow> bool" where
  \<comment> \<open>the pass is in the chunk \<open>c\<close> at \<open>b\<close>\<close>
  "at_block g \<sigma> c b \<longleftrightarrow> gbase g = Some c \<and> gptr g = Some b \<and> c \<in> set (chain (heapmem \<sigma>)) \<and> glimit g = B2LIMIT (heapmem \<sigma>) c \<and>
     c \<le> b \<and> b < glimit g \<and> (\<forall>v. behind (heapmem \<sigma>) c b v \<longrightarrow> clean g \<sigma> v)"

lemma pool_arena:
  assumes "gcheap X B T L M stk ps g \<sigma>"
  obtains BS ES where "arena (heapmem \<sigma>) BS ES" "{b\<in>BS. magic (heapmem \<sigma>) b = MAGIC_A} = hblk ` dom (hp \<sigma>)"
proof -
  have "pool_inv (heapmem \<sigma>) (hblk ` dom (hp \<sigma>))" using gcheapD(1) [OF assms] by (simp add: counted_def)
  then obtain BS ES where a: "arena (heapmem \<sigma>) BS ES" "used_blks (heapmem \<sigma>) BS = hblk ` dom (hp \<sigma>)" by (auto simp: pool_inv_def)
  have "magic (heapmem \<sigma>) b \<noteq> MAGIC_I" for b using gcheapD(8) [OF assms] by (simp add: collectable_def)
  then have "{b\<in>BS. magic (heapmem \<sigma>) b = MAGIC_A} = used_blks (heapmem \<sigma>) BS" using arenaD(3) [OF a(1)] by (fastforce simp: used_blks_def)
  then show ?thesis using a that by simp
qed

text \<open>What \<^verbatim>\<open>okbhdr\<close> accepts inside a chunk is a block or the leader of the chunk.\<close>

lemma okbhdr_block:
  assumes a: "arena P BS ES" and c: "c \<in> set (chain P)" and b: "c \<le> b" "b < B2LIMIT P c"
  shows "okbhdr P (Some b) \<longleftrightarrow> b \<in> BS \<or> b = c"
proof
  assume "okbhdr P (Some b)"
  then have "magic P b \<noteq> Mother" by (auto simp: okbhdr_def)
  then have "b \<in> BS \<union> set (chain P) \<union> ES" by (rule chunkedD [OF arenaD(15) [OF a]])
  moreover have "b \<notin> ES"
    using arenaD(15) [OF a] c b arena_distinct(3) [OF a] unfolding chunked_def by (metis disjoint_iff order_le_less not_le)
  moreover have "b = c" if "b \<in> set (chain P)"
    using arenaD(15) [OF a] c b that unfolding chunked_def by (metis order_le_less not_le)
  ultimately show "b \<in> BS \<or> b = c" by blast
next
  assume "b \<in> BS \<or> b = c"
  then have "magic P b \<in> {MAGIC_A, MAGIC_I, MAGIC_F, MAGIC_E}" using arenaD(3,14) [OF a] c by blast
  then show "okbhdr P (Some b)" by (auto simp: okbhdr_def)
qed

lemma next_block:
  assumes a: "arena P BS ES" and c: "c \<in> set (chain P)" and b: "c \<le> b" "b < B2LIMIT P c" "b \<in> BS \<or> b = c"
  shows "b < B2NB P b" "B2NB P b \<le> B2LIMIT P c" "B2NB P b < B2LIMIT P c \<Longrightarrow> B2NB P b \<in> BS"
    "x \<in> BS \<Longrightarrow> b < x \<Longrightarrow> B2NB P b \<le> x"
proof -
  have bb: "b \<in> BS \<union> set (chain P)" using b(3) c by blast
  have e: "B2LIMIT P c \<in> ES" "\<forall>e\<in>ES. c < e \<longrightarrow> B2LIMIT P c \<le> e" using arenaD(15) [OF a] c unfolding chunked_def by blast+
  show 1: "b < B2NB P b" using arena_blk(1) [OF a bb] by (simp add: B2NB_def)
  show "B2NB P b \<le> B2LIMIT P c" using arena_blk(2) [OF a bb e(1)] b(2) by linarith
  show "B2NB P b < B2LIMIT P c \<Longrightarrow> B2NB P b \<in> BS" using arena_blk(1) [OF a bb] e(2) 1 b(1) by fastforce
  show "x \<in> BS \<Longrightarrow> b < x \<Longrightarrow> B2NB P b \<le> x" using arenaD(10) [OF a bb] by blast
qed

definition gcgood :: "ptr multiset \<Rightarrow> ptr multiset \<Rightarrow> ptr multiset \<Rightarrow> mid multiset \<Rightarrow>
    (prg \<Rightarrow> (WORD \<times> tid) list) \<Rightarrow> prg list \<Rightarrow> gcvars \<Rightarrow> vm \<Rightarrow> bool" where
  "gcgood B T L M stk ps g \<sigma> \<longleftrightarrow> gcheap {} B T L M stk ps g \<sigma> \<and> lit g \<sigma> stk ps"

lemma gcgood_vars:
  "sweeper g' = sweeper g \<Longrightarrow> ptrtab g' = ptrtab g \<Longrightarrow> gcgood B T L M stk ps g' \<sigma> = gcgood B T L M stk ps g \<sigma>"
  by (simp add: gcgood_def gcheap_vars [of g' g])

text \<open>Within an epoch a condemned object stays condemned until it is freed.\<close>

definition dooms :: "gcvars \<Rightarrow> vm \<Rightarrow> vm \<Rightarrow> bool" where
  "dooms g \<sigma> \<sigma>' \<longleftrightarrow> gccolor \<sigma>' = gccolor \<sigma> \<and> (\<forall>v\<in>swept g \<sigma>. hp \<sigma>' v = None \<or> v \<in> swept g \<sigma>')"

lemma dooms_refl [simp]: "dooms g \<sigma> \<sigma>"
  by (simp add: dooms_def)

lemma dooms_trans:
  assumes "dooms g \<sigma> \<sigma>1" "dooms g \<sigma>1 \<sigma>2" "evolves \<sigma>1 \<sigma>2"
  shows "dooms g \<sigma> \<sigma>2"
  using assms(1,2) evolves_gone [OF assms(3)] unfolding dooms_def by metis

lemma shades_dooms: "shades g \<sigma> \<sigma>' \<Longrightarrow> sweeper g \<noteq> propagator \<Longrightarrow> dooms g \<sigma> \<sigma>'"
  by (simp add: dooms_def shades_swept shades_sel)

lemma kept_dooms:
  assumes k: "kept F {} \<sigma> \<sigma>'" shows "dooms g \<sigma> \<sigma>'"
proof -
  have "v \<in> swept g \<sigma>'" if v: "v \<in> swept g \<sigma>" "hp \<sigma>' v = Some h'" for v h'
    by (rule kept_obj [OF k v(2)]) (use v in \<open>auto simp: swept_def\<close>)
  then show ?thesis using k unfolding dooms_def kept_def samegc_def by (metis not_None_eq)
qed

lemma blacken_dooms:
  assumes "hp \<sigma> v = Some h" "color h \<noteq> sweeper g"
  shows "dooms g \<sigma> (updobj v (\<lambda>h. h\<lparr>color := c\<rparr>) \<sigma>)"
  using assms by (auto simp: dooms_def swept_def updobj_def)

lemma clean_vars: "sweeper g' = sweeper g \<Longrightarrow> clean g' \<sigma> v = clean g \<sigma> v"
  by (simp add: clean_def)

lemma clean_shades:
  assumes s: "shades g \<sigma> \<sigma>'" and n: "sweeper g \<noteq> propagator" and c: "clean g \<sigma> v"
  shows "clean g \<sigma>' v"
  unfolding clean_def
proof (intro allI impI)
  fix h' assume "hp \<sigma>' v = Some h'"
  with s obtain h where "hp \<sigma> v = Some h" "color h' = color h \<or> color h' = propagator \<and> color h \<noteq> sweeper g \<and> nprop \<sigma>'" by (rule shades_color)
  then show "color h' \<noteq> sweeper g \<and> (color h' = propagator \<longrightarrow> nprop \<sigma>')" using c n shades_sel(11) [OF s] by (auto simp: clean_def)
qed

lemma clean_kept:
  assumes k: "kept F {} \<sigma> \<sigma>'" and c: "clean g \<sigma> v"
  shows "clean g \<sigma>' v"
  unfolding clean_def
proof (intro allI impI)
  fix h' assume "hp \<sigma>' v = Some h'"
  with k obtain h where "hp \<sigma> v = Some h" "color h' = color h" by (rule kept_obj)
  moreover have "nprop \<sigma>' = nprop \<sigma>" using k by (simp add: kept_def samegc_def)
  ultimately show "color h' \<noteq> sweeper g \<and> (color h' = propagator \<longrightarrow> nprop \<sigma>')" using c by (auto simp: clean_def)
qed

lemma at_block_step:
  assumes "at_block g \<sigma> c b" "heapmem \<sigma>' = heapmem \<sigma>" "\<And>v. clean g \<sigma> v \<Longrightarrow> clean g \<sigma>' v"
  shows "at_block g \<sigma>' c b"
  using assms unfolding at_block_def by simp

lemma hblk_addr: "hblk v = b \<Longrightarrow> of_int (B2D b + sizeof_Heap) = v"
proof -
  assume "hblk v = b"
  then have "B2D b + sizeof_Heap = uint v" by (auto simp: hblk_def B2D_def sizeof_Heap_def)
  then show ?thesis by (simp only: word_of_int_uint)
qed

lemma visit_ok:
  assumes i: "gcgood B T L M stk ps g \<sigma>" and a: "at_block g \<sigma> c b" and o: "okbhdr (heapmem \<sigma>) (Some b)"
  obtains (stay) vis \<sigma>1 where "visitblk b g \<sigma> = Some (False, g\<lparr>visit := vis\<rparr>, \<sigma>1)" "vis \<le> visit g" "gcgood B T L M stk ps g \<sigma>1"
      "evolves \<sigma> \<sigma>1" "at_block g \<sigma>1 c b" "heapmem \<sigma>1 = heapmem \<sigma>" "\<And>v. hblk v = b \<Longrightarrow> clean g \<sigma>1 v" "dooms g \<sigma> \<sigma>1"
  | (free) \<sigma>1 M1 where "visitblk b g \<sigma> = Some (True, g, \<sigma>1)" "gcgood B T L M1 stk ps g \<sigma>1" "kept {} {} \<sigma> \<sigma>1" "b \<noteq> c"
proof -
  have i1: "gcheap {} B T L M stk ps g \<sigma>" "lit g \<sigma> stk ps" using i by (simp_all add: gcgood_def)
  note D = gcheapD [OF i1(1)]
  note n = roles_ne [OF D(4)]
  obtain BS ES where ar: "arena (heapmem \<sigma>) BS ES" "{b\<in>BS. magic (heapmem \<sigma>) b = MAGIC_A} = hblk ` dom (hp \<sigma>)" by (rule pool_arena [OF i1(1)])
  have c: "c \<in> set (chain (heapmem \<sigma>))" "c \<le> b" "b < B2LIMIT (heapmem \<sigma>) c" using a by (auto simp: at_block_def)
  have bc: "b \<in> BS \<or> b = c" using okbhdr_block [OF ar(1) c] o by simp
  have nop: thesis if v: "visitblk b g \<sigma> = Some (False, g, \<sigma>)" "\<And>v. hblk v = b \<Longrightarrow> clean g \<sigma> v"
    by (rule stay [of "visit g" \<sigma>]) (use v i a in simp_all)
  show thesis
  proof (cases "magic (heapmem \<sigma>) b = MAGIC_A")
    case False
    then have "hp \<sigma> v = None" if "hblk v = b" for v using ar(2) that by (metis (mono_tags, lifting) domIff imageI mem_Collect_eq)
    then show ?thesis using False by (intro nop) (simp_all add: visitblk_def clean_def)
  next
    case True
    have nc: "b \<noteq> c" using arenaD(14) [OF ar(1), of c] c(1) True by auto
    then have "b \<in> hblk ` dom (hp \<sigma>)" using bc True ar(2) by blast
    then obtain v h where v: "hblk v = b" "hp \<sigma> v = Some h" by blast
    have only: "w = v" if "hblk w = b" for w using hblk_inj that v(1) by blast
    have V: "visitblk b g \<sigma> = (if color h = propagator then map_option (\<lambda>(vis, \<sigma>1). (False, g\<lparr>visit := vis\<rparr>, \<sigma>1))
              (callmark v (visit g) (updobj v (\<lambda>h. h\<lparr>color := mutator \<sigma>\<rparr>) \<sigma>))
          else if color h = sweeper g then map_option (\<lambda>\<sigma>1. (True, g, \<sigma>1)) (sweep v \<sigma>) else Some (False, g, \<sigma>))"
      unfolding visitblk_def hblk_addr [OF v(1)] Let_def using True v(2) by simp
    consider (grey) "color h = propagator" | (white) "color h = sweeper g" "color h \<noteq> propagator" | (black) "color h \<noteq> propagator" "color h \<noteq> sweeper g" by blast
    then show ?thesis
    proof cases
      case grey
      let ?s = "updobj v (\<lambda>h. h\<lparr>color := mutator \<sigma>\<rparr>) \<sigma>"
      obtain vis \<sigma>1 where s: "callmark v (visit g) ?s = Some (vis, \<sigma>1)" "vis \<le> visit g" "shades g ?s \<sigma>1" "gcheap {} B T L M stk ps g \<sigma>1"
        "lit g \<sigma> stk ps \<longrightarrow> lit g \<sigma>1 stk ps" using scan_ok [OF i1(1) v(2) grey refl] by blast
      have cl: "clean g \<sigma>1 w" if "clean g \<sigma> w \<or> w = v" for w
      proof (rule clean_shades [OF s(3) n(2)])
        show "clean g ?s w" using that v(2) n by (auto simp: clean_def updobj_def split: if_splits)
      qed
      have hm: "heapmem \<sigma>1 = heapmem \<sigma>" using shades_sel(2) [OF s(3)] by simp
      show ?thesis
      proof (rule stay)
        show "visitblk b g \<sigma> = Some (False, g\<lparr>visit := vis\<rparr>, \<sigma>1)" by (simp add: V grey s(1))
        show "gcgood B T L M stk ps g \<sigma>1" using s(4,5) i1(2) by (simp add: gcgood_def)
        show "evolves \<sigma> \<sigma>1" using evolves_updobj shades_evolves [OF s(3)] by (rule evolves_trans)
        show "at_block g \<sigma>1 c b" by (rule at_block_step [OF a hm]) (use cl in blast)
        show "clean g \<sigma>1 w" if "hblk w = b" for w using cl only [OF that] by blast
        have "dooms g \<sigma> ?s" using v(2) grey n(2) by (intro blacken_dooms) auto
        then show "dooms g \<sigma> \<sigma>1" using shades_dooms [OF s(3) n(2)] shades_evolves [OF s(3)] by (rule dooms_trans)
      qed (fact s(2) hm)+
    next
      case white
      obtain \<sigma>1 M1 where s: "sweep v \<sigma> = Some \<sigma>1" "gcheap {} B T L M1 stk ps g \<sigma>1" "lit g \<sigma>1 stk ps" "kept {} {} \<sigma> \<sigma>1"
        using sweep_gcheap [OF i1 v(2) white(1)] by blast
      show ?thesis
      proof (rule free)
        show "visitblk b g \<sigma> = Some (True, g, \<sigma>1)" using white by (simp add: V s(1))
        show "gcgood B T L M1 stk ps g \<sigma>1" using s(2,3) by (simp add: gcgood_def)
      qed (fact s(4) nc)+
    next
      case black
      show ?thesis
      proof (rule nop)
        show "visitblk b g \<sigma> = Some (False, g, \<sigma>)" using black by (simp add: V)
        show "clean g \<sigma> w" if "hblk w = b" for w using only [OF that] v(2) black by (simp add: clean_def)
      qed
    qed
  qed
qed

lemma nextof_None:
  "nextof xs c = None \<Longrightarrow> c \<in> set xs \<Longrightarrow> set xs \<subseteq> insert c (set (takeWhile (\<lambda>d. d \<noteq> c) xs))"
  by (induction xs c rule: nextof.induct) (auto split: if_splits)

lemma nextof_Some:
  "nextof xs c = Some d \<Longrightarrow> distinct xs \<Longrightarrow>
    d \<in> set xs \<and> set (takeWhile (\<lambda>x. x \<noteq> d) xs) \<subseteq> insert c (set (takeWhile (\<lambda>x. x \<noteq> c) xs))"
  by (induction xs c rule: nextof.induct) (auto split: if_splits)

lemma next_ok:
  assumes i: "gcgood B T L M stk ps g \<sigma>" and a: "at_block g \<sigma> c b" and o: "okbhdr (heapmem \<sigma>) (Some b)"
    and cl: "\<forall>v. hblk v = b \<longrightarrow> clean g \<sigma> v"
  obtains (on) g' c' b' where "gcnext b (heapmem \<sigma>) g = Some g'" "sweeper g' = sweeper g" "ptrtab g' = ptrtab g" "visit g' = visit g"
      "at_block g' \<sigma> c' b'" "okbhdr (heapmem \<sigma>) (Some b')" "c' = c \<and> b \<le> b' \<or> b' = c'"
  | (over) g' where "gcnext b (heapmem \<sigma>) g = Some g'" "sweeper g' = sweeper g" "ptrtab g' = ptrtab g" "gbase g' = None" "\<And>v. clean g \<sigma> v"
proof -
  let ?P = "heapmem \<sigma>" and ?n = "B2NB (heapmem \<sigma>) b"
  have i1: "gcheap {} B T L M stk ps g \<sigma>" using i by (simp add: gcgood_def)
  obtain BS ES where ar: "arena ?P BS ES" "{b\<in>BS. magic ?P b = MAGIC_A} = hblk ` dom (hp \<sigma>)" by (rule pool_arena [OF i1])
  have c: "c \<in> set (chain ?P)" "c \<le> b" "b < B2LIMIT ?P c" and gv: "gbase g = Some c" "glimit g = B2LIMIT ?P c"
    and bh: "\<And>v. behind ?P c b v \<Longrightarrow> clean g \<sigma> v" using a by (auto simp: at_block_def)
  note ch = arenaD(15) [OF ar(1)]
  have bc: "b \<in> BS \<or> b = c" using okbhdr_block [OF ar(1) c] o by simp
  note N = next_block [OF ar(1) c bc]
  have blk: "clean g \<sigma> v" if "hblk v \<notin> BS" for v
  proof -
    have "hp \<sigma> v = None" using that ar(2) by (metis (mono_tags, lifting) domIff imageI mem_Collect_eq)
    then show ?thesis by (simp add: clean_def)
  qed
  have upto: "clean g \<sigma> v" if v: "c \<le> hblk v" "hblk v < ?n" for v
  proof (cases "hblk v \<in> BS")
    case True
    consider "hblk v < b" | "hblk v = b" | "b < hblk v" by linarith
    then show ?thesis
    proof cases
      case 1
      with v(1) show ?thesis by (intro bh) (simp add: behind_def)
    qed (use cl N(4) [OF True] v(2) in auto)
  qed (rule blk)
  have chunk: "clean g \<sigma> v" if "d \<in> insert c (set (takeWhile (\<lambda>d. d \<noteq> c) (chain ?P)))" "d \<le> hblk v" "hblk v < B2LIMIT ?P d"
    "\<not> ?n < B2LIMIT ?P c" for d v
    using that upto [of v] bh [of v] by (auto simp: behind_def)
  show thesis
  proof (cases "?n < B2LIMIT ?P c")
    case True
    show ?thesis
    proof (rule on)
      show "gcnext b ?P g = Some (g\<lparr>gptr := Some ?n\<rparr>)" using True gv by (simp add: gcnext_def Let_def)
      have "clean g \<sigma> v" if "behind ?P c ?n v" for v
        using that upto [of v] bh [of v] by (auto simp: behind_def)
      then show "at_block (g\<lparr>gptr := Some ?n\<rparr>) \<sigma> c ?n" using True gv c N(1) by (simp add: at_block_def clean_vars [of "g\<lparr>gptr := Some ?n\<rparr>" g])
      show "okbhdr ?P (Some ?n)" using okbhdr_block [OF ar(1) c(1) _ True] N(1) N(3) [OF True] c(2) by simp
      show "c = c \<and> b \<le> ?n \<or> ?n = c" using N(1) by simp
    qed simp_all
  next
    case False
    show ?thesis
    proof (cases "nextof (chain ?P) c")
      case None
      show ?thesis
      proof (rule over)
        show "gcnext b ?P g = Some (g\<lparr>gbase := None, gptr := Some ?n\<rparr>)" using False gv None by (simp add: gcnext_def Let_def)
        show "clean g \<sigma> v" for v
        proof (cases "hblk v \<in> BS")
          case True
          then obtain d where d: "d \<in> set (chain ?P)" "d < hblk v" "hblk v < B2LIMIT ?P d" using ch unfolding chunked_def by blast
          show ?thesis by (rule chunk [OF _ _ d(3) False]) (use nextof_None [OF None c(1)] d in auto)
        qed (rule blk)
      qed simp_all
    next
      case (Some c')
      let ?g = "g\<lparr>gbase := Some c', gptr := Some c', glimit := B2LIMIT ?P c'\<rparr>"
      have c': "c' \<in> set (chain ?P)" "set (takeWhile (\<lambda>d. d \<noteq> c') (chain ?P)) \<subseteq> insert c (set (takeWhile (\<lambda>d. d \<noteq> c) (chain ?P)))"
        using nextof_Some [OF Some] ch unfolding chunked_def by blast+
      have lim: "c' < B2LIMIT ?P c'" using ch c'(1) unfolding chunked_def by blast
      show ?thesis
      proof (rule on)
        show "gcnext b ?P g = Some ?g" using False gv Some by (simp add: gcnext_def Let_def)
        have "clean g \<sigma> v" if "behind ?P c' c' v" for v
          using that c'(2) chunk [OF _ _ _ False] by (auto simp: behind_def)
        then show "at_block ?g \<sigma> c' c'" using lim c'(1) by (simp add: at_block_def clean_vars [of ?g g])
        show "okbhdr ?P (Some c')" using okbhdr_block [OF ar(1) c'(1) _ lim] by simp
      qed simp_all
    qed
  qed
qed

lemma at_block_vars:
  assumes "sweeper g' = sweeper g" "gbase g' = gbase g" "gptr g' = gptr g" "glimit g' = glimit g"
  shows "at_block g' \<sigma> c b = at_block g \<sigma> c b"
  by (simp add: at_block_def assms clean_vars [OF assms(1)])

lemma at_block_kept:
  assumes a: "at_block g \<sigma> c b" and k: "kept F {} \<sigma> \<sigma>'" and b': "c \<le> b'" "b' \<le> b"
  shows "at_block (g\<lparr>gptr := Some b'\<rparr>) \<sigma>' c b'"
proof -
  have P: "chain (heapmem \<sigma>') = chain (heapmem \<sigma>)" "csize (heapmem \<sigma>') = csize (heapmem \<sigma>)" using k by (simp_all add: kept_def samegc_def)
  then have l: "B2LIMIT (heapmem \<sigma>') = B2LIMIT (heapmem \<sigma>)" by (simp add: B2LIMIT_def fun_eq_iff)
  have "clean g \<sigma>' v" if "behind (heapmem \<sigma>') c b' v" for v
  proof (rule clean_kept [OF k])
    have "behind (heapmem \<sigma>) c b v" using that b'(2) by (auto simp: behind_def P l)
    then show "clean g \<sigma> v" using a by (simp add: at_block_def)
  qed
  then show ?thesis using a b' by (simp add: at_block_def P l clean_vars [of "g\<lparr>gptr := Some b'\<rparr>" g])
qed

lemma gcloop_ok:
  assumes "gcgood B T L M stk ps g \<sigma>" "at_block g \<sigma> c b" "okbhdr (heapmem \<sigma>) (Some b)" "visit g \<le> int n"
    "case prev of None \<Rightarrow> True | Some b' \<Rightarrow> c \<le> b' \<and> b' \<le> b \<or> b = c"
  shows "\<exists>e g' \<sigma>' M'. gcloop (Suc n) prev g \<sigma> = Some (e, g', \<sigma>') \<and> gcgood B T L M' stk ps g' \<sigma>' \<and> evolves \<sigma> \<sigma>' \<and> dooms g \<sigma> \<sigma>' \<and>
    sweeper g' = sweeper g \<and> (if gbase g' = None then e \<or> (\<forall>v. clean g' \<sigma>' v) else \<not> e \<and> (\<exists>c b. at_block g' \<sigma>' c b))"
  using assms
proof (induction n arbitrary: prev g \<sigma> M c b)
  case 0
  then have "gcloop (Suc 0) prev g \<sigma> = Some (False, g, \<sigma>)" by simp
  moreover have "gbase g = Some c" using "0.prems"(2) by (simp add: at_block_def)
  ultimately show ?case using "0.prems"(1,2) by fastforce
next
  case (Suc n)
  have gb: "gbase g = Some c" "gptr g = Some b" using Suc.prems(2) by (simp_all add: at_block_def)
  show ?case
  proof (cases "visit g \<le> 0")
    case True
    then have "gcloop (Suc (Suc n)) prev g \<sigma> = Some (False, g, \<sigma>)" by simp
    then show ?thesis using Suc.prems(1,2) gb by fastforce
  next
    case False
    from Suc.prems(1-3) show ?thesis
    proof (cases rule: visit_ok)
      case (stay vis \<sigma>1)
      let ?g = "g\<lparr>visit := vis\<rparr>"
      have 1: "gcgood B T L M stk ps ?g \<sigma>1" "at_block ?g \<sigma>1 c b" "okbhdr (heapmem \<sigma>1) (Some b)" "\<forall>v. hblk v = b \<longrightarrow> clean ?g \<sigma>1 v"
        using stay(3,5-7) Suc.prems(3) by (simp_all add: gcgood_vars [of ?g g] at_block_vars [of ?g g] clean_vars [of ?g g])
      note ds = stay(8)
      from 1 show ?thesis
      proof (cases rule: next_ok)
        case (on g' c' b')
        let ?g' = "g'\<lparr>visit := visit g' - 1\<rparr>"
        have "gcgood B T L M stk ps ?g' \<sigma>1" using 1(1) on(2,3) by (simp add: gcgood_vars [of ?g' g] gcgood_vars [of ?g g])
        moreover have "at_block ?g' \<sigma>1 c' b'" using on(5) by (simp add: at_block_vars [of ?g' g'])
        moreover have "visit ?g' \<le> int n" using on(4) stay(2) Suc.prems(4) by simp
        moreover have "case Some b of None \<Rightarrow> True | Some x \<Rightarrow> c' \<le> x \<and> x \<le> b' \<or> b' = c'" using on(7) Suc.prems(2) by (auto simp: at_block_def)
        ultimately obtain e g2 \<sigma>2 M2 where 2: "gcloop (Suc n) (Some b) ?g' \<sigma>1 = Some (e, g2, \<sigma>2)" "gcgood B T L M2 stk ps g2 \<sigma>2" "evolves \<sigma>1 \<sigma>2"
          "dooms ?g' \<sigma>1 \<sigma>2" "sweeper g2 = sweeper ?g'"
          "if gbase g2 = None then e \<or> (\<forall>v. clean g2 \<sigma>2 v) else \<not> e \<and> (\<exists>c b. at_block g2 \<sigma>2 c b)" using Suc.IH on(6) by blast
        have "gbase g' = Some c'" using on(5) by (simp add: at_block_def)
        then have "gcloop (Suc (Suc n)) prev g \<sigma> = Some (e, g2, \<sigma>2)" using False gb stay(1) on(1) 2(1) by simp
        moreover have "dooms g \<sigma>1 \<sigma>2" using 2(4) on(2) by (simp add: dooms_def swept_def)
        ultimately show ?thesis using 2 evolves_trans [OF stay(4) 2(3)] dooms_trans [OF ds _ 2(3)] on(2) by force
      next
        case (over g')
        have "gcloop (Suc (Suc n)) prev g \<sigma> = Some (False, g', \<sigma>1)" using False gb stay(1) over(1,4) by simp
        moreover have "gcgood B T L M stk ps g' \<sigma>1" using stay(3) over(2,3) by (simp add: gcgood_vars [of g' g])
        moreover have "clean g' \<sigma>1 v" for v using over(5) [of v] over(2) by (simp add: clean_def)
        ultimately show ?thesis using stay(4) over(2,4) ds by force
      qed
    next
      case (free \<sigma>1 M1)
      note ev = kept_evolves [OF free(3)] and ds = kept_dooms [OF free(3), of g]
      show ?thesis
      proof (cases "okbhdr (heapmem \<sigma>1) prev")
        case True
        then obtain b' where p: "prev = Some b'" by (auto simp: okbhdr_def split: option.splits)
        then have b': "c \<le> b'" "b' \<le> b" using Suc.prems(5) free(4) by auto
        let ?g = "g\<lparr>gptr := Some b', visit := visit g - 1\<rparr>"
        have "at_block ?g \<sigma>1 c b'" using at_block_kept [OF Suc.prems(2) free(3) b'] by (simp add: at_block_vars [of ?g "g\<lparr>gptr := Some b'\<rparr>"])
        moreover have "gcgood B T L M1 stk ps ?g \<sigma>1" using free(2) by (simp add: gcgood_vars [of ?g g])
        moreover have "visit ?g \<le> int n" using Suc.prems(4) by simp
        moreover have "case prev of None \<Rightarrow> True | Some x \<Rightarrow> c \<le> x \<and> x \<le> b' \<or> b' = c" using b' p by simp
        ultimately obtain e g2 \<sigma>2 M2 where 2: "gcloop (Suc n) prev ?g \<sigma>1 = Some (e, g2, \<sigma>2)" "gcgood B T L M2 stk ps g2 \<sigma>2" "evolves \<sigma>1 \<sigma>2"
          "dooms ?g \<sigma>1 \<sigma>2" "sweeper g2 = sweeper ?g"
          "if gbase g2 = None then e \<or> (\<forall>v. clean g2 \<sigma>2 v) else \<not> e \<and> (\<exists>c b. at_block g2 \<sigma>2 c b)" using Suc.IH True p by blast
        have "gcloop (Suc (Suc n)) prev g \<sigma> = Some (e, g2, \<sigma>2)" using False gb free(1) True 2(1) p by (simp add: Let_def)
        moreover have "dooms g \<sigma>1 \<sigma>2" using 2(4) by (simp add: dooms_def swept_def)
        ultimately show ?thesis using 2 evolves_trans [OF ev 2(3)] dooms_trans [OF ds _ 2(3)] by force
      next
        case no: False
        let ?g = "g\<lparr>gptr := prev, gbase := None\<rparr>"
        have "gcloop (Suc (Suc n)) prev g \<sigma> = Some (True, ?g, \<sigma>1)" using False gb free(1) no by (simp add: Let_def)
        moreover have "gcgood B T L M1 stk ps ?g \<sigma>1" using free(2) by (simp add: gcgood_vars [of ?g g])
        ultimately show ?thesis using ev ds by force
      qed
    qed
  qed
qed

lemma gcgood_cong:
  assumes S: "mem \<sigma>' = mem \<sigma>" "types \<sigma>' = types \<sigma>" "mods \<sigma>' = mods \<sigma>" "modules \<sigma>' = modules \<sigma>" "progs \<sigma>' = progs \<sigma>" "phead \<sigma>' = phead \<sigma>"
    "hp \<sigma>' = hp \<sigma>" "heapmem \<sigma>' = heapmem \<sigma>" "mutator \<sigma>' = mutator \<sigma>" "gccolor \<sigma>' = gccolor \<sigma>"
  shows "gcgood B T L M stk ps g \<sigma>' = gcgood B T L M stk ps g \<sigma>"
proof -
  have ml: "modlink \<sigma>' = modlink \<sigma>" by (simp add: fun_eq_iff modlink_def S)
  note R = roots_cong [OF S(1-6) ml]
  have k: "kids \<sigma>' = kids \<sigma>" "modkids \<sigma>' = modkids \<sigma>" by (simp_all add: fun_eq_iff kids_def modkids_def S split: option.splits)
  have d: "dark \<sigma>' = dark \<sigma>" "swept g \<sigma>' = swept g \<sigma>" by (simp_all add: fun_eq_iff dark_def swept_def S)
  have ts: "tailok \<sigma>' = tailok \<sigma>" unfolding fun_eq_iff tailok_def S by simp
  have c: "counted B F R M \<sigma>' = counted B F R M \<sigma>" for F R M
    unfolding counted_def refsto_def modrefs_def live_def refcount_def k ts S by simp
  have sl: "sliced \<sigma>' = sliced \<sigma>" by (rule ext) (rule sliced_cong; simp add: k S)
  have st: "stackptrs g \<sigma>' stk ps = stackptrs g \<sigma> stk ps" unfolding stackptrs_def R S ..
  show ?thesis
    unfolding gcgood_def gcheap_def lit_def c d k roles_def tricolour_def pinned_def heldby_def collectable_def R S st sl by simp
qed

lemma gcgood_nprop: "gcgood B T L M stk ps g (\<sigma>\<lparr>nprop := b\<rparr>) = gcgood B T L M stk ps g \<sigma>"
  by (rule gcgood_cong) simp_all

definition gcinv :: "ptr multiset \<Rightarrow> ptr multiset \<Rightarrow> ptr multiset \<Rightarrow> mid multiset \<Rightarrow>
    (prg \<Rightarrow> (WORD \<times> tid) list) \<Rightarrow> prg list \<Rightarrow> gcvars \<Rightarrow> vm \<Rightarrow> bool" where
  "gcinv B T L M stk ps g \<sigma> \<longleftrightarrow> gcgood B T L M stk ps g \<sigma> \<and> (gbase g \<noteq> None \<longrightarrow> (\<exists>c b. at_block g \<sigma> c b))"

lemma start_pass:
  assumes "gcinv B T L M stk ps g \<sigma>"
  shows "\<exists>g1 c b. (if gbase g = None
         then map_option (\<lambda>b. g\<lparr>gbase := Some b, gptr := Some b, glimit := B2LIMIT (heapmem \<sigma>) b\<rparr>) (poolchain (heapmem \<sigma>))
         else Some g) = Some g1 \<and> sweeper g1 = sweeper g \<and> ptrtab g1 = ptrtab g \<and> at_block g1 \<sigma> c b"
proof (cases "gbase g")
  case None
  have i: "gcheap {} B T L M stk ps g \<sigma>" using assms by (simp add: gcinv_def gcgood_def)
  obtain c cs where c: "chain (heapmem \<sigma>) = c # cs" using gcheapD(8) [OF i] by (cases "chain (heapmem \<sigma>)") (auto simp: collectable_def)
  obtain BS ES where "arena (heapmem \<sigma>) BS ES" by (rule pool_arena [OF i])
  then have "c < B2LIMIT (heapmem \<sigma>) c" using arenaD(15) c unfolding chunked_def by fastforce
  then show ?thesis using None c by (auto simp: poolchain_def at_block_def behind_def)
next
  case (Some c)
  then show ?thesis using assms by (auto simp: gcinv_def)
qed

lemma rungc_ok:
  assumes i: "gcinv B T L M stk ps g \<sigma>"
  shows "\<exists>g' \<sigma>' L' M'. rungc (phead \<sigma>) g \<sigma> = Some (g', \<sigma>') \<and> gcinv B T L' M' stk ps g' \<sigma>' \<and> evolves \<sigma> \<sigma>' \<and>
    (gccolor \<sigma>' = gccolor \<sigma> \<or> gccolor \<sigma>' = gccolor \<sigma> + 1 \<and> (\<forall>v\<in>swept g \<sigma>. hp \<sigma>' v = None))"
proof (cases "gchalt \<sigma> = 0")
  case False
  then have "rungc (phead \<sigma>) g \<sigma> = Some (g, \<sigma>)" by (simp add: rungc_def)
  then show ?thesis using i by fastforce
next
  case True
  obtain g1 c b where s: "(if gbase g = None
         then map_option (\<lambda>b. g\<lparr>gbase := Some b, gptr := Some b, glimit := B2LIMIT (heapmem \<sigma>) b\<rparr>) (poolchain (heapmem \<sigma>))
         else Some g) = Some g1" "sweeper g1 = sweeper g" "ptrtab g1 = ptrtab g" "at_block g1 \<sigma> c b" using start_pass [OF i] by blast
  have good: "gcgood B T L M stk ps g \<sigma>" using i by (simp add: gcinv_def)
  have gp: "gptr g1 = Some b" using s(4) by (simp add: at_block_def)
  note rg = rungc_def [of "phead \<sigma>" g \<sigma>, unfolded s(1)]
  show ?thesis
  proof (cases "okbhdr (heapmem \<sigma>) (Some b)")
    case False
    let ?g = "g1\<lparr>gbase := None\<rparr>"
    have "rungc (phead \<sigma>) g \<sigma> = Some (?g, \<sigma>)" using rg True False gp by simp
    moreover have "gcinv B T L M stk ps ?g \<sigma>" using good s(2,3) by (simp add: gcinv_def gcgood_vars [of ?g g])
    ultimately show ?thesis by fastforce
  next
    case okb: True
    let ?g = "g1\<lparr>visit := Quanta\<rparr>"
    have "gcgood B T L M stk ps ?g \<sigma>" "at_block ?g \<sigma> c b" using good s by (simp_all add: gcgood_vars [of ?g g] at_block_vars [of ?g g1])
    from gcloop_ok [OF this okb, of "nat Quanta" None] obtain e g2 \<sigma>2 M2 where
      2: "gcloop (Suc (nat Quanta)) None ?g \<sigma> = Some (e, g2, \<sigma>2)" "gcgood B T L M2 stk ps g2 \<sigma>2" "evolves \<sigma> \<sigma>2" "dooms ?g \<sigma> \<sigma>2" "sweeper g2 = sweeper ?g"
        "if gbase g2 = None then e \<or> (\<forall>v. clean g2 \<sigma>2 v) else \<not> e \<and> (\<exists>c b. at_block g2 \<sigma>2 c b)" by (auto simp: Quanta_def)
    have ph: "phead \<sigma>2 = phead \<sigma>" using 2(3) by (simp add: evolves_def)
    have gc: "gccolor \<sigma>2 = gccolor \<sigma>" using 2(4) by (simp add: dooms_def)
    have rg2: "rungc (phead \<sigma>) g \<sigma> = (if e then Some (g2, \<sigma>2) else if gbase g2 \<noteq> None then Some (g2, \<sigma>2)
               else if \<not> nprop \<sigma>2 then rootset (phead \<sigma>) g2 (\<sigma>2\<lparr>gccolor := gccolor \<sigma>2 + 1\<rparr>)
               else Some (g2, \<sigma>2\<lparr>nprop := False\<rparr>))"
      using rg True gp okb 2(1) by (cases e) simp_all
    consider (cut) "e" "gbase g2 = None" | (part) "\<not> e" "gbase g2 \<noteq> None" | (pass) "\<not> e" "gbase g2 = None" "nprop \<sigma>2"
      | (epoch) "\<not> e" "gbase g2 = None" "\<not> nprop \<sigma>2" using 2(6) by (cases "gbase g2 = None") auto
    then show ?thesis
    proof cases
      case cut
      then show ?thesis using rg2 2(2,3) gc by (auto simp: gcinv_def)
    next
      case part
      then have "gcinv B T L M2 stk ps g2 \<sigma>2" using 2(2,6) by (simp add: gcinv_def)
      moreover have "rungc (phead \<sigma>) g \<sigma> = Some (g2, \<sigma>2)" using part rg2 by simp
      ultimately show ?thesis using 2(3) gc by blast
    next
      case pass
      let ?s = "\<sigma>2\<lparr>nprop := False\<rparr>"
      have "gcinv B T L M2 stk ps g2 ?s" using 2(2) pass(2) by (simp add: gcinv_def gcgood_nprop)
      moreover have "rungc (phead \<sigma>) g \<sigma> = Some (g2, ?s)" using pass rg2 by simp
      moreover have "evolves \<sigma> ?s" using 2(3) by (rule evolves_trans) simp
      moreover have "gccolor ?s = gccolor \<sigma>" using gc by simp
      ultimately show ?thesis by blast
    next
      case epoch
      have cl: "\<forall>u h. hp \<sigma>2 u = Some h \<longrightarrow> color h \<noteq> sweeper g2 \<and> color h \<noteq> propagator"
        using 2(6) epoch unfolding clean_def by simp
      obtain g' \<sigma>' L' M' where e: "rootset (phead \<sigma>2) g2 (\<sigma>2\<lparr>gccolor := gccolor \<sigma>2 + 1\<rparr>) = Some (g', \<sigma>')" "gcheap {} B T L' M' stk ps g' \<sigma>'"
        "lit g' \<sigma>' stk ps" "evolves \<sigma>2 \<sigma>'" "gbase g' = gbase g2" "gccolor \<sigma>' = gccolor \<sigma>2 + 1"
        using epoch_ok [OF _ _ cl] 2(2) unfolding gcgood_def by blast
      have "gcinv B T L' M' stk ps g' \<sigma>'" using e(2,3,5) epoch(2) by (simp add: gcinv_def gcgood_def)
      moreover have "rungc (phead \<sigma>) g \<sigma> = Some (g', \<sigma>')" using epoch rg2 e(1) ph by simp
      moreover have "evolves \<sigma> \<sigma>'" using 2(3) e(4) by (rule evolves_trans)
      moreover have "hp \<sigma>' v = None" if v: "v \<in> swept g \<sigma>" for v
      proof -
        have "v \<notin> swept ?g \<sigma>2" using cl 2(5) by (auto simp: swept_def)
        then have "hp \<sigma>2 v = None" using 2(4) v s(2) by (auto simp: dooms_def swept_def)
        then show ?thesis by (rule evolves_gone [OF e(4)])
      qed
      ultimately show ?thesis using e(6) gc by auto
    qed
  qed
qed

text \<open>What the progs, their frames and the table can reach.\<close>

inductive reach :: "ptr multiset \<Rightarrow> vm \<Rightarrow> ptr \<Rightarrow> bool" for T :: "ptr multiset" and \<sigma> :: vm where
  reach_root: "u \<in># T \<Longrightarrow> u \<noteq> H \<Longrightarrow> reach T \<sigma> u"
| reach_kid: "reach T \<sigma> u \<Longrightarrow> w \<in># kids \<sigma> u \<Longrightarrow> w \<noteq> H \<Longrightarrow> reach T \<sigma> w"

lemma reach_stays:
  assumes "evolves \<sigma> \<sigma>'" "counted B F (T + L) M \<sigma>'" "reach T \<sigma> u"
  shows "u \<notin> F \<and> (\<exists>h h'. hp \<sigma> u = Some h \<and> hp \<sigma>' u = Some h' \<and> hs h' = hs h \<and> ht h' = ht h)"
proof -
  have both: "\<exists>h h'. hp \<sigma> u = Some h \<and> hp \<sigma>' u = Some h' \<and> hs h' = hs h \<and> ht h' = ht h" if "hp \<sigma>' u = Some h1" for u h1
    using assms(1) that unfolding evolves_def by blast
  show ?thesis using assms(3)
  proof induction
    case (reach_root u)
    have "u \<in># T + L" using reach_root(1) by simp
    then show ?case using counted_held [OF assms(2) _ reach_root(2)] both by metis
  next
    case (reach_kid u w)
    obtain h h' where h: "u \<notin> F" "hp \<sigma> u = Some h" "hp \<sigma>' u = Some h'" "hs h' = hs h" "ht h' = ht h" using reach_kid.IH by blast
    have t: "\<And>t. same_shape (types \<sigma> t) (types \<sigma>' t)" "mem \<sigma>' = mem \<sigma>" using assms(1) by (simp_all add: evolves_def)
    have "kids \<sigma>' u = kids \<sigma> u" by (simp add: kids_def h t(2) kids_of_cong [OF t(1) h(4,5)])
    then obtain hw where "hp \<sigma>' w = Some hw" "w \<notin> F" using counted_kid [OF assms(2) h(3,1)] reach_kid(2,3) by metis
    then show ?case using both by blast
  qed
qed

section \<open>Properties\<close>


definition gc_link :: hobj where "gc_link = \<lparr>color = propagator, href = 1, ht = Some Tmodlink, hs = SModlink H 0 False []\<rparr>"
definition gc_cycle :: hobj where "gc_cycle = \<lparr>color = 2, href = 1, ht = Some Tlist, hs = SList 0x10074 None\<rparr>"

definition vm_gc :: vm where
  \<comment> \<open>a prog in a module and, condemned, a list cell that is its own tail\<close>
  "vm_gc = vm0\<lparr>hp := (\<lambda>_. None)(0x10034 \<mapsto> gc_link, 0x10074 \<mapsto> gc_cycle), heapmem := pool_two,
     mods := (\<lambda>m. (mods vm0 m)\<lparr>mref := 1\<rparr>), modules := [0], mutator := 1, gccolor := 4,
     progs := (\<lambda>_. None)(1 \<mapsto> prog0\<lparr>pR_M := 0x10034\<rparr>), phead := Some 1\<rparr>"

definition gcvars0 :: gcvars where
  "gcvars0 = \<lparr>marker = 0, sweeper = 2, gbase = None, glimit = 0, gptr = None, visit = 0, ptrtab = (\<lambda>_. []), ptrfree = 0\<rparr>"

lemma vm_gc_sel:
  "hp vm_gc = (\<lambda>_. None)(0x10034 \<mapsto> gc_link, 0x10074 \<mapsto> gc_cycle)" "heapmem vm_gc = pool_two" "modules vm_gc = [0]" "mutator vm_gc = 1"
  "gccolor vm_gc = 4" "progs vm_gc = (\<lambda>_. None)(1 \<mapsto> prog0\<lparr>pR_M := 0x10034\<rparr>)" "phead vm_gc = Some 1" "types vm_gc = builtin_types"
  "morigmp (mods vm_gc m) = H" "mref (mods vm_gc m) = 1" "mem vm_gc = (\<lambda>_. 0)"
  by (simp_all add: vm_gc_def vm0_def)

lemma vm_gc_kids:
  "kids vm_gc 0x10034 = {#H#}" "kids vm_gc 0x10074 = {#0x10074#}" "modkids vm_gc 0x10034 = {#0#}" "modkids vm_gc 0x10074 = {#}"
  by (simp_all add: kids_def modkids_def kids_of_def vm_gc_sel gc_link_def gc_cycle_def cellptrs_def)

lemma vm_gc_swept: "swept gcvars0 vm_gc = {0x10074}"
  by (auto simp: swept_def gcvars0_def vm_gc_sel gc_link_def gc_cycle_def propagator_def split: if_splits)

lemma vm_gc_counted: "counted {#} {0x10074} {#0x10034#} {#} vm_gc"
proof -
  have l: "live {0x10074} vm_gc = {0x10034}" by (auto simp: live_def vm_gc_sel)
  have d: "hblk ` dom (hp vm_gc) = {0x10020, 0x10060}" by (auto simp: vm_gc_sel hblk_def image_iff)
  have p: "pool_inv (heapmem vm_gc) (hblk ` dom (hp vm_gc))" unfolding d using pool_two_inv by (simp add: vm_gc_sel)
  have "\<forall>u. u \<noteq> H \<longrightarrow> refsto {0x10074} {#0x10034#} vm_gc u = refcount {0x10074} vm_gc u"
    unfolding refsto_def l by (auto simp: vm_gc_kids refcount_def vm_gc_sel gc_link_def)
  moreover have "\<forall>u h. hp vm_gc u = Some h \<longrightarrow> u \<notin> {0x10074} \<longrightarrow> shaped (types vm_gc) h \<and> tailok vm_gc h \<and> (waited h \<longrightarrow> u \<in># {#} \<and> u \<noteq> H)"
    by (auto simp: vm_gc_sel gc_link_def shaped_def tailok_def waited_def builtin_types_def Tlist_def Tarray_def Tstring_def Tmodlink_def split: if_splits)
  ultimately show ?thesis using p unfolding counted_def modrefs_def l by (simp add: vm_gc_kids vm_gc_sel)
qed

lemma pool_two_chain: "chain pool_two = [0x10000]" "magic pool_two b \<noteq> MAGIC_I"
  by (auto simp: pool_two_def split_blk_sel add_chunk_sel heappool_def)

lemma vm_gc_inv: "gcinv {#} {#0x10034#} {#} {#} (\<lambda>_. []) [1] gcvars0 vm_gc"
proof -
  have ml: "modlink vm_gc 0x10034 = Some (H, 0, False, [])" by (simp add: modlink_def vm_gc_sel gc_link_def)
  have roots: "stackptrs gcvars0 vm_gc (\<lambda>_. []) [1] = [0x10034, H]"
    by (simp add: stackptrs_def progptrs_def linkptrs_def ml vm_gc_sel gcvars0_def)
  have "roles gcvars0 vm_gc"
    by (auto simp: roles_def vm_gc_sel gcvars0_def gc_link_def gc_cycle_def split: if_splits)
  moreover have "tricolour {} vm_gc"
    by (auto simp: tricolour_def vm_gc_sel gc_link_def gc_cycle_def propagator_def split: if_splits)
  moreover have "rooted gcvars0 vm_gc (\<lambda>_. []) [1]"
    by (auto simp: rooted_def vm_gc_sel prog0_def gcvars0_def islink_def ml H_def intro: stacklist_end)
  moreover have "pinned {#0x10034#} gcvars0 vm_gc (\<lambda>_. []) [1]" unfolding pinned_def roots by (simp add: heldby_def)
  moreover have "collectable gcvars0 vm_gc"
    by (auto simp: collectable_def vm_gc_sel gc_link_def gc_cycle_def markable_def shaped_def waited_def sliced_def builtin_types_def gcvars0_def propagator_def
        Tlist_def Tarray_def Tstring_def Tmodlink_def pool_two_chain split: if_splits)
  moreover have "lit gcvars0 vm_gc (\<lambda>_. []) [1]"
    unfolding lit_def set_rootptrs roots by (auto simp: vm_gc_sel dark_def gc_link_def)
  ultimately show ?thesis
    using vm_gc_counted by (simp add: gcinv_def gcgood_def gcheap_def vm_gc_swept vm_gc_kids) (simp add: gcvars0_def)
qed


text \<open>
  C23. Condemned objects are freed. A slice changes the epoch by at most one, and it ends the epoch only when every object
  that was condemned for it has been freed.
\<close>

theorem rungc_epoch:
  assumes "gcinv B T L M stk ps g \<sigma>"
  shows "\<exists>g' \<sigma>'. rungc (phead \<sigma>) g \<sigma> = Some (g', \<sigma>') \<and>
    (gccolor \<sigma>' = gccolor \<sigma> \<or> gccolor \<sigma>' = gccolor \<sigma> + 1 \<and> (\<forall>v\<in>swept g \<sigma>. hp \<sigma>' v = None))"
  using rungc_ok [OF assms] by blast

theorem rungc_epoch_witness:
  "\<exists>g' \<sigma>'. rungc (Some 1) gcvars0 vm_gc = Some (g', \<sigma>') \<and> (gccolor \<sigma>' = 4 \<or> gccolor \<sigma>' = 5 \<and> hp \<sigma>' 0x10074 = None)"
  using rungc_epoch [OF vm_gc_inv] by (simp add: vm_gc_sel vm_gc_swept)

end
