(* ===== verification/Gc_Barrier.thy ===== *)
theory Gc_Barrier
  imports Gc_Pass
begin

text \<open>
  The mutator beside the collector. A prog runs between the slices of the collector and moves pointers into objects the
  collector has scanned. \<^verbatim>\<open>movp\<close> marks what it takes a reference to, so the invariant of the collector survives it.
\<close>

section \<open>Counts change\<close>

lemma gcinv_kept:
  assumes i: "gcinv B T L M stk ps g \<sigma>" and k: "kept (swept g \<sigma>) {} \<sigma> \<sigma>'" and c: "counted B (swept g \<sigma>) (T + L') M \<sigma>'"
  shows "gcinv B T L' M stk ps g \<sigma>'"
proof -
  have i1: "gcheap {} B T L M stk ps g \<sigma>" "lit g \<sigma> stk ps" "gbase g \<noteq> None \<longrightarrow> (\<exists>c b. at_block g \<sigma> c b)"
    using i by (simp_all add: gcinv_def gcgood_def)
  have H: "swept g \<sigma> - {H} = swept g \<sigma>" using counted_nil [OF gcheapD(1) [OF i1(1)]] by (auto simp: swept_def)
  have "gcheap {} B T L' M stk ps g \<sigma>'"
    by (rule kept_gcheap [OF i1(1), of H]) (use k c H counted_nil [OF c] gcheapD(3) [OF i1(1)] in simp_all)
  moreover have "lit g \<sigma>' stk ps" by (rule kept_lit [OF i1(1,2) k c])
  moreover have "at_block g \<sigma>' c b" if "at_block g \<sigma> c b" for c b
  proof -
    have "g\<lparr>gptr := Some b\<rparr> = g" "c \<le> b" using that by (simp_all add: at_block_def)
    then show ?thesis using at_block_kept [OF that k, of b] by simp
  qed
  ultimately show ?thesis using i1(3) by (auto simp: gcinv_def gcgood_def)
qed

lemma gcinv_shades:
  assumes i: "gcinv B T L M stk ps g \<sigma>" and s: "shades g \<sigma> \<sigma>'"
  shows "gcinv B T L M stk ps g \<sigma>'"
proof -
  have i1: "gcheap {} B T L M stk ps g \<sigma>" "lit g \<sigma> stk ps" "gbase g \<noteq> None \<longrightarrow> (\<exists>c b. at_block g \<sigma> c b)"
    using i by (simp_all add: gcinv_def gcgood_def)
  have n: "sweeper g \<noteq> propagator" using roles_ne(2) gcheapD(4) [OF i1(1)] by blast
  have "at_block g \<sigma>' c b" if "at_block g \<sigma> c b" for c b
    by (rule at_block_step [OF that shades_sel(2) [OF s]]) (rule clean_shades [OF s n])
  then show ?thesis using i1 shades_gcheap [OF s i1(1)] shades_lit [OF s i1(2)] unfolding gcinv_def gcgood_def by blast
qed

lemma incref_barrier:
  assumes i: "gcinv B T L M stk ps g \<sigma>" and h: "hp \<sigma> x = Some h" "color h \<noteq> sweeper g" "unat (href h) + 1 < 2 ^ 32" and H: "x \<noteq> H"
  shows "\<exists>\<sigma>'. incref x \<sigma> = Some \<sigma>' \<and> gcinv B T (add_mset x L) M stk ps g \<sigma>' \<and> dark \<sigma>' x"
proof -
  let ?a = "updobj x (\<lambda>h. h\<lparr>href := href h + 1\<rparr>) \<sigma>"
  have c: "counted B (swept g \<sigma>) (T + L) M \<sigma>" using i by (simp add: gcinv_def gcgood_def gcheap_def)
  have F: "x \<notin> swept g \<sigma>" using h by (simp add: swept_def)
  have k: "kept (swept g \<sigma>) {} \<sigma> ?a" by (rule kept_href [OF F])
  have n: "unat (href h + 1) = unat (href h) + 1" using h(3) by (simp add: unat_word_ariths)
  have ag: "agree (swept g \<sigma>) \<sigma> ?a"
    using h by (auto simp: agree_def option.rel_refl lists_stay_updobj insert_absorb domIff)
  have "counted B (swept g \<sigma>) (T + add_mset x L) M ?a"
    by (rule counted_step [OF c ag]) (use h F n in \<open>auto simp: refcount_def\<close>)
  then have ia: "gcinv B T (add_mset x L) M stk ps g ?a" by (rule gcinv_kept [OF i k])
  have "okp g ?a x" using h by (simp add: okp_def)
  then obtain \<sigma>' where s: "shade x ?a = Some \<sigma>'" "shades g ?a \<sigma>'" "dark \<sigma>' x" using shade_ok H by blast
  have "incref x \<sigma> = Some \<sigma>'" using s(1) h(1) by (simp add: incref_def shade_def)
  then show ?thesis using gcinv_shades [OF ia s(2)] s(3) by blast
qed

section \<open>Stores\<close>

abbreviation stored :: "WORD \<Rightarrow> WORD \<Rightarrow> vm \<Rightarrow> vm" where
  "stored q x \<sigma> \<equiv> \<sigma>\<lparr>mem := wrW (mem \<sigma>) q x\<rparr>"

definition slotof :: "gcvars \<Rightarrow> vm \<Rightarrow> (prg \<Rightarrow> (WORD \<times> tid) list) \<Rightarrow> prg list \<Rightarrow> ptr \<Rightarrow> WORD \<Rightarrow> bool" where
  \<comment> \<open>\<open>q\<close> is a pointer word of the object \<open>w\<close>, of no other object, and of no frame\<close>
  "slotof g \<sigma> stk ps w q \<longleftrightarrow> modlink \<sigma> w = None \<and>
     (\<exists>K. kids \<sigma> w = add_mset (rdW (mem \<sigma>) q) K \<and> (\<forall>x. kids (stored q x \<sigma>) w = add_mset x K)) \<and>
     (\<forall>x v. v \<noteq> w \<longrightarrow> kids (stored q x \<sigma>) v = kids \<sigma> v) \<and>
     (\<forall>x v h. hp \<sigma> v = Some h \<longrightarrow> sliced \<sigma> h \<longrightarrow> sliced (stored q x \<sigma>) h) \<and>
     (\<forall>x. rooted g (stored q x \<sigma>) stk ps \<and> stackptrs g (stored q x \<sigma>) stk ps = stackptrs g \<sigma> stk ps)"

definition samestruct :: "vm \<Rightarrow> vm \<Rightarrow> bool" where
  "samestruct \<sigma> \<sigma>' \<longleftrightarrow> mem \<sigma>' = mem \<sigma> \<and> types \<sigma>' = types \<sigma> \<and> mods \<sigma>' = mods \<sigma> \<and> modules \<sigma>' = modules \<sigma> \<and> progs \<sigma>' = progs \<sigma> \<and>
     phead \<sigma>' = phead \<sigma> \<and> (\<forall>u. map_option (\<lambda>h. (hs h, ht h)) (hp \<sigma>' u) = map_option (\<lambda>h. (hs h, ht h)) (hp \<sigma> u))"

lemma samestruct_obj:
  assumes "samestruct \<sigma> \<sigma>'"
  obtains "hp \<sigma> u = None" "hp \<sigma>' u = None" | h h' where "hp \<sigma> u = Some h" "hp \<sigma>' u = Some h'" "hs h' = hs h" "ht h' = ht h"
proof -
  have "map_option (\<lambda>h. (hs h, ht h)) (hp \<sigma>' u) = map_option (\<lambda>h. (hs h, ht h)) (hp \<sigma> u)" using assms by (simp add: samestruct_def)
  then show ?thesis using that by (cases "hp \<sigma> u"; cases "hp \<sigma>' u") auto
qed

lemma samestruct_kids: assumes "samestruct \<sigma> \<sigma>'" shows "kids \<sigma>' = kids \<sigma>" "modlink \<sigma>' = modlink \<sigma>"
proof -
  have S: "mem \<sigma>' = mem \<sigma>" "types \<sigma>' = types \<sigma>" using assms by (simp_all add: samestruct_def)
  show "kids \<sigma>' = kids \<sigma>"
  proof
    fix u show "kids \<sigma>' u = kids \<sigma> u"
      by (rule samestruct_obj [OF assms, of u]) (simp_all add: kids_def S kids_of_cong)
  qed
  show "modlink \<sigma>' = modlink \<sigma>"
  proof
    fix u show "modlink \<sigma>' u = modlink \<sigma> u"
      by (rule samestruct_obj [OF assms, of u]) (simp_all add: modlink_def)
  qed
qed

lemma samestruct_stored: "samestruct \<sigma> \<sigma>' \<Longrightarrow> samestruct (stored q x \<sigma>) (stored q x \<sigma>')"
  by (simp add: samestruct_def)

lemma samestruct_incref: "incref x \<sigma> = Some \<sigma>' \<Longrightarrow> samestruct \<sigma> \<sigma>' \<and> rd \<sigma>' = rd \<sigma>"
  by (auto simp: incref_def samestruct_def hp_Setmark Setmark_def updobj_def option.map_comp comp_def
      intro!: option.map_cong0 split: option.splits if_splits)

lemma samestruct_sliced:
  assumes "samestruct \<sigma> \<sigma>'" "hs h' = hs h" "ht h' = ht h"
  shows "sliced \<sigma>' h' = sliced \<sigma> h"
  by (rule sliced_cong [OF _ _ assms(2,3)]) (use assms(1) samestruct_kids(1) [OF assms(1)] in \<open>simp_all add: samestruct_def\<close>)

lemma samestruct_roots:
  assumes "samestruct \<sigma> \<sigma>'"
  shows "rooted g \<sigma>' = rooted g \<sigma>" "stackptrs g \<sigma>' = stackptrs g \<sigma>"
proof -
  have S: "mem \<sigma>' = mem \<sigma>" "types \<sigma>' = types \<sigma>" "mods \<sigma>' = mods \<sigma>" "modules \<sigma>' = modules \<sigma>" "progs \<sigma>' = progs \<sigma>" "phead \<sigma>' = phead \<sigma>"
    using assms by (simp_all add: samestruct_def)
  note R = roots_cong [OF S samestruct_kids(2) [OF assms]]
  show "rooted g \<sigma>' = rooted g \<sigma>" by (rule R(7))
  show "stackptrs g \<sigma>' = stackptrs g \<sigma>" by (simp add: fun_eq_iff stackptrs_def R(3) S)
qed

lemma samestruct_slotof:
  assumes s: "samestruct \<sigma> \<sigma>'" and o: "slotof g \<sigma> stk ps w q"
  shows "slotof g \<sigma>' stk ps w q"
proof -
  note t = samestruct_stored [OF s]
  have m: "mem \<sigma>' = mem \<sigma>" using s by (simp add: samestruct_def)
  have sl: "sliced (stored q x \<sigma>') h'" if h': "hp \<sigma>' v = Some h'" "sliced \<sigma>' h'" for x v h'
  proof (rule samestruct_obj [OF s, of v])
    fix h h1 assume h: "hp \<sigma> v = Some h" "hp \<sigma>' v = Some h1" "hs h1 = hs h" "ht h1 = ht h"
    then have "h1 = h'" using h' by simp
    then have "sliced \<sigma> h" "sliced (stored q x \<sigma>') h' = sliced (stored q x \<sigma>) h"
      using samestruct_sliced [OF s h(3,4)] samestruct_sliced [OF t h(3,4)] h'(2) by simp_all
    then show ?thesis using o h(1) unfolding slotof_def by blast
  qed (use h' in simp)
  show ?thesis
    using o sl unfolding slotof_def m samestruct_kids [OF s] samestruct_kids [OF t [unfolded m]]
      samestruct_roots [OF s] samestruct_roots [OF t [unfolded m]] by blast
qed

text \<open>The word of an object that is not condemned changes to a marked pointer.\<close>

lemma sum_one:
  fixes f f' :: "'a \<Rightarrow> nat"
  assumes "finite A" "w \<in> A" "\<And>v. v \<noteq> w \<Longrightarrow> f' v = f v" "f' w + a = f w + b"
  shows "(\<Sum>v\<in>A. f' v) + a = (\<Sum>v\<in>A. f v) + b"
proof -
  have "(\<Sum>v\<in>A - {w}. f' v) = (\<Sum>v\<in>A - {w}. f v)" by (rule sum.cong) (use assms(3) in auto)
  then show ?thesis using assms(4) by (simp add: sum.remove [OF assms(1,2)])
qed

lemma store_counted:
  assumes c: "counted B F (add_mset x R) M \<sigma>" and o: "slotof g \<sigma> stk ps w q" and w: "w \<in> live F \<sigma>"
  shows "counted B F (add_mset (rdW (mem \<sigma>) q) R) M (stored q x \<sigma>)"
proof (rule counted_swap [OF c])
  let ?t = "rdW (mem \<sigma>) q"
  obtain K where K: "kids \<sigma> w = add_mset ?t K" "kids (stored q x \<sigma>) w = add_mset x K" using o unfolding slotof_def by blast
  have k: "\<And>v. v \<noteq> w \<Longrightarrow> kids (stored q x \<sigma>) v = kids \<sigma> v" using o unfolding slotof_def by blast
  have mk: "modkids (stored q x \<sigma>) = modkids \<sigma>" by (simp add: fun_eq_iff modkids_def split: option.splits)
  have l: "live F (stored q x \<sigma>) = live F \<sigma>" by (simp add: live_def)
  show "refsto F (add_mset ?t R) (stored q x \<sigma>) u = refsto F (add_mset x R) \<sigma> u" for u
  proof -
    have "(\<Sum>v\<in>live F \<sigma>. count (kids (stored q x \<sigma>) v) u) + (if u = ?t then 1 else 0) = (\<Sum>v\<in>live F \<sigma>. count (kids \<sigma> v) u) + (if u = x then 1 else 0)"
      by (rule sum_one [OF _ w]) (use k K in auto)
    then show ?thesis unfolding refsto_def l by (auto split: if_splits)
  qed
  show "modrefs F M (stored q x \<sigma>) m = modrefs F M \<sigma> m" for m by (simp add: modrefs_def l mk)
  show "pool_inv (heapmem (stored q x \<sigma>)) (hblk ` dom (hp (stored q x \<sigma>)))" using c by (simp add: counted_def)
qed (simp_all add: refcount_def)

lemma store_barrier:
  assumes i: "gcinv B T (add_mset x L) M stk ps g \<sigma>" and o: "slotof g \<sigma> stk ps w q"
    and w: "hp \<sigma> w = Some hx" "color hx \<noteq> sweeper g" and x: "x \<noteq> H \<longrightarrow> dark \<sigma> x"
  shows "gcinv B T (add_mset (rdW (mem \<sigma>) q) L) M stk ps g (stored q x \<sigma>)"
proof -
  let ?s = "stored q x \<sigma>"
  have i1: "gcheap {} B T (add_mset x L) M stk ps g \<sigma>" "lit g \<sigma> stk ps" "gbase g \<noteq> None \<longrightarrow> (\<exists>c b. at_block g \<sigma> c b)"
    using i by (simp_all add: gcinv_def gcgood_def)
  note D = gcheapD [OF i1(1)]
  obtain K where K: "kids \<sigma> w = add_mset (rdW (mem \<sigma>) q) K" "kids ?s w = add_mset x K" using o unfolding slotof_def by blast
  have k: "kids ?s v = kids \<sigma> v" if "v \<noteq> w" for v using o that unfolding slotof_def by blast
  have S: "hp ?s = hp \<sigma>" "heapmem ?s = heapmem \<sigma>" "mutator ?s = mutator \<sigma>" "gccolor ?s = gccolor \<sigma>" "types ?s = types \<sigma>" "nprop ?s = nprop \<sigma>"
    "mods ?s = mods \<sigma>" "modules ?s = modules \<sigma>" by simp_all
  have e: "swept g ?s = swept g \<sigma>" "roles g ?s = roles g \<sigma>" "\<And>u. dark ?s u = dark \<sigma> u" "\<And>u. modkids ?s u = modkids \<sigma> u" "modlink ?s = modlink \<sigma>"
    "\<And>v. clean g ?s v = clean g \<sigma> v"
    unfolding swept_def roles_def dark_def modkids_def modlink_def clean_def S by simp_all
  have wl: "w \<in> live (swept g \<sigma>) \<sigma>" using w by (auto simp: live_def swept_def)
  have "counted B (swept g \<sigma>) (add_mset x (T + L)) M \<sigma>" using D(1) by simp
  from store_counted [OF this o wl] have c: "counted B (swept g ?s) (T + add_mset (rdW (mem \<sigma>) q) L) M ?s" by (simp add: e)
  have tr: "tricolour {} ?s"
    unfolding tricolour_def S e
  proof (intro allI impI ballI)
    fix u h y assume u: "hp \<sigma> u = Some h" "color h = mutator \<sigma>" "y \<in># kids ?s u" "y \<noteq> H"
    have "y \<in># kids \<sigma> u \<or> y = x" using u(3) k K by (cases "u = w") auto
    then show "dark \<sigma> y" using D(5) u x unfolding tricolour_def by blast
  qed
  have rt: "rooted g ?s stk ps" "stackptrs g ?s stk ps = stackptrs g \<sigma> stk ps" using o unfolding slotof_def by blast+
  have il: "islink ?s = islink \<sigma>" by (simp add: fun_eq_iff islink_def e)
  have nl: "\<not> islink \<sigma> w" using o by (simp add: slotof_def islink_def)
  have "heldby T ?s u = heldby T \<sigma> u" for u using k nl unfolding heldby_def il by metis
  then have pn: "pinned T g ?s stk ps" using D(7) unfolding pinned_def rt by simp
  have "sliced ?s h" if "hp \<sigma> v = Some h" "sliced \<sigma> h" for v h using o that unfolding slotof_def by blast
  then have co: "collectable g ?s" using D(8) unfolding collectable_def S by metis
  have "gcheap {} B T (add_mset (rdW (mem \<sigma>) q) L) M stk ps g ?s"
    unfolding gcheap_def using c D(2,3,4) tr rt(1) pn co by (simp add: e)
  moreover have "lit g ?s stk ps" using i1(2) unfolding lit_def set_rootptrs rt(2) S e(3) .
  moreover have "at_block g ?s c b = at_block g \<sigma> c b" for c b unfolding at_block_def S e(6) ..
  ultimately show ?thesis using i1(3) by (simp add: gcinv_def gcgood_def)
qed

lemma destroy_barrier:
  assumes i: "gcinv B T (add_mset t L) M stk ps g \<sigma>"
  shows "\<exists>\<sigma>'. destroy t \<sigma> = Some \<sigma>' \<and> gcinv B T L M stk ps g \<sigma>' \<and> mem \<sigma>' = mem \<sigma>"
proof -
  have g: "gcheap {} B T (add_mset t L) M stk ps g \<sigma>" using i by (simp add: gcinv_def gcgood_def)
  note D = gcheapD [OF g]
  have "counted B (swept g \<sigma>) (add_mset t (T + L)) M \<sigma>" using D(1) by simp
  moreover have "B \<subseteq># T + L" using D(2) by (rule subset_mset.order_trans) simp
  ultimately obtain \<sigma>' where s: "destroy t \<sigma> = Some \<sigma>'" "counted B (swept g \<sigma>) (T + L) M \<sigma>'" "kept (swept g \<sigma>) {} \<sigma> \<sigma>'"
    using dis_heap.release [OF _ _ order_refl] by blast
  then show ?thesis using gcinv_kept [OF i s(3,2)] kept_sel(1) [OF s(3)] by blast
qed

lemma gcinv_nil: "gcinv B T L M stk ps g \<sigma> \<Longrightarrow> gcinv B T (add_mset H L) M stk ps g \<sigma>"
proof -
  assume i: "gcinv B T L M stk ps g \<sigma>"
  then have c: "counted B (swept g \<sigma>) (T + L) M \<sigma>" by (simp add: gcinv_def gcgood_def gcheap_def)
  have "counted B (swept g \<sigma>) (T + add_mset H L) M \<sigma>"
    by (rule counted_swap [OF c]) (use c in \<open>simp_all add: refsto_def counted_def\<close>)
  then show ?thesis by (rule gcinv_kept [OF i kept_refl])
qed

lemma reach_live:
  assumes "gcinv B T L M stk ps g \<sigma>" "reach T \<sigma> u"
  obtains h where "hp \<sigma> u = Some h" "color h \<noteq> sweeper g" "u \<noteq> H"
proof -
  have c: "counted B (swept g \<sigma>) (T + L) M \<sigma>" using assms(1) by (simp add: gcinv_def gcgood_def gcheap_def)
  obtain h where h: "hp \<sigma> u = Some h" "u \<notin> swept g \<sigma>" using reach_stays [OF evolves_refl c assms(2)] by blast
  moreover from h have "u \<noteq> H" using counted_nil [OF c] by auto
  ultimately show ?thesis using that by (simp add: swept_def)
qed

section \<open>Allocation\<close>

text \<open>A new object has the colour \<^verbatim>\<open>mutator\<close> and no children. The pool may get a new chunk, which the pass does not visit.\<close>

definition growchunks :: "Pool \<Rightarrow> Pool \<Rightarrow> bool" where
  \<comment> \<open>at most one chunk is new\<close>
  "growchunks p p' \<longleftrightarrow> (chain p' = chain p \<and> csize p' = csize p \<or> (\<exists>c n. chain p' = c # chain p \<and> csize p' = (csize p)(c := n))) \<and>
     (\<forall>b. magic p' b = MAGIC_I \<longrightarrow> magic p b = MAGIC_I)"

lemma poolops_chunks [simp]:
  "chain (usemem t p) = chain p" "csize (usemem t p) = csize p" "magic (usemem t p) = magic p"
  "chain (layblk t n p) = chain p" "csize (layblk t n p) = csize p" "magic (layblk t n p) = magic p"
  "csize (pooladd t p) = csize p" "chain (pooldel t p) = chain p" "csize (pooldel t p) = csize p" "magic (pooldel t p) = magic p"
  "chain (mkleader c ns p) = c # chain p" "csize (mkleader c ns p) = (csize p)(c := ns + (quanta p + 1))" "magic (mkleader c ns p) = (magic p)(c := MAGIC_E)"
  by (simp_all add: usemem_def layblk_def B2T_hdr_def pooladd_def pooldel_def mkleader_def Let_def)

lemma newchunk_grows: "newchunk want ns n p = (r, p') \<Longrightarrow> growchunks p p'"
  by (auto simp: newchunk_def sbrk_def growchunks_def Let_def split: if_splits)

lemma growchunks_cong: "growchunks p1 q \<Longrightarrow> chain p1 = chain p \<Longrightarrow> csize p1 = csize p \<Longrightarrow> magic p1 = magic p \<Longrightarrow> growchunks p q"
  by (simp add: growchunks_def)

lemma growpool_grows:
  assumes "\<not> moving p"
  shows "\<exists>r p'. growpool want p = Done (r, p') \<and> growchunks p p'"
proof -
  have nc: "\<exists>r p'. newchunk want ns n (p\<lparr>arenasize := a\<rparr>) = (r, p') \<and> growchunks p p'" for ns n a
  proof -
    obtain r p' where "newchunk want ns n (p\<lparr>arenasize := a\<rparr>) = (r, p')" by fastforce
    then show ?thesis using growchunks_cong [OF newchunk_grows] by fastforce
  qed
  have "growchunks p p" by (simp add: growchunks_def)
  then show ?thesis using nc assms unfolding growpool_def Let_def poolcompact_def by (simp split: if_splits)
qed

lemma poolalloc_grows:
  assumes m: "\<not> moving p" and p: "poolalloc n p = Some (r, p')"
  shows "growchunks p p'"
proof -
  let ?p = "p\<lparr>nalloc := nalloc p + 1\<rparr>"
  have "\<exists>r p'. poolalloc1 n p = Done (r, p') \<and> growchunks p p'"
  proof (cases "n < 0 \<or> n \<ge> 1024 * 1024 * 1024")
    case True
    then show ?thesis by (simp add: poolalloc1_def growchunks_def)
  next
    case False
    define want where "want = (n + BHDRSIZE + quanta p) AND NOT (quanta p)"
    have P: "poolalloc1 n p = (case treefind (bsize p) want Nofit (froot p) of
           Exact t \<Rightarrow> Done (Some (B2D t), usemem t (setmagic t MAGIC_A (pooldel t ?p)))
         | Best q \<Rightarrow>
             (let p2 = setmagic q MAGIC_A (pooldel q ?p);
                  frag = bsize p2 q - want in
              if frag < drop_bit 2 want then Done (Some (B2D q), usemem q p2)
              else
                (let p3 = layblk q want p2;
                     t = B2NB p3 q;
                     p4 = layblk t frag p3 in
                 Done (Some (B2D q), usemem q (pooladd t p4))))
         | Nofit \<Rightarrow> growpool want ?p)"
      unfolding poolalloc1_def want_def Let_def if_not_P [OF False] by simp
    show ?thesis
    proof (cases "treefind (bsize p) want Nofit (froot p)")
      case Nofit
      have "\<not> moving ?p" using m by simp
      from growpool_grows [OF this, of want] obtain r p' where "growpool want ?p = Done (r, p')" "growchunks ?p p'" by blast
      then show ?thesis using P Nofit by (auto intro: growchunks_cong [of ?p])
    qed (auto simp: P Let_def growchunks_def)
  qed
  then show ?thesis using p by (auto simp: poolalloc_def)
qed

lemma at_block_grow:
  assumes a: "at_block g \<sigma> c b" and gr: "growchunks (heapmem \<sigma>) (heapmem s)"
    and ar: "arena (heapmem \<sigma>) BS ES" "hblk ` dom (hp \<sigma>) \<subseteq> BS" "arena (heapmem s) BS' ES'"
    and cl: "\<And>v. hp \<sigma> v = None \<Longrightarrow> clean g s v" "\<And>v. clean g \<sigma> v \<Longrightarrow> clean g s v"
  shows "at_block g s c b"
proof -
  let ?P = "heapmem \<sigma>" and ?Q = "heapmem s"
  note ch = arenaD(15) [OF ar(1)] and ch' = arenaD(15) [OF ar(3)]
  have d: "distinct (chain ?Q)" using ch' unfolding chunked_def by blast
  have sub: "set (chain ?P) \<subseteq> set (chain ?Q)" using gr by (auto simp: growchunks_def)
  have lim: "B2LIMIT ?Q x = B2LIMIT ?P x" if "x \<in> set (chain ?P)" for x
    using gr d that by (auto simp: growchunks_def B2LIMIT_def)
  have c: "c \<in> set (chain ?P)" using a by (simp add: at_block_def)
  have tw: "set (takeWhile (\<lambda>x. x \<noteq> c) (chain ?Q)) \<subseteq> (set (chain ?Q) - set (chain ?P)) \<union> set (takeWhile (\<lambda>x. x \<noteq> c) (chain ?P))"
    using gr d c by (auto simp: growchunks_def)
  have "clean g s v" if v: "behind ?Q c b v" for v
  proof (cases "hp \<sigma> v")
    case (Some h)
    then obtain e where e: "e \<in> set (chain ?P)" "e < hblk v" "hblk v < B2LIMIT ?P e"
      using ar(2) ch unfolding chunked_def by (metis domI image_subset_iff)
    have "behind ?P c b v"
    proof (cases "c \<le> hblk v \<and> hblk v < b")
      case False
      then obtain x where x: "x \<in> set (takeWhile (\<lambda>x. x \<noteq> c) (chain ?Q))" "x \<le> hblk v" "hblk v < B2LIMIT ?Q x" using v by (auto simp: behind_def)
      have xQ: "x \<in> set (chain ?Q)" using x(1) by (rule set_takeWhileD [THEN conjunct1])
      have "x = e"
      proof (rule ccontr)
        assume "x \<noteq> e"
        moreover have eQ: "e \<in> set (chain ?Q)" using e(1) sub by blast
        ultimately have "B2LIMIT ?Q x \<le> e \<or> B2LIMIT ?Q e \<le> x" using ch' xQ unfolding chunked_def by (metis linorder_neqE)
        then show False using x(2,3) e(2,3) lim [OF e(1)] by linarith
      qed
      then have "x \<in> set (takeWhile (\<lambda>x. x \<noteq> c) (chain ?P))" using tw x(1) e(1) by blast
      then show ?thesis using x(2) e(3) \<open>x = e\<close> by (auto simp: behind_def)
    qed (simp add: behind_def)
    then show ?thesis using a cl(2) by (simp add: at_block_def)
  qed (rule cl(1))
  then show ?thesis using a sub lim [OF c] by (auto simp: at_block_def)
qed

lemma gcinv_grow:
  assumes i: "gcinv B T L M stk ps g \<sigma>" and s: "s = \<sigma>\<lparr>heapmem := P, hp := h'\<rparr>"
    and h': "h' = hp \<sigma> \<or> (\<exists>v. hp \<sigma> v = None \<and> h' = (hp \<sigma>)(v \<mapsto> blank \<sigma> None))"
    and gr: "growchunks (heapmem \<sigma>) P" and c: "counted B (swept g \<sigma>) (T + L') M s"
  shows "gcinv B T L' M stk ps g s"
proof -
  have i1: "gcheap {} B T L M stk ps g \<sigma>" "lit g \<sigma> stk ps" "gbase g \<noteq> None \<longrightarrow> (\<exists>c b. at_block g \<sigma> c b)"
    using i by (simp_all add: gcinv_def gcgood_def)
  note D = gcheapD [OF i1(1)]
  note n = roles_ne [OF D(4)]
  have S: "mem s = mem \<sigma>" "types s = types \<sigma>" "mods s = mods \<sigma>" "modules s = modules \<sigma>" "progs s = progs \<sigma>" "phead s = phead \<sigma>"
    "mutator s = mutator \<sigma>" "gccolor s = gccolor \<sigma>" "nprop s = nprop \<sigma>" "heapmem s = P" "hp s = h'" by (simp_all add: s)
  have o: "hp s u = hp \<sigma> u \<or> hp \<sigma> u = None \<and> hp s u = Some (blank \<sigma> None)" for u using h' by (auto simp: S split: if_splits)
  have ks: "kids s = kids \<sigma>" "modkids s = modkids \<sigma>" "modlink s = modlink \<sigma>"
  proof (rule_tac [!] ext)
    fix u show "kids s u = kids \<sigma> u" "modkids s u = modkids \<sigma> u" "modlink s u = modlink \<sigma> u"
      using o [of u] by (auto simp: kids_def modkids_def modlink_def kids_of_def S blank_def struct0_def split: option.splits)
  qed
  note R = roots_cong [OF S(1-6) ks(3)]
  have sw: "swept g s = swept g \<sigma>"
  proof (rule set_eqI)
    fix u show "u \<in> swept g s \<longleftrightarrow> u \<in> swept g \<sigma>" using o [of u] n(1) by (elim disjE conjE) (simp_all add: swept_def blank_def)
  qed
  have dk: "dark s u" if "dark \<sigma> u" for u using o [of u] that by (elim disjE conjE) (simp_all add: dark_def S(7))
  have cl: "clean g s v" if "hp \<sigma> v = None \<or> clean g \<sigma> v" for v using o [of v] that n by (elim disjE conjE) (simp_all add: clean_def S(9) blank_def)
  have ro: "roles g s"
  proof -
    have "color h = mutator \<sigma> \<or> (\<exists>u. hp \<sigma> u = Some h)" if "hp s u = Some h" for u h using that o [of u] by (auto simp: blank_def)
    moreover have "mutator \<sigma> \<in> {0, 1, 2, propagator} \<and> mutator \<sigma> \<noteq> (gccolor \<sigma> - 2) mod 3" using D(4) unfolding roles_def by (simp, presburger)
    ultimately show ?thesis using D(4) unfolding roles_def S(7,8) by metis
  qed
  have tr: "tricolour {} s"
    unfolding tricolour_def ks
  proof (intro allI impI ballI)
    fix u h y assume u: "hp s u = Some h" "color h = mutator s" "y \<in># kids \<sigma> u" "y \<noteq> H"
    then have "hp \<sigma> u = Some h" using o [of u] by auto
    then show "dark s y" using D(5) u by (intro dk) (auto simp: tricolour_def S(7))
  qed
  have co: "collectable g s"
  proof -
    have "markable (types s) h \<and> (if color h = sweeper g then shaped (types s) h \<and> \<not> waited h else sliced s h)" if u: "hp s u = Some h" for u h
    proof (cases "hp \<sigma> u = Some h")
      case True
      have "sliced s h = sliced \<sigma> h" by (rule sliced_cong) (simp_all add: S ks)
      then show ?thesis using D(8) True by (simp add: collectable_def S)
    next
      case False
      then have "h = blank \<sigma> None" using o [of u] u by auto
      then show ?thesis using n(1) by (simp add: blank_def markable_def sliced_def)
    qed
    moreover have "chain (heapmem s) \<noteq> []" "magic (heapmem s) b \<noteq> MAGIC_I" for b
      using gr D(8) by (auto simp: growchunks_def collectable_def S(10))
    ultimately show ?thesis unfolding collectable_def by blast
  qed
  have st: "stackptrs g s stk ps = stackptrs g \<sigma> stk ps" by (simp add: stackptrs_def R S)
  have "pinned T g s stk ps" using D(7) unfolding pinned_def st heldby_def ks R .
  then have gh: "gcheap {} B T L' M stk ps g s" unfolding gcheap_def sw ks(2) R using c D(2,3,6) ro tr co by blast
  have "lit g s stk ps" using i1(2) dk unfolding lit_def R by blast
  moreover have "at_block g s c b" if at: "at_block g \<sigma> c b" for c b
  proof -
    obtain BS ES where a1: "arena (heapmem \<sigma>) BS ES" "{b\<in>BS. magic (heapmem \<sigma>) b = MAGIC_A} = hblk ` dom (hp \<sigma>)" by (rule pool_arena [OF i1(1)])
    obtain BS' ES' where a2: "arena (heapmem s) BS' ES'" by (rule pool_arena [OF gh])
    show ?thesis by (rule at_block_grow [OF at _ a1(1) _ a2]) (use gr a1(2) cl S(10) in auto)
  qed
  ultimately show ?thesis using gh i1(3) by (auto simp: gcinv_def gcgood_def)
qed

lemma nheap_barrier:
  assumes i: "gcinv B T L M stk ps g \<sigma>" and n: "0 \<le> n" "n < 1073741812"
  shows "(\<exists>\<sigma>'. nheap n \<sigma> = Err exHeap \<sigma>' \<and> gcinv B T L M stk ps g \<sigma>') \<or>
    (\<exists>v \<sigma>'. nheap n \<sigma> = Ret v \<sigma>' \<and> hp \<sigma> v = None \<and> gcinv B T (add_mset v L) M stk ps g \<sigma>')"
proof -
  have c: "counted B (swept g \<sigma>) (T + L) M \<sigma>" using i by (simp add: gcinv_def gcgood_def gcheap_def)
  have p: "heap_ok \<sigma>" "\<not> moving (heapmem \<sigma>)" using c by (simp_all add: counted_def pool_inv_def)
  have F: "swept g \<sigma> \<subseteq> dom (hp \<sigma>)" by (auto simp: swept_def)
  have gr: "growchunks (heapmem \<sigma>) P" if "newblock n None \<sigma> = Err exHeap (\<sigma>\<lparr>heapmem := P\<rparr>) \<or> newblock n None \<sigma> = Ret v (\<sigma>\<lparr>heapmem := P, hp := h'\<rparr>)" for P v h'
  proof (cases "poolalloc (sizeof_Heap + n) (heapmem \<sigma>)")
    case (Some rp)
    obtain r P1 where rp: "rp = (r, P1)" by fastforce
    have "P1 = P" using that Some rp by (cases r) (auto simp: newblock_def Let_def dest!: arg_cong [of _ _ heapmem])
    then show ?thesis using poolalloc_grows [OF p(2)] Some rp by blast
  qed (use that in \<open>simp add: newblock_def\<close>)
  show ?thesis
  proof (rule newblock_ok [OF p(1) n, of None])
    fix P assume P: "newblock n None \<sigma> = Err exHeap (\<sigma>\<lparr>heapmem := P\<rparr>)" "heap_ok (\<sigma>\<lparr>heapmem := P\<rparr>)"
    have k: "kids (\<sigma>\<lparr>heapmem := P\<rparr>) = kids \<sigma>" "modkids (\<sigma>\<lparr>heapmem := P\<rparr>) = modkids \<sigma>"
      by (simp_all add: fun_eq_iff kids_def modkids_def split: option.splits)
    have "counted B (swept g \<sigma>) (T + L) M (\<sigma>\<lparr>heapmem := P\<rparr>)"
      by (intro counted_swap [OF c]) (use P k in \<open>simp_all add: refsto_def modrefs_def live_def refcount_def\<close>)
    then have "gcinv B T L M stk ps g (\<sigma>\<lparr>heapmem := P\<rparr>)" by (intro gcinv_grow [OF i, where P = P and h' = "hp \<sigma>"]) (use gr P in simp_all)
    then show ?thesis using P by (simp add: nheap_def)
  next
    fix v P
    let ?s = "\<sigma>\<lparr>heapmem := P, hp := (hp \<sigma>)(v \<mapsto> blank \<sigma> None)\<rparr>"
    assume v: "newblock n None \<sigma> = Ret v ?s" "v \<noteq> H" "hp \<sigma> v = None" "heap_ok ?s"
    have "counted B (swept g \<sigma>) (T + add_mset v L) M ?s" using blank_counted [OF c F v(2,3) refl v(4)] by simp
    then have "gcinv B T (add_mset v L) M stk ps g ?s" by (intro gcinv_grow [OF i refl]) (use gr v in blast)+
    then show ?thesis using v by (simp add: nheap_def)
  qed
qed

lemma movp_keeps:
  assumes "gcinv B T L M stk ps g \<sigma>" and "slotof g \<sigma> stk ps w (rd \<sigma>)" and "reach T \<sigma> w"
    and "Ws \<sigma> = H \<or> reach T \<sigma> (Ws \<sigma>)" and "\<forall>h. hp \<sigma> (Ws \<sigma>) = Some h \<longrightarrow> unat (href h) + 1 < 2 ^ 32"
  shows "\<exists>\<sigma>'. movp \<sigma> = Ret () \<sigma>' \<and> gcinv B T L M stk ps g \<sigma>' \<and> mem \<sigma>' = wrW (mem \<sigma>) (rd \<sigma>) (Ws \<sigma>)"
proof -
  let ?x = "Ws \<sigma>" and ?q = "rd \<sigma>"
  obtain hx where w: "hp \<sigma> w = Some hx" "color hx \<noteq> sweeper g" by (rule reach_live [OF assms(1,3)])
  have inc: "\<exists>\<sigma>1 h1. (if ?x \<noteq> H then liftO (incref ?x \<sigma>) else Ret () \<sigma>) = Ret () \<sigma>1 \<and> gcinv B T (add_mset ?x L) M stk ps g \<sigma>1 \<and>
    (?x \<noteq> H \<longrightarrow> dark \<sigma>1 ?x) \<and> slotof g \<sigma>1 stk ps w ?q \<and> hp \<sigma>1 w = Some h1 \<and> color h1 \<noteq> sweeper g \<and> mem \<sigma>1 = mem \<sigma> \<and> rd \<sigma>1 = rd \<sigma>"
  proof (cases "?x = H")
    case True
    then show ?thesis using gcinv_nil [OF assms(1)] assms(2) w by auto
  next
    case False
    then have r: "reach T \<sigma> ?x" using assms(4) by blast
    obtain h where h: "hp \<sigma> ?x = Some h" "color h \<noteq> sweeper g" by (rule reach_live [OF assms(1) r])
    obtain \<sigma>1 where 1: "incref ?x \<sigma> = Some \<sigma>1" "gcinv B T (add_mset ?x L) M stk ps g \<sigma>1" "dark \<sigma>1 ?x"
      using incref_barrier [OF assms(1) h _ False] assms(5) h(1) by blast
    have ss: "samestruct \<sigma> \<sigma>1" "rd \<sigma>1 = rd \<sigma>" using samestruct_incref [OF 1(1)] by blast+
    have n: "sweeper g \<noteq> propagator" using 1(2) roles_ne(2) by (auto simp: gcinv_def gcgood_def gcheap_def)
    have "\<exists>h1. hp \<sigma>1 w = Some h1 \<and> color h1 \<noteq> sweeper g" using 1(1) w n
      by (auto simp: incref_def hp_Setmark split: option.splits if_splits)
    then show ?thesis using 1 False ss samestruct_slotof [OF ss(1) assms(2)] by (auto simp: samestruct_def)
  qed
  then obtain \<sigma>1 h1 where 1: "(if ?x \<noteq> H then liftO (incref ?x \<sigma>) else Ret () \<sigma>) = Ret () \<sigma>1" "gcinv B T (add_mset ?x L) M stk ps g \<sigma>1"
    "?x \<noteq> H \<longrightarrow> dark \<sigma>1 ?x" "slotof g \<sigma>1 stk ps w ?q" "hp \<sigma>1 w = Some h1" "color h1 \<noteq> sweeper g" "mem \<sigma>1 = mem \<sigma>" "rd \<sigma>1 = rd \<sigma>" by blast
  have "gcinv B T (add_mset (rdW (mem \<sigma>1) ?q) L) M stk ps g (stored ?q ?x \<sigma>1)"
    by (rule store_barrier [OF 1(2,4,5,6,3)])
  from destroy_barrier [OF this] obtain \<sigma>2 where 2: "destroy (rdW (mem \<sigma>1) ?q) (stored ?q ?x \<sigma>1) = Some \<sigma>2" "gcinv B T L M stk ps g \<sigma>2"
    "mem \<sigma>2 = wrW (mem \<sigma>1) ?q ?x" by auto
  have "storep ?x \<sigma>1 = Ret () \<sigma>2" using 2(1) 1(7,8) by (simp add: storep_def Wd_def liftO_def)
  then have "movp \<sigma> = Ret () \<sigma>2" using 1(1) by (simp add: movp_def movptr_def)
  then show ?thesis using 2(2,3) 1(7) by simp
qed

section \<open>Interleavings\<close>

text \<open>
  The steps of the machine as the collector sees them: slices of \<^verbatim>\<open>rungc\<close>, pointer moves by progs into objects, whatever the
  operands, and allocations.
\<close>

inductive gcstep :: "ptr multiset \<Rightarrow> (prg \<Rightarrow> (WORD \<times> tid) list) \<Rightarrow> prg list \<Rightarrow> gcvars \<times> vm \<Rightarrow> gcvars \<times> vm \<Rightarrow> bool"
  for T :: "ptr multiset" and stk :: "prg \<Rightarrow> (WORD \<times> tid) list" and ps :: "prg list" where
  gc_slice: "rungc (phead \<sigma>) g \<sigma> = Some (g', \<sigma>') \<Longrightarrow> gcstep T stk ps (g, \<sigma>) (g', \<sigma>')"
| gc_move: "s = \<sigma>\<lparr>rs := a, rd := b\<rparr> \<Longrightarrow> slotof g s stk ps w b \<Longrightarrow> reach T s w \<Longrightarrow> Ws s = H \<or> reach T s (Ws s) \<Longrightarrow>
    \<forall>h. hp s (Ws s) = Some h \<longrightarrow> unat (href h) + 1 < 2 ^ 32 \<Longrightarrow> movp s = Ret () \<sigma>' \<Longrightarrow> gcstep T stk ps (g, \<sigma>) (g, \<sigma>')"
| gc_new: "0 \<le> n \<Longrightarrow> n < 1073741812 \<Longrightarrow> nheap n \<sigma> = Ret v \<sigma>' \<or> nheap n \<sigma> = Err e \<sigma>' \<Longrightarrow> gcstep T stk ps (g, \<sigma>) (g, \<sigma>')"

lemma gcinv_regs: "gcinv B T L M stk ps g (\<sigma>\<lparr>rs := a, rd := b\<rparr>) = gcinv B T L M stk ps g \<sigma>"
proof -
  have "gcgood B T L M stk ps g (\<sigma>\<lparr>rs := a, rd := b\<rparr>) = gcgood B T L M stk ps g \<sigma>" by (rule gcgood_cong) simp_all
  then show ?thesis by (simp add: gcinv_def at_block_def clean_def)
qed

lemma gcstep_keeps:
  assumes "gcstep T stk ps x y" "gcinv B T L M stk ps (fst x) (snd x)"
  shows "\<exists>L' M'. gcinv B T L' M' stk ps (fst y) (snd y)"
  using assms
proof (induction rule: gcstep.induct)
  case (gc_slice \<sigma> g g' \<sigma>')
  from rungc_ok gc_slice.prems have "\<exists>g1 \<sigma>1 L' M'. rungc (phead \<sigma>) g \<sigma> = Some (g1, \<sigma>1) \<and> gcinv B T L' M' stk ps g1 \<sigma>1" by fastforce
  with gc_slice.hyps show ?case by auto
next
  case (gc_move s \<sigma> a b g w \<sigma>')
  have s: "gcinv B T L M stk ps g s" "slotof g s stk ps w (rd s)" using gc_move by (simp_all add: gcinv_regs)
  from movp_keeps [OF s gc_move.hyps(3-5)] gc_move.hyps(6) show ?case by auto
next
  case (gc_new n \<sigma> v \<sigma>' e g)
  from nheap_barrier [OF _ gc_new.hyps(1,2)] gc_new.prems have "(\<exists>\<sigma>'. nheap n \<sigma> = Err exHeap \<sigma>' \<and> gcinv B T L M stk ps g \<sigma>') \<or>
    (\<exists>v \<sigma>'. nheap n \<sigma> = Ret v \<sigma>' \<and> gcinv B T (add_mset v L) M stk ps g \<sigma>')" by fastforce
  with gc_new.hyps(3) show ?case by auto blast+
qed

lemma gcsteps_keep:
  assumes "(gcstep T stk ps)\<^sup>*\<^sup>* x y" "gcinv B T L M stk ps (fst x) (snd x)"
  shows "\<exists>L' M'. gcinv B T L' M' stk ps (fst y) (snd y)"
  using assms by (induction rule: rtranclp_induct) (blast dest: gcstep_keeps)+

section \<open>Properties\<close>

text \<open>
  C10. The write barrier. \<^verbatim>\<open>movp\<close> between two slices of the collector, from a reachable object or nil into a pointer word of a
  reachable object, whatever the colours of the two are, returns with the pointer stored and the old reference dropped, and
  the invariant of the collector holds as before: the counts of what is not condemned are exact, a scanned object that was
  stored into still has marked children, and the pass over the pool goes on where it was.
\<close>

theorem movp_barrier:
  assumes "gcinv B T L M stk ps g \<sigma>" and "slotof g \<sigma> stk ps w (rd \<sigma>)" and "reach T \<sigma> w"
    and "Ws \<sigma> = H \<or> reach T \<sigma> (Ws \<sigma>)" and "\<forall>h. hp \<sigma> (Ws \<sigma>) = Some h \<longrightarrow> unat (href h) + 1 < 2 ^ 32"
  shows "\<exists>\<sigma>'. movp \<sigma> = Ret () \<sigma>' \<and> gcinv B T L M stk ps g \<sigma>' \<and> mem \<sigma>' = wrW (mem \<sigma>) (rd \<sigma>) (Ws \<sigma>)"
  using assms by (rule movp_keeps)

definition gc_node :: hobj where "gc_node = \<lparr>color = 1, href = 1, ht = Some 20, hs = SData\<rparr>"

definition gc_mem :: mem where "gc_mem = wrW (wrW (\<lambda>_. 0) 0x10074 H) 0x200 0x10034"

definition vm_bar :: vm where
  \<comment> \<open>a prog in a module whose data, one pointer word, is scanned already\<close>
  "vm_bar = vm_gc\<lparr>hp := (\<lambda>_. None)(0x10034 \<mapsto> gc_link\<lparr>hs := SModlink 0x10074 0 False []\<rparr>, 0x10074 \<mapsto> gc_node), mem := gc_mem,
     types := builtin_types(20 := \<lparr>tref = 1, tfree = Ffreeheap, tmark = Mmarkheap, tsize = 4, tmap = [0x80]\<rparr>), rs := 0x200, rd := 0x10074\<rparr>"

lemma vm_bar_sel:
  "hp vm_bar = (\<lambda>_. None)(0x10034 \<mapsto> gc_link\<lparr>hs := SModlink 0x10074 0 False []\<rparr>, 0x10074 \<mapsto> gc_node)" "heapmem vm_bar = pool_two"
  "modules vm_bar = [0]" "mutator vm_bar = 1" "gccolor vm_bar = 4" "progs vm_bar = (\<lambda>_. None)(1 \<mapsto> prog0\<lparr>pR_M := 0x10034\<rparr>)" "phead vm_bar = Some 1"
  "types vm_bar = builtin_types(20 := \<lparr>tref = 1, tfree = Ffreeheap, tmark = Mmarkheap, tsize = 4, tmap = [0x80]\<rparr>)"
  "morigmp (mods vm_bar m) = H" "mref (mods vm_bar m) = 1" "mem vm_bar = gc_mem" "rs vm_bar = 0x200" "rd vm_bar = 0x10074"
  by (simp_all add: vm_bar_def vm_gc_sel)

lemma gc_mem_rd: "rdW gc_mem 0x10074 = H" "rdW gc_mem 0x200 = 0x10034"
  by (simp_all add: gc_mem_def rdW_wrW_other disjoint_def)

lemma vm_bar_kids:
  "kids (vm_bar\<lparr>mem := m\<rparr>) 0x10034 = {#0x10074#}" "kids (vm_bar\<lparr>mem := m\<rparr>) 0x10074 = {#rdW m 0x10074#}"
  "v \<notin> {0x10034, 0x10074} \<Longrightarrow> kids (vm_bar\<lparr>mem := m\<rparr>) v = {#}"
  "kids vm_bar 0x10034 = {#0x10074#}" "kids vm_bar 0x10074 = {#H#}" "v \<notin> {0x10034, 0x10074} \<Longrightarrow> kids vm_bar v = {#}"
  "modkids vm_bar 0x10034 = {#0#}" "modkids vm_bar 0x10074 = {#}"
  by (simp_all add: kids_def modkids_def kids_of_def vm_bar_sel gc_link_def gc_node_def cellptrs_def ptrs_at_def byte_slots_def gc_mem_rd)

lemma vm_bar_swept: "swept gcvars0 vm_bar = {}"
  by (auto simp: swept_def gcvars0_def vm_bar_sel gc_link_def gc_node_def propagator_def split: if_splits)

lemma vm_bar_counted: "counted {#} {} {#0x10034#} {#} vm_bar"
proof -
  have l: "live {} vm_bar = {0x10034, 0x10074}" by (auto simp: live_def vm_bar_sel)
  have d: "hblk ` dom (hp vm_bar) = {0x10020, 0x10060}" by (auto simp: vm_bar_sel hblk_def image_iff)
  have p: "pool_inv (heapmem vm_bar) (hblk ` dom (hp vm_bar))" unfolding d using pool_two_inv by (simp add: vm_bar_sel)
  have "\<forall>u. u \<noteq> H \<longrightarrow> refsto {} {#0x10034#} vm_bar u = refcount {} vm_bar u"
    unfolding refsto_def l by (auto simp: vm_bar_kids refcount_def vm_bar_sel gc_link_def gc_node_def)
  moreover have "\<forall>u h. hp vm_bar u = Some h \<longrightarrow> u \<notin> {} \<longrightarrow> shaped (types vm_bar) h \<and> tailok vm_bar h \<and> (waited h \<longrightarrow> u \<in># {#} \<and> u \<noteq> H)"
    by (auto simp: vm_bar_sel gc_link_def gc_node_def shaped_def tailok_def waited_def builtin_types_def Tlist_def Tarray_def Tstring_def Tmodlink_def split: if_splits)
  ultimately show ?thesis using p unfolding counted_def modrefs_def l by (simp add: vm_bar_kids vm_bar_sel)
qed

lemma vm_bar_roots:
  "stackptrs gcvars0 (vm_bar\<lparr>mem := m\<rparr>) (\<lambda>_. []) [1] = [0x10034, 0x10074]" "rooted gcvars0 (vm_bar\<lparr>mem := m\<rparr>) (\<lambda>_. []) [1]"
proof -
  have "modlink vm_bar 0x10034 = Some (0x10074, 0, False, [])" by (simp add: modlink_def vm_bar_sel gc_link_def)
  then have ml: "modlink (vm_bar\<lparr>mem := m\<rparr>) 0x10034 = Some (0x10074, 0, False, [])" "modlink vm_bar 0x10034 = Some (0x10074, 0, False, [])"
    by (simp_all add: modlink_def)
  show "stackptrs gcvars0 (vm_bar\<lparr>mem := m\<rparr>) (\<lambda>_. []) [1] = [0x10034, 0x10074]"
    by (simp add: stackptrs_def progptrs_def linkptrs_def ml vm_bar_sel gcvars0_def)
  show "rooted gcvars0 (vm_bar\<lparr>mem := m\<rparr>) (\<lambda>_. []) [1]"
    by (auto simp: rooted_def vm_bar_sel prog0_def gcvars0_def islink_def ml H_def intro: stacklist_end)
qed

lemma vm_bar_inv: "gcinv {#} {#0x10034#} {#} {#} (\<lambda>_. []) [1] gcvars0 vm_bar"
proof -
  have self: "vm_bar\<lparr>mem := gc_mem\<rparr> = vm_bar" by (simp add: vm_bar_def)
  note R = vm_bar_roots [of gc_mem, unfolded self]
  have il: "islink vm_bar 0x10034" by (simp add: islink_def modlink_def vm_bar_sel gc_link_def H_def)
  have "roles gcvars0 vm_bar" by (auto simp: roles_def vm_bar_sel gcvars0_def gc_link_def gc_node_def split: if_splits)
  moreover have "tricolour {} vm_bar" by (auto simp: tricolour_def vm_bar_sel vm_bar_kids gc_link_def propagator_def split: if_splits)
  moreover have "pinned {#0x10034#} gcvars0 vm_bar (\<lambda>_. []) [1]" unfolding pinned_def R using il by (simp add: heldby_def vm_bar_kids)
  moreover have "collectable gcvars0 vm_bar"
    by (auto simp: collectable_def vm_bar_sel gc_link_def gc_node_def markable_def shaped_def waited_def sliced_def builtin_types_def gcvars0_def propagator_def
        Tlist_def Tarray_def Tstring_def Tmodlink_def pool_two_chain split: if_splits)
  moreover have "lit gcvars0 vm_bar (\<lambda>_. []) [1]"
    unfolding lit_def set_rootptrs R by (auto simp: vm_bar_sel dark_def gc_link_def gc_node_def)
  ultimately show ?thesis
    using vm_bar_counted R(2) by (simp add: gcinv_def gcgood_def gcheap_def vm_bar_swept) (simp add: gcvars0_def)
qed

lemma vm_bar_move:
  "slotof gcvars0 vm_bar (\<lambda>_. []) [1] 0x10074 (rd vm_bar)" "reach {#0x10034#} vm_bar 0x10074" "Ws vm_bar = 0x10034"
  "Ws vm_bar = H \<or> reach {#0x10034#} vm_bar (Ws vm_bar)" "\<forall>h. hp vm_bar (Ws vm_bar) = Some h \<longrightarrow> unat (href h) + 1 < 2 ^ 32"
proof -
  have self: "vm_bar\<lparr>mem := gc_mem\<rparr> = vm_bar" by (simp add: vm_bar_def)
  have r: "reach {#0x10034#} vm_bar 0x10034" by (rule reach_root) (simp_all add: H_def)
  show "reach {#0x10034#} vm_bar 0x10074" by (rule reach_kid [OF r]) (simp_all add: vm_bar_kids H_def)
  show w: "Ws vm_bar = 0x10034" by (simp add: Ws_def vm_bar_sel gc_mem_rd)
  show "Ws vm_bar = H \<or> reach {#0x10034#} vm_bar (Ws vm_bar)" using r w by simp
  show "\<forall>h. hp vm_bar (Ws vm_bar) = Some h \<longrightarrow> unat (href h) + 1 < 2 ^ 32" by (simp add: w vm_bar_sel gc_link_def)
  show "slotof gcvars0 vm_bar (\<lambda>_. []) [1] 0x10074 (rd vm_bar)"
    unfolding slotof_def
  proof (intro conjI allI impI exI)
    show "modlink vm_bar 0x10074 = None" by (simp add: modlink_def vm_bar_sel gc_node_def)
    show "kids vm_bar 0x10074 = add_mset (rdW (mem vm_bar) (rd vm_bar)) {#}" by (simp add: vm_bar_kids vm_bar_sel gc_mem_rd)
    show "kids (stored (rd vm_bar) x vm_bar) 0x10074 = add_mset x {#}" for x by (simp add: vm_bar_kids vm_bar_sel)
    show "kids (stored (rd vm_bar) x vm_bar) v = kids vm_bar v" if "v \<noteq> 0x10074" for x v
      using that by (cases "v = 0x10034") (simp_all add: vm_bar_kids)
    show "sliced (stored (rd vm_bar) x vm_bar) h" if "hp vm_bar v = Some h" for x v h
      using that by (auto simp: vm_bar_sel sliced_def gc_link_def gc_node_def split: if_splits)
    show "rooted gcvars0 (stored (rd vm_bar) x vm_bar) (\<lambda>_. []) [1]" for x by (rule vm_bar_roots)
    show "stackptrs gcvars0 (stored (rd vm_bar) x vm_bar) (\<lambda>_. []) [1] = stackptrs gcvars0 vm_bar (\<lambda>_. []) [1]" for x
      unfolding vm_bar_roots vm_bar_roots [of gc_mem, unfolded self] ..
  qed
qed

lemma vm_bar_regs: "vm_bar = vm_bar\<lparr>rs := 0x200, rd := 0x10074\<rparr>"
  by (simp add: vm_bar_def)

theorem movp_barrier_witness:
  "\<exists>\<sigma>'. movp vm_bar = Ret () \<sigma>' \<and> gcinv {#} {#0x10034#} {#} {#} (\<lambda>_. []) [1] gcvars0 \<sigma>' \<and> rdW (mem \<sigma>') 0x10074 = 0x10034"
  using movp_barrier [OF vm_bar_inv vm_bar_move(1,2,4,5)] by (auto simp: vm_bar_move(3) vm_bar_sel)



end
