(* ===== verification/Qsort.thy ===== *)
theory Qsort
  imports Str
begin

text \<open>
  Sorting, \<^verbatim>\<open>lib9/qsort.c\<close>. The array is a list, a pointer into it an index; the comparison function is an
  argument and sees the elements, which are \<^verbatim>\<open>es\<close> bytes each. \<^verbatim>\<open>swapb\<close> and \<^verbatim>\<open>swapi\<close> exchange
  two elements.
\<close>

section \<open>The program\<close>

type_synonym 'a cmp = "'a \<Rightarrow> 'a \<Rightarrow> int"

definition swap :: "'a list \<Rightarrow> nat \<Rightarrow> nat \<Rightarrow> 'a list" where
  "swap xs i j = xs[i := xs ! j, j := xs ! i]"

definition pivot :: "'a cmp \<Rightarrow> 'a list \<Rightarrow> nat \<Rightarrow> nat \<Rightarrow> nat" where
  "pivot cmp xs a n =
     (let j = n div 6; pi = a + j; j2 = j + j; pj = pi + j2; pk = pj + j2 in
      if cmp (xs ! pi) (xs ! pj) < 0 then
        (if cmp (xs ! pi) (xs ! pk) < 0 then
           (if cmp (xs ! pj) (xs ! pk) < 0 then pj else pk)
         else pi)
      else if cmp (xs ! pj) (xs ! pk) < 0 then
        (if cmp (xs ! pi) (xs ! pk) < 0 then pi else pk)
      else pj)"

function scanup :: "'a cmp \<Rightarrow> 'a list \<Rightarrow> nat \<Rightarrow> nat \<Rightarrow> nat \<Rightarrow> nat" where
  \<comment> \<open>\<^verbatim>\<open>do pi += es; while(pi < pn && p->cmp(pi, a) < 0)\<close>\<close>
  "scanup cmp xs a pn i =
     (if Suc i < pn \<and> cmp (xs ! Suc i) (xs ! a) < 0 then scanup cmp xs a pn (Suc i) else Suc i)"
  by pat_completeness auto
termination by (relation "measure (\<lambda>(cmp, xs, a, pn, i). pn - i)") auto

fun scandown :: "'a cmp \<Rightarrow> 'a list \<Rightarrow> nat \<Rightarrow> nat \<Rightarrow> nat" where
  \<comment> \<open>\<^verbatim>\<open>do pj -= es; while(pj > a && p->cmp(pj, a) > 0)\<close>\<close>
  "scandown cmp xs a 0 = 0"
| "scandown cmp xs a (Suc j) =
     (if j > a \<and> cmp (xs ! j) (xs ! a) > 0 then scandown cmp xs a j else j)"

declare scanup.simps [simp del]

lemma scanup_gt: "i < scanup cmp xs a pn i"
proof (induction cmp xs a pn i rule: scanup.induct)
  case (1 cmp xs a pn i)
  then show ?case by (subst scanup.simps) auto
qed

lemma scandown_lt: "0 < j \<Longrightarrow> scandown cmp xs a j < j"
proof (induction cmp xs a j rule: scandown.induct)
  case (2 cmp xs a j)
  then show ?case by (cases j) auto
qed simp

lemma scandown_le: "scandown cmp xs a j \<le> j"
  using scandown_lt [of j cmp xs a] by (cases j) auto

function qpartition :: "'a cmp \<Rightarrow> 'a list \<Rightarrow> nat \<Rightarrow> nat \<Rightarrow> nat \<Rightarrow> nat \<Rightarrow> 'a list \<times> nat" where
  \<comment> \<open>the \<^verbatim>\<open>for(;;)\<close> loop: the array and the final \<^verbatim>\<open>pj\<close>\<close>
  "qpartition cmp xs a pn pi pj =
     (let i = scanup cmp xs a pn pi; j = scandown cmp xs a pj in
      if j < i then (xs, j) else qpartition cmp (swap xs i j) a pn i j)"
  by pat_completeness auto
termination
proof (relation "measure (\<lambda>(cmp, xs, a, pn, i, j). j - i)", simp)
  fix cmp :: "'a cmp" and xs a pn pi pj i j
  assume "i = scanup cmp xs a pn pi" "j = scandown cmp xs a pj" "\<not> j < i"
  moreover have "pi < scanup cmp xs a pn pi" "scandown cmp xs a pj \<le> pj" by (rule scanup_gt, rule scandown_le)
  ultimately show "((cmp, swap xs i j, a, pn, i, j), cmp, xs, a, pn, pi, pj) \<in> measure (\<lambda>(cmp, xs, a, pn, i, j). j - i)" by auto
qed

declare qpartition.simps [simp del]

lemma qpartition_lt: "0 < pj \<Longrightarrow> snd (qpartition cmp xs a pn pi pj) < pj"
proof (induction cmp xs a pn pi pj rule: qpartition.induct)
  case (1 cmp xs a pn pi pj)
  let ?i = "scanup cmp xs a pn pi" and ?j = "scandown cmp xs a pj"
  have j: "?j < pj" using "1.prems" by (rule scandown_lt)
  show ?case
  proof (cases "?j < ?i")
    case True
    then show ?thesis using j by (subst qpartition.simps) simp
  next
    case False
    then have "0 < ?j" using scanup_gt [of pi cmp xs a pn] by linarith
    then have "snd (qpartition cmp (swap xs ?i ?j) a pn ?i ?j) < ?j" using "1.IH" [OF refl refl False] by blast
    then show ?thesis using j False by (subst qpartition.simps) (simp add: Let_def)
  qed
qed

definition split :: "'a cmp \<Rightarrow> 'a list \<Rightarrow> nat \<Rightarrow> nat \<Rightarrow> 'a list \<times> nat" where
  \<comment> \<open>one turn of the \<^verbatim>\<open>while\<close> loop up to the recursive call: the array and \<^verbatim>\<open>j\<close>\<close>
  "split cmp xs a n =
     (let pi = (if n > 10 then pivot cmp xs a n else a + n div 2);
          (ys, pj) = qpartition cmp (swap xs a pi) a (a + n) a (a + n) in
      (swap ys a pj, pj - a))"

lemma split_lt: "1 < n \<Longrightarrow> snd (split cmp xs a n) < n"
proof -
  assume n: "1 < n"
  have "x < a + n \<Longrightarrow> x - a < n" for x using n by linarith
  then show ?thesis using n qpartition_lt [of "a + n" cmp _ a "a + n" a] by (simp add: split_def Let_def case_prod_beta)
qed

function qsorts :: "'a cmp \<Rightarrow> 'a list \<Rightarrow> nat \<Rightarrow> nat \<Rightarrow> 'a list" where
  "qsorts cmp xs a n =
     (if n > 1 then
        (let ys = fst (split cmp xs a n); j = snd (split cmp xs a n); n' = n - j - 1 in
         if j \<ge> n' then qsorts cmp (qsorts cmp ys a j) (a + j + 1) n'
         else qsorts cmp (qsorts cmp ys (a + j + 1) n') a j)
      else xs)"
  by pat_completeness auto
termination
  by (relation "measure (\<lambda>(cmp, xs, a, n). n)") (use split_lt in \<open>fastforce+\<close>)

declare qsorts.simps [simp del]

definition qsort :: "'a list \<Rightarrow> 'a cmp \<Rightarrow> 'a list" where
  "qsort xs cmp = qsorts cmp xs 0 (length xs)"


section \<open>Permutation\<close>

lemma length_swap [simp]: "length (swap xs i j) = length xs"
  by (simp add: swap_def)

lemma mset_swap: "i < length xs \<Longrightarrow> j < length xs \<Longrightarrow> mset (swap xs i j) = mset xs"
  unfolding swap_def by (rule mset_swap)

lemma swap_nth: "i < length xs \<Longrightarrow> j < length xs \<Longrightarrow> k < length xs \<Longrightarrow>
    swap xs i j ! k = (if k = j then xs ! i else if k = i then xs ! j else xs ! k)"
  by (simp add: swap_def nth_list_update)

text \<open>\<open>segperm a e xs ys\<close>: \<open>ys\<close> is \<open>xs\<close> with the elements from \<open>a\<close> to before \<open>e\<close> permuted.\<close>

definition segperm :: "nat \<Rightarrow> nat \<Rightarrow> 'a list \<Rightarrow> 'a list \<Rightarrow> bool" where
  "segperm a e xs ys \<longleftrightarrow> length ys = length xs \<and> take a ys = take a xs \<and> drop e ys = drop e xs \<and>
     mset (take (e - a) (drop a ys)) = mset (take (e - a) (drop a xs))"

lemma segperm_refl [simp]: "segperm a e xs xs"
  by (simp add: segperm_def)

lemma segperm_trans: "segperm a e xs ys \<Longrightarrow> segperm a e ys zs \<Longrightarrow> segperm a e xs zs"
  by (simp add: segperm_def)

lemma seg_split: "a \<le> b \<Longrightarrow> b \<le> c \<Longrightarrow> take (c - a) (drop a xs) = take (b - a) (drop a xs) @ take (c - b) (drop b xs)"
proof -
  assume "a \<le> b" "b \<le> c"
  then have e: "c - a = (b - a) + (c - b)" "b - a + a = b" by simp_all
  show ?thesis unfolding e(1) take_add drop_drop e(2) ..
qed

lemma segperm_mono:
  assumes "segperm a' e' xs ys" "a \<le> a'" "a' \<le> e'" "e' \<le> e"
  shows "segperm a e xs ys"
proof -
  have l: "length ys = length xs" and t: "take a' ys = take a' xs" and d: "drop e' ys = drop e' xs"
    and m: "mset (take (e' - a') (drop a' ys)) = mset (take (e' - a') (drop a' xs))" using assms(1) by (simp_all add: segperm_def)
  have 1: "take (a' - a) (drop a ys) = take (a' - a) (drop a xs)"
    using t assms(2) by (metis drop_take)
  have 2: "take (e - e') (drop e' ys) = take (e - e') (drop e' xs)" using d by simp
  have "take a ys = take a xs" using t assms(2) by (metis min.absorb1 take_take)
  moreover have "drop e ys = drop e xs" using d assms(4) by (metis drop_drop le_add_diff_inverse2)
  moreover have "mset (take (e - a) (drop a zs)) = mset (take (a' - a) (drop a zs)) + mset (take (e' - a') (drop a' zs)) + mset (take (e - e') (drop e' zs))" for zs :: "'a list"
    using assms(2,3,4) seg_split [of a a' e zs] seg_split [of a' e' e zs] by simp
  ultimately show ?thesis using l 1 2 m by (simp add: segperm_def)
qed

lemma segperm_swap:
  assumes "a \<le> i" "i < e" "a \<le> j" "j < e" "e \<le> length xs"
  shows "segperm a e xs (swap xs i j)"
proof -
  let ?ys = "swap xs i j"
  have n: "swap xs i j ! k = (if k = j then xs ! i else if k = i then xs ! j else xs ! k)" if "k < length xs" for k
    using assms that by (intro swap_nth) auto
  have "take a ?ys = take a xs" by (rule nth_equalityI) (use assms n in auto)
  moreover have "drop e ?ys = drop e xs" by (rule nth_equalityI) (use assms n in auto)
  moreover have "mset (take (e - a) (drop a ?ys)) = mset (take (e - a) (drop a xs))"
  proof -
    have "take (e - a) (drop a ?ys) = swap (take (e - a) (drop a xs)) (i - a) (j - a)"
      by (rule nth_equalityI) (use assms n in \<open>auto simp: swap_nth\<close>)
    then show ?thesis using assms by (simp add: mset_swap)
  qed
  ultimately show ?thesis by (simp add: segperm_def)
qed

lemma segperm_elem:
  assumes "segperm a e xs ys" "e \<le> length xs" and P: "\<And>k. a \<le> k \<Longrightarrow> k < e \<Longrightarrow> P (xs ! k)" and k: "a \<le> k" "k < e"
  shows "P (ys ! k)"
proof -
  have l: "length ys = length xs" using assms(1) by (simp add: segperm_def)
  have "ys ! k = take (e - a) (drop a ys) ! (k - a)" using k assms(2) l by simp
  moreover have "k - a < length (take (e - a) (drop a ys))" using k assms(2) l by simp
  ultimately have "ys ! k \<in># mset (take (e - a) (drop a ys))" by (metis nth_mem set_mset_mset)
  then have "ys ! k \<in> set (take (e - a) (drop a xs))" using assms(1) by (metis segperm_def set_mset_mset)
  then obtain i where "i < e - a" "ys ! k = xs ! (a + i)" using assms(2) by (auto simp: in_set_conv_nth)
  then show ?thesis using P [of "a + i"] by simp
qed

lemma segperm_out:
  assumes "segperm a e xs ys" "k < length xs" "k < a \<or> e \<le> k"
  shows "ys ! k = xs ! k"
proof -
  have l: "length ys = length xs" "take a ys = take a xs" "drop e ys = drop e xs" using assms(1) by (simp_all add: segperm_def)
  show ?thesis using assms(3)
  proof
    assume "k < a" then show ?thesis using l(2) by (metis nth_take)
  next
    assume "e \<le> k" then show ?thesis using l assms(2) by (metis le_add_diff_inverse nth_drop order.strict_implies_order order_le_less_trans)
  qed
qed


lemma pivot_range: "1 < n \<Longrightarrow> a \<le> pivot cmp xs a n \<and> pivot cmp xs a n < a + n"
proof -
  assume "1 < n"
  moreover have "6 * (n div 6) \<le> n" by simp
  ultimately have "a + n div 6 + (n div 6 + n div 6) + (n div 6 + n div 6) < a + n" by linarith
  then show ?thesis by (simp add: pivot_def Let_def)
qed

section \<open>Order\<close>

text \<open>What the comparison function of the caller promises.\<close>

locale comparison =
  fixes cmp :: "'a cmp"
  assumes cmp_sign: "cmp x y < 0 \<longleftrightarrow> cmp y x > 0"
    and cmp_trans: "cmp x y \<le> 0 \<Longrightarrow> cmp y z \<le> 0 \<Longrightarrow> cmp x z \<le> 0"
begin

lemma cmp_ge: "cmp x y \<ge> 0 \<longleftrightarrow> cmp y x \<le> 0"
  using cmp_sign [of x y] by linarith

text \<open>Where the scans stop.\<close>

lemma scanup_stop:
  "\<forall>k. i < k \<and> k < scanup cmp xs a pn i \<longrightarrow> cmp (xs ! k) (xs ! a) < 0"
  "scanup cmp xs a pn i < pn \<Longrightarrow> cmp (xs ! scanup cmp xs a pn i) (xs ! a) \<ge> 0"
  "i < pn \<Longrightarrow> scanup cmp xs a pn i \<le> pn"
proof -
  have "(\<forall>k. i < k \<and> k < scanup cmp xs a pn i \<longrightarrow> cmp (xs ! k) (xs ! a) < 0) \<and>
    (scanup cmp xs a pn i < pn \<longrightarrow> cmp (xs ! scanup cmp xs a pn i) (xs ! a) \<ge> 0) \<and> (i < pn \<longrightarrow> scanup cmp xs a pn i \<le> pn)"
  proof (induction cmp xs a pn i rule: scanup.induct)
    case (1 cmp xs a pn i)
    show ?case
    proof (cases "Suc i < pn \<and> cmp (xs ! Suc i) (xs ! a) < 0")
      case True
      have "i < k \<Longrightarrow> k = Suc i \<or> Suc i < k" for k by auto
      then show ?thesis using True 1 by (simp add: scanup.simps [of cmp xs a pn i]) blast
    next
      case False
      then show ?thesis by (auto simp: scanup.simps [of cmp xs a pn i])
    qed
  qed
  then show "\<forall>k. i < k \<and> k < scanup cmp xs a pn i \<longrightarrow> cmp (xs ! k) (xs ! a) < 0"
    "scanup cmp xs a pn i < pn \<Longrightarrow> cmp (xs ! scanup cmp xs a pn i) (xs ! a) \<ge> 0"
    "i < pn \<Longrightarrow> scanup cmp xs a pn i \<le> pn" by blast+
qed

lemma scandown_stop:
  assumes "a < j"
  shows "\<forall>k. scandown cmp xs a j < k \<and> k < j \<longrightarrow> cmp (xs ! k) (xs ! a) > 0"
    "a < scandown cmp xs a j \<Longrightarrow> cmp (xs ! scandown cmp xs a j) (xs ! a) \<le> 0" "a \<le> scandown cmp xs a j"
proof -
  have "(\<forall>k. scandown cmp xs a j < k \<and> k < j \<longrightarrow> cmp (xs ! k) (xs ! a) > 0) \<and>
    (a < scandown cmp xs a j \<longrightarrow> cmp (xs ! scandown cmp xs a j) (xs ! a) \<le> 0) \<and> a \<le> scandown cmp xs a j"
    using assms
  proof (induction cmp xs a j rule: scandown.induct)
    case (2 cmp xs a j)
    show ?case
    proof (cases "j > a \<and> cmp (xs ! j) (xs ! a) > 0")
      case True
      then show ?thesis using 2 by (auto simp: less_Suc_eq)
    next
      case False
      then show ?thesis using 2 by auto
    qed
  qed simp
  then show "\<forall>k. scandown cmp xs a j < k \<and> k < j \<longrightarrow> cmp (xs ! k) (xs ! a) > 0"
    "a < scandown cmp xs a j \<Longrightarrow> cmp (xs ! scandown cmp xs a j) (xs ! a) \<le> 0" "a \<le> scandown cmp xs a j" by blast+
qed

text \<open>The loop: the elements up to \<open>i\<close> are not above the pivot, those from \<open>j\<close> not below it.\<close>

lemma qpartition_ok:
  assumes "a \<le> i" "a < j" "j \<le> pn" "i < pn" "pn \<le> length xs"
    "\<forall>k. a < k \<and> k \<le> i \<longrightarrow> cmp (xs ! k) (xs ! a) \<le> 0" "\<forall>k. j \<le> k \<and> k < pn \<longrightarrow> cmp (xs ! k) (xs ! a) \<ge> 0"
    "qpartition cmp xs a pn i j = (ys, m)"
  shows "segperm (Suc a) pn xs ys \<and> a \<le> m \<and> m < j \<and> (\<forall>k. a < k \<and> k \<le> m \<longrightarrow> cmp (ys ! k) (ys ! a) \<le> 0) \<and>
    (\<forall>k. m < k \<and> k < pn \<longrightarrow> cmp (ys ! k) (ys ! a) \<ge> 0)"
  using assms
proof (induction j arbitrary: xs i rule: less_induct)
  case (less j)
  let ?i = "scanup cmp xs a pn i" and ?j = "scandown cmp xs a j"
  note up = scanup_stop [where i = i and xs = xs and a = a and pn = pn] and dn = scandown_stop [OF less.prems(2), where xs = xs]
  have i: "i < ?i" "?i \<le> pn" using scanup_gt up(3) less.prems(4) by blast+
  have j: "?j < j" "a \<le> ?j" using scandown_lt [of j cmp xs a] less.prems(2) dn(3) by simp_all
  have lo: "cmp (xs ! k) (xs ! a) \<le> 0" if "a < k" "k < ?i" for k
    using that less.prems(6) up(1) by (cases "k \<le> i") (auto simp: less_imp_le)
  have hi: "cmp (xs ! k) (xs ! a) \<ge> 0" if "?j < k" "k < pn" for k
    using that less.prems(7) dn(1) by (cases "j \<le> k") (auto simp: less_imp_le)
  show ?case
  proof (cases "?j < ?i")
    case True
    then have "ys = xs \<and> m = ?j" using less.prems(8) by (subst (asm) qpartition.simps) (auto simp: Let_def)
    then show ?thesis using True j lo hi by auto
  next
    case False
    let ?zs = "swap xs ?i ?j"
    have r: "?i < pn" "?j < pn" "a < ?i" "a < ?j" "?i < length xs" "?j < length xs"
      using False i j less.prems(1-5) by linarith+
    have n: "?zs ! k = (if k = ?j then xs ! ?i else if k = ?i then xs ! ?j else xs ! k)" if "k < length xs" for k
      using swap_nth [OF r(5,6) that] .
    have za: "?zs ! a = xs ! a" using r by (subst n) auto
    have 6: "\<forall>k. a < k \<and> k \<le> ?i \<longrightarrow> cmp (?zs ! k) (?zs ! a) \<le> 0"
    proof (intro allI impI)
      fix k assume k: "a < k \<and> k \<le> ?i"
      show "cmp (?zs ! k) (?zs ! a) \<le> 0"
      proof (cases "k = ?i")
        case True
        then have "?zs ! k = xs ! ?j" using n [of k] r by auto
        then show ?thesis using za dn(2) r by simp
      next
        case F: False
        then have "?zs ! k = xs ! k" using n [of k] r k False by auto
        then show ?thesis using za lo k F by simp
      qed
    qed
    have 7: "\<forall>k. ?j \<le> k \<and> k < pn \<longrightarrow> cmp (?zs ! k) (?zs ! a) \<ge> 0"
    proof (intro allI impI)
      fix k assume k: "?j \<le> k \<and> k < pn"
      show "cmp (?zs ! k) (?zs ! a) \<ge> 0"
      proof (cases "k = ?j")
        case True
        then have "?zs ! k = xs ! ?i" using n [of k] r by auto
        then show ?thesis using za up(2) r by simp
      next
        case F: False
        then have "?zs ! k = xs ! k" using n [of k] r k False less.prems(5) by auto
        then show ?thesis using za hi k F by simp
      qed
    qed
    have e: "qpartition cmp ?zs a pn ?i ?j = (ys, m)"
      using less.prems(8) False by (simp add: qpartition.simps [of cmp xs a pn i j] Let_def)
    have "segperm (Suc a) pn ?zs ys \<and> a \<le> m \<and> m < ?j \<and> (\<forall>k. a < k \<and> k \<le> m \<longrightarrow> cmp (ys ! k) (ys ! a) \<le> 0) \<and>
      (\<forall>k. m < k \<and> k < pn \<longrightarrow> cmp (ys ! k) (ys ! a) \<ge> 0)"
      by (rule less.IH [OF j(1)]) (use r less.prems(5) 6 7 e in auto)
    moreover have "segperm (Suc a) pn xs ?zs" using r less.prems(5) by (intro segperm_swap) auto
    ultimately show ?thesis using j(1) segperm_trans by (meson order_less_trans)
  qed
qed

lemma split_ok:
  assumes n: "1 < n" "a + n \<le> length xs" and s: "split cmp xs a n = (zs, j)"
  shows "j < n" "segperm a (a + n) xs zs" "\<forall>k. a \<le> k \<and> k < a + j \<longrightarrow> cmp (zs ! k) (zs ! (a + j)) \<le> 0"
    "\<forall>k. a + j < k \<and> k < a + n \<longrightarrow> cmp (zs ! k) (zs ! (a + j)) \<ge> 0"
proof -
  define pi where "pi = (if n > 10 then pivot cmp xs a n else a + n div 2)"
  have "a \<le> pi \<and> pi < a + n" using n pivot_range [of n a cmp xs] by (simp add: pi_def)
  then have x: "segperm a (a + n) xs (swap xs a pi)" using n by (intro segperm_swap) auto
  let ?xs = "swap xs a pi"
  obtain ys m where p: "qpartition cmp ?xs a (a + n) a (a + n) = (ys, m)" by (cases "qpartition cmp ?xs a (a + n) a (a + n)")
  have q: "segperm (Suc a) (a + n) ?xs ys" "a \<le> m" "m < a + n" "\<forall>k. a < k \<and> k \<le> m \<longrightarrow> cmp (ys ! k) (ys ! a) \<le> 0"
    "\<forall>k. m < k \<and> k < a + n \<longrightarrow> cmp (ys ! k) (ys ! a) \<ge> 0"
    using qpartition_ok [OF _ _ _ _ _ _ _ p] n by auto
  have z: "zs = swap ys a m" "j = m - a" using s p by (simp_all add: split_def pi_def [symmetric])
  have aj: "a + j = m" using z(2) q(2) by simp
  have l: "length ys = length xs" using q(1) by (simp add: segperm_def)
  have y: "segperm a (a + n) ?xs ys" by (rule segperm_mono [OF q(1)]) (use n in auto)
  show "j < n" using aj q(3) by linarith
  have "segperm a (a + n) ys zs" unfolding z(1) using n l q(2,3) by (intro segperm_swap) auto
  then show "segperm a (a + n) xs zs" using x y segperm_trans by blast
  have nth: "zs ! k = (if k = m then ys ! a else if k = a then ys ! m else ys ! k)" if "k < length xs" for k
    unfolding z(1) using swap_nth [of a ys m k] that l n q(2,3) by simp
  have zm: "zs ! m = ys ! a" using nth [of m] q(3) n by simp
  show "\<forall>k. a \<le> k \<and> k < a + j \<longrightarrow> cmp (zs ! k) (zs ! (a + j)) \<le> 0"
    unfolding aj zm using nth q(2,3,4) n by auto
  show "\<forall>k. a + j < k \<and> k < a + n \<longrightarrow> cmp (zs ! k) (zs ! (a + j)) \<ge> 0"
    unfolding aj zm using nth q(2,5) n by auto
qed

definition seg_sorted :: "nat \<Rightarrow> nat \<Rightarrow> 'a list \<Rightarrow> bool" where
  "seg_sorted a e xs \<longleftrightarrow> (\<forall>k l. a \<le> k \<and> k < l \<and> l < e \<longrightarrow> cmp (xs ! k) (xs ! l) \<le> 0)"

lemma seg_sorted_join:
  assumes "seg_sorted a m xs" "seg_sorted (Suc m) e xs" "\<forall>k. a \<le> k \<and> k < m \<longrightarrow> cmp (xs ! k) (xs ! m) \<le> 0"
    "\<forall>k. m < k \<and> k < e \<longrightarrow> cmp (xs ! m) (xs ! k) \<le> 0"
  shows "seg_sorted a e xs"
  unfolding seg_sorted_def
proof (intro allI impI)
  fix k l assume kl: "a \<le> k \<and> k < l \<and> l < e"
  then consider "l < m" | "m < k" | "k = m" | "l = m" | "k < m" "m < l" by linarith
  then show "cmp (xs ! k) (xs ! l) \<le> 0"
    using kl assms cmp_trans by cases (auto simp: seg_sorted_def)
qed

lemma seg_sorted_out:
  assumes "seg_sorted a e xs" "segperm a' e' xs ys" "e \<le> a' \<or> e' \<le> a" "e \<le> length xs"
  shows "seg_sorted a e ys"
proof -
  have "ys ! k = xs ! k" if "a \<le> k" "k < e" for k using segperm_out [OF assms(2)] that assms(3,4) by auto
  then show ?thesis using assms(1) by (auto simp: seg_sorted_def)
qed

definition parted :: "nat \<Rightarrow> nat \<Rightarrow> nat \<Rightarrow> 'a list \<Rightarrow> bool" where
  "parted a m e xs \<longleftrightarrow> (\<forall>k. a \<le> k \<and> k < m \<longrightarrow> cmp (xs ! k) (xs ! m) \<le> 0) \<and> (\<forall>k. m < k \<and> k < e \<longrightarrow> cmp (xs ! m) (xs ! k) \<le> 0)"

lemma parted_left:
  assumes "parted a m e xs" "segperm a m xs ys" "m < e" "e \<le> length xs"
  shows "parted a m e ys"
proof -
  have o: "ys ! k = xs ! k" if "m \<le> k" "k < e" for k using segperm_out [OF assms(2)] that assms(4) by auto
  have "cmp (ys ! k) (xs ! m) \<le> 0" if "a \<le> k" "k < m" for k
    by (rule segperm_elem [OF assms(2), of "\<lambda>x. cmp x (xs ! m) \<le> 0"]) (use assms that in \<open>auto simp: parted_def\<close>)
  then show ?thesis using assms(1,3) o by (simp add: parted_def)
qed

lemma parted_right:
  assumes "parted a m e xs" "segperm (Suc m) e xs ys" "m < e" "e \<le> length xs"
  shows "parted a m e ys"
proof -
  have o: "ys ! k = xs ! k" if "k \<le> m" for k using segperm_out [OF assms(2)] that assms(3,4) by auto
  have "cmp (xs ! m) (ys ! k) \<le> 0" if "m < k" "k < e" for k
    by (rule segperm_elem [OF assms(2), of "\<lambda>x. cmp (xs ! m) x \<le> 0"]) (use assms that in \<open>auto simp: parted_def\<close>)
  then show ?thesis using assms(1,3) o by (simp add: parted_def)
qed

lemma qsorts_ok: "a + n \<le> length xs \<Longrightarrow> segperm a (a + n) xs (qsorts cmp xs a n) \<and> seg_sorted a (a + n) (qsorts cmp xs a n)"
proof (induction n arbitrary: a xs rule: less_induct)
  case (less n)
  show ?case
  proof (cases "n > 1")
    case False
    then show ?thesis by (simp add: qsorts.simps seg_sorted_def)
  next
    case True
    obtain zs j where s: "split cmp xs a n = (zs, j)" by (cases "split cmp xs a n")
    note sp = split_ok [OF True less.prems s]
    define m where "m = a + j"
    define n' where "n' = n - j - 1"
    have e: "Suc m + n' = a + n" "n' < n" "m < a + n" "a \<le> m" using sp(1) by (simp_all add: m_def n'_def)
    have l: "length zs = length xs" using sp(2) by (simp add: segperm_def)
    have p: "parted a m (a + n) zs" using sp(3,4) cmp_ge by (simp add: parted_def m_def)
    define L where "L = (\<lambda>us. qsorts cmp us a j)"
    define R where "R = (\<lambda>us. qsorts cmp us (Suc m) n')"
    have L: "segperm a m us (L us)" "seg_sorted a m (L us)" if "length us = length xs" for us
      using less.IH [OF sp(1), of a us] less.prems that sp(1) by (simp_all add: L_def m_def)
    have R: "segperm (Suc m) (a + n) us (R us)" "seg_sorted (Suc m) (a + n) (R us)" if "length us = length xs" for us
      using less.IH [OF e(2), of "Suc m" us] less.prems that e(1) by (simp_all add: R_def)
    have len: "length us = length xs" if "segperm b c zs us" for b c us using that l by (simp add: segperm_def)
    have res: "segperm a (a + n) xs us \<and> seg_sorted a (a + n) us"
      if "segperm a (a + n) zs us" "seg_sorted a m us" "seg_sorted (Suc m) (a + n) us" "parted a m (a + n) us" for us
      using that seg_sorted_join segperm_trans [OF sp(2)] unfolding parted_def by blast
    have le: "a + n \<le> length zs" using l less.prems by simp
    note mono = segperm_mono [OF _ order_refl e(4)] segperm_mono [of "Suc m" "a + n" _ _ a "a + n"]
    have LR: "segperm a (a + n) xs (R (L zs)) \<and> seg_sorted a (a + n) (R (L zs))"
    proof (rule res)
      note 1 = L [OF l] note l1 = len [OF 1(1)] note 2 = R [OF l1]
      show "segperm a (a + n) zs (R (L zs))" using segperm_trans [OF mono(1) [OF 1(1)] mono(2) [OF 2(1)]] e by simp
      show "seg_sorted a m (R (L zs))" by (rule seg_sorted_out [OF 1(2) 2(1)]) (use e l1 less.prems in auto)
      show "seg_sorted (Suc m) (a + n) (R (L zs))" by (rule 2(2))
      show "parted a m (a + n) (R (L zs))"
        by (rule parted_right [OF parted_left [OF p 1(1) e(3) le] 2(1) e(3)]) (use l1 less.prems in simp)
    qed
    have RL: "segperm a (a + n) xs (L (R zs)) \<and> seg_sorted a (a + n) (L (R zs))"
    proof (rule res)
      note 1 = R [OF l] note l1 = len [OF 1(1)] note 2 = L [OF l1]
      show "segperm a (a + n) zs (L (R zs))" using segperm_trans [OF mono(2) [OF 1(1)] mono(1) [OF 2(1)]] e by simp
      show "seg_sorted (Suc m) (a + n) (L (R zs))" by (rule seg_sorted_out [OF 1(2) 2(1)]) (use e l1 less.prems in auto)
      show "seg_sorted a m (L (R zs))" by (rule 2(2))
      show "parted a m (a + n) (L (R zs))"
        by (rule parted_left [OF parted_right [OF p 1(1) e(3) le] 2(1) e(3)]) (use l1 less.prems in simp)
    qed
    have "qsorts cmp xs a n = (if j \<ge> n' then R (L zs) else L (R zs))"
      using True s by (subst qsorts.simps) (simp add: Let_def L_def R_def m_def n'_def)
    then show ?thesis using LR RL by simp
  qed
qed

lemma qsort_ok: "mset (qsort xs cmp) = mset xs \<and> sorted_wrt (\<lambda>x y. cmp x y \<le> 0) (qsort xs cmp)"
proof -
  have "segperm 0 (length xs) xs (qsort xs cmp)" "seg_sorted 0 (length xs) (qsort xs cmp)"
    using qsorts_ok [of 0 "length xs" xs] by (simp_all add: qsort_def)
  moreover from this(1) have "length (qsort xs cmp) = length xs" by (simp add: segperm_def)
  ultimately show ?thesis by (auto simp: segperm_def seg_sorted_def sorted_wrt_iff_nth_less)
qed

end

section \<open>Sorting texts\<close>

text \<open>The comparison of texts that \<^verbatim>\<open>stringcmp\<close> computes keeps the promise.\<close>

lemma runecmp_sign: "runecmp x y < 0 \<longleftrightarrow> runecmp y x > 0"
  by (induction x y rule: runecmp.induct) auto

lemma runecmp_trans: "runecmp x y \<le> 0 \<Longrightarrow> runecmp y z \<le> 0 \<Longrightarrow> runecmp x z \<le> 0"
proof (induction x y arbitrary: z rule: runecmp.induct)
  case (4 x xs y ys)
  then show ?case by (cases z) (auto split: if_splits)
qed (auto simp: runecmp_nil split: if_splits)

interpretation text_order: comparison runecmp
  by unfold_locales (rule runecmp_sign, rule runecmp_trans)

section \<open>Properties\<close>

text \<open>
  C31. \<^verbatim>\<open>qsort\<close> ends and sorts: with a comparison function that is a total preorder the result is a
  permutation of the array in ascending order.
\<close>

theorem qsort_sorts:
  assumes "\<forall>x y. cmp x y < 0 \<longleftrightarrow> cmp y x > 0" "\<forall>x y z. cmp x y \<le> 0 \<longrightarrow> cmp y z \<le> 0 \<longrightarrow> cmp x z \<le> 0"
  shows "mset (qsort xs cmp) = mset xs \<and> sorted_wrt (\<lambda>x y. cmp x y \<le> 0) (qsort xs cmp)"
  by (rule comparison.qsort_ok) (unfold_locales; use assms in blast)

theorem qsort_sorts_witness:
  "mset (qsort [[98], [97, 97], [97 :: Rune]] runecmp) = {#[98], [97, 97], [97]#} \<and>
   sorted_wrt (\<lambda>x y. runecmp x y \<le> 0) (qsort [[98], [97, 97], [97]] runecmp)"
proof -
  have "\<forall>x y. runecmp x y < 0 \<longleftrightarrow> runecmp y x > 0" "\<forall>x y z. runecmp x y \<le> 0 \<longrightarrow> runecmp y z \<le> 0 \<longrightarrow> runecmp x z \<le> 0"
    using runecmp_sign runecmp_trans by blast+
  from qsort_sorts [OF this, of "[[98], [97, 97], [97]]"] show ?thesis by simp
qed

end
