(* ===== verification/Disfile.thy ===== *)
theory Disfile
  imports Str
begin

text \<open>
  The variable-length constants and the big-endian words of a Dis file: written by the compiler,
  \<^verbatim>\<open>limbo/dis.c\<close>, and read by the loader, \<^verbatim>\<open>interp/load.c\<close>. The output is the list of bytes written, a
  byte that \<^verbatim>\<open>Bputc\<close> gets is cut to its low eight bits. A reader gives the value and the bytes
  it passed; \<open>None\<close> is a read past the end of the buffer.
\<close>

unbundle bit_operations_syntax

section \<open>Writing\<close>

definition discon :: "WORD \<Rightarrow> byte list option" where
  \<comment> \<open>\<^verbatim>\<open>long\<close> has 32 bits; \<open>None\<close>: \<^verbatim>\<open>fatal\<close>\<close>
  "discon v =
     (let val = sint v in
      if val \<ge> -64 \<and> val \<le> 63 then Some [of_int val AND NOT 0x80]
      else if val \<ge> -8192 \<and> val \<le> 8191 then Some [(of_int (drop_bit 8 val) AND NOT 0xC0) OR 0x80, of_int val]
      else if (val < 0 \<and> drop_bit 29 val AND 7 \<noteq> 7) \<or> (val > 0 \<and> drop_bit 29 val \<noteq> 0) then None
      else Some [of_int (drop_bit 24 val) OR 0xC0, of_int (drop_bit 16 val), of_int (drop_bit 8 val), of_int val])"

definition disword :: "int \<Rightarrow> byte list" where
  "disword w = [of_int (drop_bit 24 w), of_int (drop_bit 16 w), of_int (drop_bit 8 w), of_int w]"

definition disdata :: "int \<Rightarrow> WORD \<Rightarrow> byte list option" where
  "disdata kind n =
     (if sint n < 16 \<and> n \<noteq> 0 then Some [of_int (push_bit 4 kind OR sint n)]
      else map_option ((#) (of_int (push_bit 4 kind))) (discon n))"

section \<open>Reading\<close>

definition operand :: "byte list \<Rightarrow> (int \<times> byte list) option" where
  \<comment> \<open>\<^verbatim>\<open>int\<close> has 32 bits, so the shifts drop what leaves them\<close>
  "operand p =
     (case p of [] \<Rightarrow> None | c0 # p1 \<Rightarrow>
       let c = uint c0; sx = (if c AND 0x20 \<noteq> 0 then c OR NOT 0x3F else c AND 0x3F) in
       if c AND 0xC0 = 0 then Some (c, p1)
       else if c AND 0xC0 = 0x40 then Some (c OR NOT 0x7F, p1)
       else if c AND 0xC0 = 0x80 then
         (case p1 of [] \<Rightarrow> None | c1 # p2 \<Rightarrow> Some (push_bit 8 sx OR uint c1, p2))
       else
         (case p1 of c1 # c2 # c3 # p4 \<Rightarrow>
            Some (signed_take_bit 31 (push_bit 24 sx OR push_bit 16 (uint c1) OR push_bit 8 (uint c2) OR uint c3), p4)
          | _ \<Rightarrow> None))"

definition disw :: "byte list \<Rightarrow> (WORD \<times> byte list) option" where
  "disw p =
     (case p of c0 # c1 # c2 # c3 # q \<Rightarrow>
        Some (push_bit 24 (ucast c0) OR push_bit 16 (ucast c1) OR push_bit 8 (ucast c2) OR ucast c3, q)
      | _ \<Rightarrow> None)"

section \<open>What is written is read back\<close>

lemma or_add_int:
  fixes x y :: int
  assumes "0 \<le> x" "x < 2 ^ n"
  shows "push_bit n y OR x = push_bit n y + x"
proof -
  have "push_bit n y AND take_bit n x = 0" by (rule bit_eqI) (auto simp: bit_simps)
  then have "push_bit n y AND x = 0" using assms by (simp add: take_bit_int_eq_self)
  then show ?thesis by (simp add: disjunctive_add_eq_or)
qed

lemma disw_disword: "disw (disword w @ q) = Some (of_int w, q)"
proof -
  have "push_bit 24 (ucast (of_int (drop_bit 24 w) :: byte)) OR push_bit 16 (ucast (of_int (drop_bit 16 w) :: byte)) OR
      push_bit 8 (ucast (of_int (drop_bit 8 w) :: byte)) OR ucast (of_int w :: byte) = (of_int w :: WORD)" (is "?l = ?r")
  proof (rule bit_word_eqI)
    fix n assume "n < LENGTH(32)"
    then consider "n < 8" | "8 \<le> n" "n < 16" | "16 \<le> n" "n < 24" | "24 \<le> n" "n < 32" by fastforce
    then show "bit ?l n = bit ?r n" by cases (auto simp: bit_simps)
  qed
  then show ?thesis by (simp add: disw_def disword_def)
qed

text \<open>The first byte of a constant, as numbers.\<close>

lemma c_and:
  fixes c :: int
  assumes "0 \<le> c" "c < 256"
  shows "c AND 0xC0 = 64 * (c div 64)" "c AND 0x20 \<noteq> 0 \<longleftrightarrow> odd (c div 32)" "c AND 0x3F = c mod 64"
    "c OR NOT 0x3F = c mod 64 - 64" "c OR NOT 0x7F = c mod 128 - 128"
proof -
  have "c AND 0xC0 = push_bit 6 (take_bit 2 (drop_bit 6 c))"
  proof -
    have "(0xC0 :: int) = push_bit 6 (mask 2)" by (simp add: push_bit_eq_mult mask_eq_exp_minus_1)
    then show ?thesis by (auto simp: bit_eq_iff bit_simps)
  qed
  then show "c AND 0xC0 = 64 * (c div 64)" using assms by (simp add: push_bit_eq_mult take_bit_eq_mod drop_bit_eq_div)
  have "c AND 2 ^ 5 \<noteq> 0 \<longleftrightarrow> bit c 5" by (simp only: and_exp_eq_0_iff_not_bit not_not)
  then show "c AND 0x20 \<noteq> 0 \<longleftrightarrow> odd (c div 32)" unfolding bit_iff_odd by simp
  have m: "(0x3F :: int) = mask 6" "(0x7F :: int) = mask 7" by (simp_all add: mask_eq_exp_minus_1)
  show "c AND 0x3F = c mod 64" unfolding m by (simp add: take_bit_eq_mask [symmetric] take_bit_eq_mod)
  have or: "c OR NOT (mask n) = c mod 2 ^ n - 2 ^ n" for n
  proof -
    have "c OR NOT (mask n) = push_bit n (-1) OR take_bit n c" by (auto simp: bit_eq_iff bit_simps)
    also have "\<dots> = push_bit n (-1) + take_bit n c" by (rule or_add_int) simp_all
    finally show ?thesis by (simp add: push_bit_eq_mult take_bit_eq_mod)
  qed
  show "c OR NOT 0x3F = c mod 64 - 64" "c OR NOT 0x7F = c mod 128 - 128" unfolding m or by simp_all
qed

lemma byte_val: "uint (of_int d :: byte) = d mod 256"
  by (simp add: unsigned_of_int take_bit_eq_mod)

lemma first_bytes:
  "uint (of_int d AND NOT 0x80 :: byte) = d mod 128"
  "uint ((of_int d AND NOT 0xC0) OR 0x80 :: byte) = 128 + d mod 64"
  "uint (of_int d OR 0xC0 :: byte) = 192 + d mod 64"
proof -
  have u: "uint (w AND v) = uint w AND uint v" "uint (w OR v) = uint w OR uint v" for w v :: byte
    by (simp_all add: unsigned_and_eq unsigned_or_eq)
  have m: "uint (NOT 0x80 :: byte) = mask 7" "uint (NOT 0xC0 :: byte) = mask 6" by (simp_all add: mask_eq_exp_minus_1)
  have t: "d mod 256 AND mask n = d mod 2 ^ n" if "n \<le> 8" for n
  proof -
    have "(2 :: int) ^ n dvd 2 ^ 8" using that by (rule le_imp_power_dvd)
    then have "d mod 256 mod 2 ^ n = d mod 2 ^ n" by (simp add: mod_mod_cancel)
    then show ?thesis by (simp add: take_bit_eq_mask [symmetric] take_bit_eq_mod)
  qed
  show "uint (of_int d AND NOT 0x80 :: byte) = d mod 128" unfolding u m byte_val by (simp add: t)
  show "uint ((of_int d AND NOT 0xC0) OR 0x80 :: byte) = 128 + d mod 64"
  proof -
    have "d mod 64 OR 128 = push_bit 7 1 OR d mod 64" by (simp add: push_bit_eq_mult or.commute)
    also have "\<dots> = push_bit 7 1 + d mod 64" by (rule or_add_int) (auto intro: less_trans [OF pos_mod_bound])
    finally show ?thesis unfolding u m byte_val by (simp add: t push_bit_eq_mult)
  qed
  show "uint (of_int d OR 0xC0 :: byte) = 192 + d mod 64"
  proof -
    have "d mod 256 OR 192 = push_bit 6 3 OR take_bit 6 d" 
    proof -
      have "d mod 256 = take_bit 8 d" "(192 :: int) = push_bit 6 (mask 2)" "(3 :: int) = mask 2" by (simp_all add: take_bit_eq_mod push_bit_eq_mult mask_eq_exp_minus_1)
      then show ?thesis by (auto simp: bit_eq_iff bit_simps)
    qed
    also have "\<dots> = push_bit 6 3 + take_bit 6 d" by (rule or_add_int) (simp, rule take_bit_int_less_exp)
    finally show ?thesis unfolding u byte_val by (simp add: push_bit_eq_mult take_bit_eq_mod)
  qed
qed

lemma signx:
  assumes "- 32 \<le> d" "d < 32" "c = 64 * k + d mod 64" "0 \<le> k" "k < 4"
  shows "(if c AND 0x20 \<noteq> 0 then c OR NOT 0x3F else c AND 0x3F) = (d :: int)"
proof -
  have c: "0 \<le> c" "c < 256" using assms pos_mod_bound [of 64 d] pos_mod_sign [of 64 d] by linarith+
  have m: "c mod 64 = d mod 64" unfolding assms(3) by simp
  show ?thesis
  proof (cases "d < 0")
    case True
    have "d mod 64 = (d + 64) mod 64" by simp
    also have "\<dots> = d + 64" using assms(1) True by (intro mod_pos_pos_trivial) simp_all
    finally have d: "d mod 64 = d + 64" .
    have "c div 32 = 2 * k + 1" unfolding assms(3) d using assms(1) True by simp
    then show ?thesis using c_and [OF c] m d by simp
  next
    case False
    then have d: "d mod 64 = d" using assms(2) by simp
    have "c div 32 = 2 * k" unfolding assms(3) d using assms(2) False by simp
    then show ?thesis using c_and [OF c] m d by simp
  qed
qed

lemma top_bits: "c = 64 * k + d mod 64 \<Longrightarrow> 0 \<le> k \<Longrightarrow> k < 4 \<Longrightarrow> 0 \<le> c \<and> c < 256 \<and> c div 64 = (k :: int)"
  using pos_mod_bound [of 64 d] pos_mod_sign [of 64 d] by simp

lemma operand_1:
  assumes "- 64 \<le> val" "val \<le> 63" and c: "uint b0 = val mod 128"
  shows "operand (b0 # q) = Some (val, q)"
proof -
  have r: "0 \<le> uint b0" "uint b0 < 256" unfolding c using pos_mod_bound [of 128 val] by simp_all
  note ands = c_and [OF r]
  show ?thesis
  proof (cases "val < 0")
    case True
    then have v: "uint b0 = val + 128" unfolding c using assms(1) by presburger
    have "uint b0 div 64 = 1" unfolding v using assms(1) True by simp
    moreover have "uint b0 mod 128 - 128 = val" unfolding c by (simp add: v [unfolded c])
    ultimately show ?thesis unfolding operand_def Let_def list.case ands by simp
  next
    case False
    then have v: "uint b0 = val" unfolding c using assms(2) by simp
    have "uint b0 div 64 = 0" unfolding v using False assms(2) by simp
    then show ?thesis unfolding operand_def Let_def list.case ands by (simp add: v)
  qed
qed

lemma operand_2:
  assumes "- 8192 \<le> val" "val \<le> 8191" and c: "uint b0 = 64 * 2 + (val div 256) mod 64" and c1: "uint b1 = val mod 256"
  shows "operand (b0 # b1 # q) = Some (val, q)"
proof -
  define d where "d = val div 256"
  have d: "- 32 \<le> d" "d < 32" unfolding d_def using assms(1,2) by presburger+
  have r: "0 \<le> uint b0" "uint b0 < 256" "uint b0 div 64 = 2" using top_bits [OF c] by simp_all
  have "push_bit 8 d OR val mod 256 = push_bit 8 d + val mod 256" by (rule or_add_int) simp_all
  then have v: "push_bit 8 d OR uint b1 = val" unfolding c1 by (simp add: d_def push_bit_eq_mult)
  note sx = signx [OF d c [folded d_def], simplified]
  have "uint b0 AND 0xC0 = 128" using c_and(1) [OF r(1,2)] r(3) by simp
  then show ?thesis unfolding operand_def Let_def list.case using v by (simp add: sx)
qed

lemma operand_4:
  assumes "- (2 ^ 29) \<le> val" "val < 2 ^ 29" and c: "uint b0 = 64 * 3 + (drop_bit 24 val) mod 64"
    and c1: "uint b1 = take_bit 8 (drop_bit 16 val)" "uint b2 = take_bit 8 (drop_bit 8 val)" "uint b3 = take_bit 8 val"
  shows "operand (b0 # b1 # b2 # b3 # q) = Some (val, q)"
proof -
  define d where "d = drop_bit 24 val"
  have "- 536870912 \<le> val" "val < 536870912" using assms(1,2) by simp_all
  then have d: "- 32 \<le> d" "d < 32" unfolding d_def drop_bit_eq_div power_numeral by simp_all
  have r: "0 \<le> uint b0" "uint b0 < 256" "uint b0 div 64 = 3" using top_bits [OF c] by simp_all
  have "push_bit 24 d OR push_bit 16 (uint b1) OR push_bit 8 (uint b2) OR uint b3 = val" (is "?l = _")
  proof (rule bit_eqI)
    fix n :: nat
    consider "n < 8" | "8 \<le> n" "n < 16" | "16 \<le> n" "n < 24" | "24 \<le> n" by fastforce
    then show "bit ?l n = bit val n" unfolding c1 by cases (auto simp: bit_simps d_def)
  qed
  moreover have "signed_take_bit 31 val = val" using assms(1,2) by (intro signed_take_bit_int_eq_self) simp_all
  ultimately have v: "signed_take_bit 31 (push_bit 24 d OR push_bit 16 (uint b1) OR push_bit 8 (uint b2) OR uint b3) = val"
    by simp
  note sx = signx [OF d c [folded d_def], simplified]
  have "uint b0 AND 0xC0 = 192" using c_and(1) [OF r(1,2)] r(3) by simp
  then show ?thesis unfolding operand_def Let_def list.case using v by (simp add: sx)
qed

lemma top3: "x AND 7 = x mod (8 :: int)"
proof -
  have "x AND mask 3 = x mod 2 ^ 3" by (simp only: take_bit_eq_mask [symmetric] take_bit_eq_mod)
  then show ?thesis by (simp add: mask_eq_exp_minus_1)
qed

lemma overflow_test:
  fixes val :: int
  assumes "- (2 ^ 31) \<le> val" "val < 2 ^ 31"
  shows "(val < 0 \<and> drop_bit 29 val AND 7 \<noteq> 7) \<or> (val > 0 \<and> drop_bit 29 val \<noteq> 0) \<longleftrightarrow> val < - (2 ^ 29) \<or> 2 ^ 29 \<le> val"
proof -
  have b: "- 2147483648 \<le> val" "val < 2147483648" using assms by simp_all
  define k where "k = val div 536870912"
  have k: "- 4 \<le> k" "k < 4" unfolding k_def using b by simp_all
  obtain r where r: "val = 536870912 * k + r" "0 \<le> r" "r < 536870912"
    using div_mult_mod_eq [of val 536870912] pos_mod_bound [of 536870912 val] unfolding k_def
    by (metis mult.commute pos_mod_sign zero_less_numeral)
  have "(val < 0) = (k < 0)" using r by (intro iffI) linarith+
  moreover have "(val < - 536870912) = (k < - 1)" using r by (intro iffI) linarith+
  moreover have "(536870912 \<le> val) = (k \<ge> 1)" using r by (intro iffI) linarith+
  moreover have "drop_bit 29 val = k" unfolding k_def drop_bit_eq_div by simp
  moreover have "k < 0 \<and> k mod 8 \<noteq> 7 \<longleftrightarrow> k < - 1" using k by presburger
  ultimately show ?thesis unfolding top3 using k by auto
qed

lemma sint_bounds: "- (2 ^ 31) \<le> sint (w :: WORD)" "sint (w :: WORD) < 2 ^ 31"
  using sint_greater_eq [of w] sint_less [of w] by simp_all

lemma discon_operand:
  "(case discon v of
      None \<Rightarrow> sint v < - (2 ^ 29) \<or> 2 ^ 29 \<le> sint v
    | Some bytes \<Rightarrow> - (2 ^ 29) \<le> sint v \<and> sint v < 2 ^ 29 \<and> length bytes \<in> {1, 2, 4} \<and> operand (bytes @ q) = Some (sint v, q)) \<and>
   disw (disword w @ q) = Some (of_int w, q)"
proof -
  define val where "val = sint v"
  note over = overflow_test [OF sint_bounds [of v], folded val_def]
  note byte = first_bytes byte_val drop_bit_eq_div take_bit_eq_mod
  have "case discon v of
      None \<Rightarrow> val < - (2 ^ 29) \<or> 2 ^ 29 \<le> val
    | Some bytes \<Rightarrow> - (2 ^ 29) \<le> val \<and> val < 2 ^ 29 \<and> length bytes \<in> {1, 2, 4} \<and> operand (bytes @ q) = Some (val, q)"
  proof -
    consider (one) "- 64 \<le> val" "val \<le> 63" | (two) "- 8192 \<le> val" "val \<le> 8191" "\<not> (- 64 \<le> val \<and> val \<le> 63)"
      | (four) "\<not> (- 8192 \<le> val \<and> val \<le> 8191)" by fastforce
    then show ?thesis
    proof cases
      case one
      then show ?thesis using operand_1 [OF one first_bytes(1), of q]
        unfolding discon_def val_def [symmetric] Let_def by (simp del: of_int_sint)
    next
      case two
      have "operand ((of_int (drop_bit 8 val) AND NOT 0xC0 OR 0x80) # of_int val # q) = Some (val, q)"
        by (rule operand_2 [OF two(1,2)]) (simp_all only: byte, simp_all)
      then show ?thesis using two unfolding discon_def val_def [symmetric] Let_def by auto
    next
      case four
      then have "\<not> (- 64 \<le> val \<and> val \<le> 63)" by linarith
      moreover have "operand ((of_int (drop_bit 24 val) OR 0xC0) # of_int (drop_bit 16 val) # of_int (drop_bit 8 val) # of_int val # q) = Some (val, q)"
        if "- (2 ^ 29) \<le> val" "val < 2 ^ 29"
        by (rule operand_4 [OF that]) (simp_all add: byte)
      ultimately show ?thesis using four unfolding discon_def val_def [symmetric] Let_def over by auto
    qed
  qed
  then show ?thesis unfolding val_def by (simp add: disw_disword)
qed

lemma discon_read: "discon v = Some bs \<Longrightarrow> operand (bs @ q) = Some (sint v, q)"
  using discon_operand [of v q 0] by simp

text \<open>
  The constants of the compiler are read back by the loader: \<^verbatim>\<open>discon\<close> gives up exactly on the
  numbers that do not fit 30 bits, and of every other number writes one, two or four bytes from which
  \<^verbatim>\<open>operand\<close> gives the number and stops right after them. The words of \<^verbatim>\<open>disword\<close> are read back by
  \<^verbatim>\<open>disw\<close>.
\<close>

theorem operand_discon:
  "(case discon v of
      None \<Rightarrow> sint v < - (2 ^ 29) \<or> 2 ^ 29 \<le> sint v
    | Some bytes \<Rightarrow> - (2 ^ 29) \<le> sint v \<and> sint v < 2 ^ 29 \<and> length bytes \<in> {1, 2, 4} \<and> operand (bytes @ q) = Some (sint v, q)) \<and>
   disw (disword w @ q) = Some (of_int w, q)"
  by (rule discon_operand)

end
