(* ===== verification/Load.thy ===== *)
theory Load
  imports Stack Disfile
begin

text \<open>
  The loader, \<^verbatim>\<open>interp/load.c\<close>, and the linker, \<^verbatim>\<open>interp/link.c\<close>. \<^verbatim>\<open>parsemod\<close> is split where its sections are: header,
  code, type descriptors, data, links. The stream is the list of the bytes from \<^verbatim>\<open>istream\<close> on. The functions that
  read without changing the machine give \<open>None\<close> for a read past the end and \<open>Inl\<close> the text of \<^verbatim>\<open>kwerrstr\<close> before
  \<^verbatim>\<open>goto bad\<close>; those that change it have a result type of their own.
  \<open>mal k n\<close> is the address the \<open>k\<close>-th \<^verbatim>\<open>malloc\<close> of a call gives for \<open>n\<close> bytes, 0 when there is none.
\<close>

unbundle bit_operations_syntax

section \<open>Reading\<close>

type_synonym 'a rd = "byte list \<Rightarrow> (string + 'a \<times> byte list) option"

definition okR :: "'a \<Rightarrow> 'a rd" where "okR x = (\<lambda>p. Some (Inr (x, p)))"
definition badR :: "string \<Rightarrow> 'a rd" where "badR e = (\<lambda>p. Some (Inl e))"

definition bindRd :: "'a rd \<Rightarrow> ('a \<Rightarrow> 'b rd) \<Rightarrow> 'b rd" where
  "bindRd m f = (\<lambda>p. case m p of None \<Rightarrow> None | Some (Inl e) \<Rightarrow> Some (Inl e) | Some (Inr (x, q)) \<Rightarrow> f x q)"

definition operandR :: "int rd" where
  "operandR p = map_option Inr (operand p)"

definition diswR :: "WORD rd" where
  "diswR p = map_option Inr (disw p)"

definition byteR :: "byte rd" where  \<comment> \<open>\<^verbatim>\<open>*istream++\<close>\<close>
  "byteR p = (case p of [] \<Rightarrow> None | c # q \<Rightarrow> Some (Inr (c, q)))"

section \<open>The header\<close>

definition XMAGIC :: int where "XMAGIC = 819248"
definition SMAGIC :: int where "SMAGIC = 923426"

definition verifysigner :: "byte list \<Rightarrow> int \<Rightarrow> byte list \<Rightarrow> bool" where
  "verifysigner sign len data = True"

definition parse_magic :: "unit rd" where
  "parse_magic = bindRd operandR (\<lambda>magic.
     if magic = SMAGIC then bindRd operandR (\<lambda>siglen p.
       if \<not> (0 \<le> siglen \<and> siglen \<le> int (length p)) then None
       else if \<not> verifysigner p siglen (drop (nat siglen) p) then badR ''security violation'' p
       else okR () (drop (nat siglen) p))
     else if magic = XMAGIC then okR ()
     else badR ''bad magic'')"

record header =
  h_rt :: int
  h_ss :: int
  h_isize :: int
  h_dsize :: int
  h_hsize :: int
  h_lsize :: int
  h_entry :: int
  h_entryt :: int

definition parse_header :: "header rd" where
  "parse_header =
     bindRd parse_magic (\<lambda>_. bindRd operandR (\<lambda>rt. bindRd operandR (\<lambda>ss. bindRd operandR (\<lambda>isize.
     bindRd operandR (\<lambda>dsize. bindRd operandR (\<lambda>hsize. bindRd operandR (\<lambda>lsize. bindRd operandR (\<lambda>entry.
     bindRd operandR (\<lambda>entryt. okR
       \<lparr>h_rt = rt, h_ss = ss, h_isize = isize, h_dsize = dsize, h_hsize = hsize, h_lsize = lsize,
        h_entry = entry, h_entryt = entryt\<rparr>)))))))))"

section \<open>Code\<close>

definition AMP :: byte where "AMP = 0x00"
definition AFP :: byte where "AFP = 0x01"
definition AIMM :: byte where "AIMM = 0x02"
definition AXXX :: byte where "AXXX = 0x03"
definition AIND :: byte where "AIND = 0x04"
definition AMASK :: byte where "AMASK = 0x07"
definition ARM :: byte where "ARM = 0xC0"
definition AXNON :: byte where "AXNON = 0x00"
definition AXIMM :: byte where "AXIMM = 0x40"
definition AXINF :: byte where "AXINF = 0x80"
definition AXINM :: byte where "AXINM = 0xC0"

definition SRC :: "byte \<Rightarrow> byte" where "SRC x = push_bit 3 x"
definition DST :: "byte \<Rightarrow> byte" where "DST x = x"
definition UXSRC :: "byte \<Rightarrow> byte" where "UXSRC x = x AND push_bit 3 AMASK"
definition UXDST :: "byte \<Rightarrow> byte" where "UXDST x = x AND AMASK"

text \<open>\<^verbatim>\<open>ICALL\<close>, \<^verbatim>\<open>IJMP\<close>, the branches and \<^verbatim>\<open>ISPAWN\<close>, as the enumeration of \<^verbatim>\<open>include/isa.h\<close> numbers them.\<close>

definition branchop :: "byte \<Rightarrow> bool" where
  "branchop op \<longleftrightarrow> unat op \<in> set ([4, 13, 6] @ [87 ..< 111] @ [129 ..< 135])"

definition brpatch :: "WORD \<Rightarrow> int \<Rightarrow> Inst \<Rightarrow> Inst option" where
  \<comment> \<open>\<open>None\<close>: \<^verbatim>\<open>return 0\<close>\<close>
  "brpatch prog nprg ip =
     (if branchop (iop ip) then
        if sint (idst ip) < 0 \<or> sint (idst ip) \<ge> nprg then None
        else Some (ip\<lparr>idst := prog + sizeof_Inst * idst ip\<rparr>)
      else Some ip)"

text \<open>An operand: nothing, a word, or two halves.\<close>

definition parse_mid :: "byte \<Rightarrow> (16 word) rd" where
  "parse_mid add =
     (if add AND ARM \<in> {AXIMM, AXINF, AXINM} then bindRd operandR (\<lambda>v. okR (of_int v)) else okR 0)"

definition halves :: "int \<Rightarrow> int \<Rightarrow> WORD" where  \<comment> \<open>\<^verbatim>\<open>i.f\<close> and \<^verbatim>\<open>i.s\<close>\<close>
  "halves f s = ucast (of_int f :: 16 word) OR push_bit 16 (ucast (of_int s :: 16 word))"

definition parse_src :: "byte \<Rightarrow> WORD rd" where
  "parse_src add =
     (if UXSRC add \<in> {SRC AFP, SRC AMP, SRC AIMM} then bindRd operandR (\<lambda>v. okR (of_int v))
      else if UXSRC add \<in> {SRC (AIND OR AFP), SRC (AIND OR AMP)} then
        bindRd operandR (\<lambda>f. bindRd operandR (\<lambda>s. okR (halves f s)))
      else okR 0)"

definition parse_dst :: "WORD \<Rightarrow> int \<Rightarrow> Inst \<Rightarrow> Inst rd" where
  "parse_dst prog nprg ip =
     (if UXDST (iadd ip) \<in> {DST AFP, DST AMP} then bindRd operandR (\<lambda>v. okR (ip\<lparr>idst := of_int v\<rparr>))
      else if UXDST (iadd ip) = DST AIMM then bindRd operandR (\<lambda>v.
        case brpatch prog nprg (ip\<lparr>idst := of_int v\<rparr>) of None \<Rightarrow> badR ''bad branch addr'' | Some ip' \<Rightarrow> okR ip')
      else if UXDST (iadd ip) \<in> {DST (AIND OR AFP), DST (AIND OR AMP)} then
        bindRd operandR (\<lambda>f. bindRd operandR (\<lambda>s. okR (ip\<lparr>idst := halves f s\<rparr>)))
      else okR ip)"

definition parse_inst :: "WORD \<Rightarrow> int \<Rightarrow> Inst rd" where
  "parse_inst prog nprg =
     bindRd byteR (\<lambda>op. bindRd byteR (\<lambda>add. bindRd (parse_mid add) (\<lambda>reg. bindRd (parse_src add) (\<lambda>s.
       parse_dst prog nprg \<lparr>iop = op, iadd = add, ireg = reg, isrc = s, idst = 0\<rparr>))))"

primrec parse_insts :: "WORD \<Rightarrow> int \<Rightarrow> nat \<Rightarrow> Inst list rd" where
  "parse_insts prog nprg 0 = okR []"
| "parse_insts prog nprg (Suc k) =
     bindRd (parse_inst prog nprg) (\<lambda>ip. bindRd (parse_insts prog nprg k) (\<lambda>ips. okR (ip # ips)))"


section \<open>Type descriptors\<close>

text \<open>
  What a part of \<^verbatim>\<open>parsemod\<close> gives that works on the module \<open>m\<close> and the machine: a value with the rest of the stream,
  \<^verbatim>\<open>goto bad\<close> with the module as it is then, an exception raised below it, a crash.
\<close>

datatype 'a ld = LOk 'a Module "byte list" vm | LBad string Module vm | LErr dis_error vm | LCrash

definition dtype :: "freefn \<Rightarrow> int \<Rightarrow> byte list \<Rightarrow> int \<Rightarrow> Type option" where
  \<comment> \<open>\<open>None\<close>: the map is not in the file\<close>
  "dtype dest sz mp mapsize =
     (if 0 \<le> mapsize \<and> mapsize \<le> int (length mp) then
        Some \<lparr>tref = 1, tfree = dest, tmark = Mmarkheap, tsize = sz, tmap = take (nat mapsize) mp\<rparr>
      else None)"

definition parse_type :: "(nat \<Rightarrow> WORD \<Rightarrow> WORD) \<Rightarrow> tid \<Rightarrow> nat \<Rightarrow> Module \<Rightarrow> byte list \<Rightarrow> vm \<Rightarrow> unit ld" where
  \<comment> \<open>one turn of the loop; \<open>nt\<close> is the number of the new descriptor\<close>
  "parse_type mal nt i m p \<sigma> =
     (case bindRd operandR (\<lambda>ti. if ti > int (length (mtype m)) then badR ''heap id range''
             else bindRd operandR (\<lambda>tsz. bindRd operandR (\<lambda>tnp. okR (ti, tsz, tnp)))) p of
        None \<Rightarrow> LCrash
      | Some (Inl e) \<Rightarrow> LBad e m \<sigma>
      | Some (Inr ((ti, tsz, tnp), q)) \<Rightarrow>
          if mal (3 + i) (of_int (32 + tnp)) = 0 then LBad ''no memory'' m \<sigma>
          else case dtype Ffreeheap tsz q tnp of None \<Rightarrow> LCrash
          | Some t \<Rightarrow>
              if 0 \<le> ti \<and> ti < int (length (mtype m)) then
                LOk () (m\<lparr>mtype := (mtype m)[nat ti := Some nt]\<rparr>) (drop (nat tnp) q) (\<sigma>\<lparr>types := (types \<sigma>)(nt := t)\<rparr>)
              else LCrash)"

fun parse_types :: "(nat \<Rightarrow> WORD \<Rightarrow> WORD) \<Rightarrow> tid \<Rightarrow> nat \<Rightarrow> nat \<Rightarrow> Module \<Rightarrow> byte list \<Rightarrow> vm \<Rightarrow> unit ld" where
  \<comment> \<open>\<open>k\<close> turns are left, \<open>i\<close> is the loop variable\<close>
  "parse_types mal nt i 0 m p \<sigma> = LOk () m p \<sigma>"
| "parse_types mal nt i (Suc k) m p \<sigma> =
     (case parse_type mal (nt + i) i m p \<sigma> of LOk _ m' q \<sigma>' \<Rightarrow> parse_types mal nt (Suc i) k m' q \<sigma>' | r \<Rightarrow> r)"

section \<open>Data\<close>

definition DTYPE :: "byte \<Rightarrow> nat" where "DTYPE x = unat (drop_bit 4 x)"
definition DLEN :: "byte \<Rightarrow> int" where "DLEN x = uint (x AND 15)"
definition DEFB :: nat where "DEFB = 1"
definition DEFW :: nat where "DEFW = 2"
definition DEFS :: nat where "DEFS = 3"
definition DEFF :: nat where "DEFF = 4"
definition DEFA :: nat where "DEFA = 5"
definition DIND :: nat where "DIND = 6"
definition DAPOP :: nat where "DAPOP = 7"
definition DEFL :: nat where "DEFL = 8"

definition canontod :: "WORD \<Rightarrow> WORD \<Rightarrow> LONG" where
  \<comment> \<open>the bits of the double; on this machine the second word is the low one\<close>
  "canontod v0 v1 = push_bit 32 (ucast v0) OR ucast v1"

text \<open>The loops of the data items: the body of each, and the loop over the \<open>n\<close> values of an item.\<close>

definition defb :: "WORD \<Rightarrow> mem \<Rightarrow> mem rd" where
  "defb si m = bindRd byteR (\<lambda>b. okR (wrB m si b))"

definition defw :: "WORD \<Rightarrow> mem \<Rightarrow> mem rd" where
  "defw si m = bindRd diswR (\<lambda>w. okR (wrW m si w))"

definition defl :: "WORD \<Rightarrow> mem \<Rightarrow> mem rd" where
  "defl si m = bindRd diswR (\<lambda>hi. bindRd diswR (\<lambda>lo. okR (wrV m si (push_bit 32 (ucast hi) OR ucast lo))))"

definition deff :: "WORD \<Rightarrow> mem \<Rightarrow> mem rd" where
  "deff si m = bindRd diswR (\<lambda>u0. bindRd diswR (\<lambda>u1. okR (wrV m si (canontod u0 u1))))"

primrec data_loop :: "(WORD \<Rightarrow> mem \<Rightarrow> mem rd) \<Rightarrow> WORD \<Rightarrow> nat \<Rightarrow> WORD \<Rightarrow> mem \<Rightarrow> mem rd" where
  "data_loop body sz 0 si m = okR m"
| "data_loop body sz (Suc n) si m = bindRd (body si m) (\<lambda>m'. data_loop body sz n (si + sz) m')"

text \<open>The size of an array is computed with 32 bits, so it can wrap.\<close>

definition data_array :: "WORD \<Rightarrow> Module \<Rightarrow> byte list \<Rightarrow> vm \<Rightarrow> unit ld" where
  "data_array si m p \<sigma> =
     (case disw p of None \<Rightarrow> LCrash | Some (v, p1) \<Rightarrow>
      if sint v < 0 \<or> sint v > int (length (mtype m)) then LBad ''bad array type'' m \<sigma>
      else case (if unat v < length (mtype m) then mtype m ! unat v else None) of None \<Rightarrow> LCrash | Some pt \<Rightarrow>
      case disw p1 of None \<Rightarrow> LCrash | Some (len, p2) \<Rightarrow>
      case nheap (sint (of_int (sizeof_Array + tsize (types \<sigma> pt) * sint len) :: WORD)) \<sigma> of
        Crash \<Rightarrow> LCrash | Err e \<sigma>1 \<Rightarrow> LErr e \<sigma>1
      | Ret a \<sigma>1 \<Rightarrow>
          let d = a + of_int sizeof_Array;
              \<sigma>2 = settype Tarray (SArray (sint len) pt H d) a \<sigma>1;
              \<sigma>3 = \<sigma>2\<lparr>mem := memset0 (mem \<sigma>2) d (unat (of_int (tsize (types \<sigma> pt) * sint len) :: WORD))\<rparr> in
          case initarray pt a \<sigma>3 of None \<Rightarrow> LCrash
          | Some \<sigma>4 \<Rightarrow> LOk () m p2 (\<sigma>4\<lparr>mem := wrW (mem \<sigma>4) si a\<rparr>))"

definition data_index :: "WORD \<Rightarrow> WORD \<Rightarrow> WORD list \<Rightarrow> Module \<Rightarrow> byte list \<Rightarrow> vm \<Rightarrow> (WORD \<times> WORD list) ld" where
  \<comment> \<open>gives the new address register and address stack\<close>
  "data_index si addr dastack m p \<sigma> =
     (let ary = rdW (mem \<sigma>) si in
      if ary = H then LBad ''ind not array'' m \<sigma>
      else case hp \<sigma> ary of None \<Rightarrow> LCrash | Some h \<Rightarrow>
      if ht h \<noteq> Some Tarray then LBad ''ind not array'' m \<sigma>
      else case hs h of SArray len t root d \<Rightarrow>
        (case disw p of None \<Rightarrow> LCrash | Some (v, p1) \<Rightarrow>
          if sint v > len \<or> sint v < 0 \<or> length dastack \<ge> DADEPTH then LBad ''array init range'' m \<sigma>
          else LOk (d + v * of_int (tsize (types \<sigma> t)), addr # dastack) m p1 \<sigma>)
      | _ \<Rightarrow> LCrash)"

definition ldmem :: "(string + mem \<times> byte list) option \<Rightarrow> Module \<Rightarrow> vm \<Rightarrow> unit ld" where
  "ldmem r m \<sigma> = (case r of None \<Rightarrow> LCrash | Some (Inl e) \<Rightarrow> LBad e m \<sigma> | Some (Inr (mm, q)) \<Rightarrow> LOk () m q (\<sigma>\<lparr>mem := mm\<rparr>))"

definition data_item :: "byte \<Rightarrow> int \<Rightarrow> int \<Rightarrow> WORD \<Rightarrow> WORD list \<Rightarrow> Module \<Rightarrow> byte list \<Rightarrow> vm \<Rightarrow> (WORD \<times> WORD list) ld" where
  \<comment> \<open>the switch: \<open>n\<close> the count, \<open>v\<close> the offset, \<open>addr\<close> and \<open>dastack\<close> the address register and its stack\<close>
  "data_item sm n v addr dastack m p \<sigma> =
     (let si = addr + of_int v;
          stay = (\<lambda>r. case r of LOk _ m q \<sigma> \<Rightarrow> LOk (addr, dastack) m q \<sigma> | LBad e m \<sigma> \<Rightarrow> LBad e m \<sigma>
                  | LErr e \<sigma> \<Rightarrow> LErr e \<sigma> | LCrash \<Rightarrow> LCrash) in
      if DTYPE sm = DEFS then
        (if 0 \<le> n \<and> n \<le> int (length p) then
           (case c2string (take (nat n) p) \<sigma> of
              Ret s \<sigma>1 \<Rightarrow> LOk (addr, dastack) m (drop (nat n) p) (\<sigma>1\<lparr>mem := wrW (mem \<sigma>1) si s\<rparr>)
            | Err e \<sigma>1 \<Rightarrow> LErr e \<sigma>1 | Crash \<Rightarrow> LCrash)
         else LCrash)
      else if DTYPE sm = DEFB then stay (ldmem (data_loop defb 1 (nat n) si (mem \<sigma>) p) m \<sigma>)
      else if DTYPE sm = DEFW then stay (ldmem (data_loop defw 4 (nat n) si (mem \<sigma>) p) m \<sigma>)
      else if DTYPE sm = DEFL then stay (ldmem (data_loop defl 8 (nat n) si (mem \<sigma>) p) m \<sigma>)
      else if DTYPE sm = DEFF then stay (ldmem (data_loop deff 8 (nat n) si (mem \<sigma>) p) m \<sigma>)
      else if DTYPE sm = DEFA then stay (data_array si m p \<sigma>)
      else if DTYPE sm = DIND then data_index si addr dastack m p \<sigma>
      else if DTYPE sm = DAPOP then
        (case dastack of [] \<Rightarrow> LBad ''pop range'' m \<sigma> | a # st \<Rightarrow> LOk (a, st) m p \<sigma>)
      else LBad ''bad data item'' m \<sigma>)"

definition item_head :: "byte \<Rightarrow> (int \<times> int) rd" where
  \<comment> \<open>the count and the offset of an item\<close>
  "item_head sm = bindRd (if DLEN sm = 0 then operandR else okR (DLEN sm)) (\<lambda>n. bindRd operandR (\<lambda>v. okR (n, v)))"

text \<open>Every turn takes at least a byte off the stream.\<close>

definition shrinks :: "'a rd \<Rightarrow> bool" where
  "shrinks r \<longleftrightarrow> (\<forall>p x q. r p = Some (Inr (x, q)) \<longrightarrow> length q \<le> length p)"

lemma shrinks_bind: "shrinks r \<Longrightarrow> (\<And>x. shrinks (f x)) \<Longrightarrow> shrinks (bindRd r f)"
  unfolding shrinks_def bindRd_def by (auto split: option.splits sum.splits) (meson le_trans)

lemma shrinks_read: "shrinks (okR x)" "shrinks (badR e)" "shrinks operandR" "shrinks diswR" "shrinks byteR"
  by (auto simp: shrinks_def okR_def badR_def operandR_def diswR_def byteR_def operand_def disw_def Let_def
      split: list.splits if_splits)

lemmas shrinks_intros = shrinks_bind shrinks_read

lemma shrinks_loop: "(\<And>si m. shrinks (body si m)) \<Longrightarrow> shrinks (data_loop body sz n si m)"
  by (induction n arbitrary: si m) (auto intro!: shrinks_intros)

lemma shrinks_data: "shrinks (defb si m)" "shrinks (defw si m)" "shrinks (defl si m)" "shrinks (deff si m)"
  by (auto simp: defb_def defw_def defl_def deff_def intro!: shrinks_intros)

lemma item_head_shrinks: "shrinks (item_head sm)"
  by (auto simp: item_head_def intro!: shrinks_intros)

lemma disw_shrinks: "disw p = Some (v, q) \<Longrightarrow> length q \<le> length p"
  by (auto simp: disw_def split: list.splits)

lemma ldmem_shrinks: "shrinks r \<Longrightarrow> ldmem (r p) m \<sigma> = LOk u m' q \<sigma>' \<Longrightarrow> length q \<le> length p"
  by (auto simp: ldmem_def shrinks_def split: option.splits sum.splits)

lemma data_array_shrinks: "data_array si m p \<sigma> = LOk u m' q \<sigma>' \<Longrightarrow> length q \<le> length p"
  by (auto simp: data_array_def Let_def dest!: disw_shrinks split: option.splits prod.splits if_splits outcome.splits)

lemma data_index_shrinks: "data_index si addr st m p \<sigma> = LOk u m' q \<sigma>' \<Longrightarrow> length q \<le> length p"
  by (auto simp: data_index_def Let_def dest!: disw_shrinks split: option.splits prod.splits if_splits hstruct.splits)

lemma data_item_shrinks: "data_item sm n v addr st m p \<sigma> = LOk x m' q \<sigma>' \<Longrightarrow> length q \<le> length p"
  by (simp add: data_item_def Let_def split: if_splits)
    (auto dest: data_array_shrinks data_index_shrinks ldmem_shrinks [OF shrinks_loop [OF shrinks_data(1)]]
      ldmem_shrinks [OF shrinks_loop [OF shrinks_data(2)]] ldmem_shrinks [OF shrinks_loop [OF shrinks_data(3)]]
      ldmem_shrinks [OF shrinks_loop [OF shrinks_data(4)]] split: ld.splits outcome.splits list.splits)

function parse_data :: "WORD \<Rightarrow> WORD list \<Rightarrow> Module \<Rightarrow> byte list \<Rightarrow> vm \<Rightarrow> unit ld" where
  "parse_data addr dastack m p \<sigma> =
     (case p of [] \<Rightarrow> LCrash
      | sm # p1 \<Rightarrow>
        if sm = 0 then LOk () m p1 \<sigma>
        else case item_head sm p1 of
          None \<Rightarrow> LCrash | Some (Inl e) \<Rightarrow> LCrash
        | Some (Inr ((n, v), p2)) \<Rightarrow>
            (case data_item sm n v addr dastack m p2 \<sigma> of
               LOk x m' q \<sigma>' \<Rightarrow> parse_data (fst x) (snd x) m' q \<sigma>'
             | LBad e m' \<sigma>' \<Rightarrow> LBad e m' \<sigma>' | LErr e \<sigma>' \<Rightarrow> LErr e \<sigma>' | LCrash \<Rightarrow> LCrash))"
  by pat_completeness auto
termination
proof (relation "measure (\<lambda>(addr, st, m, p, \<sigma>). length p)", simp, clarsimp)
  fix addr st and m :: Module and \<sigma> sm p1 n v p2 a b m' q \<sigma>'
  assume "item_head sm p1 = Some (Inr ((n, v), p2))" "data_item sm n v addr st m p2 \<sigma> = LOk (a, b) m' q \<sigma>'"
  then show "length q < Suc (length p1)" using item_head_shrinks [of sm] data_item_shrinks unfolding shrinks_def
    by (meson le_imp_less_Suc order_trans)
qed

declare parse_data.simps [simp del]

section \<open>Links\<close>

text \<open>A string of the stream, without its NUL, and what follows it.\<close>

fun cstr :: "byte list \<Rightarrow> (byte list \<times> byte list) option" where
  "cstr [] = None"
| "cstr (c # p) = (if c = 0 then Some ([], p) else map_option (\<lambda>(s, q). (c # s, q)) (cstr p))"

definition newlink :: "byte list \<Rightarrow> WORD \<Rightarrow> tid option \<Rightarrow> WORD \<Rightarrow> Module \<Rightarrow> Module" where
  \<comment> \<open>with the assignment of \<^verbatim>\<open>u\<close> by \<^verbatim>\<open>runtime\<close> or \<^verbatim>\<open>mlink\<close>; there is memory for it\<close>
  "newlink fn sig t u m = m\<lparr>mext := \<lparr>lname = fn, lsig = sig, lframe = t, lpc = u\<rparr> # mext m\<rparr>"

definition runtime :: "Module \<Rightarrow> byte list \<Rightarrow> WORD \<Rightarrow> WORD \<Rightarrow> tid option \<Rightarrow> Module" where
  "runtime m fn sig rf t = newlink fn sig t rf m"

definition mlink :: "Module \<Rightarrow> byte list \<Rightarrow> WORD \<Rightarrow> int \<Rightarrow> tid option \<Rightarrow> Module" where
  "mlink m fn sig pc t = newlink fn sig t (mprog m + sizeof_Inst * of_int pc) m"

fun parse_links :: "(nat \<Rightarrow> WORD \<Rightarrow> WORD) \<Rightarrow> nat \<Rightarrow> nat \<Rightarrow> Module \<Rightarrow> byte list \<Rightarrow> vm \<Rightarrow> unit ld" where
  "parse_links mal i 0 m p \<sigma> = LOk () m p \<sigma>"
| "parse_links mal i (Suc k) m p \<sigma> =
     (case bindRd operandR (\<lambda>pc. bindRd operandR (\<lambda>de. bindRd diswR (\<lambda>v. okR (pc, de, v)))) p of
        Some (Inr ((pc, de, v), q)) \<Rightarrow>
          (case (if de = -1 then Some None
                 else if 0 \<le> de \<and> de < int (length (mtype m)) then Some (mtype m ! nat de) else None) of None \<Rightarrow> LCrash
           | Some pt \<Rightarrow>
             (case cstr q of None \<Rightarrow> LCrash
              | Some (fn, q') \<Rightarrow>
                if mal (3 + length (mtype m) + i) (of_nat (21 + length fn)) = 0 then LErr exNomem \<sigma>
                else parse_links mal (Suc i) k (mlink m fn v pc pt) q' \<sigma>))
      | _ \<Rightarrow> LCrash)"

section \<open>Modules\<close>


definition strncpy :: "byte list \<Rightarrow> nat \<Rightarrow> byte list" where
  \<comment> \<open>of a string, into a cleared array\<close>
  "strncpy s n = take n (s @ replicate n 0)"

definition MUSTCOMPILE :: int where "MUSTCOMPILE = 1"
definition DONTCOMPILE :: int where "DONTCOMPILE = 2"

definition setentry :: "header \<Rightarrow> Module \<Rightarrow> Module option" where
  \<comment> \<open>the comparisons are unsigned\<close>
  "setentry h m =
     (if (of_int (h_entry h) :: WORD) < of_int (h_isize h) \<and> (of_int (h_entryt h) :: WORD) < of_int (h_hsize h) then
        if h_entryt h < int (length (mtype m)) \<and> 0 \<le> h_entryt h
        then Some (m\<lparr>mentry := mprog m + sizeof_Inst * of_int (h_entry h), mentryt := mtype m ! nat (h_entryt h)\<rparr>)
        else None
      else Some (m\<lparr>mentry := mprog m, mentryt := None\<rparr>))"

text \<open>The end of a load that failed; the memory of code, table and module is given back.\<close>

definition bad :: "Module \<Rightarrow> vm \<Rightarrow> vm option" where
  "bad m \<sigma> = map_option (fold freetype (mtype m)) (destroy (morigmp m) \<sigma>)"

definition loaded :: "mid \<Rightarrow> unit ld \<Rightarrow> (Module \<Rightarrow> byte list \<Rightarrow> vm \<Rightarrow> mid option outcome) \<Rightarrow> mid option outcome" where
  \<comment> \<open>goes on with what a part gave, or ends the call\<close>
  "loaded mi r f =
     (case r of LOk _ m q \<sigma> \<Rightarrow> f m q \<sigma>
      | LBad e m \<sigma> \<Rightarrow> (case bad m \<sigma> of None \<Rightarrow> Crash | Some \<sigma>1 \<Rightarrow> Ret None \<sigma>1)
      | LErr e \<sigma> \<Rightarrow> Err e \<sigma> | LCrash \<Rightarrow> Crash)"

definition readpart :: "('a \<Rightarrow> Module \<Rightarrow> Module) \<Rightarrow> 'a rd \<Rightarrow> Module \<Rightarrow> byte list \<Rightarrow> vm \<Rightarrow> unit ld" where
  "readpart upd r m p \<sigma> =
     (case r p of None \<Rightarrow> LCrash | Some (Inl e) \<Rightarrow> LBad e m \<sigma> | Some (Inr (x, q)) \<Rightarrow> LOk () (upd x m) q \<sigma>)"

definition parse_origmp :: "int \<Rightarrow> Module \<Rightarrow> byte list \<Rightarrow> vm \<Rightarrow> unit ld" where
  "parse_origmp dsize m p \<sigma> =
     (if dsize = 0 then LOk () m p \<sigma>
      else case mtype m of [] \<Rightarrow> LCrash
      | pt # _ \<Rightarrow>
        (case pt of None \<Rightarrow> LBad ''bad desc for mp'' m \<sigma>
         | Some t \<Rightarrow>
           if tsize (types \<sigma> t) \<noteq> dsize then LBad ''bad desc for mp'' m \<sigma>
           else (case heapz t \<sigma> of Ret v \<sigma>1 \<Rightarrow> LOk () (m\<lparr>morigmp := v\<rparr>) p \<sigma>1
                 | Err e \<sigma>1 \<Rightarrow> LErr e \<sigma>1 | Crash \<Rightarrow> LCrash)))"

definition parse_name :: "Module \<Rightarrow> byte list \<Rightarrow> vm \<Rightarrow> unit ld" where
  "parse_name m p \<sigma> =
     (case cstr p of None \<Rightarrow> LCrash | Some (s, q) \<Rightarrow> LOk () (m\<lparr>mname := strncpy s NAMELEN\<rparr>) q \<sigma>)"

definition need :: "WORD \<Rightarrow> Module \<Rightarrow> byte list \<Rightarrow> vm \<Rightarrow> unit ld" where
  \<comment> \<open>the check of the result of \<^verbatim>\<open>malloc\<close>\<close>
  "need a m p \<sigma> = (if a = 0 then LBad ''no memory'' m \<sigma> else LOk () m p \<sigma>)"

definition compiling :: "(Module \<Rightarrow> vm \<Rightarrow> bool \<times> vm) \<Rightarrow> bool \<Rightarrow> Module \<Rightarrow> byte list \<Rightarrow> vm \<Rightarrow> unit ld" where
  \<comment> \<open>\<open>jit\<close> is \<^verbatim>\<open>compile\<close>, the code generator of the host\<close>
  "compiling jit cflag m p \<sigma> =
     (if cflag then
        if mrt m AND DONTCOMPILE = 0 then LOk () m p (snd (jit m \<sigma>)) else LOk () m p \<sigma>
      else if mrt m AND MUSTCOMPILE \<noteq> 0 then
        (case jit m \<sigma> of (ok, \<sigma>1) \<Rightarrow> if ok then LOk () m p \<sigma>1 else LBad ''compiler required'' m \<sigma>1)
      else LOk () m p \<sigma>)"

definition newmodule :: Module where
  "newmodule = \<lparr>mref = 0, morigmp = H, mtype = [], mpath = [], mss = 0, mprog = 0, mcode = [], mrt = 0, mname = replicate NAMELEN 0,
     mentry = 0, mentryt = None, mext = []\<rparr>"

definition addmod :: "mid \<Rightarrow> Module \<Rightarrow> vm \<Rightarrow> vm" where  \<comment> \<open>\<^verbatim>\<open>m->link = modules; modules = m\<close>\<close>
  "addmod mi m \<sigma> = \<sigma>\<lparr>mods := (mods \<sigma>)(mi := m), modules := mi # modules \<sigma>\<rparr>"

definition parsemod :: "(nat \<Rightarrow> WORD \<Rightarrow> WORD) \<Rightarrow> (Module \<Rightarrow> vm \<Rightarrow> bool \<times> vm) \<Rightarrow> bool \<Rightarrow> mid \<Rightarrow> tid \<Rightarrow>
    string \<Rightarrow> byte list \<Rightarrow> vm \<Rightarrow> mid option outcome" where
  \<comment> \<open>\<open>mi\<close> and \<open>nt\<close> are the numbers of the module and of its first descriptor\<close>
  "parsemod mal jit cflag mi nt pth code \<sigma> =
     (if mal 0 100 = 0 then Ret None \<sigma>
      else case parse_header code of
        None \<Rightarrow> Crash
      | Some (Inl e) \<Rightarrow> (case bad newmodule \<sigma> of None \<Rightarrow> Crash | Some \<sigma>1 \<Rightarrow> Ret None \<sigma>1)
      | Some (Inr (h, p)) \<Rightarrow>
          let isize = nat (h_isize h); hsize = nat (h_hsize h);
              prog = mal 1 (of_int (h_isize h * 12)) in
          loaded mi (need prog (newmodule\<lparr>mss := h_ss h, mrt := h_rt h\<rparr>) p \<sigma>) (\<lambda>m p \<sigma>.
          loaded mi (readpart (\<lambda>c. mcode_update (\<lambda>_. c)) (parse_insts prog (h_isize h) isize) (m\<lparr>mprog := prog, mref := 1\<rparr>) p \<sigma>) (\<lambda>m p \<sigma>.
          loaded mi (need (mal 2 (of_int (h_hsize h * 4))) m p \<sigma>) (\<lambda>m p \<sigma>.
          loaded mi (parse_types mal nt 0 hsize (m\<lparr>mtype := replicate hsize None\<rparr>) p \<sigma>) (\<lambda>m p \<sigma>.
          loaded mi (parse_origmp (h_dsize h) m p \<sigma>) (\<lambda>m p \<sigma>.
          loaded mi (parse_data (morigmp m) [] m p \<sigma>) (\<lambda>m p \<sigma>.
          loaded mi (parse_name m p \<sigma>) (\<lambda>m p \<sigma>.
          loaded mi (parse_links mal 0 (nat (h_lsize h)) m p \<sigma>) (\<lambda>m p \<sigma>.
          case setentry h m of None \<Rightarrow> Crash
          | Some m \<Rightarrow>
              loaded mi (compiling jit cflag m p \<sigma>) (\<lambda>m p \<sigma>.
              loaded mi (need (mal (3 + hsize + nat (h_lsize h)) (of_nat (length pth + 1))) m p \<sigma>) (\<lambda>m p \<sigma>.
              Ret (Some mi) (addmod mi (m\<lparr>mpath := pth\<rparr>) \<sigma>))))))))))))"

definition newmod :: "WORD \<Rightarrow> mid \<Rightarrow> string \<Rightarrow> vm \<Rightarrow> mid outcome" where
  \<comment> \<open>\<open>a\<close> is what \<^verbatim>\<open>malloc\<close> gives; the bytes of the path are those of its characters\<close>
  "newmod a mi s \<sigma> =
     (if a = 0 then Err exNomem \<sigma>
      else Ret mi (addmod mi (newmodule\<lparr>mref := 1, mpath := s,
        mname := strncpy (map (\<lambda>c. of_nat (of_char c)) s) (NAMELEN - 1) @ [0]\<rparr>) \<sigma>))"

definition lookmod :: "string \<Rightarrow> vm \<Rightarrow> mid option \<times> vm" where
  "lookmod s \<sigma> =
     (case find (\<lambda>m. mpath (mods \<sigma> m) = s) (modules \<sigma>) of
        None \<Rightarrow> (None, \<sigma>)
      | Some m \<Rightarrow> (Some m, \<sigma>\<lparr>mods := (mods \<sigma>)(m := (mods \<sigma> m)\<lparr>mref := mref (mods \<sigma> m) + 1\<rparr>)\<rparr>))"


section \<open>Linking\<close>

text \<open>
  A link record in memory: a word aligned signature and a name that ends with a NUL. \<open>memstr\<close> reads the name; a name with no
  NUL in the address space makes the loop endless, the fuel is the number of addresses.
\<close>

fun memstr :: "nat \<Rightarrow> mem \<Rightarrow> WORD \<Rightarrow> byte list option" where
  "memstr 0 m a = None"
| "memstr (Suc k) m a = (if m a = 0 then Some [] else map_option ((#) (m a)) (memstr k m (a + 1)))"

definition alignw :: "WORD \<Rightarrow> WORD" where  \<comment> \<open>\<^verbatim>\<open>while((WORD)lrec & 3) lrec++\<close>\<close>
  "alignw a = (a + 3) AND NOT 3"

definition linkm :: "Module \<Rightarrow> mem \<Rightarrow> WORD \<Rightarrow> ((int \<times> tid option) \<times> WORD) option option" where
  \<comment> \<open>the link and the next record; \<open>Some None\<close>: \<^verbatim>\<open>return nil\<close>\<close>
  "linkm m mm lrec =
     (let a = alignw lrec; sig = rdW mm a; p = a + 4 in
      case memstr nblocks mm p of None \<Rightarrow> None
      | Some q \<Rightarrow>
        (case find (\<lambda>l. lname l = q) (mext m) of
           None \<Rightarrow> Some None
         | Some l \<Rightarrow>
             if lsig l \<noteq> sig then Some None
             else Some (Some ((uint (lpc l), lframe l), p + of_nat (length q) + 1))))"

fun linkms :: "nat \<Rightarrow> Module \<Rightarrow> mem \<Rightarrow> WORD \<Rightarrow> (int \<times> tid option) list option option" where
  \<comment> \<open>the loop of \<^verbatim>\<open>linkmod\<close>, \<open>k\<close> links are left\<close>
  "linkms 0 m mm mdef = Some (Some [])"
| "linkms (Suc k) m mm mdef =
     (case linkm m mm mdef of None \<Rightarrow> None | Some None \<Rightarrow> Some None
      | Some (Some (l, nx)) \<Rightarrow> map_option (map_option ((#) l)) (linkms k m mm nx))"

definition mklinkmod :: "mid \<Rightarrow> int \<Rightarrow> vm \<Rightarrow> ptr outcome" where
  \<comment> \<open>the module is interpreted; the links are zero until they are set\<close>
  "mklinkmod m n \<sigma> =
     bindM (nheap (32 + (n - 1) * 8) \<sigma>) (\<lambda>v \<sigma>1.
     Ret v (settype Tmodlink (SModlink H m False (replicate (nat n) (0, None))) v \<sigma>1))"

definition setlinks :: "(int \<times> tid option) list \<Rightarrow> hobj \<Rightarrow> hobj" where
  "setlinks ls h = (case hs h of SModlink MP m c l \<Rightarrow> h\<lparr>hs := SModlink MP m c ls\<rparr> | _ \<Rightarrow> h)"

definition setMP :: "ptr \<Rightarrow> hobj \<Rightarrow> hobj" where
  "setMP v h = (case hs h of SModlink MP m c l \<Rightarrow> h\<lparr>hs := SModlink v m c l\<rparr> | _ \<Rightarrow> h)"

definition linkmod :: "mid option \<Rightarrow> WORD \<Rightarrow> bool \<Rightarrow> vm \<Rightarrow> ptr outcome" where
  "linkmod m mdef mkmp \<sigma> =
     (case m of None \<Rightarrow> Ret H \<sigma>
      | Some mi \<Rightarrow>
        let n = sint (rdW (mem \<sigma>) mdef); mo = mods \<sigma> mi in
        bindM (mklinkmod mi n \<sigma>) (\<lambda>ml \<sigma>1.
        bindM (if mkmp \<and> morigmp mo \<noteq> H \<and> 0 < length (mtype mo) then
                 (case mtype mo ! 0 of None \<Rightarrow> Crash
                  | Some t \<Rightarrow>
                      bindM (nheap (tsize (types \<sigma>1 t)) \<sigma>1) (\<lambda>v \<sigma>2.
                      let \<sigma>3 = updobj ml (setMP v) (settype t SData v \<sigma>2) in
                      newmp v (morigmp mo) t \<sigma>3))
               else Ret () \<sigma>1) (\<lambda>_ \<sigma>4.
        case linkms (nat n) mo (mem \<sigma>4) (mdef + 4) of
          None \<Rightarrow> Crash
        | Some None \<Rightarrow> bindM (liftO (destroy ml \<sigma>4)) (\<lambda>_ \<sigma>5. Ret H \<sigma>5)
        | Some (Some ls) \<Rightarrow> Ret ml (updobj ml (setlinks ls) \<sigma>4))))"


section \<open>Control stays in the module\<close>

definition well_branched :: "Module \<Rightarrow> bool" where
  "well_branched m \<longleftrightarrow> (\<forall>ip \<in> set (mcode m). branchop (iop ip) \<and> UXDST (iadd ip) = DST AIMM \<longrightarrow>
     (\<exists>k < length (mcode m). idst ip = mprog m + sizeof_Inst * of_nat k))"

definition well_entered :: "Module \<Rightarrow> bool" where
  "well_entered m \<longleftrightarrow> (mcode m \<noteq> [] \<longrightarrow> (\<exists>k < length (mcode m). mentry m = mprog m + sizeof_Inst * of_nat k))"

lemma bindRd_Inr:
  "bindRd r f p = Some (Inr (y, q)) \<longleftrightarrow> (\<exists>x p'. r p = Some (Inr (x, p')) \<and> f x p' = Some (Inr (y, q)))"
  by (auto simp: bindRd_def split: option.splits sum.splits)

lemma okR_Inr [simp]: "okR x p = Some (Inr (y, q)) \<longleftrightarrow> y = x \<and> q = p"
  by (auto simp: okR_def)

lemma badR_Inr [simp]: "badR e p \<noteq> Some (Inr (y, q))"
  by (simp add: badR_def)

lemma modes_differ: "DST AFP \<noteq> DST AIMM" "DST AMP \<noteq> DST AIMM" "DST (AIND OR AFP) \<noteq> DST AIMM" "DST (AIND OR AMP) \<noteq> DST AIMM"
  by (simp_all add: DST_def AFP_def AMP_def AIMM_def AIND_def)

lemma brpatch_target:
  assumes "brpatch prog n ip = Some ip'" "branchop (iop ip)"
  shows "iop ip' = iop ip \<and> (\<exists>k < nat n. idst ip' = prog + sizeof_Inst * of_nat k)"
proof -
  have i: "0 \<le> sint (idst ip)" "sint (idst ip) < n" "ip' = ip\<lparr>idst := prog + sizeof_Inst * idst ip\<rparr>"
    using assms by (auto simp: brpatch_def split: if_splits)
  have "of_nat (nat (sint (idst ip))) = idst ip" using i(1) by (simp add: of_nat_nat)
  then show ?thesis using i by (intro conjI exI [of _ "nat (sint (idst ip))"]) auto
qed

lemma parse_inst_ok:
  assumes "parse_inst prog n p = Some (Inr (ip, q))"
  shows "branchop (iop ip) \<and> UXDST (iadd ip) = DST AIMM \<longrightarrow> (\<exists>k < nat n. idst ip = prog + sizeof_Inst * of_nat k)"
proof
  assume b: "branchop (iop ip) \<and> UXDST (iadd ip) = DST AIMM"
  obtain ip0 p0 where d: "parse_dst prog n ip0 p0 = Some (Inr (ip, q))"
    using assms by (auto simp: parse_inst_def bindRd_Inr)
  then have i: "iadd ip = iadd ip0" "iop ip = iop ip0"
    by (auto simp: parse_dst_def bindRd_Inr brpatch_def split: if_splits option.splits)
  then obtain v p1 where "brpatch prog n (ip0\<lparr>idst := of_int v\<rparr>) = Some ip"
    using d b modes_differ by (auto simp: parse_dst_def bindRd_Inr split: if_splits option.splits)
  from brpatch_target [OF this] show "\<exists>k < nat n. idst ip = prog + sizeof_Inst * of_nat k" using b i by simp
qed

lemma parse_insts_ok:
  "parse_insts prog n k p = Some (Inr (ips, q)) \<Longrightarrow> length ips = k \<and> (\<forall>ip \<in> set ips.
     branchop (iop ip) \<and> UXDST (iadd ip) = DST AIMM \<longrightarrow> (\<exists>i < nat n. idst ip = prog + sizeof_Inst * of_nat i))"
  by (induction k arbitrary: p ips) (auto simp: bindRd_Inr dest!: parse_inst_ok)

text \<open>The other parts leave the code as it is.\<close>

definition codeof :: "Module \<Rightarrow> WORD \<times> Inst list" where "codeof m = (mprog m, mcode m)"

lemma parse_types_code: "parse_types mal nt i k m p \<sigma> = LOk u m' q \<sigma>' \<Longrightarrow> codeof m' = codeof m"
  by (induction mal nt i k m p \<sigma> rule: parse_types.induct)
    (auto simp: parse_type_def codeof_def split: ld.splits option.splits sum.splits prod.splits if_splits)

lemma data_array_code: "data_array si m p \<sigma> = LOk u m' q \<sigma>' \<Longrightarrow> m' = m"
  by (auto simp: data_array_def Let_def split: option.splits prod.splits if_splits outcome.splits)

lemma data_index_code: "data_index si addr st m p \<sigma> = LOk u m' q \<sigma>' \<Longrightarrow> m' = m"
  by (auto simp: data_index_def Let_def split: option.splits prod.splits if_splits hstruct.splits)

lemma ldmem_code: "ldmem r m \<sigma> = LOk u m' q \<sigma>' \<Longrightarrow> m' = m"
  by (auto simp: ldmem_def split: option.splits sum.splits)

lemma data_item_code: "data_item sm n v addr st m p \<sigma> = LOk x m' q \<sigma>' \<Longrightarrow> m' = m"
  by (simp add: data_item_def Let_def split: if_splits)
    (auto dest: data_array_code data_index_code ldmem_code split: ld.splits outcome.splits list.splits)

lemma parse_data_code: "parse_data addr st m p \<sigma> = LOk u m' q \<sigma>' \<Longrightarrow> m' = m"
proof (induction addr st m p \<sigma> rule: parse_data.induct)
  case (1 addr st m p \<sigma>)
  consider "m' = m" | sm p1 n v p2 x m1 q1 s1 where "p = sm # p1" "sm \<noteq> 0" "item_head sm p1 = Some (Inr ((n, v), p2))"
      "data_item sm n v addr st m p2 \<sigma> = LOk x m1 q1 s1" "parse_data (fst x) (snd x) m1 q1 s1 = LOk u m' q \<sigma>'"
    using 1(2) unfolding parse_data.simps [of addr st m p \<sigma>]
    by (auto split: list.splits if_splits option.splits sum.splits ld.splits)
  then show ?case
  proof cases
    case 2
    show ?thesis using 1(1) [OF 2(1,2,3) refl refl refl 2(4,5)] data_item_code [OF 2(4)] by simp
  qed
qed

lemma parse_links_code: "parse_links mal i k m p \<sigma> = LOk u m' q \<sigma>' \<Longrightarrow> codeof m' = codeof m"
  by (induction mal i k m p \<sigma> rule: parse_links.induct)
    (auto simp: codeof_def mlink_def newlink_def split: option.splits sum.splits prod.splits if_splits)

lemma parts_code:
  "need a m p \<sigma> = LOk u m' q \<sigma>' \<Longrightarrow> m' = m"
  "parse_origmp d m p \<sigma> = LOk u m' q \<sigma>' \<Longrightarrow> codeof m' = codeof m"
  "parse_name m p \<sigma> = LOk u m' q \<sigma>' \<Longrightarrow> codeof m' = codeof m"
  "compiling jit cflag m p \<sigma> = LOk u m' q \<sigma>' \<Longrightarrow> m' = m"
  by (auto simp: need_def parse_origmp_def parse_name_def compiling_def codeof_def
      split: if_splits list.splits option.splits outcome.splits prod.splits)

lemma loaded_Some:
  "loaded mi r f = Ret (Some x) \<sigma>' \<longleftrightarrow> (\<exists>u m q \<sigma>. r = LOk u m q \<sigma> \<and> f m q \<sigma> = Ret (Some x) \<sigma>')"
  by (auto simp: loaded_def split: ld.splits option.splits)


lemma setentry_ok:
  assumes "setentry h m = Some m'" "length (mcode m) = nat (h_isize h)"
  shows "codeof m' = codeof m" "well_entered m'"
proof -
  show c: "codeof m' = codeof m" using assms(1) by (auto simp: setentry_def codeof_def split: if_splits)
  show "well_entered m'" unfolding well_entered_def
  proof
    assume n: "mcode m' \<noteq> []"
    then have l: "length (mcode m') = nat (h_isize h)" "0 < h_isize h"
      using c assms(2) by (auto simp: codeof_def) (cases "0 < h_isize h"; simp)
    let ?k = "unat (of_int (h_entry h) :: WORD)"
    show "\<exists>k<length (mcode m'). mentry m' = mprog m' + sizeof_Inst * of_nat k"
    proof (cases "(of_int (h_entry h) :: WORD) < of_int (h_isize h) \<and> (of_int (h_entryt h) :: WORD) < of_int (h_hsize h)")
      case True
      then have "?k < unat (of_int (h_isize h) :: WORD)" by (simp add: word_less_nat_alt)
      also have "\<dots> \<le> nat (h_isize h)"
        using l(2) by (simp add: unsigned_of_int nat_le_iff) (metis take_bit_int_less_eq_self_iff le_less)
      finally have "?k < length (mcode m')" using l(1) by simp
      moreover have "mentry m' = mprog m' + sizeof_Inst * of_nat ?k" using assms(1) True by (auto simp: setentry_def split: if_splits)
      ultimately show ?thesis by blast
    next
      case False
      then have "mentry m' = mprog m'" using assms(1) by (auto simp: setentry_def split: if_splits)
      then show ?thesis using l by (intro exI [of _ 0]) simp
    qed
  qed
qed

lemma codeof_upd [simp]:
  "codeof (m\<lparr>mtype := a\<rparr>) = codeof m" "codeof (m\<lparr>mpath := b\<rparr>) = codeof m" "codeof (m\<lparr>mref := c\<rparr>) = codeof m"
  by (simp_all add: codeof_def)

lemma readpart_code:
  "readpart (\<lambda>c. mcode_update (\<lambda>_. c)) (parse_insts prog n (nat n)) (m\<lparr>mprog := prog, mref := 1\<rparr>) p \<sigma> = LOk u m' q \<sigma>' \<Longrightarrow>
   \<exists>ips. codeof m' = (prog, ips) \<and> length ips = nat n \<and> (\<forall>ip \<in> set ips. branchop (iop ip) \<and> UXDST (iadd ip) = DST AIMM \<longrightarrow>
      (\<exists>i < nat n. idst ip = prog + sizeof_Inst * of_nat i))"
  by (auto simp: readpart_def codeof_def dest!: parse_insts_ok split: option.splits sum.splits)

lemma typed_code:
  assumes "setentry h m = Some m'" "codeof m = (prog, ips)" "length ips = nat (h_isize h)"
    "\<forall>ip \<in> set ips. branchop (iop ip) \<and> UXDST (iadd ip) = DST AIMM \<longrightarrow>
      (\<exists>i < nat (h_isize h). idst ip = prog + sizeof_Inst * of_nat i)"
  shows "well_branched (m'\<lparr>mpath := pth\<rparr>) \<and> well_entered (m'\<lparr>mpath := pth\<rparr>)"
proof -
  have l: "length (mcode m) = nat (h_isize h)" using assms(2,3) by (simp add: codeof_def)
  note e = setentry_ok [OF assms(1) l]
  have "mprog m' = prog" "mcode m' = ips" using e(1) assms(2) by (simp_all add: codeof_def)
  then show ?thesis using e(2) assms(3,4) by (simp add: well_branched_def well_entered_def)
qed

lemma parsemod_code:
  assumes "parsemod mal jit cflag mi nt pth code \<sigma> = Ret (Some x) \<sigma>'"
  shows "x = mi \<and> well_branched (mods \<sigma>' mi) \<and> well_entered (mods \<sigma>' mi)"
proof -
  obtain h p0 where h: "parse_header code = Some (Inr (h, p0))"
    using assms by (auto simp: parsemod_def Let_def split: if_splits option.splits sum.splits)
  let ?prog = "mal 1 (of_int (h_isize h * 12))"
  show ?thesis using assms h
    by (auto simp: parsemod_def Let_def loaded_Some addmod_def split: if_splits option.splits
        dest!: readpart_code parts_code parse_types_code parse_data_code parse_links_code intro!: typed_code [THEN conjunct1] typed_code [THEN conjunct2])
qed


section \<open>Links are typed\<close>

text \<open>The records of a module description as they stand in memory: signatures and names.\<close>

fun linkrecs :: "nat \<Rightarrow> mem \<Rightarrow> WORD \<Rightarrow> (WORD \<times> byte list) list option" where
  "linkrecs 0 mm a = Some []"
| "linkrecs (Suc k) mm a =
     (case memstr nblocks mm (alignw a + 4) of None \<Rightarrow> None
      | Some q \<Rightarrow> map_option ((#) (rdW mm (alignw a), q)) (linkrecs k mm (alignw a + 4 + of_nat (length q) + 1)))"

definition linked :: "Module \<Rightarrow> WORD \<times> byte list \<Rightarrow> int \<times> tid option \<Rightarrow> bool" where
  "linked m r l \<longleftrightarrow> (\<exists>e \<in> set (mext m). lname e = snd r \<and> lsig e = fst r \<and> l = (uint (lpc e), lframe e))"

lemma find_SomeD: "find P xs = Some x \<Longrightarrow> x \<in> set xs \<and> P x"
  by (auto simp: find_Some_iff)

lemma bindM_Ret: "bindM r f = Ret x \<sigma>' \<longleftrightarrow> (\<exists>y \<sigma>1. r = Ret y \<sigma>1 \<and> f y \<sigma>1 = Ret x \<sigma>')"
  by (auto simp: bindM_def split: outcome.splits)

lemma linkm_ok:
  assumes "linkm m mm a = Some (Some (l, nx))"
  shows "\<exists>q. memstr nblocks mm (alignw a + 4) = Some q \<and> linked m (rdW mm (alignw a), q) l \<and> nx = alignw a + 4 + of_nat (length q) + 1"
proof -
  obtain q where q: "memstr nblocks mm (alignw a + 4) = Some q" using assms by (auto simp: linkm_def Let_def split: option.splits)
  obtain e where e: "find (\<lambda>l. lname l = q) (mext m) = Some e" "lsig e = rdW mm (alignw a)" "l = (uint (lpc e), lframe e)"
      "nx = alignw a + 4 + of_nat (length q) + 1"
    using assms q by (auto simp: linkm_def Let_def split: option.splits if_splits)
  then show ?thesis using q find_SomeD [OF e(1)] by (auto simp: linked_def)
qed

lemma linkms_ok:
  "linkms k m mm a = Some (Some ls) \<Longrightarrow> \<exists>rs. linkrecs k mm a = Some rs \<and> list_all2 (linked m) rs ls"
proof (induction k arbitrary: a ls)
  case (Suc k)
  then obtain l nx ls' where l: "linkm m mm a = Some (Some (l, nx))" "linkms k m mm nx = Some (Some ls')" "ls = l # ls'"
    by (auto split: option.splits)
  obtain q where q: "memstr nblocks mm (alignw a + 4) = Some q" "linked m (rdW mm (alignw a), q) l"
    "nx = alignw a + 4 + of_nat (length q) + 1" using linkm_ok [OF l(1)] by blast
  show ?case using Suc.IH [OF l(2)] q l(3) by auto
qed simp

text \<open>
  C13 Linking is type safe: when \<^verbatim>\<open>linkmod\<close> gives a link to a module, entry \<open>i\<close> of its table is the entry point and frame
  of an export of that module with the name and the type signature of record \<open>i\<close> of the importer's description.
\<close>

theorem linkmod_typed:
  assumes "linkmod (Some mi) mdef mkmp \<sigma> = Ret ml \<sigma>'" "ml \<noteq> H"
    and "hp \<sigma>' ml = Some h" "hs h = SModlink MP m c ls"
  shows "\<exists>rs. linkrecs (nat (sint (rdW (mem \<sigma>) mdef))) (mem \<sigma>') (mdef + 4) = Some rs \<and> list_all2 (linked (mods \<sigma> mi)) rs ls"
proof -
  obtain ls' \<sigma>4 where l: "linkms (nat (sint (rdW (mem \<sigma>) mdef))) (mods \<sigma> mi) (mem \<sigma>4) (mdef + 4) = Some (Some ls')"
    "\<sigma>' = updobj ml (setlinks ls') \<sigma>4"
  proof -
    obtain ml' \<sigma>1 \<sigma>4 where "(case linkms (nat (sint (rdW (mem \<sigma>) mdef))) (mods \<sigma> mi) (mem \<sigma>4) (mdef + 4) of None \<Rightarrow> Crash
        | Some None \<Rightarrow> bindM (liftO (destroy ml' \<sigma>4)) (\<lambda>_ \<sigma>5. Ret H \<sigma>5) | Some (Some ls) \<Rightarrow> Ret ml' (updobj ml' (setlinks ls) \<sigma>4)) = Ret ml \<sigma>'"
      using assms(1) unfolding linkmod_def Let_def option.case by (simp only: bindM_Ret) (elim exE conjE, rule that)
    then show ?thesis using assms(2) that [of \<sigma>4] by (auto simp: bindM_Ret split: option.splits)
  qed
  obtain h4 where h4: "h = setlinks ls' h4" using assms(3) unfolding l(2) by auto
  have "ls = ls'" using assms(4) unfolding h4 by (cases "hs h4") (auto simp: setlinks_def)
  then show ?thesis using linkms_ok [OF l(1)] l(2) by simp
qed


text \<open>A module that exports one function, and a description that asks for it.\<close>

definition vm_link :: vm where
  "vm_link = vm0\<lparr>mem := (wrW (wrW (\<lambda>_. 0) 0x100 1) 0x104 7)(0x108 := 102),
     heapmem := heappool\<lparr>froot := Tnode Tnil 0x20020 [] Tnil, bsize := (\<lambda>_. 64)\<rparr>,
     mods := (\<lambda>_. newmodule\<lparr>mref := 2, mext := [\<lparr>lname = [102], lsig = 7, lframe = Some 9, lpc = 0x1000\<rparr>]\<rparr>), modules := [0]\<rparr>"

lemma memstr_step: "0 < k \<Longrightarrow> memstr k m a = (if m a = 0 then Some [] else map_option ((#) (m a)) (memstr (k - 1) m (a + 1)))"
  by (cases k) simp_all

lemma vm_link_links: "\<exists>\<sigma>'. linkmod (Some 0) 0x100 False vm_link = Ret 0x20034 \<sigma>' \<and>
  hp \<sigma>' 0x20034 = Some \<lparr>color = 0, href = 1, ht = Some Tmodlink, hs = SModlink H 0 False [(0x1000, Some 9)]\<rparr>"
proof -
  have m: "mem vm_link = (wrW (wrW (\<lambda>_. 0) 0x100 1) 0x104 7)(0x108 := 102)" by (simp add: vm_link_def)
  have w: "rdW (mem vm_link) 0x100 = 1" "rdW (mem vm_link) 0x104 = 7" unfolding m by (simp_all add: rdW_def wrW_def)
  have s: "memstr nblocks (mem vm_link) 0x108 = Some [102]"
    unfolding m by (simp add: nblocks_def memstr_step wrW_def)
  have l: "linkms (Suc 0) (mods vm_link 0) (mem vm_link) 0x104 = Some (Some [(0x1000, Some 9)])"
    using s w(2) by (simp add: linkm_def alignw_def Let_def vm_link_def [THEN arg_cong [of _ _ mods]])
  obtain P where p: "poolalloc 44 (heapmem vm_link) = Some (Some 0x20028, P)"
    by (simp add: vm_link_def poolalloc_def poolalloc1_def heappool_def Let_def BHDRSIZE_def pooldel_def usemem_def B2D_def)
  have "mutator vm_link = 0" by (simp add: vm_link_def vm0_def)
  then show ?thesis using w(1) l p
    by (simp add: linkmod_def mklinkmod_def nheap_def newblock_def sizeof_Heap_def Let_def settype_def setlinks_def typeref_def updobj_def
        del: linkms.simps)
qed

lemma linkmod_typed_witness: "\<exists>\<sigma>' rs. linkmod (Some 0) 0x100 False vm_link = Ret 0x20034 \<sigma>' \<and>
  linkrecs 1 (mem \<sigma>') 0x104 = Some rs \<and> list_all2 (linked (mods vm_link 0)) rs [(0x1000, Some 9)]"
proof -
  obtain \<sigma>' where s: "linkmod (Some 0) 0x100 False vm_link = Ret 0x20034 \<sigma>'"
    "hp \<sigma>' 0x20034 = Some \<lparr>color = 0, href = 1, ht = Some Tmodlink, hs = SModlink H 0 False [(0x1000, Some 9)]\<rparr>"
    using vm_link_links by blast
  have "rdW (mem vm_link) 0x100 = 1" by (simp add: vm_link_def rdW_def wrW_def)
  then show ?thesis using linkmod_typed [OF s(1) _ s(2)] s(1) by (auto simp: H_def)
qed

end
