(* ===== verification/Disobj.thy ===== *)
theory Disobj
  imports Load
begin

text \<open>
  The object file writer of the Limbo compiler, \<^verbatim>\<open>limbo/dis.c\<close>, and its agreement with the loader: what it writes for
  instructions, type descriptors, module data and links is what \<^verbatim>\<open>interp/load.c\<close> reads. The output is the list of bytes
  written; \<^verbatim>\<open>fatal\<close> is \<open>None\<close>, or \<open>Inl\<close> where the writer can also overrun its buffer.
\<close>

unbundle bit_operations_syntax

section \<open>Instructions\<close>

datatype amode = Aimm | Amp | Ampind | Afp | Afpind | Apc | Adesc | Aoff | Aerr | Anone

record Addr =
  a_reg :: WORD
  a_offset :: WORD
  a_iface :: WORD          \<comment> \<open>\<^verbatim>\<open>decl->iface->offset\<close>\<close>

record CInst =             \<comment> \<open>the \<^verbatim>\<open>Inst\<close> of \<^verbatim>\<open>limbo/limbo.h\<close>, as far as it is written\<close>
  c_op :: "16 word"
  c_sm :: amode
  c_mm :: amode
  c_dm :: amode
  c_s :: Addr
  c_m :: Addr
  c_d :: Addr

definition dismode :: "amode \<Rightarrow> byte" where
  "dismode m = (case m of Aimm \<Rightarrow> AIMM | Amp \<Rightarrow> AMP | Ampind \<Rightarrow> AMP OR AIND | Afp \<Rightarrow> AFP | Afpind \<Rightarrow> AFP OR AIND
     | Apc \<Rightarrow> AIMM | Adesc \<Rightarrow> AIMM | Aoff \<Rightarrow> AIMM | Aerr \<Rightarrow> AXXX | Anone \<Rightarrow> AXXX)"

definition disregmode :: "amode \<Rightarrow> byte" where
  "disregmode m = (case m of Aimm \<Rightarrow> AXIMM | Amp \<Rightarrow> AXINM | Ampind \<Rightarrow> AXNON | Afp \<Rightarrow> AXINF | Afpind \<Rightarrow> AXNON
     | Apc \<Rightarrow> AXIMM | Adesc \<Rightarrow> AXIMM | Aoff \<Rightarrow> AXIMM | Aerr \<Rightarrow> AXNON | Anone \<Rightarrow> AXNON)"

definition disbcon :: "WORD \<Rightarrow> byte list option" where
  "disbcon v =
     (let val = sint v in
      if val \<ge> -64 \<and> val \<le> 63 then Some [of_int val AND NOT 0x80]
      else if val \<ge> -8192 \<and> val \<le> 8191 then Some [(of_int (drop_bit 8 val) AND NOT 0xC0) OR 0x80, of_int val]
      else if (val < 0 \<and> drop_bit 29 val AND 7 \<noteq> 7) \<or> (val > 0 \<and> drop_bit 29 val \<noteq> 0) then None
      else Some [of_int (drop_bit 24 val) OR 0xC0, of_int (drop_bit 16 val), of_int (drop_bit 8 val), of_int val])"

definition disaddr :: "amode \<Rightarrow> Addr \<Rightarrow> byte list option" where
  "disaddr m a =
     (if m \<in> {Afpind, Ampind} then
        Option.bind (disbcon (a_reg a)) (\<lambda>bs. map_option ((@) bs) (disbcon (a_offset a)))
      else disbcon
        (case m of Aimm \<Rightarrow> a_offset a | Apc \<Rightarrow> a_offset a | Adesc \<Rightarrow> a_offset a | Aoff \<Rightarrow> a_iface a
         | Afp \<Rightarrow> a_reg a | Amp \<Rightarrow> a_reg a | _ \<Rightarrow> 0))"

definition disopd :: "amode \<Rightarrow> Addr \<Rightarrow> byte list option" where  \<comment> \<open>\<^verbatim>\<open>if(in->mm != Anone) disaddr(in->mm, &in->m)\<close>\<close>
  "disopd m a = (if m = Anone then Some [] else disaddr m a)"

definition disinst1 :: "CInst \<Rightarrow> byte list option" where  \<comment> \<open>what a turn of the loop puts into \<^verbatim>\<open>ibuf\<close>\<close>
  "disinst1 i =
     Option.bind (disopd (c_mm i) (c_m i)) (\<lambda>bm. Option.bind (disopd (c_sm i) (c_s i)) (\<lambda>bs.
       map_option (\<lambda>bd. [ucast (c_op i), SRC (dismode (c_sm i)) OR DST (dismode (c_dm i)) OR disregmode (c_mm i)] @ bm @ bs @ bd)
         (disopd (c_dm i) (c_d i))))"

definition MAXCON :: nat where "MAXCON = 4"
definition MAXADDR :: nat where "MAXADDR = 2 * MAXCON"
definition MAXINST :: nat where "MAXINST = 3 * MAXADDR + 2"
definition NIBUF :: nat where "NIBUF = 1024"

datatype fault = Fatal | Overrun

fun disinst :: "CInst list \<Rightarrow> byte list \<Rightarrow> byte list \<Rightarrow> fault + byte list" where
  \<comment> \<open>the output so far and \<^verbatim>\<open>ibuf\<close>\<close>
  "disinst [] out ibuf = Inr (out @ ibuf)"
| "disinst (i # is) out ibuf =
     (let flush = NIBUF - MAXINST \<le> length ibuf;
          out' = (if flush then out @ ibuf else out);
          ibuf' = (if flush then [] else ibuf) in
      case disinst1 i of None \<Rightarrow> Inl Fatal
      | Some bs \<Rightarrow> if NIBUF < length (ibuf' @ bs) then Inl Overrun else disinst is out' (ibuf' @ bs))"

section \<open>Instructions are read back\<close>

lemma disbcon_discon: "disbcon v = discon v"
  by (simp add: disbcon_def discon_def)

lemma operandR_discon: "discon v = Some bs \<Longrightarrow> operandR (bs @ q) = Some (Inr (sint v, q))"
  by (simp add: operandR_def discon_read)

lemma bindRd_step: "r p = Some (Inr (x, p')) \<Longrightarrow> bindRd r f p = f x p'"
  by (simp add: bindRd_def)

lemma bind_okR [simp]: "bindRd (okR x) f p = f x p"
  by (rule bindRd_step) (simp add: okR_def)

lemma bind_operand: "discon v = Some bs \<Longrightarrow> bindRd operandR f (bs @ q) = f (sint v) q"
  by (rule bindRd_step) (rule operandR_discon)

text \<open>The word the loader keeps for an operand, and the operand modes the compiler generates.\<close>

definition opdword :: "amode \<Rightarrow> Addr \<Rightarrow> WORD" where
  "opdword m a = (case m of Aimm \<Rightarrow> a_offset a | Apc \<Rightarrow> a_offset a | Adesc \<Rightarrow> a_offset a | Aoff \<Rightarrow> a_iface a
     | Afp \<Rightarrow> a_reg a | Amp \<Rightarrow> a_reg a | Afpind \<Rightarrow> halves (sint (a_reg a)) (sint (a_offset a))
     | Ampind \<Rightarrow> halves (sint (a_reg a)) (sint (a_offset a)) | _ \<Rightarrow> 0)"

definition branches :: "CInst \<Rightarrow> bool" where
  "branches i \<longleftrightarrow> branchop (ucast (c_op i)) \<and> c_dm i \<in> {Aimm, Apc, Adesc, Aoff}"

definition inst_ok :: "int \<Rightarrow> CInst \<Rightarrow> bool" where
  "inst_ok n i \<longleftrightarrow> c_sm i \<noteq> Aerr \<and> c_dm i \<noteq> Aerr \<and> c_mm i \<notin> {Aerr, Ampind, Afpind} \<and>
     (branches i \<longrightarrow> 0 \<le> sint (opdword (c_dm i) (c_d i)) \<and> sint (opdword (c_dm i) (c_d i)) < n)"

definition loaded_inst :: "WORD \<Rightarrow> CInst \<Rightarrow> Inst" where
  "loaded_inst prog i = \<lparr>iop = ucast (c_op i),
     iadd = SRC (dismode (c_sm i)) OR DST (dismode (c_dm i)) OR disregmode (c_mm i),
     ireg = ucast (opdword (c_mm i) (c_m i)), isrc = opdword (c_sm i) (c_s i),
     idst = (let d = opdword (c_dm i) (c_d i) in if branches i then prog + sizeof_Inst * d else d)\<rparr>"

lemmas mode_defs = AMP_def AFP_def AIMM_def AXXX_def AIND_def AMASK_def ARM_def AXNON_def AXIMM_def AXINF_def AXINM_def
  SRC_def DST_def UXSRC_def UXDST_def dismode_def disregmode_def

text \<open>The three fields of the mode byte.\<close>

lemma mode_parts:
  "SRC (dismode s) AND push_bit 3 AMASK = SRC (dismode s)" "SRC (dismode s) AND AMASK = 0" "SRC (dismode s) AND ARM = 0"
  "DST (dismode s) AND push_bit 3 AMASK = 0" "DST (dismode s) AND AMASK = DST (dismode s)" "DST (dismode s) AND ARM = 0"
  "disregmode s AND push_bit 3 AMASK = 0" "disregmode s AND AMASK = 0" "disregmode s AND ARM = disregmode s"
  by (cases s; simp add: mode_defs)+

lemma mode_byte:
  "UXSRC (SRC (dismode s) OR DST (dismode d) OR disregmode m) = SRC (dismode s)"
  "UXDST (SRC (dismode s) OR DST (dismode d) OR disregmode m) = DST (dismode d)"
  "(SRC (dismode s) OR DST (dismode d) OR disregmode m) AND ARM = disregmode m"
  unfolding UXSRC_def UXDST_def by (simp_all only: bit.conj_disj_distrib2 mode_parts or.left_neutral or.right_neutral)

text \<open>The operands.\<close>

lemma src_read:
  assumes "disopd m a = Some bs" "m \<noteq> Aerr" "UXSRC add = SRC (dismode m)"
  shows "parse_src add (bs @ q) = Some (Inr (opdword m a, q))"
  using assms by (cases m)
    (auto simp: disopd_def disaddr_def disbcon_discon parse_src_def mode_defs opdword_def bind_eq_Some_conv
      bind_operand okR_def)

lemma scast16: "scast (w :: WORD) = (ucast w :: 16 word)"
  by (rule bit_word_eqI) (auto simp: bit_simps)

lemma mid_read:
  assumes "disopd m a = Some bs" "m \<notin> {Aerr, Ampind, Afpind}" "add AND ARM = disregmode m"
  shows "parse_mid add (bs @ q) = Some (Inr (ucast (opdword m a), q))"
  using assms by (cases m)
    (auto simp: scast16 disopd_def disaddr_def disbcon_discon parse_mid_def mode_defs opdword_def
      bind_operand okR_def)

lemma dst_read:
  assumes "disopd (c_dm i) (c_d i) = Some bs" "inst_ok n i" "UXDST add = DST (dismode (c_dm i))"
  shows "parse_dst prog n \<lparr>iop = ucast (c_op i), iadd = add, ireg = r, isrc = s, idst = 0\<rparr> (bs @ q) =
    Some (Inr (\<lparr>iop = ucast (c_op i), iadd = add, ireg = r, isrc = s, idst = idst (loaded_inst prog i)\<rparr>, q))"
  using assms by (cases "c_dm i")
    (auto simp: disopd_def disaddr_def disbcon_discon parse_dst_def mode_defs opdword_def bind_eq_Some_conv
      bind_operand okR_def loaded_inst_def Let_def branches_def brpatch_def inst_ok_def)


lemma inst_read:
  assumes "disinst1 i = Some bs" "inst_ok n i"
  shows "parse_inst prog n (bs @ q) = Some (Inr (loaded_inst prog i, q))"
proof -
  let ?add = "SRC (dismode (c_sm i)) OR DST (dismode (c_dm i)) OR disregmode (c_mm i)"
  obtain bm b1 b2 where b: "disopd (c_mm i) (c_m i) = Some bm" "disopd (c_sm i) (c_s i) = Some b1"
    "disopd (c_dm i) (c_d i) = Some b2" "bs = [ucast (c_op i), ?add] @ bm @ b1 @ b2"
    using assms(1) by (auto simp: disinst1_def bind_eq_Some_conv)
  have ok: "c_mm i \<notin> {Aerr, Ampind, Afpind}" "c_sm i \<noteq> Aerr" using assms(2) by (auto simp: inst_ok_def)
  have byt: "byteR (c # p) = Some (Inr (c, p))" for c p by (simp add: byteR_def)
  have "parse_mid ?add (bm @ r) = Some (Inr (ucast (opdword (c_mm i) (c_m i)), r))" for r
    by (rule mid_read [OF b(1) ok(1) mode_byte(3)])
  moreover have "parse_src ?add (b1 @ r) = Some (Inr (opdword (c_sm i) (c_s i), r))" for r
    by (rule src_read [OF b(2) ok(2) mode_byte(1)])
  moreover note dst_read [OF b(3) assms(2) mode_byte(2)]
  ultimately show ?thesis unfolding b(4) parse_inst_def
    by (simp add: bindRd_step [of byteR, OF byt] bindRd_step loaded_inst_def)
qed

text \<open>An instruction takes at most \<^verbatim>\<open>MAXINST\<close> bytes, so the buffer holds it.\<close>

lemma disopd_length: "disopd m a = Some bs \<Longrightarrow> length bs \<le> MAXADDR"
proof -
  have c: "length cs \<le> 4" if "discon v = Some cs" for v cs
    using that discon_operand [of v "[]" 0] by auto
  show "disopd m a = Some bs \<Longrightarrow> length bs \<le> MAXADDR"
    by (auto simp: disopd_def disaddr_def disbcon_discon MAXADDR_def MAXCON_def bind_eq_Some_conv split: if_splits dest!: c)
qed

lemma disinst1_length: "disinst1 i = Some bs \<Longrightarrow> length bs \<le> MAXINST"
  by (auto simp: disinst1_def bind_eq_Some_conv MAXINST_def dest!: disopd_length)

lemma disinst_read:
  assumes "\<forall>i \<in> set is. inst_ok n i" "length ibuf \<le> NIBUF"
  shows "disinst is out ibuf \<noteq> Inl Overrun \<and> (disinst is out ibuf = Inr bs \<longrightarrow>
    (\<exists>cs. bs = out @ ibuf @ cs \<and> (\<forall>q. parse_insts prog n (length is) (cs @ q) = Some (Inr (map (loaded_inst prog) is, q)))))"
  using assms
proof (induction "is" out ibuf rule: disinst.induct)
  case (2 i "is" out ibuf)
  let ?f = "NIBUF - MAXINST \<le> length ibuf"
  let ?o = "if ?f then out @ ibuf else out" and ?b = "if ?f then [] else ibuf"
  have s: "?o @ ?b = out @ ibuf" by simp
  show ?case
  proof (cases "disinst1 i")
    case (Some b1)
    have l: "length (?b @ b1) \<le> NIBUF" using disinst1_length [OF Some] by (auto simp: NIBUF_def MAXINST_def MAXADDR_def MAXCON_def)
    have r: "parse_inst prog n (b1 @ q) = Some (Inr (loaded_inst prog i, q))" for q
      using inst_read [OF Some] 2(2) by simp
    have e: "disinst (i # is) out ibuf = disinst is ?o (?b @ b1)" using Some l by (simp add: Let_def)
    have IH: "disinst is ?o (?b @ b1) \<noteq> Inl Overrun \<and> (disinst is ?o (?b @ b1) = Inr bs \<longrightarrow>
        (\<exists>cs. bs = ?o @ (?b @ b1) @ cs \<and> (\<forall>q. parse_insts prog n (length is) (cs @ q) = Some (Inr (map (loaded_inst prog) is, q)))))"
      using 2(1) [OF refl refl refl Some] l 2(2) by simp
    show ?thesis unfolding e
    proof (intro conjI impI)
      show "disinst is ?o (?b @ b1) \<noteq> Inl Overrun" using IH by simp
      assume "disinst is ?o (?b @ b1) = Inr bs"
      then obtain cs where "bs = ?o @ (?b @ b1) @ cs"
        "\<And>q. parse_insts prog n (length is) (cs @ q) = Some (Inr (map (loaded_inst prog) is, q))" using IH by blast
      then show "\<exists>cs. bs = out @ ibuf @ cs \<and>
          (\<forall>q. parse_insts prog n (length (i # is)) (cs @ q) = Some (Inr (map (loaded_inst prog) (i # is), q)))"
        using s r by (intro exI [of _ "b1 @ cs"]) (simp add: bindRd_step okR_def)
    qed
  qed (simp add: Let_def)
qed (simp add: okR_def)


section \<open>Module data\<close>

record dst =
  obuf :: "byte list"        \<comment> \<open>what \<^verbatim>\<open>bout\<close> has\<close>
  cache :: "byte list"       \<comment> \<open>\<^verbatim>\<open>ncached\<close> is its length\<close>
  ndatum :: WORD
  startoff :: WORD
  lastoff :: WORD
  lastkind :: int

definition emit :: "byte list option list \<Rightarrow> dst \<Rightarrow> dst option" where  \<comment> \<open>writes, \<open>None\<close> \<^verbatim>\<open>fatal\<close>\<close>
  "emit bs s = (if None \<in> set bs then None else Some (s\<lparr>obuf := obuf s @ concat (map the bs)\<rparr>))"

definition disflush :: "int \<Rightarrow> WORD \<Rightarrow> WORD \<Rightarrow> dst \<Rightarrow> dst option" where
  "disflush kind off sz s =
     (if kind \<noteq> lastkind s \<or> off \<noteq> lastoff s then
        map_option (\<lambda>s. s\<lparr>startoff := off, lastkind := kind, cache := [], ndatum := 0, lastoff := off + sz\<rparr>)
          (if lastkind s \<noteq> -1 \<and> cache s \<noteq> []
           then emit [disdata (lastkind s) (ndatum s), discon (startoff s), Some (cache s)] s else Some s)
      else Some (s\<lparr>lastoff := off + sz\<rparr>))"

definition tocache :: "byte list \<Rightarrow> nat \<Rightarrow> dst \<Rightarrow> dst" where
  "tocache bs n s = s\<lparr>cache := cache s @ bs, ndatum := ndatum s + of_nat n\<rparr>"

definition disbyte :: "WORD \<Rightarrow> byte \<Rightarrow> dst \<Rightarrow> dst option" where
  "disbyte off v s = map_option (tocache [v] 1) (disflush (int DEFB) off 1 s)"

definition disbytes :: "WORD \<Rightarrow> byte list \<Rightarrow> dst \<Rightarrow> dst option" where
  "disbytes off v s = map_option (tocache v (length v)) (disflush (int DEFB) off (of_nat (length v)) s)"

definition disint :: "WORD \<Rightarrow> WORD \<Rightarrow> dst \<Rightarrow> dst option" where
  "disint off v s = map_option
     (tocache [ucast (drop_bit 24 v), ucast (drop_bit 16 v), ucast (drop_bit 8 v), ucast v] 1) (disflush (int DEFW) off 4 s)"

definition lbytes :: "WORD \<Rightarrow> WORD \<Rightarrow> byte list" where
  "lbytes hi lo = [ucast (drop_bit 24 hi), ucast (drop_bit 16 hi), ucast (drop_bit 8 hi), ucast hi,
     ucast (drop_bit 24 lo), ucast (drop_bit 16 lo), ucast (drop_bit 8 lo), ucast lo]"

definition disbig :: "WORD \<Rightarrow> LONG \<Rightarrow> dst \<Rightarrow> dst option" where
  "disbig off v s = map_option (tocache (lbytes (ucast (drop_bit 32 v)) (ucast v)) 1) (disflush (int DEFL) off 8 s)"

definition dtocanon :: "LONG \<Rightarrow> WORD \<times> WORD" where  \<comment> \<open>of the bits of a double\<close>
  "dtocanon v = (ucast (drop_bit 32 v), ucast v)"

definition disreal :: "WORD \<Rightarrow> LONG \<Rightarrow> dst \<Rightarrow> dst option" where
  "disreal off v s = map_option (tocache (lbytes (fst (dtocanon v)) (snd (dtocanon v))) 1) (disflush (int DEFF) off 8 s)"

definition disstring :: "WORD \<Rightarrow> byte list \<Rightarrow> dst \<Rightarrow> dst option" where
  "disstring off str s = Option.bind (disflush (-1) (-1) 0 s)
     (emit [disdata (int DEFS) (of_nat (length str)), discon off, Some str])"

text \<open>The array cases of \<^verbatim>\<open>disdatum\<close>: the array, its first index, and the end of its elements.\<close>

definition disarray :: "WORD \<Rightarrow> WORD \<Rightarrow> WORD \<Rightarrow> dst \<Rightarrow> dst option" where
  "disarray off ti len s = Option.bind (disflush (-1) (-1) 0 s)
     (emit [disdata (int DEFA) 1, discon off, Some (disword (sint ti)), Some (disword (sint len))])"

definition disindex :: "WORD \<Rightarrow> dst \<Rightarrow> dst option" where
  "disindex off s = emit [disdata (int DIND) 1, discon off, Some (disword 0)] s"

definition dispop :: "dst \<Rightarrow> dst option" where
  "dispop s = Option.bind (disflush (-1) (-1) 0 s) (emit [disdata (int DAPOP) 1, discon 0])"


text \<open>
  \<^verbatim>\<open>disdatum\<close> walks the initial value of a global and makes calls of the functions above: \<open>calls\<close> lists them. A value is
  a \<^verbatim>\<open>Node\<close> by its type: a field of a structure comes with its offset; a label of a case with its two ends and its
  \<^verbatim>\<open>pc\<close>; an array with the number of its element type, its length, the size of an element and, where it is
  initialised, the labels and the value of the others.
\<close>

datatype act = DB WORD byte | DBs WORD "byte list" | DW WORD WORD | DL WORD LONG | DR WORD LONG | DS WORD "byte list"
  | DA WORD WORD WORD | DI WORD | DP

datatype node = Nbyte byte | Nint WORD | Nbig LONG | Nstring "byte list" | Nreal LONG | Nadt "(WORD \<times> node) list" | Nany
  | Ncase "(WORD \<times> WORD \<times> WORD) list" WORD
  | Ncasec "(byte list \<times> byte list option \<times> WORD) list" WORD   \<comment> \<open>\<open>None\<close>: both ends are one\<close>
  | Ngoto WORD "WORD list" "WORD option"
  | Narray WORD WORD WORD "((int \<times> int \<times> node) list \<times> node option) option"
  | Niface WORD "(WORD \<times> byte list option \<times> byte list) list"   \<comment> \<open>signature, the adt it is in, name\<close>

fun call_words :: "WORD \<Rightarrow> WORD list \<Rightarrow> act list" where
  "call_words off [] = []"
| "call_words off (w # ws) = DW off w # call_words (off + 4) ws"

fun call_casec :: "WORD \<Rightarrow> (byte list \<times> byte list option \<times> WORD) list \<Rightarrow> act list" where
  "call_casec off [] = []"
| "call_casec off ((a, b, pc) # labs) =
     DS off a # (case b of None \<Rightarrow> [] | Some t \<Rightarrow> [DS (off + 4) t]) @ DW (off + 8) pc # call_casec (off + 12) labs"

fun call_iface :: "WORD \<Rightarrow> (WORD \<times> byte list option \<times> byte list) list \<Rightarrow> act list" where
  "call_iface off [] = []"
| "call_iface off ((sg, adt, nm) # ids) =
     (let o1 = ((off + 3) AND NOT 3) + 4;
          o2 = (case adt of None \<Rightarrow> o1 | Some t \<Rightarrow> o1 + of_nat (length t) + 1) in
      DW ((off + 3) AND NOT 3) sg #
      (case adt of None \<Rightarrow> [] | Some t \<Rightarrow> [DBs o1 t, DB (o1 + of_nat (length t)) 46]) @
      DBs o2 nm # DB (o2 + of_nat (length nm)) 0 # call_iface (o2 + of_nat (length nm) + 1) ids)"

fun elems :: "(int \<times> int \<times> node) list \<Rightarrow> node option \<Rightarrow> int \<Rightarrow> int \<Rightarrow> (int \<times> node) list" where
  \<comment> \<open>the index and value of the elements, from \<^verbatim>\<open>last\<close> on\<close>
  "elems [] wild len lst = (case wild of None \<Rightarrow> [] | Some w \<Rightarrow> map (\<lambda>i. (i, w)) [lst .. len - 1])"
| "elems ((a, b, x) # labs) wild len lst =
     (case wild of None \<Rightarrow> [] | Some w \<Rightarrow> map (\<lambda>i. (i, w)) [lst .. a - 1]) @
     map (\<lambda>i. (i, x)) [a .. b] @ elems labs wild len (max a (b + 1))"

lemma elems_size: "(i, x) \<in> set (elems labs wild len lst) \<Longrightarrow> x \<in> (snd \<circ> snd) ` set labs \<or> wild = Some x"
  by (induction labs wild len lst rule: elems.induct) (auto split: option.splits)

function calls :: "WORD \<Rightarrow> node \<Rightarrow> act list" where
  "calls off (Nbyte v) = [DB off v]"
| "calls off (Nint v) = [DW off v]"
| "calls off (Nbig v) = [DL off v]"
| "calls off (Nstring v) = [DS off v]"
| "calls off (Nreal v) = [DR off v]"
| "calls off (Nadt fs) = concat (map (\<lambda>(o1, n). calls (off + o1) n) fs)"
| "calls off Nany = []"
| "calls off (Ncase labs wild) =
     DW off (of_nat (length labs)) # call_words (off + 4) (concat (map (\<lambda>(a, b, pc). [a, b + 1, pc]) labs) @ [wild])"
| "calls off (Ncasec labs wild) =
     DW off (of_nat (length labs)) # call_casec (off + 4) labs @ [DW (off + 4 + 12 * of_nat (length labs)) wild]"
| "calls off (Ngoto n pcs wild) = DW off n # call_words (off + 4) (pcs @ (case wild of None \<Rightarrow> [] | Some w \<Rightarrow> [w]))"
| "calls off (Narray ti len esz init) =
     DA off ti len #
     (case init of None \<Rightarrow> []
      | Some (labs, wild) \<Rightarrow>
          DI off # concat (map (\<lambda>(i, n). calls (esz * of_int i) n) (elems labs wild (sint len) 0)) @ [DP])"
| "calls off (Niface n ids) = DW off n # call_iface (off + 4) ids"
  by pat_completeness auto
termination
proof (relation "measure (\<lambda>(off, n). size n)", goal_cases)
  case (2 off fs x a b)
  then have "size b < size_list (size_prod (\<lambda>_. 0) size) fs" by (intro size_list_estimation [of "(a, b)"]) auto
  then show ?case by simp
next
  case (3 off ti len esz init y labs wild x a b)
  then have "b \<in> (snd \<circ> snd) ` set labs \<or> wild = Some b" using elems_size by force
  then show ?case
  proof
    assume "b \<in> (snd \<circ> snd) ` set labs"
    then obtain l r where "(l, r, b) \<in> set labs" by auto
    then have "size b < size_list (size_prod (\<lambda>_. 0) (size_prod (\<lambda>_. 0) size)) labs"
      by (intro size_list_estimation [of "(l, r, b)"]) auto
    then show ?thesis using 3 by auto
  qed (use 3 in auto)
qed simp


definition disact :: "act \<Rightarrow> dst \<Rightarrow> dst option" where
  "disact a = (case a of DB off v \<Rightarrow> disbyte off v | DBs off v \<Rightarrow> disbytes off v | DW off v \<Rightarrow> disint off v
     | DL off v \<Rightarrow> disbig off v | DR off v \<Rightarrow> disreal off v | DS off v \<Rightarrow> disstring off v
     | DA off ti len \<Rightarrow> disarray off ti len | DI off \<Rightarrow> disindex off | DP \<Rightarrow> dispop)"

definition disdatum :: "WORD \<Rightarrow> node \<Rightarrow> dst \<Rightarrow> dst option" where
  "disdatum off n = foldO disact (calls off n)"

definition disvar :: "(WORD \<times> node) list \<Rightarrow> byte list option" where
  \<comment> \<open>the globals with an initial value\<close>
  "disvar ds =
     Option.bind (foldO (\<lambda>(off, n). disdatum off n) ds
         \<lparr>obuf = [], cache = [], ndatum = 0, startoff = 0, lastoff = 0, lastkind = -1\<rparr>) (\<lambda>s.
       map_option (\<lambda>s. obuf s @ [0]) (disflush (-1) (-1) 0 s))"

section \<open>Module data is read back\<close>

text \<open>
  What a call means to the loader: a store, at the address the offset gives, of the value, a string made of the text, or
  an array; the element to go on with; the end of the elements.
\<close>

definition bindL :: "'a ld \<Rightarrow> ('a \<Rightarrow> Module \<Rightarrow> byte list \<Rightarrow> vm \<Rightarrow> 'b ld) \<Rightarrow> 'b ld" where
  "bindL r f = (case r of LOk x m q \<sigma> \<Rightarrow> f x m q \<sigma> | LBad e m \<sigma> \<Rightarrow> LBad e m \<sigma> | LErr e \<sigma> \<Rightarrow> LErr e \<sigma> | LCrash \<Rightarrow> LCrash)"

fun putbytes :: "mem \<Rightarrow> WORD \<Rightarrow> byte list \<Rightarrow> mem" where
  "putbytes m a [] = m"
| "putbytes m a (b # bs) = putbytes (wrB m a b) (a + 1) bs"

fun act_mem :: "act \<Rightarrow> WORD \<Rightarrow> mem \<Rightarrow> mem" where
  "act_mem (DB off v) addr mm = wrB mm (addr + off) v"
| "act_mem (DBs off v) addr mm = putbytes mm (addr + off) v"
| "act_mem (DW off v) addr mm = wrW mm (addr + off) v"
| "act_mem (DL off v) addr mm = wrV mm (addr + off) v"
| "act_mem (DR off v) addr mm = wrV mm (addr + off) v"
| "act_mem _ addr mm = mm"

fun plain :: "act \<Rightarrow> bool" where
  "plain (DS _ _) = False" | "plain (DA _ _ _) = False" | "plain (DI _) = False" | "plain DP = False" | "plain _ = True"

definition act_run :: "act \<Rightarrow> WORD \<times> WORD list \<Rightarrow> Module \<Rightarrow> vm \<Rightarrow> (WORD \<times> WORD list) ld" where
  \<comment> \<open>with the address register and its stack; the stream of the result is empty\<close>
  "act_run a x m \<sigma> =
     (case a of
        DS off str \<Rightarrow>
          (case c2string str \<sigma> of
             Ret s \<sigma>1 \<Rightarrow> LOk x m [] (\<sigma>1\<lparr>mem := wrW (mem \<sigma>1) (fst x + off) s\<rparr>) | Err e \<sigma>1 \<Rightarrow> LErr e \<sigma>1 | Crash \<Rightarrow> LCrash)
      | DA off ti len \<Rightarrow> bindL (data_array (fst x + off) m (disword (sint ti) @ disword (sint len)) \<sigma>) (\<lambda>_. LOk x)
      | DI off \<Rightarrow> data_index (fst x + off) (fst x) (snd x) m (disword 0) \<sigma>
      | DP \<Rightarrow> (case snd x of [] \<Rightarrow> LBad ''pop range'' m \<sigma> | b # st \<Rightarrow> LOk (b, st) m [] \<sigma>)
      | _ \<Rightarrow> LOk x m [] (\<sigma>\<lparr>mem := act_mem a (fst x) (mem \<sigma>)\<rparr>))"

fun acts_run :: "act list \<Rightarrow> WORD \<times> WORD list \<Rightarrow> Module \<Rightarrow> vm \<Rightarrow> (WORD \<times> WORD list) ld" where
  "acts_run [] x m \<sigma> = LOk x m [] \<sigma>"
| "acts_run (a # as) x m \<sigma> = bindL (act_run a x m \<sigma>) (\<lambda>y m' _. acts_run as y m')"

text \<open>\<open>means bs as\<close>: the bytes \<open>bs\<close> make the loader do what the calls \<open>as\<close> mean.\<close>

definition means :: "byte list \<Rightarrow> act list \<Rightarrow> bool" where
  "means bs as \<longleftrightarrow> (\<forall>x m q \<sigma>. parse_data (fst x) (snd x) m (bs @ q) \<sigma> =
     bindL (acts_run as x m \<sigma>) (\<lambda>y m' _. parse_data (fst y) (snd y) m' q))"

lemma bindL_simps [simp]:
  "bindL (LOk x m q \<sigma>) f = f x m q \<sigma>" "bindL (LBad e m \<sigma>) f = LBad e m \<sigma>" "bindL (LErr d \<sigma>) f = LErr d \<sigma>" "bindL LCrash f = LCrash"
  by (simp_all add: bindL_def)

lemma bindL_assoc: "bindL (bindL r f) g = bindL r (\<lambda>x m q \<sigma>. bindL (f x m q \<sigma>) g)"
  by (cases r) simp_all

lemma acts_run_append: "acts_run (as @ bs) x m \<sigma> = bindL (acts_run as x m \<sigma>) (\<lambda>y m' _. acts_run bs y m')"
proof (induction as arbitrary: x m \<sigma>)
  case (Cons a as)
  show ?case by (cases "act_run a x m \<sigma>") (simp_all add: Cons.IH)
qed simp

lemma means_append:
  assumes "means bs as" "means cs es"
  shows "means (bs @ cs) (as @ es)"
  unfolding means_def
proof (intro allI)
  fix x m q \<sigma>
  show "parse_data (fst x) (snd x) m ((bs @ cs) @ q) \<sigma> =
      bindL (acts_run (as @ es) x m \<sigma>) (\<lambda>y m' _. parse_data (fst y) (snd y) m' q)"
    using assms by (cases "acts_run as x m \<sigma>") (simp_all add: means_def acts_run_append)
qed

lemma means_Nil: "means [] []"
  by (simp add: means_def)

text \<open>The head of an item.\<close>

lemma disdata_byte:
  fixes n :: int
  assumes "k \<in> {DEFB, DEFW, DEFS, DEFF, DEFA, DIND, DAPOP, DEFL}" "0 \<le> n" "n < 16"
    and sm: "sm = (of_int (push_bit 4 (int k) OR n) :: byte)"
  shows "sm \<noteq> 0 \<and> DTYPE sm = k \<and> DLEN sm = n"
proof -
  have k: "1 \<le> int k" "int k \<le> 8"
    using assms(1) by (auto simp: DEFB_def DEFW_def DEFS_def DEFF_def DEFA_def DIND_def DAPOP_def DEFL_def)
  have "push_bit 4 (int k) OR n = push_bit 4 (int k) + n" using assms(2,3) by (intro or_add_int) simp_all
  then have "sm = of_int (16 * int k + n)" unfolding sm by (simp add: push_bit_eq_mult)
  then have "uint sm = (16 * int k + n) mod 256" by (simp only: unsigned_of_int take_bit_eq_mod) simp
  then have u: "uint sm = 16 * int k + n" using k assms(2,3) by simp
  have "uint (drop_bit 4 sm) = int k" using u assms(2,3) by (simp add: drop_bit_eq_div uint_div)
  then have "DTYPE sm = k" unfolding DTYPE_def by (metis nat_int unat_eq_nat_uint)
  moreover have "uint (sm AND 15) = n"
  proof -
    have "sm AND 15 = take_bit 4 sm" by (simp add: take_bit_eq_mask mask_eq_exp_minus_1)
    then show ?thesis using u assms(2,3) by (simp add: take_bit_eq_mod uint_mod)
  qed
  moreover have "sm \<noteq> 0" using u k assms(2) by auto
  ultimately show ?thesis by (simp add: DLEN_def)
qed

lemma item_read:
  assumes "k \<in> {DEFB, DEFW, DEFS, DEFF, DEFA, DIND, DAPOP, DEFL}" "disdata (int k) n = Some b1" "discon off = Some b2" "0 \<le> sint n"
  shows "\<exists>sm b. b1 = sm # b \<and> sm \<noteq> 0 \<and> DTYPE sm = k \<and> (\<forall>q. item_head sm (b @ b2 @ q) = Some (Inr ((sint n, sint off), q)))"
proof (cases "sint n < 16 \<and> n \<noteq> 0")
  case True
  have s: "0 < sint n" using True assms(4) by (metis less_le signed_eq_0_iff)
  note d = disdata_byte [OF assms(1,4) _ refl]
  show ?thesis using assms(2) True d s
    by (intro exI [of _ "of_int (push_bit 4 (int k) OR sint n)"] exI [of _ "[]"])
      (auto simp: disdata_def item_head_def okR_def [of "(_, _)"] bind_operand [OF assms(3)])
next
  case False
  then obtain bn where bn: "discon n = Some bn" "b1 = of_int (push_bit 4 (int k)) # bn"
    using assms(2) by (auto simp: disdata_def)
  have "of_int (push_bit 4 (int k)) \<noteq> (0 :: byte) \<and> DTYPE (of_int (push_bit 4 (int k))) = k \<and> DLEN (of_int (push_bit 4 (int k))) = 0"
    by (rule disdata_byte [OF assms(1)]) simp_all
  then show ?thesis unfolding bn(2)
    by (intro exI [of _ "of_int (push_bit 4 (int k))"] exI [of _ bn])
      (simp add: item_head_def bind_operand [OF bn(1)] bind_operand [OF assms(3)] okR_def)
qed

lemma item_parse:
  assumes "k \<in> {DEFB, DEFW, DEFS, DEFF, DEFA, DIND, DAPOP, DEFL}" "disdata (int k) n = Some b1" "discon off = Some b2" "0 \<le> sint n"
  shows "\<exists>sm. DTYPE sm = k \<and> (\<forall>x m q \<sigma>. parse_data (fst x) (snd x) m (b1 @ b2 @ q) \<sigma> =
    bindL (data_item sm (sint n) (sint off) (fst x) (snd x) m q \<sigma>) (\<lambda>y. parse_data (fst y) (snd y)))"
proof -
  obtain sm b where b: "b1 = sm # b" "sm \<noteq> 0" "DTYPE sm = k"
    "\<And>q. item_head sm (b @ b2 @ q) = Some (Inr ((sint n, sint off), q))" using item_read [OF assms] by blast
  show ?thesis using b by (intro exI [of _ sm]) (auto simp: parse_data.simps [of _ _ _ "sm # _"] bindL_def)
qed


text \<open>The values of an item: kinds, sizes, and the bytes of the values that go through the cache.\<close>

definition body_of :: "nat \<Rightarrow> WORD \<Rightarrow> mem \<Rightarrow> mem rd" where
  "body_of k = (if k = DEFB then defb else if k = DEFW then defw else if k = DEFL then defl else deff)"

definition size_of :: "nat \<Rightarrow> WORD" where
  "size_of k = (if k = DEFB then 1 else if k = DEFW then 4 else 8)"

fun act_off :: "act \<Rightarrow> WORD" where
  "act_off (DB off _) = off" | "act_off (DBs off _) = off" | "act_off (DW off _) = off" | "act_off (DL off _) = off"
| "act_off (DR off _) = off" | "act_off _ = 0"

fun act_kind :: "act \<Rightarrow> nat" where
  "act_kind (DB _ _) = DEFB" | "act_kind (DBs _ _) = DEFB" | "act_kind (DW _ _) = DEFW" | "act_kind (DL _ _) = DEFL"
| "act_kind _ = DEFF"

fun act_count :: "act \<Rightarrow> nat" where
  "act_count (DBs _ v) = length v" | "act_count _ = 1"

fun act_bytes :: "act \<Rightarrow> byte list" where
  "act_bytes (DB _ v) = [v]" | "act_bytes (DBs _ v) = v"
| "act_bytes (DW _ v) = [ucast (drop_bit 24 v), ucast (drop_bit 16 v), ucast (drop_bit 8 v), ucast v]"
| "act_bytes (DL _ v) = lbytes (ucast (drop_bit 32 v)) (ucast v)"
| "act_bytes (DR _ v) = lbytes (ucast (drop_bit 32 v)) (ucast v)"
| "act_bytes _ = []"

lemma disact_plain:
  "plain a \<Longrightarrow> disact a s = map_option (tocache (act_bytes a) (act_count a))
     (disflush (int (act_kind a)) (act_off a) (of_nat (act_count a) * size_of (act_kind a)) s)"
  by (cases a) (simp_all add: disact_def disbyte_def disbytes_def disint_def disbig_def disreal_def dtocanon_def
      size_of_def DEFB_def DEFW_def DEFL_def DEFF_def)

lemma diswR_bytes: "diswR ([ucast (drop_bit 24 v), ucast (drop_bit 16 v), ucast (drop_bit 8 v), ucast v] @ q) = Some (Inr (v, q))"
proof -
  have "of_int (drop_bit n (sint v)) = (ucast (drop_bit n v) :: byte)" if "n \<le> 24" for n
  proof (rule bit_word_eqI)
    fix i assume "i < LENGTH(8)"
    then show "bit (of_int (drop_bit n (sint v)) :: byte) i = bit (ucast (drop_bit n v) :: byte) i"
      using that by (cases "n + i = 31") (auto simp: bit_simps min_def)
  qed
  from this [of 24] this [of 16] this [of 8] this [of 0]
  have "disword (sint v) = [ucast (drop_bit 24 v), ucast (drop_bit 16 v), ucast (drop_bit 8 v), ucast v]"
    by (simp add: disword_def)
  then show ?thesis using disw_disword [of "sint v" q] by (simp add: diswR_def)
qed

lemma bind_byteR: "bindRd byteR f (c # p) = f c p"
  by (rule bindRd_step) (simp add: byteR_def)

lemma bind_disw: "bindRd diswR f ([ucast (drop_bit 24 v), ucast (drop_bit 16 v), ucast (drop_bit 8 v), ucast v] @ q) = f v q"
  by (rule bindRd_step) (rule diswR_bytes)

lemma bindRd_assoc: "bindRd (bindRd r f) g p = bindRd r (\<lambda>x. bindRd (f x) g) p"
  by (auto simp: bindRd_def split: option.splits sum.splits)

lemma data_loop_append:
  "data_loop body sz (n + k) si mm p = bindRd (data_loop body sz n si mm) (\<lambda>m'. data_loop body sz k (si + of_nat n * sz) m') p"
proof (induction n arbitrary: si mm p)
  case (Suc n)
  have "bindRd (body si mm) (\<lambda>m'. data_loop body sz (n + k) (si + sz) m') p =
      bindRd (body si mm) (\<lambda>m'. bindRd (data_loop body sz n (si + sz) m') (\<lambda>m'. data_loop body sz k (si + sz + of_nat n * sz) m')) p"
    unfolding bindRd_def by (auto simp: Suc.IH [unfolded bindRd_def] split: option.splits sum.splits)
  then show ?case by (simp add: bindRd_assoc algebra_simps)
qed simp

lemma putbytes_loop: "data_loop defb 1 (length v) si mm (v @ q) = Some (Inr (putbytes mm si v, q))"
proof (induction v arbitrary: si mm)
  case (Cons b v)
  have "defb si mm (b # v @ q) = Some (Inr (wrB mm si b, v @ q))" by (simp add: defb_def byteR_def bindRd_def okR_def)
  from bindRd_step [of "defb si mm", OF this, of "data_loop defb 1 (length v) (si + 1)"] show ?case by (simp add: Cons.IH)
qed (simp add: okR_def)

lemma halves_join: "push_bit 32 (ucast (ucast (drop_bit 32 v) :: WORD)) OR ucast (ucast v :: WORD) = (v :: LONG)"
proof (rule bit_word_eqI)
  fix n assume "n < LENGTH(64)"
  then consider "n < 32" | "32 \<le> n" "n < 64" by fastforce
  then show "bit (push_bit 32 (ucast (ucast (drop_bit 32 v) :: WORD)) OR ucast (ucast v :: WORD) :: LONG) n = bit v n"
    by cases (auto simp: bit_simps)
qed

lemma diswR2: "bindRd diswR f (lbytes hi lo @ q) = f hi ([ucast (drop_bit 24 lo), ucast (drop_bit 16 lo), ucast (drop_bit 8 lo), ucast lo] @ q)"
  using bind_disw [of f hi "[ucast (drop_bit 24 lo), ucast (drop_bit 16 lo), ucast (drop_bit 8 lo), ucast lo] @ q"]
  by (simp add: lbytes_def)

lemma act_values:
  assumes "plain a"
  shows "data_loop (body_of (act_kind a)) (size_of (act_kind a)) (act_count a) (addr + act_off a) mm (act_bytes a @ q) =
     Some (Inr (act_mem a addr mm, q))"
proof -
  have one: "data_loop body sz 1 si mm p = body si mm p" for body sz si and p :: "byte list"
    by (auto simp: bindRd_def okR_def split: option.splits sum.splits)
  note d = DEFB_def DEFW_def DEFL_def DEFF_def
  show ?thesis
  proof (cases a)
    case (DBs off v)
    then show ?thesis using putbytes_loop by (simp add: body_of_def size_of_def)
  qed (use assms in \<open>simp_all only: act_count.simps one act_kind.simps act_off.simps act_bytes.simps act_mem.simps plain.simps\<close>,
      simp_all add: body_of_def d defb_def defw_def defl_def deff_def byteR_def bind_byteR bind_disw [simplified] diswR2 [simplified] okR_def canontod_def halves_join)
qed


lemma data_item_values:
  assumes "DTYPE sm = k" "k \<in> {DEFB, DEFW, DEFL, DEFF}"
    "data_loop (body_of k) (size_of k) (nat n) (addr + of_int v) (mem \<sigma>) p = Some (Inr (mm, q))"
  shows "data_item sm n v addr st m p \<sigma> = LOk (addr, st) m q (\<sigma>\<lparr>mem := mm\<rparr>)"
proof -
  have ne: "DEFB \<noteq> DEFS" "DEFW \<noteq> DEFS" "DEFL \<noteq> DEFS" "DEFF \<noteq> DEFS" "DEFW \<noteq> DEFB" "DEFL \<noteq> DEFB" "DEFF \<noteq> DEFB" "DEFL \<noteq> DEFW"
      "DEFF \<noteq> DEFW" "DEFF \<noteq> DEFL" by (simp_all add: DEFB_def DEFW_def DEFL_def DEFF_def DEFS_def)
  consider "k = DEFB" | "k = DEFW" | "k = DEFL" | "k = DEFF" using assms(2) by blast
  then show ?thesis using assms(1,3)
    by cases (simp_all add: data_item_def Let_def ldmem_def body_of_def size_of_def ne)
qed

text \<open>A group of cached values.\<close>

definition acts_mem :: "act list \<Rightarrow> WORD \<Rightarrow> mem \<Rightarrow> mem" where
  "acts_mem as addr mm = fold (\<lambda>a. act_mem a addr) as mm"

lemma acts_run_plain:
  "\<forall>a \<in> set as. plain a \<Longrightarrow> acts_run as x m \<sigma> = LOk x m [] (\<sigma>\<lparr>mem := acts_mem as (fst x) (mem \<sigma>)\<rparr>)"
proof (induction as arbitrary: \<sigma>)
  case (Cons a as)
  have "act_run a x m \<sigma> = LOk x m [] (\<sigma>\<lparr>mem := act_mem a (fst x) (mem \<sigma>)\<rparr>)"
    using Cons.prems by (cases a) (simp_all add: act_run_def)
  then show ?case using Cons by (simp add: acts_mem_def)
qed (simp add: acts_mem_def)

text \<open>
  The state of the writer after the calls \<open>as\<close>: those before the group are written, those of the group are in the cache.
\<close>

definition grouped :: "dst \<Rightarrow> act list \<Rightarrow> bool" where
  "grouped s g \<longleftrightarrow> (\<forall>a \<in> set g. plain a) \<and>
     (lastkind s = -1 \<longrightarrow> g = []) \<and>
     (lastkind s \<noteq> -1 \<longrightarrow> (\<exists>k n. lastkind s = int k \<and> k \<in> {DEFB, DEFW, DEFL, DEFF} \<and> n = sum_list (map act_count g) \<and>
        ndatum s = of_nat n \<and> lastoff s = startoff s + of_nat n * size_of k \<and>
        (\<forall>addr mm q. data_loop (body_of k) (size_of k) n (addr + startoff s) mm (cache s @ q) = Some (Inr (acts_mem g addr mm, q)))))"

definition writes :: "dst \<Rightarrow> act list \<Rightarrow> bool" where
  "writes s as \<longleftrightarrow> (\<exists>d g. as = d @ g \<and> means (obuf s) d \<and> grouped s g)"

lemma group_means:
  assumes "grouped s g" "lastkind s \<noteq> -1" "cache s \<noteq> []" "sum_list (map act_count g) < 2 ^ 31"
    "disdata (lastkind s) (ndatum s) = Some b1" "discon (startoff s) = Some b2"
  shows "means (b1 @ b2 @ cache s) g"
proof -
  obtain k n where k: "lastkind s = int k" "k \<in> {DEFB, DEFW, DEFL, DEFF}" "n = sum_list (map act_count g)" "ndatum s = of_nat n"
    "\<And>addr mm q. data_loop (body_of k) (size_of k) n (addr + startoff s) mm (cache s @ q) = Some (Inr (acts_mem g addr mm, q))"
    using assms(1,2) unfolding grouped_def by blast
  have n: "sint (ndatum s) = int n" unfolding k(4) using assms(4) k(3) by (subst sint_word_eq_unat) (simp_all add: unat_of_nat)
  obtain sm where sm: "DTYPE sm = k" "\<And>x m q \<sigma>. parse_data (fst x) (snd x) m (b1 @ b2 @ q) \<sigma> =
      bindL (data_item sm (sint (ndatum s)) (sint (startoff s)) (fst x) (snd x) m q \<sigma>) (\<lambda>y. parse_data (fst y) (snd y))"
    using item_parse [OF _ assms(5) [unfolded k(1)] assms(6)] k(2) n by auto
  have g: "\<forall>a \<in> set g. plain a" using assms(1) by (simp add: grouped_def)
  show ?thesis unfolding means_def
    using data_item_values [OF sm(1) k(2)] k(5) sm(2) acts_run_plain [OF g] n by (simp add: n)
qed


lemma emit_simps:
  "emit [] s = Some s' \<longleftrightarrow> s' = s"
  "emit (x # xs) s = Some s' \<longleftrightarrow> (\<exists>b. x = Some b \<and> emit xs (s\<lparr>obuf := obuf s @ b\<rparr>) = Some s')"
  by (cases x; auto simp: emit_def split: if_splits)+

lemma grouped_empty:
  assumes "grouped s g" "cache s = []" "lastkind s \<noteq> -1"
  shows "acts_mem g addr mm = mm"
proof -
  obtain k n where k: "k \<in> {DEFB, DEFW, DEFL, DEFF}"
    "data_loop (body_of k) (size_of k) n (addr + startoff s) mm [] = Some (Inr (acts_mem g addr mm, []))"
    using assms unfolding grouped_def by (metis append_Nil)
  have "body_of k si mm [] = None" for si
    using k(1) by (auto simp: body_of_def defb_def defw_def defl_def deff_def bindRd_def byteR_def diswR_def disw_def)
  then have "n = 0" using k(2) by (cases n) (simp_all add: bindRd_def)
  then show ?thesis using k(2) by (simp add: okR_def)
qed

text \<open>The group goes out with the cache, or is of no effect.\<close>

lemma flush_means:
  assumes "writes s as" "sum_list (map act_count as) < 2 ^ 31"
    and s': "(if lastkind s \<noteq> -1 \<and> cache s \<noteq> []
       then emit [disdata (lastkind s) (ndatum s), discon (startoff s), Some (cache s)] s else Some s) = Some s'"
  shows "means (obuf s') as"
proof -
  obtain d g where w: "as = d @ g" "means (obuf s) d" "grouped s g" using assms(1) by (auto simp: writes_def)
  have c: "sum_list (map act_count g) < 2 ^ 31" using assms(2) w(1) by simp
  show ?thesis
  proof (cases "lastkind s \<noteq> -1 \<and> cache s \<noteq> []")
    case True
    then obtain b1 b2 where b: "disdata (lastkind s) (ndatum s) = Some b1" "discon (startoff s) = Some b2"
      "obuf s' = obuf s @ b1 @ b2 @ cache s" using s' by (auto simp: emit_simps split: if_splits)
    then show ?thesis using means_append [OF w(2) group_means [OF w(3) _ _ c b(1,2)]] True w(1) by simp
  next
    case False
    have "acts_mem g addr mm = mm" for addr mm
      using False w(3) grouped_empty [OF w(3)] by (cases "lastkind s = -1") (auto simp: grouped_def acts_mem_def)
    then have "means [] g" using acts_run_plain [of g] w(3) by (auto simp: means_def grouped_def)
    then show ?thesis using means_append [OF w(2)] False s' w(1) by fastforce
  qed
qed

lemma disflush_all:
  assumes "writes s as" "sum_list (map act_count as) < 2 ^ 31" "disflush (-1) (-1) 0 s = Some s'"
  shows "means (obuf s') as \<and> lastkind s' = -1"
proof (cases "lastkind s = -1 \<and> lastoff s = -1")
  case True
  then show ?thesis using assms(3) flush_means [OF assms(1,2), of s] by (auto simp: disflush_def)
next
  case False
  then obtain t where t: "(if lastkind s \<noteq> -1 \<and> cache s \<noteq> []
       then emit [disdata (lastkind s) (ndatum s), discon (startoff s), Some (cache s)] s else Some s) = Some t"
    "s' = t\<lparr>startoff := -1, lastkind := -1, cache := [], ndatum := 0, lastoff := -1\<rparr>"
    using assms(3) by (auto simp: disflush_def)
  then show ?thesis using flush_means [OF assms(1,2) t(1)] by simp
qed

lemma writes_flushed: "means (obuf s) as \<Longrightarrow> lastkind s = -1 \<Longrightarrow> writes s as"
  by (auto simp: writes_def grouped_def intro!: exI [of _ as])

lemma writes_plain:
  assumes "writes s as" "sum_list (map act_count as) < 2 ^ 31" "plain a" "disact a s = Some s'"
  shows "writes s' (as @ [a])"
proof -
  define k where "k = act_kind a"
  have k: "k \<in> {DEFB, DEFW, DEFL, DEFF}" unfolding k_def by (cases a) auto
  have v: "data_loop (body_of k) (size_of k) (act_count a) (addr + act_off a) mm (act_bytes a @ q) = Some (Inr (act_mem a addr mm, q))" for addr mm q
    unfolding k_def by (rule act_values [OF assms(3)])
  obtain t where t: "disflush (int k) (act_off a) (of_nat (act_count a) * size_of k) s = Some t" "s' = tocache (act_bytes a) (act_count a) t"
    using assms(4) unfolding disact_plain [OF assms(3)] k_def by auto
  show ?thesis
  proof (cases "int k \<noteq> lastkind s \<or> act_off a \<noteq> lastoff s")
    case True
    then obtain t1 where t1: "(if lastkind s \<noteq> -1 \<and> cache s \<noteq> []
       then emit [disdata (lastkind s) (ndatum s), discon (startoff s), Some (cache s)] s else Some s) = Some t1"
      "t = t1\<lparr>startoff := act_off a, lastkind := int k, cache := [], ndatum := 0, lastoff := act_off a + of_nat (act_count a) * size_of k\<rparr>"
      using t(1) by (auto simp: disflush_def)
    have "means (obuf s') as" using flush_means [OF assms(1,2) t1(1)] t(2) t1(2) by (simp add: tocache_def)
    moreover have "grouped s' [a]" using v k assms(3) unfolding grouped_def t(2) t1(2)
      by (auto simp: tocache_def acts_mem_def intro!: exI [of _ k])
    ultimately show ?thesis unfolding writes_def by blast
  next
    case False
    obtain d g where w: "as = d @ g" "means (obuf s) d" "grouped s g" using assms(1) by (auto simp: writes_def)
    have t': "t = s\<lparr>lastoff := act_off a + of_nat (act_count a) * size_of k\<rparr>" using t(1) False by (simp add: disflush_def)
    let ?n = "sum_list (map act_count g)"
    have g: "\<forall>a \<in> set g. plain a" "ndatum s = of_nat ?n" "lastoff s = startoff s + of_nat ?n * size_of k"
      "\<And>addr mm q. data_loop (body_of k) (size_of k) ?n (addr + startoff s) mm (cache s @ q) = Some (Inr (acts_mem g addr mm, q))"
      using w(3) False unfolding grouped_def by auto
    have "data_loop (body_of k) (size_of k) (?n + act_count a) (addr + startoff s) mm (cache s @ act_bytes a @ q) =
        Some (Inr (acts_mem (g @ [a]) addr mm, q))" for addr mm q
      unfolding data_loop_append using v [of addr] g(3) False
      by (subst bindRd_step [of "data_loop _ _ _ _ _", OF g(4)]) (simp add: acts_mem_def add.assoc)
    then have "grouped s' (g @ [a])" using g k False assms(3) unfolding grouped_def t(2) t'
      by (auto simp: tocache_def algebra_simps intro!: exI [of _ k])
    moreover have "obuf s' = obuf s" unfolding t(2) t' by (simp add: tocache_def)
    ultimately show ?thesis using w unfolding writes_def by (metis append.assoc)
  qed
qed


text \<open>The items that are written at once.\<close>

lemma disw2: "disw (disword a @ disword b @ q) = Some (of_int a, disword b @ q)" "disw (disword b @ q) = Some (of_int b, q)"
    "disw (disword b) = Some (of_int b, [])"
  using disw_disword [of a "disword b @ q"] disw_disword [of b q] disw_disword [of b "[]"] by simp_all

lemma data_array_rest:
  "data_array si m (disword a @ disword b @ q) \<sigma> = bindL (data_array si m (disword a @ disword b) \<sigma>) (\<lambda>_ m' _. LOk () m' q)"
  using disw_disword [of a "disword b"] by (auto simp: data_array_def disw2 Let_def split: option.splits outcome.splits)

lemma data_index_rest:
  "data_index si addr st m (disword a @ q) \<sigma> = bindL (data_index si addr st m (disword a) \<sigma>) (\<lambda>y m' _. LOk y m' q)"
  by (auto simp: data_index_def disw2 Let_def split: option.splits hstruct.splits)

lemma means_DS:
  assumes "disdata (int DEFS) (of_nat (length str)) = Some b1" "discon off = Some b2" "length str < 2 ^ 31"
  shows "means (b1 @ b2 @ str) [DS off str]"
proof -
  have n: "sint (of_nat (length str) :: WORD) = int (length str)" using assms(3) by (subst sint_word_eq_unat) (simp_all add: unat_of_nat)
  obtain sm where sm: "DTYPE sm = DEFS" "\<And>x m q \<sigma>. parse_data (fst x) (snd x) m (b1 @ b2 @ q) \<sigma> =
      bindL (data_item sm (int (length str)) (sint off) (fst x) (snd x) m q \<sigma>) (\<lambda>y. parse_data (fst y) (snd y))"
    using item_parse [OF _ assms(1,2)] n by auto
  show ?thesis unfolding means_def using sm
    by (auto simp: data_item_def Let_def act_run_def split: outcome.split)
qed

lemma means_DA:
  assumes "disdata (int DEFA) 1 = Some b1" "discon off = Some b2"
  shows "means (b1 @ b2 @ disword (sint ti) @ disword (sint len)) [DA off ti len]"
proof -
  obtain sm where sm: "DTYPE sm = DEFA" "\<And>x m q \<sigma>. parse_data (fst x) (snd x) m (b1 @ b2 @ q) \<sigma> =
      bindL (data_item sm 1 (sint off) (fst x) (snd x) m q \<sigma>) (\<lambda>y. parse_data (fst y) (snd y))"
    using item_parse [OF _ assms] by auto
  have d: "data_item sm 1 (sint off) addr st m (disword (sint ti) @ disword (sint len) @ q) \<sigma> =
      bindL (data_array (addr + off) m (disword (sint ti) @ disword (sint len)) \<sigma>) (\<lambda>_ m' _. LOk (addr, st) m' q)" for addr st m q \<sigma>
    unfolding data_item_def Let_def sm(1)
    by (simp add: DEFA_def DEFS_def DEFB_def DEFW_def DEFL_def DEFF_def data_array_rest bindL_def split: ld.splits)
  show ?thesis unfolding means_def by (auto simp: sm(2) d act_run_def bindL_assoc)
qed

lemma means_DI:
  assumes "disdata (int DIND) 1 = Some b1" "discon off = Some b2"
  shows "means (b1 @ b2 @ disword 0) [DI off]"
proof -
  obtain sm where sm: "DTYPE sm = DIND" "\<And>x m q \<sigma>. parse_data (fst x) (snd x) m (b1 @ b2 @ q) \<sigma> =
      bindL (data_item sm 1 (sint off) (fst x) (snd x) m q \<sigma>) (\<lambda>y. parse_data (fst y) (snd y))"
    using item_parse [OF _ assms] by auto
  have d: "data_item sm 1 (sint off) addr st m p \<sigma> = data_index (addr + off) addr st m p \<sigma>" for addr st m p \<sigma>
    unfolding data_item_def Let_def sm(1)
    by (simp add: DIND_def DEFA_def DEFS_def DEFB_def DEFW_def DEFL_def DEFF_def)
  show ?thesis unfolding means_def by (auto simp: sm(2) d act_run_def data_index_rest bindL_assoc)
qed

lemma means_DP:
  assumes "disdata (int DAPOP) 1 = Some b1" "discon 0 = Some b2"
  shows "means (b1 @ b2) [DP]"
proof -
  obtain sm where sm: "DTYPE sm = DAPOP" "\<And>x m q \<sigma>. parse_data (fst x) (snd x) m (b1 @ b2 @ q) \<sigma> =
      bindL (data_item sm 1 0 (fst x) (snd x) m q \<sigma>) (\<lambda>y. parse_data (fst y) (snd y))"
    using item_parse [OF _ assms] by auto
  have d: "data_item sm 1 0 addr st m p \<sigma> = (case st of [] \<Rightarrow> LBad ''pop range'' m \<sigma> | a # st \<Rightarrow> LOk (a, st) m p \<sigma>)" for addr st m p \<sigma>
    unfolding data_item_def Let_def sm(1)
    by (simp add: DAPOP_def DIND_def DEFA_def DEFS_def DEFB_def DEFW_def DEFL_def DEFF_def)
  show ?thesis unfolding means_def by (auto simp: sm(2) d act_run_def split: list.split)
qed


text \<open>Every index follows its array at once, so the cache is empty there.\<close>

fun indexed :: "bool \<Rightarrow> act list \<Rightarrow> bool" where
  "indexed b [] = True"
| "indexed b (a # as) = ((\<forall>off. a = DI off \<longrightarrow> b) \<and> indexed (\<exists>off ti len. a = DA off ti len) as)"

lemma indexed_mono: "indexed False as \<Longrightarrow> indexed b as"
  by (cases as) auto

lemma indexed_append: "indexed b as \<Longrightarrow> indexed False cs \<Longrightarrow> indexed b (as @ cs)"
  by (induction as arbitrary: b) (auto intro: indexed_mono)

lemma indexed_concat: "(\<And>as. as \<in> set ass \<Longrightarrow> indexed False as) \<Longrightarrow> indexed False (concat ass)"
  by (induction ass) (auto intro: indexed_append)

lemma indexed_plain: "\<forall>a \<in> set as. \<forall>off. a \<noteq> DI off \<Longrightarrow> indexed b as"
  by (induction as arbitrary: b) auto

lemma indexed_calls: "indexed False (calls off n)"
proof (induction off n rule: calls.induct)
  case (6 off fs)
  then show ?case by (auto intro!: indexed_concat)
next
  case (8 off labs wild)
  have "DI x \<notin> set (call_words o1 ws)" for x o1 ws by (induction o1 ws rule: call_words.induct) auto
  then show ?case by (auto intro!: indexed_plain)
next
  case (9 off labs wild)
  have "DI x \<notin> set (call_casec o1 ws)" for x o1 ws
    by (induction o1 ws rule: call_casec.induct) (auto split: option.splits)
  then show ?case by (auto intro!: indexed_plain)
next
  case (10 off n pcs wild)
  have "DI x \<notin> set (call_words o1 ws)" for x o1 ws by (induction o1 ws rule: call_words.induct) auto
  then show ?case by (auto intro!: indexed_plain)
next
  case (11 off ti len esz init)
  then show ?case by (auto intro!: indexed_append indexed_concat split: option.splits)
next
  case (12 off n ids)
  have "DI x \<notin> set (call_iface o1 ws)" for x o1 ws
    by (induction o1 ws rule: call_iface.induct) (auto simp: Let_def split: option.splits)
  then show ?case by (auto intro!: indexed_plain)
qed auto

fun act_weight :: "act \<Rightarrow> nat" where
  "act_weight (DBs _ v) = length v" | "act_weight (DS _ v) = length v + 1" | "act_weight _ = 1"

lemma count_weight: "act_count a \<le> act_weight a"
  by (cases a) simp_all

lemma writes_act:
  assumes "writes s as" "sum_list (map act_weight (as @ [a])) < 2 ^ 31" "disact a s = Some s'" "\<forall>off. a = DI off \<longrightarrow> lastkind s = -1"
  shows "writes s' (as @ [a]) \<and> (\<forall>off ti len. a = DA off ti len \<longrightarrow> lastkind s' = -1)"
proof -
  have "sum_list (map act_count as) \<le> sum_list (map act_weight as)" by (intro sum_list_mono count_weight)
  then have c: "sum_list (map act_count as) < 2 ^ 31" using assms(2) by simp
  have flushed: "writes s' (as @ [a]) \<and> (\<forall>off ti len. a = DA off ti len \<longrightarrow> lastkind s' = -1)"
    if "disflush (-1) (-1) 0 s = Some t" "obuf s' = obuf t @ bs" "lastkind s' = lastkind t" "means bs [a]" for t bs
    using disflush_all [OF assms(1) c that(1)] means_append [of "obuf t" as bs "[a]"] that(2-4) by (auto intro: writes_flushed)
  show ?thesis
  proof (cases a)
    case (DS off str)
    then obtain t b1 b2 where t: "disflush (-1) (-1) 0 s = Some t" "disdata (int DEFS) (of_nat (length str)) = Some b1" "discon off = Some b2"
        "obuf s' = obuf t @ b1 @ b2 @ str" "lastkind s' = lastkind t"
      using assms(3) by (auto simp: disact_def disstring_def bind_eq_Some_conv emit_simps)
    show ?thesis using flushed [OF t(1,4,5)] means_DS [OF t(2,3)] assms(2) DS by simp
  next
    case (DA off ti len)
    then obtain t b1 b2 where t: "disflush (-1) (-1) 0 s = Some t" "disdata (int DEFA) 1 = Some b1" "discon off = Some b2"
        "obuf s' = obuf t @ b1 @ b2 @ disword (sint ti) @ disword (sint len)" "lastkind s' = lastkind t"
      using assms(3) by (auto simp: disact_def disarray_def bind_eq_Some_conv emit_simps)
    show ?thesis using flushed [OF t(1,4,5)] means_DA [OF t(2,3)] DA by simp
  next
    case DP
    then obtain t b1 b2 where t: "disflush (-1) (-1) 0 s = Some t" "disdata (int DAPOP) 1 = Some b1" "discon 0 = Some b2"
        "obuf s' = obuf t @ b1 @ b2" "lastkind s' = lastkind t"
      using assms(3) by (auto simp: disact_def dispop_def bind_eq_Some_conv emit_simps)
    show ?thesis using flushed [OF t(1,4,5)] means_DP [OF t(2,3)] DP by simp
  next
    case (DI off)
    then have k: "lastkind s = -1" using assms(4) by simp
    obtain b1 b2 where t: "disdata (int DIND) 1 = Some b1" "discon off = Some b2" "obuf s' = obuf s @ b1 @ b2 @ disword 0" "lastkind s' = -1"
      using assms(3) DI k by (auto simp: disact_def disindex_def emit_simps)
    have "means (obuf s) as" using assms(1) k by (auto simp: writes_def grouped_def)
    from means_append [OF this means_DI [OF t(1,2)]] show ?thesis using t(3,4) DI by (auto intro: writes_flushed)
  qed (use writes_plain [OF assms(1) c _ assms(3)] in auto)
qed

lemma writes_acts:
  assumes "writes s as" "sum_list (map act_weight (as @ cs)) < 2 ^ 31" "foldO disact cs s = Some s'" "indexed b cs" "b \<longrightarrow> lastkind s = -1"
  shows "writes s' (as @ cs)"
  using assms
proof (induction cs arbitrary: as s b)
  case (Cons a cs)
  obtain t where t: "disact a s = Some t" "foldO disact cs t = Some s'" using Cons.prems(3) by (auto split: option.splits)
  have w: "writes t (as @ [a]) \<and> (\<forall>off ti len. a = DA off ti len \<longrightarrow> lastkind t = -1)"
    using Cons.prems(2,4,5) by (intro writes_act [OF Cons.prems(1) _ t(1)]) auto
  show ?case using Cons.IH [OF conjunct1 [OF w] _ t(2)] Cons.prems(2,4) w by auto
qed simp

lemma foldO_concat: "foldO (\<lambda>x. foldO f (g x)) xs s = foldO f (concat (map g xs)) s"
  by (induction xs arbitrary: s) (auto simp: foldO_append split: option.splits)

lemma disvar_read:
  assumes "disvar ds = Some bs" "as = concat (map (\<lambda>(off, n). calls off n) ds)" "sum_list (map act_weight as) < 2 ^ 31"
  shows "parse_data addr [] m (bs @ q) \<sigma> = bindL (acts_run as (addr, []) m \<sigma>) (\<lambda>_ m' _. LOk () m' q)"
proof -
  let ?s0 = "\<lparr>obuf = [], cache = [], ndatum = 0, startoff = 0, lastoff = 0, lastkind = -1\<rparr>"
  obtain s s' where s: "foldO (\<lambda>(off, n). disdatum off n) ds ?s0 = Some s" "disflush (-1) (-1) 0 s = Some s'" "bs = obuf s' @ [0]"
    using assms(1) by (auto simp: disvar_def bind_eq_Some_conv)
  have e: "foldO disact as ?s0 = Some s"
    using s(1) foldO_concat [of disact "\<lambda>(off, n). calls off n" ds ?s0] unfolding assms(2) disdatum_def by (simp add: case_prod_unfold)
  have i: "indexed False as" unfolding assms(2) by (rule indexed_concat) (auto simp: indexed_calls)
  have "writes ?s0 []" by (rule writes_flushed) (simp_all add: means_Nil)
  from writes_acts [OF this _ e i] have w: "writes s as" using assms(3) by simp
  have "sum_list (map act_count as) \<le> sum_list (map act_weight as)" by (intro sum_list_mono count_weight)
  then have "means (obuf s') as" using disflush_all [OF w _ s(2)] assms(3) by simp
  then have m: "parse_data addr [] m (obuf s' @ 0 # q) \<sigma> = bindL (acts_run as (addr, []) m \<sigma>) (\<lambda>y m' _. parse_data (fst y) (snd y) m' (0 # q))"
    unfolding means_def by (metis fst_conv snd_conv)
  have "parse_data a st m' (0 # q) \<sigma>' = LOk () m' q \<sigma>'" for a st m' \<sigma>' by (simp add: parse_data.simps)
  then show ?thesis unfolding s(3) by (cases "acts_run as (addr, []) m \<sigma>") (simp_all add: m)
qed



text \<open>
  C26 The code of a module: for instructions with the operand modes the compiler generates, \<^verbatim>\<open>disinst\<close> never runs over its
  buffer, it gives up only on a constant that does not fit, and from what it writes the loader reads the same
  instructions, the targets of branches as addresses, and stops right after them.
\<close>

theorem disinst_parse_insts:
  assumes "\<forall>i \<in> set is. inst_ok (int (length is)) i"
  shows "case disinst is [] [] of Inl e \<Rightarrow> e = Fatal
    | Inr bs \<Rightarrow> parse_insts prog (int (length is)) (length is) (bs @ q) = Some (Inr (map (loaded_inst prog) is, q))"
proof (cases "disinst is [] []")
  case (Inl e)
  then show ?thesis using disinst_read [OF assms, of "[]" "[]"] by (cases e) (simp_all add: NIBUF_def)
next
  case (Inr bs)
  then show ?thesis using disinst_read [OF assms, of "[]" "[]" bs prog] by (simp add: NIBUF_def)
qed

definition addr0 :: Addr where "addr0 = \<lparr>a_reg = 0, a_offset = 0, a_iface = 0\<rparr>"

definition some_code :: "CInst list" where  \<comment> \<open>a jump to the second instruction, which returns\<close>
  "some_code = [\<lparr>c_op = 13, c_sm = Anone, c_mm = Anone, c_dm = Apc, c_s = addr0, c_m = addr0, c_d = addr0\<lparr>a_offset := 1\<rparr>\<rparr>,
     \<lparr>c_op = 12, c_sm = Anone, c_mm = Anone, c_dm = Anone, c_s = addr0, c_m = addr0, c_d = addr0\<rparr>]"

lemma some_code_ok: "\<forall>i \<in> set some_code. inst_ok 2 i" "length some_code = 2" "disinst some_code [] [] = Inr [13, 0x1a, 1, 12, 0x1b]"
proof -
  show "\<forall>i \<in> set some_code. inst_ok 2 i" by code_simp
  show "length some_code = 2" by (simp add: some_code_def)
  show "disinst some_code [] [] = Inr [13, 0x1a, 1, 12, 0x1b]" by code_simp
qed

lemma disinst_parse_insts_witness:
  "parse_insts 0x1000 2 2 ([13, 0x1a, 1, 12, 0x1b] @ [7]) = Some (Inr (map (loaded_inst 0x1000) some_code, [7]))"
  using disinst_parse_insts [of some_code "0x1000" "[7]"] some_code_ok by simp

end
