(* ===== verification/Diswhole.thy ===== *)
theory Diswhole
  imports Disobj
begin

text \<open>
  The whole object file: type descriptors, entry, links and the sequence of the sections in \<^verbatim>\<open>modcom\<close> of
  \<^verbatim>\<open>limbo/com.c\<close>, and what \<^verbatim>\<open>parsemod\<close> makes of a file the compiler has written.
\<close>

section \<open>Writing\<close>

record Desc =
  ds_id :: WORD
  ds_size :: WORD
  ds_map :: "byte list"

definition concatO :: "byte list option list \<Rightarrow> byte list option" where  \<comment> \<open>writes in sequence\<close>
  "concatO bs = (if None \<in> set bs then None else Some (concat (map the bs)))"

definition disdesc1 :: "Desc \<Rightarrow> byte list option" where
  "disdesc1 d = concatO [discon (ds_id d), discon (ds_size d), discon (of_nat (length (ds_map d))), Some (ds_map d)]"

definition disdesc :: "Desc list \<Rightarrow> byte list option" where
  "disdesc ds = concatO (map disdesc1 ds)"

definition disentry :: "(WORD \<times> WORD) option \<Rightarrow> byte list option" where  \<comment> \<open>\<^verbatim>\<open>pc\<close> and descriptor\<close>
  "disentry e = (case e of None \<Rightarrow> concatO [discon (-1), discon (-1)] | Some (pc, ti) \<Rightarrow> concatO [discon pc, discon ti])"

datatype export = Xglobal WORD | Xfn WORD WORD WORD "byte list option" "byte list"  \<comment> \<open>\<^verbatim>\<open>pc\<close>, descriptor, signature, adt, name\<close>

definition disexport :: "export \<Rightarrow> byte list option" where
  "disexport x = (case x of
     Xglobal sg \<Rightarrow> concatO [discon (-1), discon (-1), Some (disword (sint sg)), Some [46, 109, 112, 0]]
   | Xfn pc ti sg adt nm \<Rightarrow> concatO [discon pc, discon ti, Some (disword (sint sg)),
       Some ((case adt of None \<Rightarrow> [] | Some a \<Rightarrow> a @ [46]) @ nm @ [0])])"

definition dismod :: "byte list \<Rightarrow> export list \<Rightarrow> byte list option" where
  "dismod nm xs = concatO (Some (take (NAMELEN - 1) nm @ [0]) # map disexport xs)"

record cmod =
  x_hints :: WORD
  x_maxstack :: WORD
  x_ninst :: WORD
  x_offset :: WORD
  x_ndesc :: WORD
  x_nlink :: WORD
  x_entry :: "(WORD \<times> WORD) option"
  x_insts :: "CInst list"
  x_descs :: "Desc list"
  x_globals :: "(WORD \<times> node) list"
  x_name :: "byte list"
  x_exports :: "export list"

definition modcom :: "cmod \<Rightarrow> byte list option" where
  "modcom c = concatO
     [discon (of_int XMAGIC), discon (x_hints c), discon (x_maxstack c), discon (x_ninst c), discon (x_offset c),
      discon (x_ndesc c), discon (x_nlink c), disentry (x_entry c),
      (case disinst (x_insts c) [] [] of Inl _ \<Rightarrow> None | Inr bs \<Rightarrow> Some bs),
      disdesc (x_descs c), disvar (x_globals c), dismod (x_name c) (x_exports c)]"

section \<open>Reading back\<close>

lemma concatO_simps [simp]:
  "concatO [] = Some []" "concatO (x # xs) = Some bs \<longleftrightarrow> (\<exists>b cs. x = Some b \<and> concatO xs = Some cs \<and> bs = b @ cs)"
  by (cases x; auto simp: concatO_def)+

lemma concatO_map: "concatO (map f xs) = Some bs \<Longrightarrow> \<exists>bss. bs = concat bss \<and> map f xs = map Some bss"
proof (induction xs arbitrary: bs)
  case (Cons x xs)
  then obtain b cs where b: "f x = Some b" "concatO (map f xs) = Some cs" "bs = b @ cs" by auto
  obtain css where "cs = concat css" "map f xs = map Some css" using Cons.IH [OF b(2)] by blast
  then show ?case using b by (intro exI [of _ "b # css"]) simp
qed simp

text \<open>Type descriptors: the numbers go up from \<open>nt\<close>.\<close>

definition desc_type :: "Desc \<Rightarrow> Type" where
  "desc_type d = \<lparr>tref = 1, tfree = Ffreeheap, tmark = Mmarkheap, tsize = sint (ds_size d), tmap = ds_map d\<rparr>"

definition addtypes :: "tid \<Rightarrow> Desc list \<Rightarrow> (tid \<Rightarrow> Type) \<Rightarrow> tid \<Rightarrow> Type" where
  "addtypes nt ds ty t = (if nt \<le> t \<and> t < nt + length ds then desc_type (ds ! (t - nt)) else ty t)"

lemma addtypes_Cons: "addtypes (Suc nt) ds (ty(nt := desc_type d)) = addtypes nt (d # ds) ty"
proof
  fix t
  show "addtypes (Suc nt) ds (ty(nt := desc_type d)) t = addtypes nt (d # ds) ty t"
    by (cases "t = nt") (auto simp: addtypes_def nth_Cons' Suc_diff_le)
qed

lemma addtypes_Nil [simp]: "addtypes nt [] ty = ty"
  by (rule ext) (auto simp: addtypes_def)

lemma parse_type_read:
  assumes "disdesc1 d = Some b" "sint (ds_id d) = int i" "i < length (mtype m)" "\<And>k n. mal k n \<noteq> 0" "length (ds_map d) < 2 ^ 31"
  shows "parse_type mal nt i m (b @ q) \<sigma> = LOk () (m\<lparr>mtype := (mtype m)[i := Some nt]\<rparr>) q (\<sigma>\<lparr>types := (types \<sigma>)(nt := desc_type d)\<rparr>)"
proof -
  have l: "sint (of_nat (length (ds_map d)) :: WORD) = int (length (ds_map d))"
    using assms(5) by (subst sint_word_eq_unat) (simp_all add: unat_of_nat)
  obtain b1 b2 b3 where b: "discon (ds_id d) = Some b1" "discon (ds_size d) = Some b2"
      "discon (of_nat (length (ds_map d))) = Some b3" "b = b1 @ b2 @ b3 @ ds_map d"
    using assms(1) by (auto simp: disdesc1_def)
  show ?thesis unfolding parse_type_def b(4)
    using assms(2-4) by (simp add: bind_operand [OF b(1)] bind_operand [OF b(2)] bind_operand [OF b(3)] okR_def l dtype_def desc_type_def)
qed

lemma parse_types_read:
  assumes "disdesc ds = Some bs" "\<And>j. j < length ds \<Longrightarrow> sint (ds_id (ds ! j)) = int (i + j)" "length (mtype m) = i + length ds"
    "\<And>k n. mal k n \<noteq> 0" "\<forall>d \<in> set ds. length (ds_map d) < 2 ^ 31"
  shows "parse_types mal nt i (length ds) m (bs @ q) \<sigma> =
    LOk () (m\<lparr>mtype := take i (mtype m) @ map (\<lambda>j. Some (nt + j)) [i ..< i + length ds]\<rparr>) q
      (\<sigma>\<lparr>types := addtypes (nt + i) ds (types \<sigma>)\<rparr>)"
  using assms
proof (induction ds arbitrary: i m bs \<sigma>)
  case Nil
  then show ?case by (simp add: disdesc_def)
next
  case (Cons d ds)
  obtain b cs where b: "disdesc1 d = Some b" "disdesc ds = Some cs" "bs = b @ cs" using Cons.prems(1) by (auto simp: disdesc_def)
  have i: "sint (ds_id d) = int i" using Cons.prems(2) [of 0] by simp
  have r: "parse_type mal (nt + i) i m (b @ cs @ q) \<sigma> =
      LOk () (m\<lparr>mtype := (mtype m)[i := Some (nt + i)]\<rparr>) (cs @ q) (\<sigma>\<lparr>types := (types \<sigma>)(nt + i := desc_type d)\<rparr>)"
    using Cons.prems(3,5) by (intro parse_type_read [OF b(1) i _ Cons.prems(4)]) simp_all
  have IH: "parse_types mal nt (Suc i) (length ds) (m\<lparr>mtype := (mtype m)[i := Some (nt + i)]\<rparr>) (cs @ q) (\<sigma>\<lparr>types := (types \<sigma>)(nt + i := desc_type d)\<rparr>) =
      LOk () (m\<lparr>mtype := take (Suc i) ((mtype m)[i := Some (nt + i)]) @ map (\<lambda>j. Some (nt + j)) [Suc i ..< Suc i + length ds]\<rparr>) q
        (\<sigma>\<lparr>types := addtypes (nt + Suc i) ds ((types \<sigma>)(nt + i := desc_type d))\<rparr>)"
    using Cons.prems(2) [of "Suc j" for j] Cons.prems(3-5) by (subst Cons.IH [OF b(2)]) simp_all
  have t: "take (Suc i) ((mtype m)[i := Some (nt + i)]) = take i (mtype m) @ [Some (nt + i)]"
    using Cons.prems(3) by (simp add: take_Suc_conv_app_nth)
  have u: "[i ..< i + length (d # ds)] = i # [Suc i ..< Suc i + length ds]" by (simp add: upt_conv_Cons del: upt_Suc)
  show ?case using r IH unfolding b(3) u by (simp add: t addtypes_Cons)
qed


lemma unat_sint: "0 \<le> sint (w :: WORD) \<Longrightarrow> nat (sint w) = unat w"
proof -
  assume w: "0 \<le> sint w"
  have "sint w < 2 ^ 31" using sint_less [of w] by simp
  then have "sint w mod 4294967296 = sint w" using w by simp
  moreover have "uint (of_int (sint w) :: WORD) = sint w mod 4294967296" by (simp only: unsigned_of_int take_bit_eq_mod) simp
  ultimately have "uint w = sint w" by simp
  then show ?thesis by (simp add: unat_eq_nat_uint)
qed

text \<open>Links: the strings have no NUL, and a descriptor is one of the table.\<close>

lemma cstr_read: "0 \<notin> set s \<Longrightarrow> cstr (s @ 0 # q) = Some (s, q)"
  by (induction s) auto

definition export_link :: "WORD \<Rightarrow> tid option list \<Rightarrow> export \<Rightarrow> Link" where
  "export_link prog ts x = (case x of
     Xglobal sg \<Rightarrow> \<lparr>lname = [46, 109, 112], lsig = sg, lframe = None, lpc = prog - sizeof_Inst\<rparr>
   | Xfn pc ti sg adt nm \<Rightarrow> \<lparr>lname = (case adt of None \<Rightarrow> [] | Some a \<Rightarrow> a @ [46]) @ nm, lsig = sg, lframe = ts ! unat ti,
       lpc = prog + sizeof_Inst * pc\<rparr>)"

definition export_ok :: "tid option list \<Rightarrow> export \<Rightarrow> bool" where
  "export_ok ts x = (case x of Xglobal sg \<Rightarrow> True
     | Xfn pc ti sg adt nm \<Rightarrow> 0 \<le> sint ti \<and> sint ti < int (length ts) \<and> 0 \<notin> set nm \<and> (\<forall>a. adt = Some a \<longrightarrow> 0 \<notin> set a))"

lemma parse_links_read:
  assumes "map disexport xs = map Some bss" "\<forall>x \<in> set xs. export_ok (mtype m) x" "\<And>k n. mal k n \<noteq> 0"
  shows "parse_links mal i (length xs) m (concat bss @ q) \<sigma> =
    LOk () (m\<lparr>mext := rev (map (export_link (mprog m) (mtype m)) xs) @ mext m\<rparr>) q \<sigma>"
  using assms
proof (induction xs arbitrary: i m bss)
  case (Cons x xs)
  obtain b cs where b: "bss = b # cs" "disexport x = Some b" "map disexport xs = map Some cs" using Cons.prems(1) by (cases bss) auto
  have r: "parse_links mal i (Suc (length xs)) m (b @ p) \<sigma> =
      parse_links mal (Suc i) (length xs) (m\<lparr>mext := export_link (mprog m) (mtype m) x # mext m\<rparr>) p \<sigma>" for p
  proof (cases x)
    case (Xglobal sg)
    obtain b1 where b1: "discon (-1) = Some b1" "b = b1 @ b1 @ disword (sint sg) @ [46, 109, 112] @ 0 # []"
      using b(2) Xglobal by (auto simp: disexport_def)
    have "diswR (disword (sint sg) @ y) = Some (Inr (sg, y))" for y using disw_disword [of "sint sg"] by (simp add: diswR_def)
    note d = bindRd_step [of diswR, OF this]
    have c: "cstr (46 # 109 # 112 # 0 # p) = Some ([46, 109, 112], p)" by simp
    show ?thesis unfolding b1(2)
      by (simp add: bind_operand [OF b1(1)] d okR_def c Cons.prems(3) mlink_def newlink_def export_link_def Xglobal del: cstr.simps)
  next
    case (Xfn pc ti sg adt nm)
    define fn where "fn = (case adt of None \<Rightarrow> [] | Some a \<Rightarrow> a @ [46]) @ nm"
    obtain b1 b2 where b1: "discon pc = Some b1" "discon ti = Some b2" "b = b1 @ b2 @ disword (sint sg) @ fn @ [0]"
      using b(2) Xfn by (auto simp: disexport_def fn_def)
    have "diswR (disword (sint sg) @ y) = Some (Inr (sg, y))" for y using disw_disword [of "sint sg"] by (simp add: diswR_def)
    note d = bindRd_step [of diswR, OF this]
    have t: "0 \<le> sint ti" "sint ti < int (length (mtype m))" "0 \<notin> set fn"
      using Cons.prems(2) Xfn by (auto simp: export_ok_def fn_def split: option.splits)
    have n: "nat (sint ti) = unat ti" by (rule unat_sint [OF t(1)])
    have c: "cstr (fn @ 0 # p) = Some (fn, p)" by (rule cstr_read [OF t(3)])
    show ?thesis unfolding b1(3) using t(1,2)
      by (simp add: bind_operand [OF b1(1)] bind_operand [OF b1(2)] d okR_def c Cons.prems(3) mlink_def newlink_def export_link_def Xfn fn_def [symmetric] n
          del: cstr.simps)
  qed
  show ?case using Cons.prems(2) by (simp add: b(1) r Cons.IH [OF b(3) _ Cons.prems(3)] del: parse_links.simps)
qed simp


text \<open>The header.\<close>

definition head_of :: "cmod \<Rightarrow> header" where
  "head_of c = \<lparr>h_rt = sint (x_hints c), h_ss = sint (x_maxstack c), h_isize = sint (x_ninst c), h_dsize = sint (x_offset c),
     h_hsize = sint (x_ndesc c), h_lsize = sint (x_nlink c),
     h_entry = (case x_entry c of None \<Rightarrow> -1 | Some (pc, ti) \<Rightarrow> sint pc),
     h_entryt = (case x_entry c of None \<Rightarrow> -1 | Some (pc, ti) \<Rightarrow> sint ti)\<rparr>"

lemma parse_header_read:
  assumes "discon (of_int XMAGIC) = Some b0" "discon (x_hints c) = Some b1" "discon (x_maxstack c) = Some b2" "discon (x_ninst c) = Some b3"
    "discon (x_offset c) = Some b4" "discon (x_ndesc c) = Some b5" "discon (x_nlink c) = Some b6" "disentry (x_entry c) = Some b7"
  shows "parse_header (b0 @ b1 @ b2 @ b3 @ b4 @ b5 @ b6 @ b7 @ q) = Some (Inr (head_of c, q))"
proof -
  obtain e1 e2 where e: "discon (case x_entry c of None \<Rightarrow> -1 | Some (pc, ti) \<Rightarrow> pc) = Some e1"
      "discon (case x_entry c of None \<Rightarrow> -1 | Some (pc, ti) \<Rightarrow> ti) = Some e2" "b7 = e1 @ e2"
    using assms(8) by (auto simp: disentry_def split: option.splits)
  have m: "bindRd parse_magic f (b0 @ r) = f () r" for f :: "unit \<Rightarrow> header rd" and r
  proof (rule bindRd_step)
    have "sint (of_int XMAGIC :: WORD) = XMAGIC" by (simp add: XMAGIC_def)
    then show "parse_magic (b0 @ r) = Some (Inr ((), r))"
      by (simp add: parse_magic_def bind_operand [OF assms(1)] SMAGIC_def XMAGIC_def okR_def)
  qed
  show ?thesis unfolding parse_header_def e(3)
    by (simp add: m bind_operand [OF assms(2)] bind_operand [OF assms(3)] bind_operand [OF assms(4)] bind_operand [OF assms(5)]
        bind_operand [OF assms(6)] bind_operand [OF assms(7)] bind_operand [OF e(1)] bind_operand [OF e(2)] okR_def head_of_def split: option.split)
qed

text \<open>The module the file stands for, in a machine where its code is at \<open>prog\<close> and its first descriptor is \<open>nt\<close>.\<close>

definition module_of :: "cmod \<Rightarrow> WORD \<Rightarrow> tid \<Rightarrow> ptr \<Rightarrow> string \<Rightarrow> Module" where
  "module_of c prog nt mp pth =
     (let ts = map (\<lambda>j. Some (nt + j)) [0 ..< length (x_descs c)] in
      \<lparr>mref = 1, morigmp = mp, mtype = ts, mpath = pth, mss = sint (x_maxstack c), mprog = prog,
       mcode = map (loaded_inst prog) (x_insts c), mrt = sint (x_hints c), mname = strncpy (take (NAMELEN - 1) (x_name c)) NAMELEN,
       mentry = (case x_entry c of None \<Rightarrow> prog | Some (pc, ti) \<Rightarrow> prog + sizeof_Inst * pc),
       mentryt = (case x_entry c of None \<Rightarrow> None | Some (pc, ti) \<Rightarrow> Some (nt + unat ti)),
       mext = rev (map (export_link prog ts) (x_exports c))\<rparr>)"

definition cmod_ok :: "cmod \<Rightarrow> bool" where
  \<comment> \<open>what the rest of the compiler sees to\<close>
  "cmod_ok c \<longleftrightarrow> sint (x_ninst c) = int (length (x_insts c)) \<and> sint (x_ndesc c) = int (length (x_descs c)) \<and>
     sint (x_nlink c) = int (length (x_exports c)) \<and>
     (\<forall>i \<in> set (x_insts c). inst_ok (int (length (x_insts c))) i) \<and>
     (\<forall>j < length (x_descs c). sint (ds_id (x_descs c ! j)) = int j \<and> length (ds_map (x_descs c ! j)) < 2 ^ 31) \<and>
     (x_offset c \<noteq> 0 \<longrightarrow> x_descs c \<noteq> [] \<and> ds_size (x_descs c ! 0) = x_offset c) \<and>
     (\<forall>x \<in> set (x_exports c). export_ok (replicate (length (x_descs c)) None) x) \<and> 0 \<notin> set (x_name c) \<and>
     (\<forall>pc ti. x_entry c = Some (pc, ti) \<longrightarrow> 0 \<le> sint pc \<and> sint pc < sint (x_ninst c) \<and> 0 \<le> sint ti \<and> sint ti < sint (x_ndesc c)) \<and>
     sum_list (map act_weight (concat (map (\<lambda>(off, n). calls off n) (x_globals c)))) < 2 ^ 31"


definition module0 :: "cmod \<Rightarrow> WORD \<Rightarrow> tid \<Rightarrow> ptr \<Rightarrow> Module" where  \<comment> \<open>as it is when the data are read\<close>
  "module0 c prog nt mp = newmodule\<lparr>mss := sint (x_maxstack c), mrt := sint (x_hints c), mprog := prog, mref := 1,
     mcode := map (loaded_inst prog) (x_insts c), mtype := map (\<lambda>j. Some (nt + j)) [0 ..< length (x_descs c)], morigmp := mp\<rparr>"

lemma setentry_read:
  assumes "cmod_ok c" "mprog m = prog" "mtype m = map (\<lambda>j. Some (nt + j)) [0 ..< length (x_descs c)]"
  shows "setentry (head_of c) m = Some (m\<lparr>mentry := (case x_entry c of None \<Rightarrow> prog | Some (pc, ti) \<Rightarrow> prog + sizeof_Inst * pc),
    mentryt := (case x_entry c of None \<Rightarrow> None | Some (pc, ti) \<Rightarrow> Some (nt + unat ti))\<rparr>)"
proof (cases "x_entry c")
  case None
  have "\<not> (-1 :: WORD) < x_ninst c" by (simp add: not_less word_order.extremum)
  then show ?thesis using None assms(2) by (simp add: setentry_def head_of_def)
next
  case (Some e)
  obtain pc ti where e: "x_entry c = Some (pc, ti)" using Some by (cases e) simp
  have r: "0 \<le> sint pc" "sint pc < sint (x_ninst c)" "0 \<le> sint ti" "sint ti < sint (x_ndesc c)"
    and n: "sint (x_ndesc c) = int (length (x_descs c))" using assms(1) e by (auto simp: cmod_ok_def)
  have lt: "a < b" if "0 \<le> sint a" "sint a < sint b" for a b :: WORD
  proof -
    have "nat (sint a) < nat (sint b)" "0 \<le> sint b" using that by simp_all
    then show ?thesis using that(1) by (simp add: unat_sint word_less_nat_alt)
  qed
  have "pc < x_ninst c" "ti < x_ndesc c" using lt [OF r(1,2)] lt [OF r(3,4)] by simp_all
  moreover have "nat (sint ti) < length (x_descs c)" "sint ti < int (length (x_descs c))" using r n by linarith+
  ultimately show ?thesis using e r(3) assms(2,3) by (simp add: setentry_def head_of_def unat_sint)
qed

lemma origmp_read:
  assumes "cmod_ok c" "mtype m = map (\<lambda>j. Some (nt + j)) [0 ..< length (x_descs c)]" "types \<sigma> = addtypes nt (x_descs c) ty"
    "if x_offset c = 0 then mp = H \<and> \<sigma>' = \<sigma> else heapz nt \<sigma> = Ret mp \<sigma>'" "morigmp m = H"
  shows "parse_origmp (sint (x_offset c)) m p \<sigma> = LOk () (m\<lparr>morigmp := mp\<rparr>) p \<sigma>'"
proof (cases "x_offset c = 0")
  case True
  then show ?thesis using assms(4) by (cases m) (simp add: parse_origmp_def assms(5) [symmetric])
next
  case False
  then obtain d ds where d: "x_descs c = d # ds" "ds_size d = x_offset c"
    using assms(1) by (cases "x_descs c") (auto simp: cmod_ok_def)
  have "mtype m = Some nt # map (\<lambda>j. Some (nt + j)) [1 ..< length (x_descs c)]" unfolding assms(2) d(1) by (simp add: upt_conv_Cons del: upt_Suc)
  then show ?thesis using False assms(3,4) d by (simp add: parse_origmp_def addtypes_def desc_type_def signed_eq_0_iff)
qed

lemma modcom_parts:
  assumes "modcom c = Some bs"
  shows "\<exists>b0 b1 b2 b3 b4 b5 b6 b7 bi bd bv bm.
    (discon (of_int XMAGIC) = Some b0 \<and> discon (x_hints c) = Some b1 \<and> discon (x_maxstack c) = Some b2 \<and> discon (x_ninst c) = Some b3 \<and>
     discon (x_offset c) = Some b4 \<and> discon (x_ndesc c) = Some b5 \<and> discon (x_nlink c) = Some b6 \<and> disentry (x_entry c) = Some b7) \<and>
    disinst (x_insts c) [] [] = Inr bi \<and> disdesc (x_descs c) = Some bd \<and> disvar (x_globals c) = Some bv \<and>
    dismod (x_name c) (x_exports c) = Some bm \<and> bs = b0 @ b1 @ b2 @ b3 @ b4 @ b5 @ b6 @ b7 @ bi @ bd @ bv @ bm"
proof -
  obtain b0 b1 b2 b3 b4 b5 b6 b7 bi bd bv bm where b:
    "discon (of_int XMAGIC) = Some b0" "discon (x_hints c) = Some b1" "discon (x_maxstack c) = Some b2" "discon (x_ninst c) = Some b3"
    "discon (x_offset c) = Some b4" "discon (x_ndesc c) = Some b5" "discon (x_nlink c) = Some b6" "disentry (x_entry c) = Some b7"
    "(case disinst (x_insts c) [] [] of Inl _ \<Rightarrow> None | Inr bs \<Rightarrow> Some bs) = Some bi" "disdesc (x_descs c) = Some bd"
    "disvar (x_globals c) = Some bv" "dismod (x_name c) (x_exports c) = Some bm"
    "bs = b0 @ b1 @ b2 @ b3 @ b4 @ b5 @ b6 @ b7 @ bi @ bd @ bv @ bm @ []"
    using assms unfolding modcom_def concatO_simps by (elim exE conjE) simp
  then show ?thesis by (auto split: sum.splits)
qed

lemma cmod_okD:
  assumes "cmod_ok c"
  shows "sint (x_ninst c) = int (length (x_insts c))" "sint (x_ndesc c) = int (length (x_descs c))" "sint (x_nlink c) = int (length (x_exports c))"
    "\<forall>i \<in> set (x_insts c). inst_ok (int (length (x_insts c))) i" "\<forall>d \<in> set (x_descs c). length (ds_map d) < 2 ^ 31"
    "j < length (x_descs c) \<Longrightarrow> sint (ds_id (x_descs c ! j)) = int (0 + j)"
    "\<forall>x \<in> set (x_exports c). export_ok (map (\<lambda>j. Some (nt + j)) [0 ..< length (x_descs c)]) x" "0 \<notin> set (x_name c)"
    "sum_list (map act_weight (concat (map (\<lambda>(off, n). calls off n) (x_globals c)))) < 2 ^ 31"
proof -
  have e: "export_ok (replicate n None) x \<Longrightarrow> export_ok (map f [0 ..< n]) x" for n x and f :: "nat \<Rightarrow> tid option"
    by (simp add: export_ok_def split: export.splits)
  show "\<forall>x \<in> set (x_exports c). export_ok (map (\<lambda>j. Some (nt + j)) [0 ..< length (x_descs c)]) x"
    using assms e unfolding cmod_ok_def by blast
qed (use assms in \<open>simp_all add: cmod_ok_def all_set_conv_all_nth\<close>)

lemma code_part:
  assumes "disinst is [] [] = Inr bi" "\<forall>i \<in> set is. inst_ok (int (length is)) i"
  shows "readpart (\<lambda>c. mcode_update (\<lambda>_. c)) (parse_insts prog (int (length is)) (length is)) m (bi @ r) \<sigma> =
    LOk () (m\<lparr>mcode := map (loaded_inst prog) is\<rparr>) r \<sigma>"
proof -
  have "parse_insts prog (int (length is)) (length is) (bi @ r) = Some (Inr (map (loaded_inst prog) is, r))"
    using disinst_read [OF assms(2), of "[]" "[]" bi prog] assms(1) by (simp add: NIBUF_def)
  then show ?thesis by (simp add: readpart_def)
qed

lemma name_links_part:
  assumes "dismod nm xs = Some bm" "0 \<notin> set nm" "\<forall>x \<in> set xs. export_ok (mtype m) x" "\<And>k n. mal k n \<noteq> 0" "mext m = []"
  shows "\<exists>r m'. parse_name m (bm @ q) \<sigma> = LOk () m' r \<sigma> \<and> parse_links mal 0 (length xs) m' r \<sigma> =
    LOk () (m\<lparr>mname := strncpy (take (NAMELEN - 1) nm) NAMELEN, mext := rev (map (export_link (mprog m) (mtype m)) xs)\<rparr>) q \<sigma>"
proof -
  obtain bss where bss: "bm = (take (NAMELEN - 1) nm @ [0]) @ concat bss" "map disexport xs = map Some bss"
    using assms(1) unfolding dismod_def concatO_simps by (elim exE conjE) (auto dest: concatO_map)
  let ?m = "m\<lparr>mname := strncpy (take (NAMELEN - 1) nm) NAMELEN\<rparr>"
  have "0 \<notin> set (take (NAMELEN - 1) nm)" using assms(2) by (meson in_set_takeD)
  then have "parse_name m (bm @ q) \<sigma> = LOk () ?m (concat bss @ q) \<sigma>"
    using cstr_read [of "take (NAMELEN - 1) nm" "concat bss @ q"] by (simp add: parse_name_def bss(1))
  moreover have "parse_links mal 0 (length xs) ?m (concat bss @ q) \<sigma> =
      LOk () (m\<lparr>mname := strncpy (take (NAMELEN - 1) nm) NAMELEN, mext := rev (map (export_link (mprog m) (mtype m)) xs)\<rparr>) q \<sigma>"
    using parse_links_read [OF bss(2), of ?m mal 0 q \<sigma>] assms(3-5) by simp
  ultimately show ?thesis by blast
qed

lemma loaded_LOk [simp]: "loaded mi (LOk u m q \<sigma>) f = f m q \<sigma>"
  by (simp add: loaded_def)

lemma modcom_loads:
  assumes "modcom c = Some bs" "cmod_ok c" "\<And>k n. mal k n \<noteq> 0" "sint (x_hints c) AND MUSTCOMPILE = 0"
    and "prog = mal 1 (of_int (int (length (x_insts c)) * 12))"
    and "\<sigma>1 = \<sigma>\<lparr>types := addtypes nt (x_descs c) (types \<sigma>)\<rparr>"
    and "if x_offset c = 0 then mp = H \<and> \<sigma>2 = \<sigma>1 else heapz nt \<sigma>1 = Ret mp \<sigma>2"
    and "acts_run (concat (map (\<lambda>(off, n). calls off n) (x_globals c))) (mp, []) (module0 c prog nt mp) \<sigma>2 = LOk y m' [] \<sigma>3"
  shows "parsemod mal jit False mi nt pth (bs @ q) \<sigma> = Ret (Some mi) (addmod mi (module_of c prog nt mp pth) \<sigma>3)"
proof -
  obtain b0 b1 b2 b3 b4 b5 b6 b7 bi bd bv bm where b:
    "discon (of_int XMAGIC) = Some b0" "discon (x_hints c) = Some b1" "discon (x_maxstack c) = Some b2" "discon (x_ninst c) = Some b3"
    "discon (x_offset c) = Some b4" "discon (x_ndesc c) = Some b5" "discon (x_nlink c) = Some b6" "disentry (x_entry c) = Some b7"
    "disinst (x_insts c) [] [] = Inr bi" "disdesc (x_descs c) = Some bd" "disvar (x_globals c) = Some bv" "dismod (x_name c) (x_exports c) = Some bm"
    and bs: "bs = b0 @ b1 @ b2 @ b3 @ b4 @ b5 @ b6 @ b7 @ bi @ bd @ bv @ bm"
    using modcom_parts [OF assms(1)] by blast
  note h = parse_header_read [OF b(1-8)] and ok = cmod_okD [OF assms(2)]
  let ?ts = "map (\<lambda>j. Some (nt + j)) [0 ..< length (x_descs c)]" and ?r = "bv @ bm @ q" and ?M = "module0 c prog nt mp"
  let ?m1 = "newmodule\<lparr>mss := sint (x_maxstack c), mrt := sint (x_hints c), mprog := prog, mref := 1\<rparr>"
  let ?m2 = "?m1\<lparr>mcode := map (loaded_inst prog) (x_insts c)\<rparr>"
  have types: "parse_types mal nt 0 (length (x_descs c)) (?m2\<lparr>mtype := replicate (length (x_descs c)) None\<rparr>) (bd @ ?r) \<sigma> =
      LOk () (?m2\<lparr>mtype := ?ts\<rparr>) ?r \<sigma>1"
    using parse_types_read [OF b(10) ok(6) _ assms(3) ok(5), where m = "?m2\<lparr>mtype := replicate (length (x_descs c)) None\<rparr>"] assms(6) by simp
  have mp: "parse_origmp (sint (x_offset c)) (?m2\<lparr>mtype := ?ts\<rparr>) ?r \<sigma>1 = LOk () ?M ?r \<sigma>2"
    using origmp_read [OF assms(2) _ _ assms(7), of "?m2\<lparr>mtype := ?ts\<rparr>" "types \<sigma>" ?r] assms(6) by (simp add: module0_def newmodule_def)
  have d: "parse_data mp [] ?M ?r \<sigma>2 = LOk () m' (bm @ q) \<sigma>3"
    using disvar_read [OF b(11) refl ok(9), of mp ?M "bm @ q" \<sigma>2] unfolding assms(8) by simp
  have data: "parse_data mp [] ?M ?r \<sigma>2 = LOk () ?M (bm @ q) \<sigma>3" using d parse_data_code [OF d] by simp
  let ?m4 = "?M\<lparr>mname := strncpy (take (NAMELEN - 1) (x_name c)) NAMELEN, mext := rev (map (export_link prog ?ts) (x_exports c))\<rparr>"
  obtain r3 m3 where links: "parse_name ?M (bm @ q) \<sigma>3 = LOk () m3 r3 \<sigma>3" "parse_links mal 0 (length (x_exports c)) m3 r3 \<sigma>3 = LOk () ?m4 q \<sigma>3"
    using name_links_part [where m = ?M and mal = mal and q = q and \<sigma> = \<sigma>3, OF b(12) ok(8) _ assms(3)] ok(7)
    by (auto simp: module0_def newmodule_def)
  have entry: "setentry (head_of c) ?m4 = Some (module_of c prog nt mp [])"
    using setentry_read [OF assms(2), of ?m4 prog nt] by (simp add: module0_def module_of_def newmodule_def Let_def)
  have hd: "h_isize (head_of c) = int (length (x_insts c))" "h_hsize (head_of c) = int (length (x_descs c))" "h_lsize (head_of c) = int (length (x_exports c))"
    "h_ss (head_of c) = sint (x_maxstack c)" "h_rt (head_of c) = sint (x_hints c)" "h_dsize (head_of c) = sint (x_offset c)"
    using ok(1-3) by (simp_all add: head_of_def)
  have m: "morigmp ?M = mp" "(module_of c prog nt mp [])\<lparr>mpath := pth\<rparr> = module_of c prog nt mp pth" "mrt (module_of c prog nt mp []) = sint (x_hints c)"
    by (simp_all add: module0_def module_of_def Let_def)
  show ?thesis unfolding parsemod_def bs append.assoc h option.case sum.case prod.case Let_def hd nat_int assms(5) [symmetric]
    using assms(3) [of 1 "of_int (int (length (x_insts c)) * 12)", folded assms(5)]
    by (simp add: need_def assms(3,4) code_part [OF b(9) ok(4)] types mp data links entry m compiling_def del: One_nat_def)
qed

text \<open>A module of two instructions that exports one function.\<close>

definition some_module :: cmod where
  "some_module = \<lparr>x_hints = 0, x_maxstack = 64, x_ninst = 2, x_offset = 0, x_ndesc = 1, x_nlink = 1, x_entry = Some (0, 0),
     x_insts = some_code, x_descs = [\<lparr>ds_id = 0, ds_size = 32, ds_map = [0x80]\<rparr>], x_globals = [], x_name = [77],
     x_exports = [Xfn 0 0 0x1234 None [105]]\<rparr>"

definition some_module_bytes :: "byte list" where
  "some_module_bytes = [0xC0, 0x0C, 0x80, 0x30, 0, 0x80, 0x40, 2, 0, 1, 1, 0, 0, 13, 0x1A, 1, 12, 0x1B, 0, 32, 1, 0x80, 0, 77, 0,
     0, 0, 0, 0, 0x12, 0x34, 105, 0]"

lemma some_module_facts:
  "modcom some_module = Some some_module_bytes" "cmod_ok some_module" "sint (x_hints some_module) AND MUSTCOMPILE = 0"
  "x_offset some_module = 0" "x_globals some_module = []" "length (x_insts some_module) = 2"
proof -
  show "modcom some_module = Some some_module_bytes" by code_simp
  show "cmod_ok some_module"
    using some_code_ok by (simp add: cmod_ok_def some_module_def export_ok_def)
qed (simp_all add: some_module_def some_code_ok MUSTCOMPILE_def)

definition some_loaded :: vm where
  "some_loaded = addmod 0 (module_of some_module 0x1000 10 H ''m'') (vm0\<lparr>types := addtypes 10 (x_descs some_module) (types vm0)\<rparr>)"

text \<open>
  C8 The compiler and the loader agree on the whole file: a module the compiler writes is loaded with the instructions,
  descriptors, entry and exports it was compiled to, branch targets made addresses, its data initialised by the stores
  its globals mean, and the file is read to its end. (The conditions are those the rest of the compiler establishes; there
  is memory, and no machine code is asked for.)
\<close>

theorem modcom_parsemod:
  assumes "modcom c = Some bs" "cmod_ok c" "\<And>k n. mal k n \<noteq> 0" "sint (x_hints c) AND MUSTCOMPILE = 0"
    and "prog = mal 1 (of_int (int (length (x_insts c)) * 12))"
    and "\<sigma>1 = \<sigma>\<lparr>types := addtypes nt (x_descs c) (types \<sigma>)\<rparr>"
    and "if x_offset c = 0 then mp = H \<and> \<sigma>2 = \<sigma>1 else heapz nt \<sigma>1 = Ret mp \<sigma>2"
    and "acts_run (concat (map (\<lambda>(off, n). calls off n) (x_globals c))) (mp, []) (module0 c prog nt mp) \<sigma>2 = LOk y m' [] \<sigma>3"
  shows "parsemod mal jit False mi nt pth (bs @ q) \<sigma> = Ret (Some mi) (addmod mi (module_of c prog nt mp pth) \<sigma>3)"
  by (rule modcom_loads [where mal = mal, OF assms])

lemma modcom_parsemod_witness:
  "parsemod (\<lambda>_ _. 0x1000) (\<lambda>m \<sigma>. (True, \<sigma>)) False 0 10 ''m'' (some_module_bytes @ [1]) vm0 = Ret (Some 0) some_loaded"
  unfolding some_loaded_def
  by (rule modcom_parsemod [OF some_module_facts(1,2) _ some_module_facts(3) refl refl]) (simp_all add: some_module_facts)



end
