(* ===== verification/Styx.thy ===== *)
theory Styx
  imports Dis_Prelude
begin

text \<open>
  The messages of the Styx file protocol: \<^verbatim>\<open>convS2M\<close>, \<^verbatim>\<open>convM2S\<close>, \<^verbatim>\<open>convD2M\<close> and \<^verbatim>\<open>convM2D\<close> of \<^verbatim>\<open>emu/styx.c\<close> over
  the structures of \<^verbatim>\<open>include/styx.h\<close>. A pointer into a message that is written is the bytes before it and
  those from it on, one into a message that is read the bytes from it on; \<open>None\<close> is an access past the end
  of the buffer. The bytes of \<^verbatim>\<open>data\<close> are those from the pointer on that \<^verbatim>\<open>count\<close> tells.
\<close>

unbundle bit_operations_syntax

section \<open>Messages\<close>

definition ERRLEN :: nat where "ERRLEN = 64"
definition DIRLEN :: nat where "DIRLEN = 116"

datatype STYXtype =
    Tnop | Rnop | Terror | Rerror | Tflush | Rflush | Tclone | Rclone | Twalk | Rwalk | Topen | Ropen
  | Tcreate | Rcreate | Tread | Rread | Twrite | Rwrite | Tclunk | Rclunk | Tremove | Rremove
  | Tstat | Rstat | Twstat | Rwstat | Tsession | Rsession | Tattach | Rattach

definition STYXtypes :: "STYXtype list" where  \<comment> \<open>in the order of the enumeration\<close>
  "STYXtypes = [Tnop, Rnop, Terror, Rerror, Tflush, Rflush, Tclone, Rclone, Twalk, Rwalk, Topen, Ropen,
     Tcreate, Rcreate, Tread, Rread, Twrite, Rwrite, Tclunk, Rclunk, Tremove, Rremove,
     Tstat, Rstat, Twstat, Rwstat, Tsession, Rsession, Tattach, Rattach]"

definition Tmax :: nat where "Tmax = 30"

record Qid =
  path :: WORD
  vers :: WORD

record Fcall =
  f_type :: nat
  f_fid :: "16 word"
  f_tag :: "16 word"
  f_oldtag :: "16 word"
  f_qid :: Qid
  f_uname :: "byte list"
  f_aname :: "byte list"
  f_ename :: "byte list"
  f_perm :: WORD
  f_newfid :: "16 word"
  f_name :: "byte list"
  f_mode :: byte
  f_offset :: WORD
  f_count :: WORD
  f_data :: "byte list"
  f_stat :: "byte list"

record Dir =
  d_name :: "byte list"
  d_uid :: "byte list"
  d_gid :: "byte list"
  d_qid :: Qid
  d_mode :: WORD
  d_atime :: WORD
  d_mtime :: WORD
  d_length :: WORD
  d_type :: "16 word"
  d_dev :: "16 word"

definition msglen :: "int list" where
  "msglen = [3, 3, 0, 67, 5, 3, 7, 5, 33, 13, 6, 13, 38, 13, 15, 8, 16, 7, 5, 5, 5, 5, 5, 121, 121, 5, 0, 0,
     5 + 2 * int NAMELEN, 13]"

section \<open>The macros\<close>

text \<open>The statements of a case, one after the other.\<close>

primrec steps :: "('s \<Rightarrow> 's option) list \<Rightarrow> 's \<Rightarrow> 's option" where
  "steps [] s = Some s"
| "steps (m # ms) s = (case m s of None \<Rightarrow> None | Some s' \<Rightarrow> steps ms s')"

type_synonym wptr = "byte list \<times> byte list"   \<comment> \<open>the bytes before \<^verbatim>\<open>p\<close>, the bytes from \<^verbatim>\<open>p\<close> on\<close>

definition put :: "byte list \<Rightarrow> wptr \<Rightarrow> wptr option" where
  "put bs = (\<lambda>(w, q). if length bs \<le> length q then Some (w @ bs, drop (length bs) q) else None)"

definition PCHAR :: "byte \<Rightarrow> wptr \<Rightarrow> wptr option" where
  "PCHAR x = put [x]"

definition PSHORT :: "'a::len word \<Rightarrow> wptr \<Rightarrow> wptr option" where
  "PSHORT x = put [ucast x, ucast (drop_bit 8 x)]"

definition PLONG :: "WORD \<Rightarrow> wptr \<Rightarrow> wptr option" where
  "PLONG x = put [ucast x, ucast (drop_bit 8 x), ucast (drop_bit 16 x), ucast (drop_bit 24 x)]"

definition PVLONG :: "WORD \<Rightarrow> wptr \<Rightarrow> wptr option" where
  "PVLONG x = put [ucast x, ucast (drop_bit 8 x), ucast (drop_bit 16 x), ucast (drop_bit 24 x), 0, 0, 0, 0]"

definition PSTRING :: "byte list \<Rightarrow> int \<Rightarrow> wptr \<Rightarrow> wptr option" where
  "PSTRING x n s = (if 0 \<le> n \<and> n \<le> int (length x) then put (take (nat n) x) s else None)"

definition PPAD :: "wptr \<Rightarrow> wptr option" where  \<comment> \<open>\<^verbatim>\<open>p++\<close>: the byte stays as it is\<close>
  "PPAD = (\<lambda>(w, q). case q of [] \<Rightarrow> None | c # q' \<Rightarrow> Some (w @ [c], q'))"

type_synonym 'f rptr = "byte list \<times> 'f"   \<comment> \<open>the bytes from \<^verbatim>\<open>p\<close> on, the structure filled\<close>

definition GCHAR :: "(byte \<Rightarrow> 'f \<Rightarrow> 'f) \<Rightarrow> 'f rptr \<Rightarrow> 'f rptr option" where
  "GCHAR upd = (\<lambda>(p, f). case p of c # q \<Rightarrow> Some (q, upd c f) | _ \<Rightarrow> None)"

definition GSHORT :: "(WORD \<Rightarrow> 'f \<Rightarrow> 'f) \<Rightarrow> 'f rptr \<Rightarrow> 'f rptr option" where
  "GSHORT upd = (\<lambda>(p, f). case p of a # b # q \<Rightarrow> Some (q, upd (ucast a OR push_bit 8 (ucast b)) f) | _ \<Rightarrow> None)"

definition GLONG :: "(WORD \<Rightarrow> 'f \<Rightarrow> 'f) \<Rightarrow> 'f rptr \<Rightarrow> 'f rptr option" where
  "GLONG upd = (\<lambda>(p, f). case p of a # b # c # d # q \<Rightarrow>
       Some (q, upd (ucast a OR push_bit 8 (ucast b) OR push_bit 16 (ucast c) OR push_bit 24 (ucast d)) f)
     | _ \<Rightarrow> None)"

definition GVLONG :: "(WORD \<Rightarrow> 'f \<Rightarrow> 'f) \<Rightarrow> 'f rptr \<Rightarrow> 'f rptr option" where
  "GVLONG upd = (\<lambda>(p, f). case p of a # b # c # d # e1 # e2 # e3 # e4 # q \<Rightarrow>
       Some (q, upd (ucast a OR push_bit 8 (ucast b) OR push_bit 16 (ucast c) OR push_bit 24 (ucast d)) f)
     | _ \<Rightarrow> None)"

definition GSTRING :: "(byte list \<Rightarrow> 'f \<Rightarrow> 'f) \<Rightarrow> nat \<Rightarrow> 'f rptr \<Rightarrow> 'f rptr option" where
  "GSTRING upd n = (\<lambda>(p, f). if n \<le> length p then Some (drop n p, upd (take n p) f) else None)"

definition GPAD :: "'f rptr \<Rightarrow> 'f rptr option" where
  "GPAD = (\<lambda>(p, f). case p of [] \<Rightarrow> None | c # q \<Rightarrow> Some (q, f))"

definition GDATA :: "Fcall rptr \<Rightarrow> Fcall rptr option" where  \<comment> \<open>\<^verbatim>\<open>f->data = (char*)p; p += f->count\<close>\<close>
  "GDATA = (\<lambda>(p, f). let n = sint (f_count f) in
     if 0 \<le> n \<and> n \<le> int (length p) then Some (drop (nat n) p, f\<lparr>f_data := take (nat n) p\<rparr>) else None)"

text \<open>The assignments to the fields, with the conversion to the type of the field.\<close>

abbreviation (input) "fid_s v \<equiv> f_fid_update (\<lambda>_. ucast v)"
abbreviation (input) "tag_s v \<equiv> f_tag_update (\<lambda>_. ucast v)"
abbreviation (input) "oldtag_s v \<equiv> f_oldtag_update (\<lambda>_. ucast v)"
abbreviation (input) "newfid_s v \<equiv> f_newfid_update (\<lambda>_. ucast v)"
abbreviation (input) "path_s v \<equiv> f_qid_update (path_update (\<lambda>_. v))"
abbreviation (input) "vers_s v \<equiv> f_qid_update (vers_update (\<lambda>_. v))"
abbreviation (input) "uname_s v \<equiv> f_uname_update (\<lambda>_. v)"
abbreviation (input) "aname_s v \<equiv> f_aname_update (\<lambda>_. v)"
abbreviation (input) "ename_s v \<equiv> f_ename_update (\<lambda>_. v)"
abbreviation (input) "name_s v \<equiv> f_name_update (\<lambda>_. v)"
abbreviation (input) "perm_s v \<equiv> f_perm_update (\<lambda>_. v)"
abbreviation (input) "mode_s v \<equiv> f_mode_update (\<lambda>_. v)"
abbreviation (input) "offset_s v \<equiv> f_offset_update (\<lambda>_. v)"
abbreviation (input) "count_s v \<equiv> f_count_update (\<lambda>_. v)"
abbreviation (input) "stat_s v \<equiv> f_stat_update (\<lambda>_. v)"

section \<open>Directory entries\<close>

definition convD2M :: "Dir \<Rightarrow> byte list \<Rightarrow> (nat \<times> byte list) option" where
  "convD2M f ap = map_option (\<lambda>(w, q). (length w, w @ q)) (steps
     [PSTRING (d_name f) (int NAMELEN),
      PSTRING (d_uid f) (int NAMELEN),
      PSTRING (d_gid f) (int NAMELEN),
      PLONG (path (d_qid f)),
      PLONG (vers (d_qid f)),
      PLONG (d_mode f),
      PLONG (d_atime f),
      PLONG (d_mtime f),
      PVLONG (d_length f),
      PSHORT (d_type f),
      PSHORT (d_dev f)] ([], ap))"

definition convM2D :: "byte list \<Rightarrow> Dir \<Rightarrow> (nat \<times> Dir) option" where
  "convM2D ap f = map_option (\<lambda>(p, f). (length ap - length p, f)) (steps
     [GSTRING (\<lambda>v. d_name_update (\<lambda>_. v)) NAMELEN,
      GSTRING (\<lambda>v. d_uid_update (\<lambda>_. v)) NAMELEN,
      GSTRING (\<lambda>v. d_gid_update (\<lambda>_. v)) NAMELEN,
      GLONG (\<lambda>v. d_qid_update (path_update (\<lambda>_. v))),
      GLONG (\<lambda>v. d_qid_update (vers_update (\<lambda>_. v))),
      GLONG (\<lambda>v. d_mode_update (\<lambda>_. v)),
      GLONG (\<lambda>v. d_atime_update (\<lambda>_. v)),
      GLONG (\<lambda>v. d_mtime_update (\<lambda>_. v)),
      GVLONG (\<lambda>v. d_length_update (\<lambda>_. v)),
      GSHORT (\<lambda>v. d_type_update (\<lambda>_. ucast v)),
      GSHORT (\<lambda>v. d_dev_update (\<lambda>_. ucast v))] (ap, f))"

section \<open>Requests and replies\<close>

text \<open>The case of a request or reply that carries data checks the length of it before it takes it.\<close>

definition convM2S_data :: "int \<Rightarrow> int \<Rightarrow> Fcall rptr \<Rightarrow> (Fcall rptr + Fcall) option" where
  \<comment> \<open>\<open>Inr\<close>: \<^verbatim>\<open>return 0\<close>\<close>
  "convM2S_data n len = (\<lambda>(p, f).
     if n < len + sint (f_count f) then Some (Inr f)
     else map_option Inl (steps [GPAD, GDATA] (p, f)))"

text \<open>
  The cases of the switch of \<^verbatim>\<open>convM2S\<close>, \<open>None\<close> the default. \<open>True\<close> marks the two that go on with the check of the length
  of the data and take it (\<open>convM2S_data\<close>).
\<close>

definition convM2S_case :: "STYXtype \<Rightarrow> ((Fcall rptr \<Rightarrow> Fcall rptr option) list \<times> bool) option" where
  "convM2S_case t = (case t of
     Tnop \<Rightarrow> Some ([], False)
   | Tflush \<Rightarrow> Some ([GSHORT oldtag_s], False)
   | Tattach \<Rightarrow> Some ([GSHORT fid_s, GSTRING uname_s NAMELEN, GSTRING aname_s NAMELEN], False)
   | Tclone \<Rightarrow> Some ([GSHORT fid_s, GSHORT newfid_s], False)
   | Twalk \<Rightarrow> Some ([GSHORT fid_s, GSTRING name_s NAMELEN], False)
   | Topen \<Rightarrow> Some ([GSHORT fid_s, GCHAR mode_s], False)
   | Tcreate \<Rightarrow> Some ([GSHORT fid_s, GSTRING name_s NAMELEN, GLONG perm_s, GCHAR mode_s], False)
   | Tread \<Rightarrow> Some ([GSHORT fid_s, GVLONG offset_s, GSHORT count_s], False)
   | Twrite \<Rightarrow> Some ([GSHORT fid_s, GVLONG offset_s, GSHORT count_s], True)
   | Tclunk \<Rightarrow> Some ([GSHORT fid_s], False)
   | Tremove \<Rightarrow> Some ([GSHORT fid_s], False)
   | Tstat \<Rightarrow> Some ([GSHORT fid_s], False)
   | Twstat \<Rightarrow> Some ([GSHORT fid_s, GSTRING stat_s DIRLEN], False)
   | Rnop \<Rightarrow> Some ([], False)
   | Rerror \<Rightarrow> Some ([GSTRING ename_s ERRLEN], False)
   | Rflush \<Rightarrow> Some ([], False)
   | Rattach \<Rightarrow> Some ([GSHORT fid_s, GLONG path_s, GLONG vers_s], False)
   | Rclone \<Rightarrow> Some ([GSHORT fid_s], False)
   | Rwalk \<Rightarrow> Some ([GSHORT fid_s, GLONG path_s, GLONG vers_s], False)
   | Ropen \<Rightarrow> Some ([GSHORT fid_s, GLONG path_s, GLONG vers_s], False)
   | Rcreate \<Rightarrow> Some ([GSHORT fid_s, GLONG path_s, GLONG vers_s], False)
   | Rread \<Rightarrow> Some ([GSHORT fid_s, GSHORT count_s], True)
   | Rwrite \<Rightarrow> Some ([GSHORT fid_s, GSHORT count_s], False)
   | Rclunk \<Rightarrow> Some ([GSHORT fid_s], False)
   | Rremove \<Rightarrow> Some ([GSHORT fid_s], False)
   | Rstat \<Rightarrow> Some ([GSHORT fid_s, GSTRING stat_s DIRLEN], False)
   | Rwstat \<Rightarrow> Some ([GSHORT fid_s], False)
   | _ \<Rightarrow> None)"

definition convM2S :: "byte list \<Rightarrow> Fcall \<Rightarrow> int \<Rightarrow> (int \<times> Fcall) option" where
  "convM2S ap f n =
     (let ret = map_option (\<lambda>(p, f). (int (length ap) - int (length p), f)) in
      if n < 3 then Some (0, f) else
      case steps [GCHAR (\<lambda>v. f_type_update (\<lambda>_. unat v)), GSHORT tag_s] (ap, f) of None \<Rightarrow> None | Some (p, f) \<Rightarrow>
      if f_type f \<ge> Tmax then Some (-1, f)
      else if n < msglen ! f_type f then Some (0, f)
      else
        (case convM2S_case (STYXtypes ! f_type f) of
           None \<Rightarrow> Some (-1, f)
         | Some (ms, False) \<Rightarrow> ret (steps ms (p, f))
         | Some (ms, True) \<Rightarrow>
             (case steps ms (p, f) of None \<Rightarrow> None | Some s \<Rightarrow>
                (case convM2S_data n (msglen ! f_type (snd s)) s of None \<Rightarrow> None
                 | Some (Inr f) \<Rightarrow> Some (0, f)
                 | Some (Inl s) \<Rightarrow> ret (Some s)))))"

definition convS2M_case :: "Fcall \<Rightarrow> STYXtype \<Rightarrow> (wptr \<Rightarrow> wptr option) list option" where
  "convS2M_case f t = (case t of
     Tnop \<Rightarrow> Some []
   | Tflush \<Rightarrow> Some [PSHORT (f_oldtag f)]
   | Tattach \<Rightarrow> Some [PSHORT (f_fid f), PSTRING (f_uname f) (int NAMELEN), PSTRING (f_aname f) (int NAMELEN)]
   | Tclone \<Rightarrow> Some [PSHORT (f_fid f), PSHORT (f_newfid f)]
   | Twalk \<Rightarrow> Some [PSHORT (f_fid f), PSTRING (f_name f) (int NAMELEN)]
   | Topen \<Rightarrow> Some [PSHORT (f_fid f), PCHAR (f_mode f)]
   | Tcreate \<Rightarrow> Some [PSHORT (f_fid f), PSTRING (f_name f) (int NAMELEN), PLONG (f_perm f), PCHAR (f_mode f)]
   | Tread \<Rightarrow> Some [PSHORT (f_fid f), PVLONG (f_offset f), PSHORT (f_count f)]
   | Twrite \<Rightarrow> Some [PSHORT (f_fid f), PVLONG (f_offset f), PSHORT (f_count f), PPAD,
          PSTRING (f_data f) (sint (f_count f))]
   | Tclunk \<Rightarrow> Some [PSHORT (f_fid f)]
   | Tremove \<Rightarrow> Some [PSHORT (f_fid f)]
   | Tstat \<Rightarrow> Some [PSHORT (f_fid f)]
   | Twstat \<Rightarrow> Some [PSHORT (f_fid f), PSTRING (f_stat f) (int DIRLEN)]
   | Rnop \<Rightarrow> Some []
   | Rerror \<Rightarrow> Some [PSTRING (f_ename f) (int ERRLEN)]
   | Rflush \<Rightarrow> Some []
   | Rattach \<Rightarrow> Some [PSHORT (f_fid f), PLONG (path (f_qid f)), PLONG (vers (f_qid f))]
   | Rclone \<Rightarrow> Some [PSHORT (f_fid f)]
   | Rwalk \<Rightarrow> Some [PSHORT (f_fid f), PLONG (path (f_qid f)), PLONG (vers (f_qid f))]
   | Ropen \<Rightarrow> Some [PSHORT (f_fid f), PLONG (path (f_qid f)), PLONG (vers (f_qid f))]
   | Rcreate \<Rightarrow> Some [PSHORT (f_fid f), PLONG (path (f_qid f)), PLONG (vers (f_qid f))]
   | Rread \<Rightarrow> Some [PSHORT (f_fid f), PSHORT (f_count f), PPAD, PSTRING (f_data f) (sint (f_count f))]
   | Rwrite \<Rightarrow> Some [PSHORT (f_fid f), PSHORT (f_count f)]
   | Rclunk \<Rightarrow> Some [PSHORT (f_fid f)]
   | Rremove \<Rightarrow> Some [PSHORT (f_fid f)]
   | Rstat \<Rightarrow> Some [PSHORT (f_fid f), PSTRING (f_stat f) (int DIRLEN)]
   | Rwstat \<Rightarrow> Some [PSHORT (f_fid f)]
   | _ \<Rightarrow> None)"

definition convS2M :: "Fcall \<Rightarrow> byte list \<Rightarrow> (int \<times> byte list) option" where
  "convS2M f ap =
     (case steps [PCHAR (of_nat (f_type f)), PSHORT (f_tag f)] ([], ap) of None \<Rightarrow> None | Some (w, q) \<Rightarrow>
      case (if f_type f \<ge> Tmax then None else convS2M_case f (STYXtypes ! f_type f)) of
        None \<Rightarrow> Some (-1, w @ q)
      | Some ms \<Rightarrow> map_option (\<lambda>(w, q). (int (length w), w @ q)) (steps ms (w, q)))"

section \<open>What is written is read back\<close>

lemmas put_defs = PCHAR_def PSHORT_def PLONG_def PVLONG_def PSTRING_def PPAD_def put_def
lemmas get_defs = GCHAR_def GSHORT_def GLONG_def GVLONG_def GSTRING_def GPAD_def GDATA_def
lemmas styx_lens = NAMELEN_def ERRLEN_def DIRLEN_def

lemma steps_eq_Some:
  "steps (m # ms) s = Some r \<longleftrightarrow> (\<exists>s'. m s = Some s' \<and> steps ms s' = Some r)"
  by (simp split: option.split)

lemma short_bytes:
  "ucast (ucast (ucast x :: byte) OR push_bit 8 (ucast (ucast (drop_bit 8 x) :: byte)) :: WORD) = (x :: 16 word)"
proof (rule bit_word_eqI)
  fix n assume "n < LENGTH(16)"
  then consider "n < 8" | "8 \<le> n" "n < 16" by fastforce
  then show "bit (ucast (ucast (ucast x :: byte) OR push_bit 8 (ucast (ucast (drop_bit 8 x) :: byte)) :: WORD) :: 16 word) n = bit x n"
    by cases (auto simp: bit_simps)
qed

lemma count_bytes:
  assumes "unat x < 65536"
  shows "ucast (ucast x :: byte) OR push_bit 8 (ucast (ucast (drop_bit 8 x) :: byte)) = (x :: WORD)"
proof (rule bit_word_eqI)
  have x: "x = take_bit 16 x" using assms by (intro word_unat_eq_iff [THEN iffD2]) (simp only: unsigned_take_bit_eq, rule take_bit_nat_eq_self [symmetric], simp)
  have h: "\<not> bit x n" if "16 \<le> n" for n using that by (subst x) (simp add: bit_take_bit_iff)
  fix n assume "n < LENGTH(32)"
  then consider "n < 8" | "8 \<le> n" "n < 16" | "16 \<le> n" "n < 32" by fastforce
  then show "bit (ucast (ucast x :: byte) OR push_bit 8 (ucast (ucast (drop_bit 8 x) :: byte)) :: WORD) n = bit x n"
    by cases (auto simp: bit_simps h)
qed

lemma long_bytes:
  "ucast (ucast x :: byte) OR push_bit 8 (ucast (ucast (drop_bit 8 x) :: byte)) OR
   push_bit 16 (ucast (ucast (drop_bit 16 x) :: byte)) OR push_bit 24 (ucast (ucast (drop_bit 24 x) :: byte)) = (x :: WORD)"
  (is "?l = x")
proof (rule bit_word_eqI)
  fix n assume "n < LENGTH(32)"
  then consider "n < 8" | "8 \<le> n" "n < 16" | "16 \<le> n" "n < 24" | "24 \<le> n" "n < 32" by fastforce
  then show "bit ?l n = bit x n" by cases (auto simp: bit_simps)
qed

text \<open>
  \<open>coded\<close> pairs the statements that write a message with those that read it: what the first write are \<open>k\<close> bytes, and
  the second read them to the update \<open>u\<close> of the structure.
\<close>

definition codes :: "nat \<Rightarrow> (wptr \<Rightarrow> wptr option) \<Rightarrow> ('f rptr \<Rightarrow> 'f rptr option) \<Rightarrow> ('f \<Rightarrow> 'f) \<Rightarrow> bool" where
  "codes k P G u \<longleftrightarrow> (\<forall>w q w' q'. P (w, q) = Some (w', q') \<longrightarrow>
     (\<exists>bs. w' = w @ bs \<and> length bs = k \<and> (\<forall>r g. G (bs @ r, g) = Some (r, u g))))"

lemma codes_macros:
  "codes 1 (PCHAR c) (GCHAR u) (u c)"
  "codes 2 (PSHORT (h :: 16 word)) (GSHORT (\<lambda>v. u16 (ucast v))) (u16 h)"
  "unat n < 65536 \<Longrightarrow> codes 2 (PSHORT (n :: WORD)) (GSHORT u32) (u32 n)"
  "codes 4 (PLONG n) (GLONG u32) (u32 n)"
  "codes 8 (PVLONG n) (GVLONG u32) (u32 n)"
  "codes l (PSTRING x (int l)) (GSTRING us l) (us (take l x))"
  "codes 1 PPAD GPAD id"
  unfolding codes_def
  by (auto simp: put_defs get_defs short_bytes count_bytes long_bytes split: if_splits list.splits)

inductive coded :: "nat \<Rightarrow> (wptr \<Rightarrow> wptr option) list \<Rightarrow> ('f rptr \<Rightarrow> 'f rptr option) list \<Rightarrow> ('f \<Rightarrow> 'f) \<Rightarrow> bool" where
  coded_Nil: "coded 0 [] [] id"
| coded_Cons: "codes k P G u \<Longrightarrow> coded l Ps Gs v \<Longrightarrow> coded (k + l) (P # Ps) (G # Gs) (v \<circ> u)"

lemma coded_steps:
  "coded k Ps Gs u \<Longrightarrow> steps Ps (w, q) = Some (w', q') \<Longrightarrow>
   \<exists>bs. w' = w @ bs \<and> length bs = k \<and> (\<forall>r g. steps Gs (bs @ r, g) = Some (r, u g))"
proof (induction arbitrary: w q rule: coded.induct)
  case coded_Nil
  then show ?case by simp
next
  case (coded_Cons k P G u l Ps Gs v)
  obtain w1 q1 where 1: "P (w, q) = Some (w1, q1)" "steps Ps (w1, q1) = Some (w', q')"
    using coded_Cons.prems by (auto split: option.splits)
  obtain b where b: "w1 = w @ b" "length b = k" "\<And>r g. G (b @ r, g) = Some (r, u g)"
    using coded_Cons.hyps(1) 1(1) unfolding codes_def by blast
  obtain c where c: "w' = w1 @ c" "length c = l" "\<And>r g. steps Gs (c @ r, g) = Some (r, v g)"
    using coded_Cons.IH [OF 1(2)] by blast
  show ?case by (rule exI [of _ "b @ c"]) (simp add: b c)
qed

lemmas coded_intros = coded_Nil coded_Cons codes_macros

definition Dir_arrays :: "Dir \<Rightarrow> bool" where
  "Dir_arrays f \<longleftrightarrow> length (d_name f) = NAMELEN \<and> length (d_uid f) = NAMELEN \<and> length (d_gid f) = NAMELEN"

definition Fcall_arrays :: "Fcall \<Rightarrow> bool" where
  "Fcall_arrays f \<longleftrightarrow> length (f_uname f) = NAMELEN \<and> length (f_aname f) = NAMELEN \<and> length (f_ename f) = ERRLEN \<and>
     length (f_name f) = NAMELEN \<and> length (f_stat f) = DIRLEN"

text \<open>A case of \<^verbatim>\<open>convS2M\<close> and that of \<^verbatim>\<open>convM2S\<close>.\<close>

lemma coded_case:
  assumes "coded k Ps Gs u" "map_option (\<lambda>(w, q). (int (length w), w @ q)) (steps Ps (w0, q0)) = Some (k', m)"
  shows "\<exists>bs r. m = w0 @ bs @ r \<and> length bs = k \<and> k' = int (length w0 + k) \<and> (\<forall>r g. steps Gs (bs @ r, g) = Some (r, u g))"
proof -
  obtain w q where w: "steps Ps (w0, q0) = Some (w, q)" "k' = int (length w)" "m = w @ q" using assms(2) by auto
  obtain bs where bs: "w = w0 @ bs" "length bs = k" "\<And>r g. steps Gs (bs @ r, g) = Some (r, u g)"
    using coded_steps [OF assms(1) w(1)] by blast
  show ?thesis by (rule exI [of _ bs], rule exI [of _ q]) (simp add: w bs)
qed

text \<open>A directory entry takes \<^verbatim>\<open>DIRLEN\<close> bytes, and reading them gives the entry back.\<close>

lemma convD2M_convM2D:
  assumes "Dir_arrays f" "convD2M f ap = Some (k, m)"
  shows "k = DIRLEN \<and> convM2D m g = Some (DIRLEN, f)"
proof -
  obtain w q where w: "steps
     [PSTRING (d_name f) (int NAMELEN), PSTRING (d_uid f) (int NAMELEN), PSTRING (d_gid f) (int NAMELEN),
      PLONG (path (d_qid f)), PLONG (vers (d_qid f)), PLONG (d_mode f), PLONG (d_atime f), PLONG (d_mtime f),
      PVLONG (d_length f), PSHORT (d_type f), PSHORT (d_dev f)] ([], ap) = Some (w, q)" "k = length w" "m = w @ q"
    using assms(2) unfolding convD2M_def by (auto simp del: steps.simps)
  have "\<exists>l u. coded l
     [PSTRING (d_name f) (int NAMELEN), PSTRING (d_uid f) (int NAMELEN), PSTRING (d_gid f) (int NAMELEN),
      PLONG (path (d_qid f)), PLONG (vers (d_qid f)), PLONG (d_mode f), PLONG (d_atime f), PLONG (d_mtime f),
      PVLONG (d_length f), PSHORT (d_type f), PSHORT (d_dev f)]
     [GSTRING (\<lambda>v. d_name_update (\<lambda>_. v)) NAMELEN, GSTRING (\<lambda>v. d_uid_update (\<lambda>_. v)) NAMELEN,
      GSTRING (\<lambda>v. d_gid_update (\<lambda>_. v)) NAMELEN, GLONG (\<lambda>v. d_qid_update (path_update (\<lambda>_. v))),
      GLONG (\<lambda>v. d_qid_update (vers_update (\<lambda>_. v))), GLONG (\<lambda>v. d_mode_update (\<lambda>_. v)),
      GLONG (\<lambda>v. d_atime_update (\<lambda>_. v)), GLONG (\<lambda>v. d_mtime_update (\<lambda>_. v)),
      GVLONG (\<lambda>v. d_length_update (\<lambda>_. v)), GSHORT (\<lambda>v. d_type_update (\<lambda>_. ucast v)),
      GSHORT (\<lambda>v. d_dev_update (\<lambda>_. ucast v))] u \<and> l = DIRLEN \<and> (\<forall>g. u g = f)"
    using assms(1) by - ((rule exI conjI coded_intros)+, auto simp: styx_lens Dir_arrays_def)
  then show ?thesis unfolding convM2D_def using coded_steps [OF _ w(1)] w(2,3) by fastforce
qed


definition some_dir :: Dir where
  "some_dir = \<lparr>d_name = replicate NAMELEN 65, d_uid = replicate NAMELEN 66, d_gid = replicate NAMELEN 67,
     d_qid = \<lparr>path = 1, vers = 2\<rparr>, d_mode = 0x800001FF, d_atime = 3, d_mtime = 4, d_length = 5, d_type = 6, d_dev = 7\<rparr>"

lemma some_dir_sent: "convD2M some_dir (replicate 116 0) \<noteq> None"
  by code_simp

lemma convD2M_convM2D_witness:
  "\<exists>k m. convD2M some_dir (replicate 116 0) = Some (k, m) \<and> k = DIRLEN \<and>
     convM2D m (some_dir\<lparr>d_name := [], d_mode := 0\<rparr>) = Some (DIRLEN, some_dir)"
proof -
  obtain k m where m: "convD2M some_dir (replicate 116 0) = Some (k, m)" using some_dir_sent by auto
  have "Dir_arrays some_dir" by (simp add: Dir_arrays_def some_dir_def)
  from convD2M_convM2D [OF this m] show ?thesis using m by blast
qed

text \<open>The fields of a message, field by field as the comments of \<^verbatim>\<open>include/styx.h\<close> have them.\<close>

definition sent :: "STYXtype \<Rightarrow> Fcall \<Rightarrow> Fcall \<Rightarrow> Fcall" where
  "sent t f g = \<lparr>
     f_type = f_type f,
     f_fid = if t \<in> {Tnop, Rnop, Rerror, Tflush, Rflush} then f_fid g else f_fid f,
     f_tag = f_tag f,
     f_oldtag = if t = Tflush then f_oldtag f else f_oldtag g,
     f_qid = if t \<in> {Rattach, Rwalk, Ropen, Rcreate} then f_qid f else f_qid g,
     f_uname = if t = Tattach then f_uname f else f_uname g,
     f_aname = if t = Tattach then f_aname f else f_aname g,
     f_ename = if t = Rerror then f_ename f else f_ename g,
     f_perm = if t = Tcreate then f_perm f else f_perm g,
     f_newfid = if t = Tclone then f_newfid f else f_newfid g,
     f_name = if t \<in> {Twalk, Tcreate} then f_name f else f_name g,
     f_mode = if t \<in> {Tcreate, Topen} then f_mode f else f_mode g,
     f_offset = if t \<in> {Tread, Twrite} then f_offset f else f_offset g,
     f_count = if t \<in> {Tread, Twrite, Rread, Rwrite} then f_count f else f_count g,
     f_data = if t \<in> {Twrite, Rread} then take (nat (sint (f_count f))) (f_data f) else f_data g,
     f_stat = if t \<in> {Twstat, Rstat} then f_stat f else f_stat g\<rparr>"

definition mlen :: "STYXtype \<Rightarrow> int" where
  "mlen t = (case t of Tnop \<Rightarrow> 3 | Rnop \<Rightarrow> 3 | Rerror \<Rightarrow> 67 | Tflush \<Rightarrow> 5 | Rflush \<Rightarrow> 3 | Tclone \<Rightarrow> 7 | Rclone \<Rightarrow> 5
   | Twalk \<Rightarrow> 33 | Rwalk \<Rightarrow> 13 | Topen \<Rightarrow> 6 | Ropen \<Rightarrow> 13 | Tcreate \<Rightarrow> 38 | Rcreate \<Rightarrow> 13 | Tread \<Rightarrow> 15 | Rread \<Rightarrow> 8
   | Twrite \<Rightarrow> 16 | Rwrite \<Rightarrow> 7 | Rstat \<Rightarrow> 121 | Twstat \<Rightarrow> 121 | Tattach \<Rightarrow> 61 | Rattach \<Rightarrow> 13
   | Terror \<Rightarrow> 0 | Tsession \<Rightarrow> 0 | Rsession \<Rightarrow> 0 | _ \<Rightarrow> 5)"

lemma msglen_nth:
  assumes "t < Tmax"
  shows "msglen ! t = mlen (STYXtypes ! t)"
proof -
  have m: "msglen = map mlen STYXtypes" by (simp add: msglen_def STYXtypes_def mlen_def NAMELEN_def)
  have "t < length STYXtypes" using assms by (simp add: STYXtypes_def Tmax_def)
  then show ?thesis unfolding m by (rule nth_map)
qed

text \<open>The cases without data are coded in full, those with data up to the data.\<close>

lemma case_coded:
  assumes "Fcall_arrays f" "t \<notin> {Twrite, Rread}" "unat (f_count f) < 65536" "convS2M_case f t = Some Ps"
  shows "\<exists>Gs k u. convM2S_case t = Some (Gs, False) \<and> coded k Ps Gs u \<and> mlen t = 3 + int k \<and>
    (\<forall>g. f_type g = f_type f \<longrightarrow> f_tag g = f_tag f \<longrightarrow> u g = sent t f g)"
  using assms
  by (cases t; simp add: convS2M_case_def convM2S_case_def)
    (((drule sym)?, hypsubst, (rule exI conjI coded_intros | assumption)+, (simp add: mlen_def styx_lens)[1],
      (simp add: sent_def styx_lens Fcall_arrays_def)[1])+)

lemma case_data:
  assumes "t \<in> {Twrite, Rread}" "unat (f_count f) < 65536" "convS2M_case f t = Some Ps"
  shows "\<exists>Qs Gs k u. Ps = Qs @ [PPAD, PSTRING (f_data f) (sint (f_count f))] \<and> convM2S_case t = Some (Gs, True) \<and>
    coded k Qs Gs u \<and> mlen t = 4 + int k \<and> (\<forall>g. f_count (u g) = f_count f \<and> f_type (u g) = f_type g) \<and>
    (\<forall>g. f_type g = f_type f \<longrightarrow> f_tag g = f_tag f \<longrightarrow>
       (u g)\<lparr>f_data := take (nat (sint (f_count f))) (f_data f)\<rparr> = sent t f g)"
proof -
  note defs = convS2M_case_def convM2S_case_def
  show ?thesis
  proof (cases "t = Twrite")
    case True
    then have "Ps = [PSHORT (f_fid f), PVLONG (f_offset f), PSHORT (f_count f)] @
        [PPAD, PSTRING (f_data f) (sint (f_count f))]"
      "convM2S_case t = Some ([GSHORT fid_s, GVLONG offset_s, GSHORT count_s], True)"
      using assms(3) by (simp_all add: defs)
    then show ?thesis using assms(2) True
      by - ((rule exI conjI coded_intros | assumption)+, simp_all add: mlen_def sent_def)
  next
    case False
    then have "t = Rread" using assms(1) by simp
    moreover from this have "Ps = [PSHORT (f_fid f), PSHORT (f_count f)] @ [PPAD, PSTRING (f_data f) (sint (f_count f))]"
      "convM2S_case t = Some ([GSHORT fid_s, GSHORT count_s], True)"
      using assms(3) by (simp_all add: defs)
    ultimately show ?thesis using assms(2)
      by - ((rule exI conjI coded_intros | assumption)+, simp_all add: mlen_def sent_def)
  qed
qed

lemma header_coded:
  assumes "t < 256" "steps [PCHAR (of_nat t), PSHORT a] ([], ap) = Some (w, q)"
  shows "length w = 3 \<and> (\<forall>r (g :: Fcall). steps [GCHAR (\<lambda>v. f_type_update (\<lambda>_. unat v)), GSHORT tag_s] (w @ r, g) =
    Some (r, g\<lparr>f_type := t, f_tag := a\<rparr>))"
proof -
  have "\<exists>l u. coded l [PCHAR (of_nat t), PSHORT a] [GCHAR (\<lambda>v. f_type_update (\<lambda>_. unat v)), GSHORT tag_s] u \<and>
      l = 3 \<and> (\<forall>g :: Fcall. u g = g\<lparr>f_type := t, f_tag := a\<rparr>)"
    using assms(1) by - ((rule exI conjI coded_intros)+, simp_all add: unat_of_nat)
  then show ?thesis using coded_steps [OF _ assms(2)] by (metis append_Nil)
qed

text \<open>A message without data, and one with data, as \<^verbatim>\<open>convS2M\<close> leaves it in the buffer.\<close>

lemma convS2M_parts:
  assumes "convS2M f ap = Some (k, m)" "0 \<le> k"
  shows "\<exists>w q Ps. f_type f < Tmax \<and> steps [PCHAR (of_nat (f_type f)), PSHORT (f_tag f)] ([], ap) = Some (w, q) \<and>
    convS2M_case f (STYXtypes ! f_type f) = Some Ps \<and>
    map_option (\<lambda>(w, q). (int (length w), w @ q)) (steps Ps (w, q)) = Some (k, m)"
  using assms unfolding convS2M_def by (auto simp del: steps.simps split: option.splits if_splits)

lemma steps_append: "steps (xs @ ys) s = (case steps xs s of None \<Rightarrow> None | Some t \<Rightarrow> steps ys t)"
  by (induction xs arbitrary: s) (auto split: option.splits)

lemma msg_plain:
  assumes "Fcall_arrays f" "unat (f_count f) < 65536" "convS2M f ap = Some (k, m)" "0 \<le> k"
    and t: "STYXtypes ! f_type f = t" "t \<notin> {Twrite, Rread}"
  shows "\<exists>w bs r Gs. m = w @ bs @ r \<and> length w = 3 \<and> f_type f < Tmax \<and>
    (\<forall>r (g :: Fcall). steps [GCHAR (\<lambda>v. f_type_update (\<lambda>_. unat v)), GSHORT tag_s] (w @ r, g) =
       Some (r, g\<lparr>f_type := f_type f, f_tag := f_tag f\<rparr>)) \<and>
    convM2S_case t = Some (Gs, False) \<and> k = mlen t \<and> mlen t = 3 + int (length bs) \<and>
    (\<forall>r g. steps Gs (bs @ r, g\<lparr>f_type := f_type f, f_tag := f_tag f\<rparr>) =
       Some (r, sent t f (g\<lparr>f_type := f_type f, f_tag := f_tag f\<rparr>)))"
proof -
  obtain w q Ps where p: "f_type f < Tmax" "steps [PCHAR (of_nat (f_type f)), PSHORT (f_tag f)] ([], ap) = Some (w, q)"
    "convS2M_case f t = Some Ps" "map_option (\<lambda>(w, q). (int (length w), w @ q)) (steps Ps (w, q)) = Some (k, m)"
    using convS2M_parts [OF assms(3,4)] t by auto
  have "f_type f < 256" using p(1) by (simp add: Tmax_def)
  note h = header_coded [OF this p(2)]
  obtain Gs l u where c: "convM2S_case t = Some (Gs, False)" "coded l Ps Gs u" "mlen t = 3 + int l"
    "\<And>g. f_type g = f_type f \<Longrightarrow> f_tag g = f_tag f \<Longrightarrow> u g = sent t f g"
    using case_coded [OF assms(1) t(2) assms(2) p(3)] by blast
  obtain bs r where b: "m = w @ bs @ r" "length bs = l" "k = int (length w + l)" "\<And>r g. steps Gs (bs @ r, g) = Some (r, u g)"
    using coded_case [OF c(2) p(4)] by blast
  show ?thesis using h c p(1) b by - (rule exI [of _ w], rule exI [of _ bs], rule exI [of _ r], rule exI [of _ Gs], simp del: steps.simps)
qed

lemma msg_data:
  assumes "unat (f_count f) < 65536" "convS2M f ap = Some (k, m)" "0 \<le> k"
    and t: "STYXtypes ! f_type f = t" "t \<in> {Twrite, Rread}"
  shows "\<exists>w bs c d r Gs u. m = w @ bs @ c # d @ r \<and> length w = 3 \<and> f_type f < Tmax \<and>
    (\<forall>r (g :: Fcall). steps [GCHAR (\<lambda>v. f_type_update (\<lambda>_. unat v)), GSHORT tag_s] (w @ r, g) =
       Some (r, g\<lparr>f_type := f_type f, f_tag := f_tag f\<rparr>)) \<and>
    convM2S_case t = Some (Gs, True) \<and> k = mlen t + sint (f_count f) \<and> mlen t = 4 + int (length bs) \<and>
    int (length d) = sint (f_count f) \<and>
    (\<forall>r g. steps Gs (bs @ r, g) = Some (r, u g) \<and> f_count (u g) = f_count f \<and> f_type (u g) = f_type g) \<and>
    (\<forall>g. (u (g\<lparr>f_type := f_type f, f_tag := f_tag f\<rparr>))\<lparr>f_data := d\<rparr> = sent t f (g\<lparr>f_type := f_type f, f_tag := f_tag f\<rparr>))"
proof -
  obtain w q Ps where p: "f_type f < Tmax" "steps [PCHAR (of_nat (f_type f)), PSHORT (f_tag f)] ([], ap) = Some (w, q)"
    "convS2M_case f t = Some Ps" "map_option (\<lambda>(w, q). (int (length w), w @ q)) (steps Ps (w, q)) = Some (k, m)"
    using convS2M_parts [OF assms(2,3)] t by auto
  have "f_type f < 256" using p(1) by (simp add: Tmax_def)
  note h = header_coded [OF this p(2)]
  obtain Qs Gs l u where c: "Ps = Qs @ [PPAD, PSTRING (f_data f) (sint (f_count f))]" "convM2S_case t = Some (Gs, True)"
    "coded l Qs Gs u" "mlen t = 4 + int l" "\<And>g. f_count (u g) = f_count f \<and> f_type (u g) = f_type g"
    "\<And>g. f_type g = f_type f \<Longrightarrow> f_tag g = f_tag f \<Longrightarrow>
       (u g)\<lparr>f_data := take (nat (sint (f_count f))) (f_data f)\<rparr> = sent t f g"
    using case_data [OF t(2) assms(1) p(3)] by blast
  obtain w1 q1 where q1: "steps Qs (w, q) = Some (w1, q1)"
    using p(4) unfolding c(1) steps_append by (auto split: option.splits)
  obtain bs where b: "w1 = w @ bs" "length bs = l" "\<And>r g. steps Gs (bs @ r, g) = Some (r, u g)"
    using coded_steps [OF c(3) q1] by blast
  obtain e d q2 where d: "m = w1 @ e # d @ q2" "d = take (nat (sint (f_count f))) (f_data f)"
      "int (length d) = sint (f_count f)" "k = int (length (w1 @ e # d))"
    using p(4) unfolding c(1) steps_append q1
    by (auto simp: PPAD_def PSTRING_def put_def split: list.splits if_splits)
  show ?thesis using h c p(1) b d
    by - (rule exI [of _ w], rule exI [of _ bs], rule exI [of _ e], rule exI [of _ d], rule exI [of _ q2],
        rule exI [of _ Gs], rule exI [of _ u], simp del: steps.simps)
qed

lemma convM2S_header:
  assumes "3 \<le> n" "steps [GCHAR (\<lambda>v. f_type_update (\<lambda>_. unat v)), GSHORT tag_s] (ap, f) = Some (p, g)"
    "f_type g < Tmax" "n < mlen (STYXtypes ! f_type g)"
  shows "convM2S ap f n = Some (0, g)"
  using assms by (simp add: convM2S_def msglen_nth del: steps.simps)

lemma sent_header [simp]: "sent t f (g\<lparr>f_type := a, f_tag := b\<rparr>) = sent t f g"
  by (simp add: sent_def)

lemma take_data: "int (length d) = sint (f_count h) \<Longrightarrow> steps [GPAD, GDATA] (c # d @ r, h) = Some (r, h\<lparr>f_data := d\<rparr>)"
  using nat_int [of "length d"] by (simp add: GPAD_def GDATA_def)

text \<open>A write of two bytes.\<close>

definition some_call :: Fcall where
  "some_call = \<lparr>f_type = 16, f_fid = 7, f_tag = 0x1234, f_oldtag = 0, f_qid = \<lparr>path = 1, vers = 2\<rparr>,
     f_uname = replicate NAMELEN 0, f_aname = replicate NAMELEN 0, f_ename = replicate ERRLEN 0, f_perm = 0, f_newfid = 0,
     f_name = replicate NAMELEN 0, f_mode = 0, f_offset = 0x10000, f_count = 2, f_data = [104, 105], f_stat = replicate DIRLEN 0\<rparr>"

lemma some_call_sent:
  "convS2M some_call (replicate 20 0) = Some (18, [16, 0x34, 0x12, 7, 0, 0, 0, 1, 0, 0, 0, 0, 0, 2, 0, 0, 104, 105, 0, 0])"
  by code_simp

lemma some_call_arrays: "Fcall_arrays some_call" "unat (f_count some_call) < 65536"
  by (simp_all add: Fcall_arrays_def some_call_def)

text \<open>
  C9 What \<^verbatim>\<open>convS2M\<close> writes, \<^verbatim>\<open>convM2S\<close> reads back, from any structure \<open>g\<close>, with whatever follows the message in the
  buffer: it takes as many bytes as were written, and every field the type of the message carries has its value again while
  the others stay. The count has to fit the two bytes it is given.
\<close>

theorem convS2M_convM2S:
  assumes "Fcall_arrays f" "unat (f_count f) < 65536" "convS2M f ap = Some (k, m)" "0 \<le> k" "k \<le> n"
  shows "convM2S m g n = Some (k, sent (STYXtypes ! f_type f) f g)"
proof (cases "STYXtypes ! f_type f \<in> {Twrite, Rread}")
  case False
  show ?thesis using msg_plain [OF assms(1-4) refl False] assms(5)
    by (auto simp: convM2S_def msglen_nth simp del: steps.simps)
next
  case True
  show ?thesis using msg_data [OF assms(2-4) refl True] assms(5)
    by (auto simp: convM2S_def msglen_nth convM2S_data_def take_data simp del: steps.simps)
qed

lemma convS2M_convM2S_witness:
  "convM2S [16, 0x34, 0x12, 7, 0, 0, 0, 1, 0, 0, 0, 0, 0, 2, 0, 0, 104, 105, 0, 0] (some_call\<lparr>f_fid := 0, f_data := []\<rparr>) 20 =
     Some (18, sent (STYXtypes ! f_type some_call) some_call (some_call\<lparr>f_fid := 0, f_data := []\<rparr>))"
  by (rule convS2M_convM2S [OF some_call_arrays some_call_sent]) simp_all

text \<open>
  Messages delimit themselves: of every proper prefix of a message \<^verbatim>\<open>convM2S\<close> says that more bytes are needed (it
  returns 0), so a reader that waits for them never splits a message.
\<close>

theorem convM2S_prefix:
  assumes "Fcall_arrays f" "unat (f_count f) < 65536" "convS2M f ap = Some (k, m)" "n < k"
  shows "\<exists>g'. convM2S (take (nat n) m) g n = Some (0, g')"
proof (cases "n < 3")
  case True
  then show ?thesis by (simp add: convM2S_def)
next
  case n: False
  then have k: "0 \<le> k" using assms(4) by simp
  let ?t = "STYXtypes ! f_type f" and ?h = "g\<lparr>f_type := f_type f, f_tag := f_tag f\<rparr>"
  show ?thesis
  proof (cases "?t \<in> {Twrite, Rread}")
    case False
    obtain w b r Gs where m: "m = w @ b @ r" "length w = 3" "f_type f < Tmax" "k = mlen ?t"
      "\<And>r (g :: Fcall). steps [GCHAR (\<lambda>v. f_type_update (\<lambda>_. unat v)), GSHORT tag_s] (w @ r, g) =
         Some (r, g\<lparr>f_type := f_type f, f_tag := f_tag f\<rparr>)"
      using msg_plain [OF assms(1-3) k refl False] by blast
    have "take (nat n) m = w @ take (nat n - 3) (b @ r)" using n m(1,2) by simp
    then show ?thesis using convM2S_header [of n _ g _ ?h] m n assms(4) by simp
  next
    case True
    obtain w b c d r Gs u where m: "m = w @ b @ c # d @ r" "length w = 3" "f_type f < Tmax"
      "k = mlen ?t + sint (f_count f)" "mlen ?t = 4 + int (length b)" "convM2S_case ?t = Some (Gs, True)"
      "\<And>r (g :: Fcall). steps [GCHAR (\<lambda>v. f_type_update (\<lambda>_. unat v)), GSHORT tag_s] (w @ r, g) =
         Some (r, g\<lparr>f_type := f_type f, f_tag := f_tag f\<rparr>)"
      "\<And>r g. steps Gs (b @ r, g) = Some (r, u g)" "\<And>g. f_count (u g) = f_count f \<and> f_type (u g) = f_type g"
      using msg_data [OF assms(2,3) k refl True] by blast
    show ?thesis
    proof (cases "n < mlen ?t")
      case True
      have "take (nat n) m = w @ take (nat n - 3) (b @ c # d @ r)" using n m(1,2) by simp
      then show ?thesis using convM2S_header [of n _ g _ ?h] m n True by simp
    next
      case False
      then have "take (nat n) m = w @ b @ take (nat n - 3 - length b) (c # d @ r)" using n m(1,2,5) by simp
      then show ?thesis using m False n assms(4)
        by (simp add: convM2S_def msglen_nth convM2S_data_def del: steps.simps)
    qed
  qed
qed

lemma convM2S_prefix_witness:
  "\<exists>g'. convM2S (take (nat 17) [16, 0x34, 0x12, 7, 0, 0, 0, 1, 0, 0, 0, 0, 0, 2, 0, 0, 104, 105, 0, 0]) some_call 17 = Some (0, g')"
  by (rule convM2S_prefix [OF some_call_arrays some_call_sent]) simp

section \<open>Reading stays inside the message\<close>

definition reads :: "nat \<Rightarrow> ('f rptr \<Rightarrow> 'f rptr option) \<Rightarrow> bool" where
  "reads k G \<longleftrightarrow> (\<exists>r. \<forall>p f. k \<le> length p \<longrightarrow> G (p, f) = Some (drop k p, r (take k p) f))"

lemma list_two: "2 \<le> length p \<Longrightarrow> \<exists>a b q. p = a # b # q"
  by (cases p; cases "tl p") auto

lemma list_four: "4 \<le> length p \<Longrightarrow> \<exists>a b c d q. p = a # b # c # d # q"
  using list_two [of p] list_two [of "drop 2 p"] by fastforce

lemma reads_macros:
  "reads 1 (GCHAR uc)" "reads 2 (GSHORT ul)" "reads 4 (GLONG ul)" "reads 8 (GVLONG ul)" "reads n (GSTRING us n)"
proof -
  show "reads 1 (GCHAR uc)" unfolding reads_def
    by (rule exI [of _ "\<lambda>p. uc (p ! 0)"]) (auto simp: GCHAR_def split: list.split)
  show "reads 2 (GSHORT ul)" unfolding reads_def
    by (rule exI [of _ "\<lambda>p. ul (ucast (p ! 0) OR push_bit 8 (ucast (p ! 1)))"]) (auto simp: GSHORT_def dest!: list_two)
  let ?v = "\<lambda>p :: byte list. ucast (p ! 0) OR push_bit 8 (ucast (p ! 1)) OR push_bit 16 (ucast (p ! 2)) OR push_bit 24 (ucast (p ! 3))"
  show "reads 4 (GLONG ul)" unfolding reads_def
    by (rule exI [of _ "\<lambda>p. ul (?v p)"]) (auto simp: GLONG_def dest!: list_four)
  have e: "\<exists>a b c d e f g h q. p = a # b # c # d # e # f # g # h # q" if "8 \<le> length p" for p :: "byte list"
    using that list_four [of p] list_four [of "drop 4 p"] by fastforce
  show "reads 8 (GVLONG ul)" unfolding reads_def
    by (rule exI [of _ "\<lambda>p. ul (?v p)"]) (auto simp: GVLONG_def dest!: e)
  show "reads n (GSTRING us n)" unfolding reads_def
    by (rule exI [of _ us]) (auto simp: GSTRING_def)
qed

lemma reads_steps:
  "reads 0 (steps [])"
  "reads k G \<Longrightarrow> reads l (steps Gs) \<Longrightarrow> reads (k + l) (steps (G # Gs))"
proof -
  show "reads 0 (steps [])" by (auto simp: reads_def)
  assume "reads k G" "reads l (steps Gs)"
  then obtain r s where
    "\<And>p f. k \<le> length p \<Longrightarrow> G (p, f) = Some (drop k p, r (take k p) f)"
    "\<And>p f. l \<le> length p \<Longrightarrow> steps Gs (p, f) = Some (drop l p, s (take l p) f)"
    unfolding reads_def by blast
  then show "reads (k + l) (steps (G # Gs))" unfolding reads_def
    by (intro exI [of _ "\<lambda>p f. s (drop k p) (r (take k p) f)"]) (auto simp: add.commute drop_take)
qed

lemma case_reads:
  assumes "convM2S_case t = Some (Gs, d)"
  shows "\<exists>k. reads k (steps Gs) \<and> mlen t = (if d then 4 else 3) + int k"
  using assms
  by (cases t; simp add: convM2S_case_def)
    ((elim conjE, hypsubst, (rule exI conjI reads_steps reads_macros)+, (simp add: mlen_def styx_lens)[1])+)

lemma case_count:
  assumes "convM2S_case t = Some (Gs, True)" "steps Gs (p, f) = Some (q, g)"
  shows "0 \<le> sint (f_count g) \<and> f_type g = f_type f"
proof -
  have u: "0 \<le> sint (ucast a OR push_bit 8 (ucast b) :: WORD)" for a b :: byte
    by (auto simp: sint_uint bit_uint_iff bit_simps dest: bit_imp_le_length)
  show ?thesis using assms
    by (cases t) (auto simp: convM2S_case_def steps_eq_Some GSHORT_def GVLONG_def u simp del: steps.simps(2) split: list.splits)
qed

lemma case_safe:
  assumes c: "convM2S_case t = Some (Gs, d)" and n: "mlen t \<le> n" "n \<le> 3 + int (length p)"
  shows "\<exists>k g. steps Gs (p, f) = Some (drop k p, g) \<and> steps Gs (take (nat n - 3) p, f) = Some (take (nat n - 3 - k) (drop k p), g) \<and>
    mlen t = (if d then 4 else 3) + int k"
proof -
  obtain k r where k: "mlen t = (if d then 4 else 3) + int k" "\<And>p f. k \<le> length p \<Longrightarrow> steps Gs (p, f) = Some (drop k p, r (take k p) f)"
    using case_reads [OF c] unfolding reads_def by blast
  have "k \<le> nat n - 3" using n k(1) by (auto split: if_splits)
  moreover have "k \<le> length p" using n k(1) by (auto split: if_splits)
  ultimately show ?thesis using k(1)
    by (intro exI [of _ k] exI [of _ "r (take k p) f"]) (simp add: k(2) drop_take)
qed

text \<open>The call on a buffer of three bytes or more, and the data within it.\<close>

definition headed :: "byte \<Rightarrow> byte \<Rightarrow> byte \<Rightarrow> Fcall \<Rightarrow> Fcall" where
  "headed a b c f = f\<lparr>f_type := unat a, f_tag := ucast (ucast b OR push_bit 8 (ucast c) :: WORD)\<rparr>"

lemma convM2S_eval:
  assumes "3 \<le> n" "h = headed a b c f" "t = STYXtypes ! f_type h"
  shows "convM2S (a # b # c # q) f n =
     (if f_type h \<ge> Tmax then Some (-1, h) else if n < mlen t then Some (0, h) else
      case convM2S_case t of None \<Rightarrow> Some (-1, h)
      | Some (ms, d) \<Rightarrow> (case steps ms (q, h) of None \<Rightarrow> None | Some s \<Rightarrow>
          (case (if d then convM2S_data n (msglen ! f_type (snd s)) s else Some (Inl s)) of None \<Rightarrow> None
           | Some (Inr g) \<Rightarrow> Some (0, g) | Some (Inl (r, g)) \<Rightarrow> Some (3 + int (length q) - int (length r), g))))"
proof -
  have hd: "steps [GCHAR (\<lambda>v. f_type_update (\<lambda>_. unat v)), GSHORT tag_s] (a # b # c # q, f) = Some (q, h)"
    by (simp add: GCHAR_def GSHORT_def headed_def assms(2))
  show ?thesis using assms(1) unfolding assms(3)
    by (auto simp: convM2S_def Let_def hd msglen_nth simp del: steps.simps split: option.split sum.split bool.split prod.split)
qed

lemma data_cut:
  assumes "k + 1 + m \<le> length p" "k + 1 + m \<le> j"
  shows "\<exists>r. take (j - k) (drop k p) = hd (drop k p) # take m (tl (drop k p)) @ r \<and>
    length r + k + 1 + m = min j (length p)"
proof -
  let ?d = "drop k p"
  have d: "?d = hd ?d # tl ?d" using assms by simp
  obtain i where i: "j - k = Suc (m + i)" using assms(2) that [of "j - k - 1 - m"] by simp
  have "take (j - k) ?d = hd ?d # take (m + i) (tl ?d)" unfolding i by (subst d) simp
  then show ?thesis using assms i by (intro exI [of _ "take i (drop m (tl ?d))"]) (auto simp: take_add)
qed

text \<open>
  C24 Given any \<open>n\<close> bytes, well-formed or not, \<^verbatim>\<open>convM2S\<close> reads none past them (its result is the same when the buffer
  ends there) and never claims to have taken more than there are; the table \<^verbatim>\<open>msglen\<close> is enough for every case.
\<close>

theorem convM2S_bounds:
  assumes "n \<le> int (length ap)"
  shows "\<exists>k g. convM2S ap f n = Some (k, g) \<and> convM2S (take (nat n) ap) f n = Some (k, g) \<and> -1 \<le> k \<and> k \<le> max n 0"
proof (cases "n < 3")
  case True
  then show ?thesis by (simp add: convM2S_def)
next
  case n: False
  then obtain a b c p where ap: "ap = a # b # c # p"
    using assms list_two [of ap] by (cases "drop 2 ap") fastforce+
  have tk: "take (nat n) ap = a # b # c # take (nat n - 3) p" using n unfolding ap by (simp add: take_Cons' numeral_eq_Suc)
  have p: "n \<le> 3 + int (length p)" using assms unfolding ap by simp
  define h where "h = headed a b c f"
  define t where "t = STYXtypes ! f_type h"
  have "3 \<le> n" using n by simp
  note eval = convM2S_eval [OF this h_def t_def] msglen_nth convM2S_data_def
  show ?thesis
  proof (cases "f_type h < Tmax \<and> mlen t \<le> n \<and> convM2S_case t \<noteq> None")
    case False
    then show ?thesis unfolding tk unfolding ap using n by (cases "convM2S_case t") (auto simp: eval not_le not_less)
  next
    case T: True
    then obtain Gs d where c: "convM2S_case t = Some (Gs, d)" by auto
    obtain k g where k: "steps Gs (p, h) = Some (drop k p, g)"
        "steps Gs (take (nat n - 3) p, h) = Some (take (nat n - 3 - k) (drop k p), g)" "mlen t = (if d then 4 else 3) + int k"
      using case_safe [OF c _ p] T by blast
    show ?thesis
    proof (cases "d \<and> mlen t + sint (f_count g) \<le> n")
      case False
      then show ?thesis unfolding tk unfolding ap using T p k c case_count [of t Gs p h "drop k p" g]
        by (auto simp: eval t_def)
    next
      case D: True
      define m where "m = nat (sint (f_count g))"
      have g: "0 \<le> sint (f_count g)" "f_type g = f_type h" using case_count [of t Gs p h _ g] c k(1) D by simp_all
      have l: "k + 1 + m \<le> length p" "k + 1 + m \<le> nat n - 3" "mlen t = 4 + int k" using k(3) g(1) p n D by (auto simp: m_def)
      have y: "int (length (take m (tl (drop k p)))) = sint (f_count g)" using l g(1) by (simp add: m_def)
      obtain r1 where r1: "drop k p = hd (drop k p) # take m (tl (drop k p)) @ r1" "length r1 + k + 1 + m = length p"
        using data_cut [OF l(1) l(1)] by auto
      obtain r2 where r2: "take (nat n - 3 - k) (drop k p) = hd (drop k p) # take m (tl (drop k p)) @ r2" "length r2 + k + 1 + m = nat n - 3"
        using data_cut [OF l(1,2)] p by auto
      have dat: "convM2S_data n (mlen t) (hd (drop k p) # take m (tl (drop k p)) @ r, g) =
          Some (Inl (r, g\<lparr>f_data := take m (tl (drop k p))\<rparr>))" for r
        using D take_data [OF y] by (simp add: convM2S_data_def del: steps.simps)
      have "convM2S ap f n = Some (4 + int k + int m, g\<lparr>f_data := take m (tl (drop k p))\<rparr>)"
        using T D c g l(3) k(1) dat r1(2) unfolding ap by (subst (asm) r1(1)) (simp add: eval t_def)
      moreover have "convM2S (take (nat n) ap) f n = Some (4 + int k + int m, g\<lparr>f_data := take m (tl (drop k p))\<rparr>)"
        using T D c g l(3) k(2) dat r2(2) p unfolding tk by (subst (asm) r2(1)) (simp add: eval t_def)
      ultimately show ?thesis using l n by auto
    qed
  qed
qed

lemma convM2S_bounds_witness:
  "\<exists>k g. convM2S [16, 1, 0, 255] some_call 4 = Some (k, g) \<and> convM2S (take (nat 4) [16, 1, 0, 255]) some_call 4 = Some (k, g) \<and>
     -1 \<le> k \<and> k \<le> max 4 0"
  by (rule convM2S_bounds) simp

end
